(* ===== verification/Prelude.thy ===== *)
theory Prelude
  imports Main "HOL-Library.Word" "HOL-Library.Monad_Syntax"
begin

unbundle bit_operations_syntax

text \<open>
  Shared vocabulary of the development: the machine types of the i386 target (the kernel is
  built with \<^verbatim>\<open>-m32\<close>, ILP32), the error codes of src/error.h, the way a failed
  \<^verbatim>\<open>assert()\<close> is represented, and generic lemmas on naturals, words and lists
  that several components use.

  A failed assertion calls \<^verbatim>\<open>panic()\<close>, which halts the processor
  (include/assert.h, src/panic.c): the operation never returns.  Operations that contain an
  assertion therefore have an \<^typ>\<open>'a option\<close> result in which \<^term>\<open>None\<close> is
  the halted kernel; a theorem that the result is \<^term>\<open>Some\<close> shows that no assertion
  fails.
\<close>

type_synonym u8 = "8 word"
type_synonym u16 = "16 word"
type_synonym u32 = "32 word"
type_synonym u64 = "64 word"

text \<open>The error codes of src/error.h; a return value 0 is \<^term>\<open>None\<close>.\<close>

datatype error = ERROR_INVAL | ERROR_AGAIN | ERROR_NOMEM | ERROR_IO | ERROR_BUSY | ERROR_EXIST

text \<open>\<^verbatim>\<open>assert(e)\<close> of include/assert.h.\<close>

definition assert :: "bool \<Rightarrow> unit option" where
  "assert e = (if e then Some () else None)"

lemma assert_True [simp]: "assert True = Some ()"
  by (simp add: assert_def)

lemma assert_False [simp]: "assert False = None"
  by (simp add: assert_def)

lemma assert_eq_Some [simp]: "assert e = Some u \<longleftrightarrow> e"
  by (simp add: assert_def)

named_theorems word_nat \<open>reading word operations as operations on natural numbers\<close>

section \<open>Rounding naturals\<close>

lemma div_ceil_split:
  fixes q x :: nat
  assumes "0 < q"
  obtains r where "r < q" and "x + r = q * ((x + q - 1) div q)"
proof -
  let ?m = "(x + q - 1) mod q"
  have lt: "?m < q" using assms by simp
  have "x + q - 1 = q * ((x + q - 1) div q) + ?m" by simp
  then have "x + (q - 1 - ?m) = q * ((x + q - 1) div q)" using lt assms by linarith
  then show ?thesis using that [of "q - 1 - ?m"] assms by simp
qed

lemma diff_div_ceil:
  fixes q x k :: nat
  assumes "0 < q" and "x \<le> q * k"
  shows "(q * k - x) div q = k - (x + q - 1) div q" and "(x + q - 1) div q \<le> k"
proof -
  define d where "d = (x + q - 1) div q"
  obtain r where r: "r < q" "x + r = q * d"
    unfolding d_def by (rule div_ceil_split [OF assms(1)])
  have "q * d < q * (k + 1)" using r assms(2) by simp
  then have "d < k + 1" unfolding nat_mult_less_cancel_disj by (rule conjunct2)
  then have le: "d \<le> k" by simp
  then show "(x + q - 1) div q \<le> k" by (simp only: d_def)
  from le have "q * d \<le> q * k" by simp
  then have "q * k - x = q * (k - d) + r"
    using r by (simp add: diff_mult_distrib2)
  then have "(q * k - x) div q = k - d" using r assms(1) by simp
  then show "(q * k - x) div q = k - (x + q - 1) div q" by (simp only: d_def)
qed

section \<open>Words as naturals\<close>

lemma unat_minus [word_nat]:
  "unat (- (x::'a::len word)) = (if x = 0 then 0 else 2 ^ LENGTH('a) - unat x)"
  using unat_sub_if' [of 0 x] by (auto simp: unat_eq_0)

lemma unat_take_bit [word_nat]: "unat (take_bit n (x::'a::len word)) = unat x mod 2 ^ n"
  using unsigned_take_bit_eq [of n x, where 'a = nat] by (simp only: take_bit_eq_mod)

lemma unat_and_low [word_nat]: "unat ((x::'a::len word) AND (2 ^ n - 1)) = unat x mod 2 ^ n"
  by (metis mask_eq_exp_minus_1 take_bit_eq_mask unat_take_bit)

lemma and_neg_exp: "(x::'a::len word) AND - (2 ^ n) = x - (x AND (2 ^ n - 1))"
proof -
  have "- (2 ^ n) = NOT (mask n :: 'a word)"
    by (simp add: mask_eq_exp_minus_1 not_eq_complement)
  moreover have "(x AND mask n) + (x AND NOT (mask n)) = x"
    by (subst disjunctive_add) (auto simp: bit_eq_iff bit_simps)
  ultimately show ?thesis by (simp add: mask_eq_exp_minus_1 algebra_simps)
qed

lemma unat_and_high [word_nat]:
  "unat ((x::'a::len word) AND - (2 ^ n)) = unat x div 2 ^ n * 2 ^ n"
proof -
  have "unat (x AND (2 ^ n - 1)) \<le> unat x" by (simp add: unat_and_low)
  then have "unat (x AND - (2 ^ n)) = unat x - unat x mod 2 ^ n"
    by (simp add: and_neg_exp unat_sub_if' unat_and_low)
  then show ?thesis by (simp add: minus_mod_eq_div_mult)
qed

lemma unat_add_no_wrap:
  "unat (x::'a::len word) + unat y < 2 ^ LENGTH('a) \<Longrightarrow> unat (x + y) = unat x + unat y"
  by (simp add: unat_plus_if')

lemma unat_sub_no_wrap: "unat (y::'a::len word) \<le> unat x \<Longrightarrow> unat (x - y) = unat x - unat y"
  by (simp add: unat_sub_if')

lemma unat_le_exp: "unat (x::'a::len word) \<le> 2 ^ LENGTH('a)"
  by (rule less_imp_le) (rule unsigned_less)

lemma unat_u32_less: "unat (x::u32) < 4294967296"
  using unsigned_less [of x, where 'a = nat] by simp

lemma unat_of_nat_u32: "n < 2 ^ 32 \<Longrightarrow> unat (of_nat n :: u32) = n"
  by (simp add: unat_of_nat)

lemma unat_exp_u32: "k < 32 \<Longrightarrow> unat (2 ^ k :: u32) = 2 ^ k"
  using unat_of_nat_u32 [of "2 ^ k"] power_strict_increasing [of k 32 "2::nat"] by simp

end
