(* ===== verification/Macros.thy ===== *)
theory Macros
  imports Prelude
begin

text \<open>
  The arithmetic macros of lib/macros.h.  They are written for unsigned operands of any width
  (the expressions are width polymorphic in C too), and their meaning over the natural numbers
  is proved for power-of-two alignments, the only ones the kernel uses.
\<close>

definition DIV_CEIL :: "nat \<Rightarrow> nat \<Rightarrow> nat" where
  "DIV_CEIL n d = (n + d - 1) div d"

definition P2ALIGNED :: "'a::len word \<Rightarrow> 'a word \<Rightarrow> bool" where
  "P2ALIGNED x a \<longleftrightarrow> (x AND (a - 1)) = 0"

definition ISP2 :: "'a::len word \<Rightarrow> bool" where
  "ISP2 x \<longleftrightarrow> P2ALIGNED x x"

definition P2ALIGN :: "'a::len word \<Rightarrow> 'a word \<Rightarrow> 'a word" where
  "P2ALIGN x a = x AND - a"

definition P2ROUND :: "'a::len word \<Rightarrow> 'a word \<Rightarrow> 'a word" where
  "P2ROUND x a = - (- x AND - a)"

definition P2END :: "'a::len word \<Rightarrow> 'a word \<Rightarrow> 'a word" where
  "P2END x a = - (NOT x AND - a)"

lemma P2ALIGNED_iff [word_nat]: "P2ALIGNED (x::'a::len word) (2 ^ n) \<longleftrightarrow> 2 ^ n dvd unat x"
  using unat_and_low [of x n] unat_eq_0 [of "x AND (2 ^ n - 1)"]
  by (simp add: P2ALIGNED_def dvd_eq_mod_eq_0)

lemma unat_P2ALIGN [word_nat]:
  "unat (P2ALIGN (x::'a::len word) (2 ^ n)) = unat x div 2 ^ n * 2 ^ n"
  by (simp add: P2ALIGN_def unat_and_high)

lemma unat_neg_and_high:
  fixes x :: "'a::len word"
  assumes "n \<le> LENGTH('a)" and "x \<noteq> 0"
  shows "unat (- x AND - (2 ^ n)) =
    2 ^ LENGTH('a) - (unat x + 2 ^ n - 1) div 2 ^ n * 2 ^ n"
proof -
  define q k :: nat where "q = 2 ^ n" and "k = 2 ^ (LENGTH('a) - n)"
  have qk: "2 ^ LENGTH('a) = q * k" and q: "0 < q"
    using assms(1) by (simp_all add: q_def k_def flip: power_add)
  have "unat x \<le> q * k" using unat_le_exp [of x] by (simp add: qk [symmetric])
  note c = diff_div_ceil [OF q this]
  have "unat (- x AND - (2 ^ n)) = (q * k - unat x) div q * q"
    using assms(2) by (simp add: unat_and_high unat_minus qk flip: q_def)
  then have "unat (- x AND - (2 ^ n)) = q * k - (unat x + q - 1) div q * q"
    by (simp only: c diff_mult_distrib mult.commute [of k])
  then show ?thesis by (simp add: qk q_def)
qed

text \<open>
  \<^verbatim>\<open>P2ROUND\<close> rounds up to the next multiple, and wraps to 0 when that multiple is not
  representable.
\<close>

lemma unat_P2ROUND [word_nat]:
  fixes x :: "'a::len word"
  assumes "n \<le> LENGTH('a)"
  shows "unat (P2ROUND x (2 ^ n)) =
    (unat x + 2 ^ n - 1) div 2 ^ n * 2 ^ n mod 2 ^ LENGTH('a)"
proof (cases "x = 0")
  case True
  then show ?thesis by (simp add: P2ROUND_def)
next
  case False
  let ?N = "2 ^ LENGTH('a) :: nat" and ?v = "(unat x + 2 ^ n - 1) div 2 ^ n * 2 ^ n"
  have h: "unat (- x AND - (2 ^ n)) = ?N - ?v"
    by (rule unat_neg_and_high [OF assms False])
  have "0 < unat x" using False by (simp add: unat_gt_0)
  moreover obtain r where "unat x + r = 2 ^ n * ((unat x + 2 ^ n - 1) div 2 ^ n)"
    by (rule div_ceil_split [of "2 ^ n" "unat x"]) simp_all
  ultimately have "0 < 2 ^ n * ((unat x + 2 ^ n - 1) div 2 ^ n)" by linarith
  then have pos: "0 < ?v" by (simp only: mult.commute)
  have le: "?v \<le> ?N"
  proof -
    have "?N = 2 ^ n * 2 ^ (LENGTH('a) - n)" using assms by (simp flip: power_add)
    moreover have "unat x \<le> ?N" by (rule unat_le_exp)
    ultimately have "(unat x + 2 ^ n - 1) div 2 ^ n \<le> 2 ^ (LENGTH('a) - n)"
      using diff_div_ceil(2) [of "2 ^ n" "unat x" "2 ^ (LENGTH('a) - n)"] by simp
    then have "?v \<le> 2 ^ (LENGTH('a) - n) * 2 ^ n" by (rule mult_le_mono1)
    then show ?thesis using assms by (simp flip: power_add)
  qed
  show ?thesis
  proof (cases "?v = ?N")
    case True
    then show ?thesis using h by (simp add: P2ROUND_def unat_eq_0)
  next
    case False
    with le have "?v < ?N" by simp
    with h pos show ?thesis
      by (auto simp: P2ROUND_def unat_minus simp flip: unat_eq_0)
  qed
qed

end
