(* ===== verification/Linked.thy ===== *)
theory Linked
  imports Prelude "HOL-Library.Multiset"
begin

text \<open>
  The intrusive doubly-linked list of lib/list.h, over a memory of aligned 32-bit words.

  A \<^verbatim>\<open>struct list\<close> at address \<open>p\<close> is two words: \<^verbatim>\<open>prev\<close> at \<open>p\<close> and
  \<^verbatim>\<open>next\<close> at \<open>p + 4\<close>.  The same structure is used for heads and nodes, and a list
  is circular through its head.  Every function is the sequence of stores of its C body, in the
  order of the source.  The abstraction \<open>dll m h ns\<close> says that memory \<open>m\<close> holds, behind the
  head \<open>h\<close>, exactly the nodes \<open>ns\<close> in this order; the theorems of this theory are the
  effect of each operation on \<open>ns\<close>.  The locale \<open>node_queue\<close> states the contract on
  which the clients of the list rely, and is interpreted on these operations.
\<close>

type_synonym memory = "u32 \<Rightarrow> u32"

section \<open>Operations\<close>

definition list_prev :: "memory \<Rightarrow> u32 \<Rightarrow> u32" where
  "list_prev m node = m node"

definition list_next :: "memory \<Rightarrow> u32 \<Rightarrow> u32" where
  "list_next m node = m (node + 4)"

definition set_prev :: "memory \<Rightarrow> u32 \<Rightarrow> u32 \<Rightarrow> memory" where
  "set_prev m p v = m(p := v)"

definition set_next :: "memory \<Rightarrow> u32 \<Rightarrow> u32 \<Rightarrow> memory" where
  "set_next m p v = m(p + 4 := v)"

definition list_init :: "memory \<Rightarrow> u32 \<Rightarrow> memory" where
  "list_init m l = (let m = set_prev m l l in set_next m l l)"

definition list_node_init :: "memory \<Rightarrow> u32 \<Rightarrow> memory" where
  "list_node_init m node = (let m = set_prev m node 0 in set_next m node 0)"

definition list_node_unlinked :: "memory \<Rightarrow> u32 \<Rightarrow> bool" where
  "list_node_unlinked m node \<longleftrightarrow> list_prev m node = 0"

definition list_first :: "memory \<Rightarrow> u32 \<Rightarrow> u32" where
  "list_first m l = list_next m l"

definition list_last :: "memory \<Rightarrow> u32 \<Rightarrow> u32" where
  "list_last m l = list_prev m l"

definition list_end :: "u32 \<Rightarrow> u32 \<Rightarrow> bool" where
  "list_end l node \<longleftrightarrow> l = node"

definition list_empty :: "memory \<Rightarrow> u32 \<Rightarrow> bool" where
  "list_empty m l \<longleftrightarrow> l = list_next m l"

definition list_singular :: "memory \<Rightarrow> u32 \<Rightarrow> bool" where
  "list_singular m l \<longleftrightarrow> \<not> list_empty m l \<and> list_next m l = list_prev m l"

definition list_split :: "memory \<Rightarrow> u32 \<Rightarrow> u32 \<Rightarrow> u32 \<Rightarrow> memory" where
  "list_split m list1 list2 node =
     (if list_empty m list2 \<or> list_next m list2 = node \<or> list_end list2 node
      then list_init m list1
      else (let m = set_next m list1 (list_next m list2);
                m = set_prev m (list_next m list1) list1;
                m = set_prev m list1 (list_prev m node);
                m = set_next m (list_prev m node) list1;
                m = set_next m list2 node
            in set_prev m node list2))"

definition list_concat :: "memory \<Rightarrow> u32 \<Rightarrow> u32 \<Rightarrow> memory" where
  "list_concat m list1 list2 =
     (if list_empty m list2 then m
      else (let last1 = list_prev m list1;
                first2 = list_next m list2;
                last2 = list_prev m list2;
                m = set_next m last1 first2;
                m = set_prev m first2 last1;
                m = set_next m last2 list1
            in set_prev m list1 last2))"

definition list_set_head :: "memory \<Rightarrow> u32 \<Rightarrow> u32 \<Rightarrow> memory" where
  "list_set_head m new_head old_head =
     (if list_empty m old_head then list_init m new_head
      else (let m' = set_prev m new_head (list_prev m old_head);
                m' = set_next m' new_head (list_next m old_head);
                m' = set_prev m' (list_next m' new_head) new_head
            in set_next m' (list_prev m' new_head) new_head))"

definition list_add :: "memory \<Rightarrow> u32 \<Rightarrow> u32 \<Rightarrow> u32 \<Rightarrow> memory" where
  "list_add m prev next node =
     (let m = set_prev m next node;
          m = set_next m node next;
          m = set_next m prev node
      in set_prev m node prev)"

definition list_insert_head :: "memory \<Rightarrow> u32 \<Rightarrow> u32 \<Rightarrow> memory" where
  "list_insert_head m l node = list_add m l (list_next m l) node"

definition list_insert_tail :: "memory \<Rightarrow> u32 \<Rightarrow> u32 \<Rightarrow> memory" where
  "list_insert_tail m l node = list_add m (list_prev m l) l node"

definition list_insert_before :: "memory \<Rightarrow> u32 \<Rightarrow> u32 \<Rightarrow> memory" where
  "list_insert_before m next node = list_add m (list_prev m next) next node"

definition list_insert_after :: "memory \<Rightarrow> u32 \<Rightarrow> u32 \<Rightarrow> memory" where
  "list_insert_after m prev node = list_add m prev (list_next m prev) node"

definition list_remove :: "memory \<Rightarrow> u32 \<Rightarrow> memory" where
  "list_remove m node =
     (let m = set_next m (list_prev m node) (list_next m node)
      in set_prev m (list_next m node) (list_prev m node))"

text \<open>
  The loops \<^verbatim>\<open>list_for_each\<close> and \<^verbatim>\<open>list_for_each_reverse\<close>: the nodes they
  visit, in the order of the visits.  On an arbitrary memory such a loop need not end, hence the
  option.
\<close>

partial_function (option) list_walk :: "memory \<Rightarrow> u32 \<Rightarrow> u32 \<Rightarrow> u32 list option" where
  "list_walk m l node =
     (if list_end l node then Some []
      else Option.bind (list_walk m l (list_next m node)) (\<lambda>ns. Some (node # ns)))"

partial_function (option) list_walk_back :: "memory \<Rightarrow> u32 \<Rightarrow> u32 \<Rightarrow> u32 list option" where
  "list_walk_back m l node =
     (if list_end l node then Some []
      else Option.bind (list_walk_back m l (list_prev m node)) (\<lambda>ns. Some (node # ns)))"

definition list_for_each :: "memory \<Rightarrow> u32 \<Rightarrow> u32 list option" where
  "list_for_each m l = list_walk m l (list_first m l)"

definition list_for_each_reverse :: "memory \<Rightarrow> u32 \<Rightarrow> u32 list option" where
  "list_for_each_reverse m l = list_walk_back m l (list_last m l)"

text \<open>The lockless variants differ in the order of the stores only.\<close>

definition list_llsync_add :: "memory \<Rightarrow> u32 \<Rightarrow> u32 \<Rightarrow> u32 \<Rightarrow> memory" where
  "list_llsync_add m prev next node =
     (let m = set_next m node next;
          m = set_prev m node prev;
          m = set_next m prev node
      in set_prev m next node)"

definition list_llsync_insert_head :: "memory \<Rightarrow> u32 \<Rightarrow> u32 \<Rightarrow> memory" where
  "list_llsync_insert_head m l node = list_llsync_add m l (list_next m l) node"

definition list_llsync_insert_tail :: "memory \<Rightarrow> u32 \<Rightarrow> u32 \<Rightarrow> memory" where
  "list_llsync_insert_tail m l node = list_llsync_add m (list_prev m l) l node"

definition list_llsync_insert_before :: "memory \<Rightarrow> u32 \<Rightarrow> u32 \<Rightarrow> memory" where
  "list_llsync_insert_before m next node = list_llsync_add m (list_prev m next) next node"

definition list_llsync_insert_after :: "memory \<Rightarrow> u32 \<Rightarrow> u32 \<Rightarrow> memory" where
  "list_llsync_insert_after m prev node = list_llsync_add m prev (list_next m prev) node"

definition list_llsync_remove :: "memory \<Rightarrow> u32 \<Rightarrow> memory" where
  "list_llsync_remove m node =
     (let m = set_prev m (list_next m node) (list_prev m node)
      in set_next m (list_prev m node) (list_next m node))"

lemmas list_basic_defs = list_prev_def list_next_def set_prev_def set_next_def
  list_first_def list_last_def list_end_def list_empty_def list_singular_def list_init_def

section \<open>The abstraction\<close>

text \<open>
  \<open>separate\<close>: the nodes do not overlap, so that no \<^verbatim>\<open>next\<close> word of one is the
  \<^verbatim>\<open>prev\<close> word of another.  \<open>linked m p xs q\<close>: following \<^verbatim>\<open>next\<close> from
  \<open>p\<close> visits \<open>xs\<close> and then \<open>q\<close>, and each \<^verbatim>\<open>prev\<close> points back.
\<close>

definition separate :: "u32 list \<Rightarrow> bool" where
  "separate xs \<longleftrightarrow> distinct xs \<and> (\<forall>x \<in> set xs. x + 4 \<notin> set xs)"

fun linked :: "memory \<Rightarrow> u32 \<Rightarrow> u32 list \<Rightarrow> u32 \<Rightarrow> bool" where
  "linked m p [] q \<longleftrightarrow> list_next m p = q \<and> list_prev m q = p"
| "linked m p (x # xs) q \<longleftrightarrow> list_next m p = x \<and> list_prev m x = p \<and> linked m x xs q"

definition dll :: "memory \<Rightarrow> u32 \<Rightarrow> u32 list \<Rightarrow> bool" where
  "dll m h ns \<longleftrightarrow> separate (h # ns) \<and> linked m h ns h"

lemma linked_append:
  "linked m p (xs @ y # ys) q \<longleftrightarrow> linked m p xs y \<and> linked m y ys q"
  by (induction xs arbitrary: p) auto

lemma linked_cong:
  assumes "linked m p xs q"
    and "\<And>x. x \<in> set (p # xs) \<Longrightarrow> m' (x + 4) = m (x + 4)"
    and "\<And>x. x \<in> set (xs @ [q]) \<Longrightarrow> m' x = m x"
  shows "linked m' p xs q"
  using assms by (induction xs arbitrary: p) (auto simp: list_next_def list_prev_def)

text \<open>The two halves of a chain that is cut and relinked at one place.\<close>

lemma linked_relink_left:
  assumes "linked m p xs q"
    and "\<And>x. x \<in> set (butlast (p # xs)) \<Longrightarrow> m' (x + 4) = m (x + 4)"
    and "\<And>x. x \<in> set xs \<Longrightarrow> m' x = m x"
    and "m' (last (p # xs) + 4) = n" and "m' n = last (p # xs)"
  shows "linked m' p xs n"
  using assms
  by (induction xs arbitrary: p) (auto simp: list_next_def list_prev_def split: if_splits)

lemma linked_relink_right:
  assumes "linked m p ys q"
    and "\<And>x. x \<in> set ys \<Longrightarrow> m' (x + 4) = m (x + 4)"
    and "\<And>x. x \<in> set (tl (ys @ [q])) \<Longrightarrow> m' x = m x"
    and "m' (n + 4) = hd (ys @ [q])" and "m' (hd (ys @ [q])) = n"
  shows "linked m' n ys q"
proof (cases ys)
  case Nil
  with assms(4,5) show ?thesis by (simp add: list_next_def list_prev_def)
next
  case (Cons y zs)
  with assms(1) have "linked m y zs q" by simp
  then have "linked m' y zs q"
    by (rule linked_cong) (simp_all add: assms(2,3) Cons)
  with assms(4,5) Cons show ?thesis by (simp add: list_next_def list_prev_def)
qed

lemma linked_halves:
  assumes "linked m p (xs @ ys) q"
  shows "linked m p xs (hd (ys @ [q]))" and "linked m (last (p # xs)) ys q"
proof -
  show "linked m p xs (hd (ys @ [q]))" using assms
    by (cases ys) (simp_all add: linked_append)
  show "linked m (last (p # xs)) ys q" using assms
    by (induction xs arbitrary: p) auto
qed

lemma linked_next_last: "linked m p xs q \<Longrightarrow> list_next m (last (p # xs)) = q"
  by (induction xs arbitrary: p) auto

lemma linked_prev_end: "linked m p xs q \<Longrightarrow> list_prev m q = last (p # xs)"
  by (induction xs arbitrary: p) auto

lemma linked_next_first: "linked m p xs q \<Longrightarrow> list_next m p = hd (xs @ [q])"
  by (cases xs) auto

text \<open>The neighbours of a node in a chain.\<close>

lemma linked_neighbours:
  assumes "linked m p (xs @ n # ys) q"
  shows "list_prev m n = last (p # xs)" and "list_next m n = hd (ys @ [q])"
  using assms linked_prev_end [of m p xs n] linked_next_first [of m n ys q]
  by (simp_all add: linked_append)

lemma separate_perm: "mset xs = mset ys \<Longrightarrow> separate xs \<longleftrightarrow> separate ys"
  by (metis separate_def mset_eq_imp_distinct_iff mset_eq_setD)

lemma separateD:
  "separate xs \<Longrightarrow> x \<in> set xs \<Longrightarrow> y \<in> set xs \<Longrightarrow> x + 4 \<noteq> y"
  "separate xs \<Longrightarrow> x \<in> set xs \<Longrightarrow> y \<in> set xs \<Longrightarrow> x \<noteq> y + 4"
  by (auto simp: separate_def)

lemma separate_subset: "separate ys \<Longrightarrow> set xs \<subseteq> set ys \<Longrightarrow> distinct xs \<Longrightarrow> separate xs"
  unfolding separate_def by blast

lemma dll_Nil_iff: "dll m h [] \<longleftrightarrow> list_next m h = h \<and> list_prev m h = h"
  by (auto simp: dll_def separate_def)

lemma dll_cong:
  assumes "dll m h ns" and "\<And>x. x \<in> set (h # ns) \<Longrightarrow> m' x = m x \<and> m' (x + 4) = m (x + 4)"
  shows "dll m' h ns"
  using assms unfolding dll_def by (auto intro!: linked_cong [of m])

section \<open>Insertion and removal\<close>

lemma list_add_frame:
  "a \<notin> {next, node + 4, prev + 4, node} \<Longrightarrow> list_add m prev next node a = m a"
  by (simp add: list_add_def list_basic_defs)

lemma list_add_cells:
  assumes "separate zs" and "{p, q, n} \<subseteq> set zs" and "n \<noteq> p" and "n \<noteq> q"
  shows "list_add m p q n n = p" and "list_add m p q n (n + 4) = q"
    and "list_add m p q n (p + 4) = n" and "list_add m p q n q = n"
proof -
  have "p + 4 \<noteq> q" "p + 4 \<noteq> n" "n + 4 \<noteq> q" "n + 4 \<noteq> n" "q \<noteq> p + 4" "n \<noteq> p + 4"
    using assms(1,2) by (auto dest: separateD)
  with assms(3,4) show "list_add m p q n n = p" and "list_add m p q n (n + 4) = q"
    and "list_add m p q n (p + 4) = n" and "list_add m p q n q = n"
    by (simp_all add: list_add_def list_basic_defs)
qed

lemma list_add_other:
  assumes "separate zs" and "{p, q, n} \<subseteq> set zs" and "x \<in> set zs"
  shows "x \<noteq> q \<Longrightarrow> x \<noteq> n \<Longrightarrow> list_add m p q n x = m x"
    and "x \<noteq> p \<Longrightarrow> x \<noteq> n \<Longrightarrow> list_add m p q n (x + 4) = m (x + 4)"
proof -
  have *: "y + 4 \<noteq> z" if "y \<in> set zs" "z \<in> set zs" for y z
    using assms(1) that by (auto dest: separateD)
  show "x \<noteq> q \<Longrightarrow> x \<noteq> n \<Longrightarrow> list_add m p q n x = m x"
    using assms(2,3) * [of n x] * [of p x] by (intro list_add_frame) auto
  show "x \<noteq> p \<Longrightarrow> x \<noteq> n \<Longrightarrow> list_add m p q n (x + 4) = m (x + 4)"
    using assms(2,3) * [of x n] * [of x q] by (intro list_add_frame) auto
qed

lemma hd_snoc_in: "hd (ys @ [h]) \<in> set (h # ys)"
  by (cases ys) auto

lemma distinct_butlast_last: "distinct (p # xs) \<Longrightarrow> x \<in> set (butlast (p # xs)) \<Longrightarrow> x \<noteq> last (p # xs)"
  by (induction xs arbitrary: p) (auto split: if_splits)

lemma distinct_tl_hd: "distinct (ys @ [q]) \<Longrightarrow> x \<in> set (tl (ys @ [q])) \<Longrightarrow> x \<noteq> hd (ys @ [q])"
  by (cases ys) auto

lemma dll_list_add:
  assumes d: "dll m h (xs @ ys)" and s: "separate (n # h # xs @ ys)"
  shows "dll (list_add m (last (h # xs)) (hd (ys @ [h])) n) h (xs @ n # ys)"
proof -
  let ?p = "last (h # xs)" and ?q = "hd (ys @ [h])" and ?zs = "n # h # xs @ ys"
  let ?m = "list_add m ?p ?q n"
  from d have l: "linked m h (xs @ ys) h" and dist: "distinct (h # xs @ ys)"
    by (auto simp: dll_def separate_def)
  have q: "?q \<in> set (h # ys)" by (rule hd_snoc_in)
  have p: "?p \<in> set (h # xs)" by (rule last_in_set) simp
  have sub: "{?p, ?q, n} \<subseteq> set ?zs" using p q by auto
  have nn: "n \<noteq> ?p" "n \<noteq> ?q" using s q by (auto simp: separate_def split: if_splits)
  note cells = list_add_cells [OF s sub nn, of m]
  note other = list_add_other [OF s sub, where m = m]
  have n_out: "x \<noteq> n" if "x \<in> set (h # xs @ ys)" for x using s that by (auto simp: separate_def)
  have "linked ?m h xs n"
  proof (rule linked_relink_left [OF linked_halves(1) [OF l]])
    fix x assume x: "x \<in> set (butlast (h # xs))"
    then have "x \<in> set (h # xs)" by (rule in_set_butlastD)
    moreover have "x \<noteq> ?p" using dist x by (intro distinct_butlast_last) auto
    ultimately show "?m (x + 4) = m (x + 4)" using n_out [of x] by (intro other(2)) auto
  next
    fix x assume x: "x \<in> set xs"
    then have "x \<noteq> ?q" using dist by (cases ys) auto
    with x show "?m x = m x" using n_out [of x] by (intro other(1)) auto
  qed (rule cells)+
  moreover have "linked ?m n ys h"
  proof (rule linked_relink_right [OF linked_halves(2) [OF l]])
    fix x assume x: "x \<in> set ys"
    then have "x \<noteq> ?p" using dist p by auto
    with x show "?m (x + 4) = m (x + 4)" using n_out [of x] by (intro other(2)) auto
  next
    fix x assume x: "x \<in> set (tl (ys @ [h]))"
    then have "x \<in> set (ys @ [h])" by (cases ys) auto
    moreover have "x \<noteq> ?q" using dist x by (intro distinct_tl_hd) auto
    ultimately show "?m x = m x" using n_out [of x] by (intro other(1)) auto
  qed (rule cells)+
  moreover have "separate (h # xs @ n # ys)"
    using s separate_perm [of "h # xs @ n # ys" ?zs] by simp
  ultimately show ?thesis by (simp add: dll_def linked_append)
qed

lemma dll_insert_head:
  assumes "dll m h ns" and "separate (n # h # ns)"
  shows "dll (list_insert_head m h n) h (n # ns)"
proof -
  have "list_next m h = hd (ns @ [h])" using assms(1) by (simp add: dll_def linked_next_first)
  then show ?thesis using dll_list_add [of m h "[]" ns n] assms by (simp add: list_insert_head_def)
qed

lemma dll_insert_tail:
  assumes "dll m h ns" and "separate (n # h # ns)"
  shows "dll (list_insert_tail m h n) h (ns @ [n])"
proof -
  have "list_prev m h = last (h # ns)" using assms(1) unfolding dll_def by (blast intro: linked_prev_end)
  then show ?thesis using dll_list_add [of m h ns "[]" n] assms by (simp add: list_insert_tail_def)
qed

lemma dll_insert_before:
  assumes "dll m h (xs @ y # ys)" and "separate (n # h # xs @ y # ys)"
  shows "dll (list_insert_before m y n) h (xs @ n # y # ys)"
proof -
  have "list_prev m y = last (h # xs)"
    using assms(1) linked_neighbours(1) [of m h xs y ys h] by (simp add: dll_def)
  then show ?thesis using dll_list_add [of m h xs "y # ys" n] assms by (simp add: list_insert_before_def)
qed

lemma dll_insert_after:
  assumes "dll m h (xs @ y # ys)" and "separate (n # h # xs @ y # ys)"
  shows "dll (list_insert_after m y n) h (xs @ y # n # ys)"
proof -
  have "list_next m y = hd (ys @ [h])"
    using assms(1) linked_neighbours(2) [of m h xs y ys h] by (simp add: dll_def)
  then show ?thesis using dll_list_add [of m h "xs @ [y]" ys n] assms by (simp add: list_insert_after_def)
qed

lemma list_remove_eq:
  assumes "list_prev m n \<noteq> n" and "list_prev m n + 4 \<noteq> n"
  shows "list_remove m n = m(list_prev m n + 4 := list_next m n, list_next m n := list_prev m n)"
  using assms by (simp add: list_remove_def list_basic_defs)

lemma dll_remove_eq:
  assumes "dll m h (xs @ n # ys)"
  shows "list_remove m n = m(last (h # xs) + 4 := hd (ys @ [h]), hd (ys @ [h]) := last (h # xs))"
proof -
  have p: "list_prev m n = last (h # xs)" and q: "list_next m n = hd (ys @ [h])"
    using assms linked_neighbours [of m h xs n ys h] by (simp_all add: dll_def)
  have "last (h # xs) \<in> set (h # xs @ n # ys)" by auto
  then have "last (h # xs) + 4 \<noteq> n"
    using assms by (intro separateD(1) [of "h # xs @ n # ys"]) (auto simp: dll_def)
  moreover have "last (h # xs) \<noteq> n" using assms by (auto simp: dll_def separate_def)
  ultimately show ?thesis using list_remove_eq [of m n, unfolded p q] by blast
qed

lemma dll_remove:
  assumes d: "dll m h (xs @ n # ys)"
  shows "dll (list_remove m n) h (xs @ ys)"
proof -
  let ?p = "last (h # xs)" and ?q = "hd (ys @ [h])" and ?m = "list_remove m n"
  from d have l: "linked m h xs n" "linked m n ys h" and s: "separate (h # xs @ n # ys)"
    and dist: "distinct (h # xs @ ys)"
    by (auto simp: dll_def separate_def linked_append)
  note e = dll_remove_eq [OF d]
  have q: "?q \<in> set (h # ys)" by (rule hd_snoc_in)
  have *: "x + 4 \<noteq> y" if "x \<in> set (h # xs @ n # ys)" "y \<in> set (h # xs @ n # ys)" for x y
    using s that by (rule separateD(1))
  have p: "?p \<in> set (h # xs)" by (rule last_in_set) simp
  have pq: "?p + 4 \<noteq> ?q" by (rule *) (use p q in auto)
  have s': "separate (h # xs @ ys)" by (rule separate_subset [OF s]) (use dist in auto)
  have left: "linked ?m h xs ?q"
  proof (rule linked_relink_left [OF l(1)])
    fix x assume x: "x \<in> set (butlast (h # xs))"
    then have x': "x \<in> set (h # xs)" by (rule in_set_butlastD)
    moreover have "x \<noteq> ?p" using dist x by (intro distinct_butlast_last) auto
    moreover have "x + 4 \<noteq> ?q" by (rule *) (use x' q in auto)
    ultimately show "?m (x + 4) = m (x + 4)" by (simp add: e)
  next
    fix x assume x: "x \<in> set xs"
    then have "x \<noteq> ?q" using dist by (cases ys) auto
    moreover have "?p + 4 \<noteq> x" by (rule *) (use x in auto)
    ultimately show "?m x = m x" by (auto simp: e)
  qed (use pq in \<open>simp_all add: e\<close>)
  show ?thesis
  proof (cases ys)
    case Nil
    with left s' show ?thesis by (simp add: dll_def)
  next
    case (Cons y zs)
    have "linked ?m y zs h"
    proof (rule linked_cong)
      show "linked m y zs h" using l(2) Cons by simp
    next
      fix x assume x: "x \<in> set (y # zs)"
      then have "x \<noteq> ?p" using dist p Cons by auto
      moreover have "x + 4 \<noteq> ?q" by (rule *) (use x q Cons in auto)
      ultimately show "?m (x + 4) = m (x + 4)" by (simp add: e)
    next
      fix x assume x: "x \<in> set (zs @ [h])"
      then have "x \<noteq> ?q" using dist Cons by auto
      moreover have "?p + 4 \<noteq> x" by (rule *) (use x Cons in auto)
      ultimately show "?m x = m x" by (auto simp: e)
    qed
    with left Cons s' show ?thesis by (simp add: dll_def linked_append)
  qed
qed

text \<open>Both operations write words of the list only.\<close>

definition list_cells :: "u32 list \<Rightarrow> u32 set" where
  "list_cells xs = (\<Union>x \<in> set xs. {x, x + 4})"

lemma dll_remove_frame:
  assumes "dll m h (xs @ n # ys)" and "a \<notin> list_cells (h # xs @ ys)"
  shows "list_remove m n a = m a"
proof -
  have "last (h # xs) \<in> set (h # xs)" "hd (ys @ [h]) \<in> set (h # ys)"
    by (rule last_in_set, simp) (rule hd_snoc_in)
  then have "a \<noteq> last (h # xs) + 4" "a \<noteq> hd (ys @ [h])"
    using assms(2) by (auto simp: list_cells_def)
  then show ?thesis unfolding dll_remove_eq [OF assms(1)] by simp
qed

lemma dll_insert_head_frame:
  assumes "dll m h ns" and "a \<notin> list_cells (h # n # ns)"
  shows "list_insert_head m h n a = m a"
proof -
  have "list_next m h = hd (ns @ [h])" using assms(1) by (simp add: dll_def linked_next_first)
  moreover have "hd (ns @ [h]) \<in> set (h # ns)" by (rule hd_snoc_in)
  ultimately show ?thesis
    unfolding list_insert_head_def using assms(2)
    by (intro list_add_frame) (auto simp: list_cells_def)
qed

section \<open>Queries, loops and initialization\<close>

lemma dll_init: "dll (list_init m h) h []"
  by (simp add: dll_Nil_iff list_basic_defs)

lemma list_init_frame: "a \<notin> {h, h + 4} \<Longrightarrow> list_init m h a = m a"
  by (simp add: list_basic_defs)

lemma dll_first: "dll m h ns \<Longrightarrow> list_first m h = hd (ns @ [h])"
  by (simp add: dll_def list_first_def linked_next_first)

lemma dll_last: "dll m h ns \<Longrightarrow> list_last m h = last (h # ns)"
  unfolding dll_def list_last_def by (blast intro: linked_prev_end)

lemma dll_empty: "dll m h ns \<Longrightarrow> list_empty m h \<longleftrightarrow> ns = []"
  using dll_first [of m h ns]
  by (cases ns) (auto simp: list_empty_def list_first_def dll_def separate_def)

lemma dll_singular: "dll m h ns \<Longrightarrow> list_singular m h \<longleftrightarrow> length ns = 1"
proof -
  assume d: "dll m h ns"
  have "list_next m h = hd (ns @ [h])" and "list_prev m h = last (h # ns)"
    using dll_first [OF d] dll_last [OF d] by (simp_all add: list_first_def list_last_def)
  moreover have "distinct (h # ns)" using d by (simp add: dll_def separate_def)
  ultimately show ?thesis using dll_empty [OF d]
    by (cases ns) (auto simp: list_singular_def)
qed

lemma list_walk_linked:
  "linked m p xs h \<Longrightarrow> h \<notin> set (p # xs) \<Longrightarrow> list_walk m h p = Some (p # xs)"
proof (induction xs arbitrary: p)
  case Nil
  then show ?case by (simp add: list_walk.simps [of m h] list_end_def)
next
  case (Cons x xs)
  then show ?case by (simp add: list_walk.simps [of m h p] list_end_def)
qed

lemma list_walk_back_linked:
  "linked m h xs q \<Longrightarrow> h \<notin> set (xs @ [q]) \<Longrightarrow> list_walk_back m h q = Some (q # rev xs)"
proof (induction xs arbitrary: q rule: rev_induct)
  case Nil
  then show ?case by (simp add: list_walk_back.simps [of m h] list_end_def)
next
  case (snoc x xs)
  then have "linked m h xs x" and "list_prev m q = x" by (simp_all add: linked_append)
  with snoc show ?case by (simp add: list_walk_back.simps [of m h q] list_end_def)
qed

lemma dll_for_each: "dll m h ns \<Longrightarrow> list_for_each m h = Some ns"
proof (cases ns)
  case Nil
  moreover assume "dll m h ns"
  ultimately show ?thesis
    by (simp add: list_for_each_def dll_Nil_iff list_first_def list_walk.simps [of m h] list_end_def)
next
  case (Cons x xs)
  moreover assume "dll m h ns"
  ultimately show ?thesis
    by (auto simp: list_for_each_def dll_def separate_def list_first_def list_walk_linked)
qed

lemma dll_for_each_reverse: "dll m h ns \<Longrightarrow> list_for_each_reverse m h = Some (rev ns)"
proof (cases ns rule: rev_cases)
  case Nil
  moreover assume "dll m h ns"
  ultimately show ?thesis
    by (simp add: list_for_each_reverse_def dll_Nil_iff list_last_def
        list_walk_back.simps [of m h] list_end_def)
next
  case (snoc xs x)
  moreover assume "dll m h ns"
  ultimately show ?thesis
    by (auto simp: list_for_each_reverse_def dll_def separate_def list_last_def linked_append
        list_walk_back_linked)
qed

text \<open>The lockless insertion and removal end in the same memory as the plain ones.\<close>

lemma list_llsync_add_eq:
  assumes "separate zs" and "{p, q, n} \<subseteq> set zs" and "n \<noteq> p" and "n \<noteq> q"
  shows "list_llsync_add m p q n = list_add m p q n"
proof -
  have "p + 4 \<noteq> q" "p + 4 \<noteq> n" "n + 4 \<noteq> q" "n + 4 \<noteq> n"
    using assms(1,2) by (auto dest: separateD)
  with assms(3,4) show ?thesis
    by (auto simp: list_llsync_add_def list_add_def list_basic_defs fun_eq_iff)
qed

lemma dll_llsync_remove_eq:
  assumes d: "dll m h (xs @ n # ys)"
  shows "list_llsync_remove m n = list_remove m n"
proof -
  have p: "list_prev m n = last (h # xs)" and q: "list_next m n = hd (ys @ [h])"
    using d linked_neighbours [of m h xs n ys h] by (simp_all add: dll_def)
  have sub: "last (h # xs) \<in> set (h # xs)" "hd (ys @ [h]) \<in> set (h # ys)"
    by (rule last_in_set, simp) (rule hd_snoc_in)
  have s: "separate (h # xs @ n # ys)" using d by (simp add: dll_def)
  have "last (h # xs) + 4 \<noteq> hd (ys @ [h])" "n + 4 \<noteq> hd (ys @ [h])"
    by (rule separateD(1) [OF s]; use sub in auto)+
  moreover have "n \<noteq> hd (ys @ [h])" using s sub(2) by (auto simp: separate_def)
  ultimately show ?thesis
    using dll_remove_eq [OF d] p q
    by (simp add: list_llsync_remove_def list_basic_defs fun_upd_twist)
qed

section \<open>Whole-list operations\<close>

lemma list_concat_eq:
  assumes "\<not> list_empty m l2"
  shows "list_concat m l1 l2 = m(list_prev m l1 + 4 := list_next m l2,
    list_next m l2 := list_prev m l1, list_prev m l2 + 4 := l1, l1 := list_prev m l2)"
  using assms by (simp add: list_concat_def list_basic_defs Let_def)

lemma dll_concat:
  assumes d1: "dll m h1 xs" and d2: "dll m h2 ys" and s: "separate (h1 # h2 # xs @ ys)"
  shows "dll (list_concat m h1 h2) h1 (xs @ ys)"
proof (cases ys)
  case Nil
  with d1 d2 show ?thesis by (simp add: list_concat_def dll_empty)
next
  case (Cons y zs)
  define p r where "p = last (h1 # xs)" and "r = last (y # zs)"
  let ?m = "list_concat m h1 h2"
  have e: "?m = m(p + 4 := y, y := p, r + 4 := h1, h1 := r)"
    using dll_empty [OF d2] dll_last [OF d1] dll_last [OF d2] dll_first [OF d2] Cons
    by (simp add: list_concat_eq list_first_def list_last_def p_def r_def)
  have l1: "linked m h1 xs h1" and l2: "linked m y zs h2"
    using d1 d2 Cons by (simp_all add: dll_def)
  have dist: "distinct (h1 # h2 # xs @ y # zs)" using s Cons by (simp add: separate_def)
  have p: "p \<in> set (h1 # xs)" and r: "r \<in> set (y # zs)"
    unfolding p_def r_def by (rule last_in_set, simp)+
  have *: "u + 4 \<noteq> v" if "u \<in> set (h1 # xs @ y # zs)" "v \<in> set (h1 # xs @ y # zs)" for u v
    by (rule separateD(1) [OF s]) (use that Cons in auto)
  have pr: "p \<noteq> r" using p r dist by auto
  have ne: "p + 4 \<noteq> h1" "p + 4 \<noteq> y" "r + 4 \<noteq> h1" "r + 4 \<noteq> y" by (rule *; use p r in auto)+
  have cells: "?m (p + 4) = y" "?m y = p" "?m (r + 4) = h1" "?m h1 = r"
    using pr ne dist by (auto simp: e)
  have next_same: "?m (x + 4) = m (x + 4)" if "x \<in> set (h1 # xs @ y # zs)" "x \<noteq> p" "x \<noteq> r" for x
  proof -
    have "x + 4 \<noteq> h1" "x + 4 \<noteq> y" by (rule *; use that(1) in auto)+
    with that show ?thesis by (simp add: e)
  qed
  have prev_same: "?m x = m x" if "x \<in> set (xs @ zs)" for x
  proof -
    have "p + 4 \<noteq> x" "r + 4 \<noteq> x" by (rule *; use that p r in auto)+
    moreover have "x \<noteq> h1" "x \<noteq> y" using that dist by auto
    ultimately show ?thesis by (auto simp: e)
  qed
  have "linked ?m h1 xs y"
  proof (rule linked_relink_left [OF l1])
    fix x assume x: "x \<in> set (butlast (h1 # xs))"
    then have x': "x \<in> set (h1 # xs)" by (rule in_set_butlastD)
    have "x \<noteq> p" unfolding p_def using dist x by (intro distinct_butlast_last) auto
    moreover have "x \<noteq> r" using x' r dist by auto
    ultimately show "?m (x + 4) = m (x + 4)" using x' by (intro next_same) auto
  qed (simp add: prev_same, rule cells(1) [unfolded p_def], rule cells(2) [unfolded p_def])
  moreover have "linked ?m y zs h1"
  proof (rule linked_relink_left [OF l2])
    fix x assume x: "x \<in> set (butlast (y # zs))"
    then have x': "x \<in> set (y # zs)" by (rule in_set_butlastD)
    have "x \<noteq> r" unfolding r_def using dist x by (intro distinct_butlast_last) auto
    moreover have "x \<noteq> p" using x' p dist by auto
    ultimately show "?m (x + 4) = m (x + 4)" using x' by (intro next_same) auto
  qed (simp add: prev_same, rule cells(3) [unfolded r_def], rule cells(4) [unfolded r_def])
  moreover have "separate (h1 # xs @ ys)" by (rule separate_subset [OF s]) (use dist Cons in auto)
  ultimately show ?thesis using Cons by (simp add: dll_def linked_append)
qed

text \<open>
  \<^verbatim>\<open>list_set_head\<close> is documented as an optimized version of initializing the new head and
  concatenating the old list: it has the same effect on the abstraction.
\<close>

lemma dll_set_head:
  assumes d: "dll m old ns" and s: "separate (new # old # ns)"
  shows "dll (list_set_head m new old) new ns"
proof (cases ns)
  case Nil
  with d show ?thesis by (simp add: list_set_head_def dll_empty dll_init)
next
  case (Cons y zs)
  define r where "r = last (y # zs)"
  let ?m = "list_set_head m new old"
  have rd: "list_prev m old = r" "list_next m old = y"
    using dll_last [OF d] dll_first [OF d] Cons by (simp_all add: list_first_def list_last_def r_def)
  have dist: "distinct (new # old # y # zs)" using s Cons by (simp add: separate_def)
  have r: "r \<in> set (y # zs)" unfolding r_def by (rule last_in_set) simp
  have *: "u + 4 \<noteq> v" if "u \<in> set (new # old # ns)" "v \<in> set (new # old # ns)" for u v
    using s that by (rule separateD(1))
  have e: "?m = m(new := r, new + 4 := y, y := new, r + 4 := new)"
    using rd dll_empty [OF d] Cons * [of new new] * [of new y] dist
    by (auto simp: list_set_head_def list_basic_defs)
  have l: "linked m y zs old" using d Cons by (simp add: dll_def)
  have rn: "r \<noteq> new" using r dist by auto
  have "linked ?m y zs new"
  proof (rule linked_relink_left [OF l])
    fix x assume x: "x \<in> set (butlast (y # zs))"
    then have x': "x \<in> set (y # zs)" by (rule in_set_butlastD)
    have "x \<noteq> r" unfolding r_def using dist x by (intro distinct_butlast_last) auto
    moreover have "x \<noteq> new" using x' dist by auto
    ultimately show "?m (x + 4) = m (x + 4)" using x' * [of x new] * [of x y] Cons by (simp add: e)
  next
    fix x assume x: "x \<in> set zs"
    then show "?m x = m x" using dist r * [of new x] * [of r x] Cons by (auto simp: e)
  next
    show "?m (last (y # zs) + 4) = new" unfolding r_def [symmetric] by (simp add: e)
    show "?m new = last (y # zs)" unfolding r_def [symmetric]
      using rn r dist * [of new new] * [of r new] Cons by (auto simp: e)
  qed
  moreover have "?m (new + 4) = y" "?m y = new"
    using rn r dist * [of new new] * [of new y] * [of r y] Cons by (auto simp: e)
  moreover have "separate (new # ns)" by (rule separate_subset [OF s]) (use dist Cons in auto)
  ultimately show ?thesis using Cons by (simp add: dll_def list_next_def list_prev_def)
qed

lemma dll_split:
  assumes d: "dll m l2 (xs @ n # ys)" and s: "separate (l1 # l2 # xs @ n # ys)"
  shows "dll (list_split m l1 l2 n) l1 xs \<and> dll (list_split m l1 l2 n) l2 (n # ys)"
proof (cases xs)
  case Nil
  have "list_next m l2 = n" using dll_first [OF d] Nil by (simp add: list_first_def)
  then have e: "list_split m l1 l2 n = list_init m l1" by (simp add: list_split_def)
  have "dll (list_init m l1) l2 (n # ys)"
  proof (rule dll_cong)
    show "dll m l2 (n # ys)" using d Nil by simp
    fix x assume "x \<in> set (l2 # n # ys)"
    then show "list_init m l1 x = m x \<and> list_init m l1 (x + 4) = m (x + 4)"
      using s Nil by (auto intro!: list_init_frame simp: separate_def)
  qed
  then show ?thesis using Nil by (simp add: e dll_init)
next
  case (Cons x0 xs')
  define r where "r = last (x0 # xs')"
  let ?m = "list_split m l1 l2 n" and ?all = "l1 # l2 # x0 # xs' @ n # ys"
  have s': "separate ?all" using s Cons by simp
  have dist: "distinct ?all" using s' by (simp add: separate_def)
  have r: "r \<in> set (x0 # xs')" unfolding r_def by (rule last_in_set) simp
  have *: "u + 4 \<noteq> v" if "u \<in> set ?all" "v \<in> set ?all" for u v
    using s' that by (rule separateD(1))
  have rd: "list_next m l2 = x0" "list_prev m n = r" "\<not> list_empty m l2"
    using dll_first [OF d] linked_neighbours(1) [of m l2 xs n ys l2] dll_empty [OF d] d Cons
    by (simp_all add: list_first_def dll_def r_def)
  have ne: "l1 + 4 \<noteq> n" "l1 + 4 \<noteq> l1" "l2 + 4 \<noteq> l1" "l1 + 4 \<noteq> x0" "r + 4 \<noteq> n" "r + 4 \<noteq> l1"
    "r + 4 \<noteq> x0" "l2 + 4 \<noteq> n" "l2 + 4 \<noteq> x0"
    by (rule *; use r in auto)+
  have ne': "x0 \<noteq> n" "l1 \<noteq> n" "l1 \<noteq> x0" "l1 \<noteq> l2" "l2 \<noteq> n" "r \<noteq> l1" "r \<noteq> l2" using dist r by auto
  have e: "?m = m(l1 + 4 := x0, x0 := l1, l1 := r, r + 4 := l1, l2 + 4 := n, n := l2)"
    using rd ne ne' by (simp add: list_split_def list_basic_defs)
  have cells: "?m (l1 + 4) = x0" "?m x0 = l1" "?m l1 = r" "?m (r + 4) = l1" "?m (l2 + 4) = n" "?m n = l2"
    using ne ne' ne(1-9)[symmetric] by (simp_all add: e)
  have next_same: "?m (x + 4) = m (x + 4)" if "x \<in> set (x0 # xs' @ n # ys)" "x \<noteq> r" for x
  proof -
    have "x + 4 \<noteq> x0" "x + 4 \<noteq> l1" "x + 4 \<noteq> n" by (rule *; use that in auto)+
    moreover have "x \<noteq> l1" "x \<noteq> l2" using that dist by auto
    ultimately show ?thesis using that by (simp add: e)
  qed
  have prev_same: "?m x = m x" if "x \<in> set (l2 # xs' @ ys)" for x
  proof -
    have "l1 + 4 \<noteq> x" "r + 4 \<noteq> x" "l2 + 4 \<noteq> x" by (rule *; use that r in auto)+
    moreover have "x \<noteq> x0" "x \<noteq> l1" "x \<noteq> n" using that dist by auto
    ultimately show ?thesis by (auto simp: e)
  qed
  have l: "linked m x0 xs' n" "linked m n ys l2"
    using d Cons by (simp_all add: dll_def linked_append)
  have "linked ?m x0 xs' l1"
  proof (rule linked_relink_left [OF l(1)])
    fix x assume x: "x \<in> set (butlast (x0 # xs'))"
    then have "x \<in> set (x0 # xs')" by (rule in_set_butlastD)
    moreover have "x \<noteq> r" unfolding r_def using dist x by (intro distinct_butlast_last) auto
    ultimately show "?m (x + 4) = m (x + 4)" by (intro next_same) auto
  qed (simp add: prev_same, rule cells(4) [unfolded r_def], rule cells(3) [unfolded r_def])
  moreover have "linked ?m n ys l2"
  proof (rule linked_cong [OF l(2)])
    fix x assume "x \<in> set (n # ys)"
    moreover from this have "x \<noteq> r" using r dist by auto
    ultimately show "?m (x + 4) = m (x + 4)" by (intro next_same) auto
  qed (auto intro: prev_same)
  moreover have "separate (l1 # x0 # xs')" "separate (l2 # n # ys)"
    by (rule separate_subset [OF s'], use dist in auto)+
  ultimately show ?thesis using Cons cells by (simp add: dll_def list_next_def list_prev_def)
qed

section \<open>The contract of the list\<close>

text \<open>
  What a client of the list relies on: an abstraction to the sequence of nodes, which of the
  operations change it and how.  \<open>fresh h ns n\<close> says that \<open>n\<close> may be linked behind
  \<open>h\<close> next to \<open>ns\<close>.
\<close>

locale node_queue =
  fixes repr :: "'m \<Rightarrow> 'n \<Rightarrow> 'n list \<Rightarrow> bool"
    and fresh :: "'n \<Rightarrow> 'n list \<Rightarrow> 'n \<Rightarrow> bool"
    and insert_head :: "'m \<Rightarrow> 'n \<Rightarrow> 'n \<Rightarrow> 'm"
    and insert_tail :: "'m \<Rightarrow> 'n \<Rightarrow> 'n \<Rightarrow> 'm"
    and remove :: "'m \<Rightarrow> 'n \<Rightarrow> 'm"
    and first :: "'m \<Rightarrow> 'n \<Rightarrow> 'n"
    and is_empty :: "'m \<Rightarrow> 'n \<Rightarrow> bool"
  assumes insert_head: "repr m h ns \<Longrightarrow> fresh h ns n \<Longrightarrow> repr (insert_head m h n) h (n # ns)"
    and insert_tail: "repr m h ns \<Longrightarrow> fresh h ns n \<Longrightarrow> repr (insert_tail m h n) h (ns @ [n])"
    and remove: "repr m h (xs @ n # ys) \<Longrightarrow> repr (remove m n) h (xs @ ys)"
    and first: "repr m h (n # ns) \<Longrightarrow> first m h = n"
    and is_empty: "repr m h ns \<Longrightarrow> is_empty m h \<longleftrightarrow> ns = []"
begin

lemma pop_first: "repr m h (n # ns) \<Longrightarrow> repr (remove m (first m h)) h ns"
  using remove [of m h "[]" n ns] by (simp add: first)

lemma insert_tail_remove_id:
  "repr m h ns \<Longrightarrow> fresh h ns n \<Longrightarrow> repr (remove (insert_tail m h n) n) h ns"
  using insert_tail [of m h ns n] remove [of "insert_tail m h n" h ns n "[]"] by simp

text \<open>Nodes leave in the order in which they were inserted at the tail: the list is a queue.\<close>

lemma fifo_order:
  assumes "repr m h ns" and "\<And>xs n ys. ns' = xs @ n # ys \<Longrightarrow> fresh h (ns @ xs) n"
  shows "repr (foldl (\<lambda>m n. insert_tail m h n) m ns') h (ns @ ns')"
  using assms
proof (induction ns' arbitrary: m ns)
  case (Cons n ns')
  have "repr (insert_tail m h n) h (ns @ [n])"
    using Cons.prems(1) Cons.prems(2) [of "[]" n ns'] by (simp add: insert_tail)
  moreover have "fresh h ((ns @ [n]) @ xs) n'" if "ns' = xs @ n' # ys" for xs n' ys
    using Cons.prems(2) [of "n # xs" n' ys] that by simp
  ultimately show ?case using Cons.IH [of "insert_tail m h n" "ns @ [n]"] by simp
qed simp

end

interpretation lq: node_queue dll "\<lambda>h ns n. separate (n # h # ns)" list_insert_head list_insert_tail
  list_remove list_first list_empty
  by unfold_locales
    (simp_all add: dll_insert_head dll_insert_tail dll_remove dll_first dll_empty)

section \<open>Properties\<close>

lemma separate_prefix: "separate (h # xs @ n # ys) \<Longrightarrow> separate (n # h # xs)"
  by (rule separate_subset [of "h # xs @ n # ys"]) (auto simp: separate_def)

abbreviation list_of :: "memory \<Rightarrow> u32 \<Rightarrow> u32 list \<Rightarrow> memory" where
  "list_of m h ns \<equiv> foldl (\<lambda>m n. list_insert_tail m h n) (list_init m h) ns"

lemma dll_list_of: "separate (h # ns) \<Longrightarrow> dll (list_of m h ns) h ns"
  using lq.fifo_order [OF dll_init [of m h], of ns] by (auto intro: separate_prefix)

text \<open>
  C10: a list to which nodes are inserted at the tail one after the other holds exactly these
  nodes: both loops end, \<^verbatim>\<open>list_for_each\<close> visits them in the order of insertion and
  \<^verbatim>\<open>list_for_each_reverse\<close> in the opposite order.
\<close>

theorem list_fifo:
  assumes "separate (h # ns)"
  shows "list_for_each (list_of m h ns) h = Some ns \<and>
    list_for_each_reverse (list_of m h ns) h = Some (rev ns)"
  using dll_list_of [OF assms, of m] by (simp add: dll_for_each dll_for_each_reverse)

theorem list_fifo_witness:
  "list_for_each (list_of (\<lambda>_. 0) 256 [512, 64, 1024]) 256 = Some [512, 64, 1024]"
  by (rule list_fifo [THEN conjunct1]) (simp add: separate_def)

text \<open>
  Removing a node that is on the list, wherever it stands, leaves the other nodes in order,
  and inserting it again before or behind a neighbour puts it at that place.
\<close>

theorem list_remove_reinsert:
  assumes "dll m h (xs @ n # y # ys)"
  shows "list_for_each (list_remove m n) h = Some (xs @ y # ys) \<and>
    list_for_each (list_insert_before (list_remove m n) y n) h = Some (xs @ n # y # ys) \<and>
    list_for_each (list_insert_after (list_remove m n) y n) h = Some (xs @ y # n # ys)"
proof -
  have d: "dll (list_remove m n) h (xs @ y # ys)" by (rule dll_remove [OF assms])
  have "separate (h # xs @ n # y # ys)" using assms by (simp add: dll_def)
  then have s: "separate (n # h # xs @ y # ys)"
    using separate_perm [of "h # xs @ n # y # ys" "n # h # xs @ y # ys"] by simp
  show ?thesis
    using dll_for_each [OF d] dll_for_each [OF dll_insert_before [OF d s]]
      dll_for_each [OF dll_insert_after [OF d s]] by simp
qed

theorem list_remove_reinsert_witness:
  "list_for_each (list_remove (list_of (\<lambda>_. 0) 256 [512, 64, 1024]) 64) 256 = Some [512, 1024]"
proof -
  have "dll (list_of (\<lambda>_. 0) 256 [512, 64, 1024]) 256 ([512] @ 64 # 1024 # [])"
    using dll_list_of [of 256 "[512, 64, 1024]"] by (simp add: separate_def)
  from list_remove_reinsert [OF this] show ?thesis by simp
qed

text \<open>
  \<^verbatim>\<open>list_split\<close> moves exactly the nodes before the given one to the new head, and
  \<^verbatim>\<open>list_concat\<close> puts them back in front: the round trip restores the sequence.
\<close>

theorem list_split_concat:
  assumes "dll m l2 (xs @ n # ys)" and "separate (l1 # l2 # xs @ n # ys)"
  shows "list_for_each (list_split m l1 l2 n) l1 = Some xs \<and>
    list_for_each (list_split m l1 l2 n) l2 = Some (n # ys) \<and>
    list_for_each (list_concat (list_split m l1 l2 n) l1 l2) l1 = Some (xs @ n # ys)"
proof -
  have d: "dll (list_split m l1 l2 n) l1 xs" "dll (list_split m l1 l2 n) l2 (n # ys)"
    using dll_split [OF assms] by simp_all
  show ?thesis
    using dll_for_each [OF d(1)] dll_for_each [OF d(2)] dll_for_each [OF dll_concat [OF d assms(2)]]
    by simp
qed

theorem list_split_concat_witness:
  "list_for_each (list_split (list_of (\<lambda>_. 0) 256 [512, 64, 2048]) 1024 256 64) 1024 = Some [512]"
proof -
  have "dll (list_of (\<lambda>_. 0) 256 [512, 64, 2048]) 256 ([512] @ 64 # [2048])"
    using dll_list_of [of 256 "[512, 64, 2048]"] by (simp add: separate_def)
  from list_split_concat [OF this, of 1024] show ?thesis by (simp add: separate_def)
qed

end
