(* ===== verification/Mutex.thy ===== *)
theory Mutex
  imports Prelude
begin

text \<open>
  The mutex object of src/mutex.h and the two functions of src/mutex.c that change its owner.
  Threads are named by the address of their \<^verbatim>\<open>struct thread\<close>; a null pointer is
  \<^term>\<open>None\<close>.  \<open>waiters\<close> holds the threads of the waiter structures queued on the
  mutex, oldest first (theory Linked shows that the linked list behaves as this sequence).
\<close>

type_synonym tid = u32

record mutex =
  waiters :: "tid list"
  owner :: "tid option"
  locked :: bool

definition mutex_init :: "mutex \<Rightarrow> mutex" where
  "mutex_init mtx = mtx\<lparr>waiters := [], locked := False\<rparr>"

definition mutex_set_owner :: "mutex \<Rightarrow> tid \<Rightarrow> mutex option" where
  "mutex_set_owner mtx thread = do {
     assert (owner mtx = None);
     assert (\<not> locked mtx);
     Some (mtx\<lparr>owner := Some thread, locked := True\<rparr>)
   }"

definition mutex_clear_owner :: "mutex \<Rightarrow> tid \<Rightarrow> mutex option" where
  "mutex_clear_owner mtx self = do {
     assert (owner mtx = Some self);
     assert (locked mtx);
     Some (mtx\<lparr>owner := None, locked := False\<rparr>)
   }"

text \<open>The owner is recorded exactly while the mutex is locked.\<close>

definition mutex_inv :: "mutex \<Rightarrow> bool" where
  "mutex_inv mtx \<longleftrightarrow> (locked mtx \<longleftrightarrow> owner mtx \<noteq> None)"

lemma mutex_set_owner_free:
  "mutex_inv mtx \<Longrightarrow> \<not> locked mtx \<Longrightarrow>
   mutex_set_owner mtx t = Some (mtx\<lparr>owner := Some t, locked := True\<rparr>)"
  by (simp add: mutex_set_owner_def mutex_inv_def)

lemma mutex_set_clear:
  "mutex_inv mtx \<Longrightarrow> \<not> locked mtx \<Longrightarrow> mutex_set_owner mtx t = Some mtx' \<Longrightarrow>
   mutex_clear_owner mtx' t = Some mtx"
  by (cases mtx) (auto simp: mutex_set_owner_def mutex_clear_owner_def mutex_inv_def)

text \<open>A mutex that may be taken, and the two changes of the owner around a critical section.\<close>

definition mutex_free :: "mutex \<Rightarrow> bool" where
  "mutex_free mtx \<longleftrightarrow> mutex_inv mtx \<and> \<not> locked mtx"

lemma free_set_clear:
  assumes "mutex_free mtx"
  shows "mutex_set_owner mtx t = Some (mtx\<lparr>owner := Some t, locked := True\<rparr>)"
    and "mutex_clear_owner (mtx\<lparr>owner := Some t, locked := True\<rparr>) t = Some mtx"
  using assms mutex_set_clear [of mtx t] by (auto simp: mutex_free_def mutex_set_owner_free)

end
