(* ===== verification/Mem.thy ===== *)
theory Mem
  imports Macros Linked Mutex
begin

text \<open>
  The dynamic memory allocator of src/mem.c (Knuth's first fit with boundary tags), over the
  memory of 32-bit words of theory Linked: boundary tags, free list nodes and user payloads share
  this one memory, as they do in the program.

  The addresses of \<^verbatim>\<open>mem_heap\<close> and \<^verbatim>\<open>mem_free_list\<close> are chosen by the linker; they
  are the record \<open>layout\<close>.  \<^verbatim>\<open>mem_mutex\<close> is the field \<open>mem_mutex\<close> of the allocator's
  state; the calls of \<^verbatim>\<open>mutex_lock\<close> and \<^verbatim>\<open>mutex_unlock\<close> are represented by the
  change of owner with which they end and begin.  An operation that fails an assertion, or whose
  loop does not end, has the result \<^term>\<open>None\<close>.
\<close>

record layout =
  mem_heap :: u32
  mem_free_list :: u32

record mem_state =
  words :: memory
  mem_mutex :: mutex

definition MEM_HEAP_SIZE :: u32 where "MEM_HEAP_SIZE = 32 * 1024 * 1024"
definition MEM_ALIGN :: u32 where "MEM_ALIGN = 4"
definition SIZEOF_BTAG :: u32 where "SIZEOF_BTAG = 4"
definition SIZEOF_FREE_NODE :: u32 where "SIZEOF_FREE_NODE = 8"

definition MEM_BLOCK_MIN_SIZE :: u32 where
  "MEM_BLOCK_MIN_SIZE = P2ROUND (SIZEOF_BTAG * 2 + SIZEOF_FREE_NODE) MEM_ALIGN"

definition MEM_BTAG_ALLOCATED_MASK :: u32 where "MEM_BTAG_ALLOCATED_MASK = 1"
definition MEM_BTAG_SIZE_MASK :: u32 where "MEM_BTAG_SIZE_MASK = NOT MEM_BTAG_ALLOCATED_MASK"

definition mem_aligned :: "u32 \<Rightarrow> bool" where
  "mem_aligned value \<longleftrightarrow> P2ALIGNED value MEM_ALIGN"

definition mem_heap_end :: "layout \<Rightarrow> u32" where
  "mem_heap_end L = mem_heap L + MEM_HEAP_SIZE"

section \<open>Boundary tags and blocks\<close>

definition mem_btag_allocated :: "memory \<Rightarrow> u32 \<Rightarrow> bool" where
  "mem_btag_allocated m btag \<longleftrightarrow> m btag AND MEM_BTAG_ALLOCATED_MASK \<noteq> 0"

definition mem_btag_set_allocated :: "memory \<Rightarrow> u32 \<Rightarrow> memory" where
  "mem_btag_set_allocated m btag = m(btag := m btag OR MEM_BTAG_ALLOCATED_MASK)"

definition mem_btag_clear_allocated :: "memory \<Rightarrow> u32 \<Rightarrow> memory" where
  "mem_btag_clear_allocated m btag = m(btag := m btag AND NOT MEM_BTAG_ALLOCATED_MASK)"

definition mem_btag_size :: "memory \<Rightarrow> u32 \<Rightarrow> u32" where
  "mem_btag_size m btag = m btag AND MEM_BTAG_SIZE_MASK"

definition mem_btag_init :: "memory \<Rightarrow> u32 \<Rightarrow> u32 \<Rightarrow> memory" where
  "mem_btag_init m btag sz = mem_btag_set_allocated (m(btag := sz)) btag"

definition mem_block_size :: "memory \<Rightarrow> u32 \<Rightarrow> u32" where
  "mem_block_size m block = mem_btag_size m block"

definition mem_block_from_payload :: "u32 \<Rightarrow> u32" where
  "mem_block_from_payload payload = payload - SIZEOF_BTAG"

definition mem_block_end :: "memory \<Rightarrow> u32 \<Rightarrow> u32" where
  "mem_block_end m block = block + mem_block_size m block"

definition mem_block_header_btag :: "u32 \<Rightarrow> u32" where
  "mem_block_header_btag block = block"

definition mem_block_footer_btag :: "memory \<Rightarrow> u32 \<Rightarrow> u32" where
  "mem_block_footer_btag m block = mem_block_end m block - SIZEOF_BTAG"

definition mem_block_prev :: "layout \<Rightarrow> memory \<Rightarrow> u32 \<Rightarrow> u32" where
  "mem_block_prev L m block =
     (if block = mem_heap L then 0
      else block - mem_btag_size m (mem_block_header_btag block - SIZEOF_BTAG))"

definition mem_block_next :: "layout \<Rightarrow> memory \<Rightarrow> u32 \<Rightarrow> u32" where
  "mem_block_next L m block =
     (let block = mem_block_end m block in if block = mem_heap_end L then 0 else block)"

definition mem_block_allocated :: "memory \<Rightarrow> u32 \<Rightarrow> bool" where
  "mem_block_allocated m block \<longleftrightarrow> mem_btag_allocated m (mem_block_header_btag block)"

definition mem_block_set_allocated :: "memory \<Rightarrow> u32 \<Rightarrow> memory" where
  "mem_block_set_allocated m block =
     (let m = mem_btag_set_allocated m (mem_block_header_btag block)
      in mem_btag_set_allocated m (mem_block_footer_btag m block))"

definition mem_block_clear_allocated :: "memory \<Rightarrow> u32 \<Rightarrow> memory" where
  "mem_block_clear_allocated m block =
     (let m = mem_btag_clear_allocated m (mem_block_header_btag block)
      in mem_btag_clear_allocated m (mem_block_footer_btag m block))"

definition mem_block_init :: "memory \<Rightarrow> u32 \<Rightarrow> u32 \<Rightarrow> memory" where
  "mem_block_init m block sz =
     (let m = mem_btag_init m (mem_block_header_btag block) sz
      in mem_btag_init m (mem_block_footer_btag m block) sz)"

definition mem_block_payload :: "u32 \<Rightarrow> u32" where
  "mem_block_payload block = block + SIZEOF_BTAG"

definition mem_block_get_free_node :: "memory \<Rightarrow> u32 \<Rightarrow> u32 option" where
  "mem_block_get_free_node m block = do {
     assert (\<not> mem_block_allocated m block);
     Some (mem_block_payload block)
   }"

definition mem_block_inside_heap :: "layout \<Rightarrow> memory \<Rightarrow> u32 \<Rightarrow> bool" where
  "mem_block_inside_heap L m block \<longleftrightarrow>
     mem_heap L \<le> block \<and> mem_block_payload block < mem_heap_end L \<and>
     mem_block_end m block \<le> mem_heap_end L"

section \<open>The free list\<close>

definition mem_free_list_add :: "memory \<Rightarrow> u32 \<Rightarrow> u32 \<Rightarrow> memory option" where
  "mem_free_list_add m list block = do {
     assert (mem_block_allocated m block);
     let m = mem_block_clear_allocated m block;
     free_node \<leftarrow> mem_block_get_free_node m block;
     Some (list_insert_head m list free_node)
   }"

definition mem_free_list_remove :: "memory \<Rightarrow> u32 \<Rightarrow> memory option" where
  "mem_free_list_remove m block = do {
     assert (\<not> mem_block_allocated m block);
     free_node \<leftarrow> mem_block_get_free_node m block;
     let m = list_remove m free_node;
     Some (mem_block_set_allocated m block)
   }"

partial_function (option) mem_free_list_find_from ::
  "memory \<Rightarrow> u32 \<Rightarrow> u32 \<Rightarrow> u32 \<Rightarrow> u32 option" where
  "mem_free_list_find_from m list sz free_node =
     (if list_end list free_node then Some 0
      else (let block = mem_block_from_payload free_node in
            if sz \<le> mem_block_size m block then Some block
            else mem_free_list_find_from m list sz (list_next m free_node)))"

definition mem_free_list_find :: "memory \<Rightarrow> u32 \<Rightarrow> u32 \<Rightarrow> u32 option" where
  "mem_free_list_find m list sz = mem_free_list_find_from m list sz (list_first m list)"

definition mem_free_list_init :: "memory \<Rightarrow> u32 \<Rightarrow> memory" where
  "mem_free_list_init m list = list_init m list"

section \<open>Splitting and merging\<close>

definition mem_block_inside :: "memory \<Rightarrow> u32 \<Rightarrow> u32 \<Rightarrow> bool" where
  "mem_block_inside m block addr \<longleftrightarrow> block \<le> addr \<and> addr < mem_block_end m block"

definition mem_block_overlap :: "memory \<Rightarrow> u32 \<Rightarrow> u32 \<Rightarrow> bool" where
  "mem_block_overlap m block1 block2 \<longleftrightarrow>
     mem_block_inside m block1 block2 \<or> mem_block_inside m block2 block1"

text \<open>The result 0 is the null pointer: the block is too small to be split.\<close>

definition mem_block_split :: "memory \<Rightarrow> u32 \<Rightarrow> u32 \<Rightarrow> (u32 \<times> memory) option" where
  "mem_block_split m block sz = do {
     assert (mem_block_allocated m block);
     assert (mem_aligned sz);
     if mem_block_size m block < sz + MEM_BLOCK_MIN_SIZE then Some (0, m)
     else do {
       let total_size = mem_block_size m block;
       let m = mem_block_init m block sz;
       let block2 = mem_block_end m block;
       let m = mem_block_init m block2 (total_size - sz);
       Some (block2, m)
     }
   }"

definition mem_block_merge :: "layout \<Rightarrow> memory \<Rightarrow> u32 \<Rightarrow> u32 \<Rightarrow> (u32 \<times> memory) option" where
  "mem_block_merge L m block1 block2 = do {
     assert (\<not> mem_block_overlap m block1 block2);
     if mem_block_allocated m block1 \<or> mem_block_allocated m block2 then Some (0, m)
     else do {
       m \<leftarrow> mem_free_list_remove m block1;
       m \<leftarrow> mem_free_list_remove m block2;
       let sz = mem_block_size m block1 + mem_block_size m block2;
       let block1 = (if block2 < block1 then block2 else block1);
       let m = mem_block_init m block1 sz;
       m \<leftarrow> mem_free_list_add m (mem_free_list L) block1;
       Some (block1, m)
     }
   }"

section \<open>The public interface\<close>

definition mem_setup :: "layout \<Rightarrow> mem_state \<Rightarrow> mem_state option" where
  "mem_setup L s = do {
     let block = mem_heap L;
     let m = mem_block_init (words s) block MEM_HEAP_SIZE;
     let m = mem_free_list_init m (mem_free_list L);
     m \<leftarrow> mem_free_list_add m (mem_free_list L) block;
     Some (s\<lparr>words := m, mem_mutex := mutex_init (mem_mutex s)\<rparr>)
   }"

definition mem_convert_to_block_size :: "u32 \<Rightarrow> u32" where
  "mem_convert_to_block_size sz =
     (let sz = P2ROUND sz MEM_ALIGN;
          sz = sz + SIZEOF_BTAG * 2
      in if sz < MEM_BLOCK_MIN_SIZE then MEM_BLOCK_MIN_SIZE else sz)"

definition mem_alloc :: "layout \<Rightarrow> tid \<Rightarrow> mem_state \<Rightarrow> u32 \<Rightarrow> (u32 \<times> mem_state) option" where
  "mem_alloc L self s sz =
     (if sz = 0 then Some (0, s)
      else do {
        let sz = mem_convert_to_block_size sz;
        mtx \<leftarrow> mutex_set_owner (mem_mutex s) self;
        block \<leftarrow> mem_free_list_find (words s) (mem_free_list L) sz;
        if block = 0 then do {
          mtx \<leftarrow> mutex_clear_owner mtx self;
          Some (0, s\<lparr>mem_mutex := mtx\<rparr>)
        } else do {
          m \<leftarrow> mem_free_list_remove (words s) block;
          (block2, m) \<leftarrow> mem_block_split m block sz;
          m \<leftarrow> (if block2 \<noteq> 0 then mem_free_list_add m (mem_free_list L) block2 else Some m);
          mtx \<leftarrow> mutex_clear_owner mtx self;
          let ptr = mem_block_payload block;
          assert (mem_aligned ptr);
          Some (ptr, s\<lparr>words := m, mem_mutex := mtx\<rparr>)
        }
      })"

definition mem_free :: "layout \<Rightarrow> tid \<Rightarrow> mem_state \<Rightarrow> u32 \<Rightarrow> mem_state option" where
  "mem_free L self s ptr =
     (if ptr = 0 then Some s
      else do {
        assert (mem_aligned ptr);
        let block = mem_block_from_payload ptr;
        assert (mem_block_inside_heap L (words s) block);
        mtx \<leftarrow> mutex_set_owner (mem_mutex s) self;
        m \<leftarrow> mem_free_list_add (words s) (mem_free_list L) block;
        let tmp = mem_block_prev L m block;
        (block, m) \<leftarrow>
          (if tmp \<noteq> 0 then do {
             (tmp, m) \<leftarrow> mem_block_merge L m block tmp;
             Some (if tmp \<noteq> 0 then tmp else block, m)
           } else Some (block, m));
        let tmp = mem_block_next L m block;
        m \<leftarrow> (if tmp \<noteq> 0 then map_option snd (mem_block_merge L m block tmp) else Some m);
        mtx \<leftarrow> mutex_clear_owner mtx self;
        Some (s\<lparr>words := m, mem_mutex := mtx\<rparr>)
      })"

end
