(* ===== verification/Mem_Correct.thy ===== *)
theory Mem_Correct
  imports Mem
begin

text \<open>
  Correctness of the allocator.  The heap is abstracted to the sequence of its blocks in address
  order, \<open>(address, size, allocated)\<close>, and the sequence of the free blocks in free list order.
  \<open>heap_rep\<close> relates this abstraction to memory: the blocks tile the heap, every block
  carries its size and its allocation flag in both boundary tags, and the free list links the
  nodes in the payloads of exactly the free blocks.  Every operation of the allocator is shown to
  succeed (no assertion fails, every loop ends) and to act on the abstraction as intended;
  \<open>keeps\<close> is the frame: the payloads of the blocks that stay allocated are not written.
\<close>

type_synonym blk = "u32 \<times> u32 \<times> bool"

section \<open>Arithmetic of the constants\<close>

lemma MEM_consts [simp]:
  "MEM_ALIGN = 2 ^ 2" "SIZEOF_BTAG = 4" "SIZEOF_FREE_NODE = 8" "MEM_BLOCK_MIN_SIZE = 16"
  "MEM_HEAP_SIZE = 33554432"
  by (simp_all add: MEM_ALIGN_def SIZEOF_BTAG_def SIZEOF_FREE_NODE_def MEM_BLOCK_MIN_SIZE_def
      MEM_HEAP_SIZE_def P2ROUND_def)

lemma mem_aligned_iff: "mem_aligned x \<longleftrightarrow> 4 dvd unat x"
  using P2ALIGNED_iff [of x 2] by (simp add: mem_aligned_def)

definition tag :: "u32 \<Rightarrow> bool \<Rightarrow> u32" where
  "tag sz al = (if al then sz OR 1 else sz)"

lemma even_word_bit0: "2 dvd unat (x::u32) \<Longrightarrow> \<not> bit x 0"
  using bit_unsigned_iff [of x 0, where 'a = nat] by (simp add: bit_0)

lemma tag_size:
  assumes "4 dvd unat sz"
  shows "tag sz al AND MEM_BTAG_SIZE_MASK = sz"
proof (rule bit_word_eqI)
  fix n :: nat assume "n < LENGTH(32)"
  then have n: "n < 32" by simp
  have "\<not> bit sz 0" by (rule even_word_bit0) (use assms in presburger)
  with n show "bit (tag sz al AND MEM_BTAG_SIZE_MASK) n \<longleftrightarrow> bit sz n"
    by (cases "n = 0")
      (auto simp: tag_def MEM_BTAG_SIZE_MASK_def MEM_BTAG_ALLOCATED_MASK_def bit_simps)
qed

lemma tag_allocated:
  assumes "4 dvd unat sz"
  shows "tag sz al AND MEM_BTAG_ALLOCATED_MASK \<noteq> 0 \<longleftrightarrow> al"
proof -
  have "\<not> bit sz 0" by (rule even_word_bit0) (use assms in presburger)
  then have "bit (tag sz al) 0 \<longleftrightarrow> al" by (auto simp: tag_def bit_simps)
  then show ?thesis
    by (simp add: MEM_BTAG_ALLOCATED_MASK_def and_one_eq bit_0 odd_iff_mod_2_eq_one)
qed

lemma tag_or: "tag sz al OR MEM_BTAG_ALLOCATED_MASK = tag sz True"
  by (simp add: tag_def MEM_BTAG_ALLOCATED_MASK_def or.assoc)

lemma tag_clear: "4 dvd unat sz \<Longrightarrow> tag sz al AND NOT MEM_BTAG_ALLOCATED_MASK = tag sz False"
  using tag_size [of sz al] by (simp add: MEM_BTAG_SIZE_MASK_def tag_def)

section \<open>The abstraction\<close>

text \<open>\<open>tiles a bs e\<close>: the blocks \<open>bs\<close> fill the range from \<open>a\<close> to \<open>e\<close> without gap.\<close>

fun tiles :: "u32 \<Rightarrow> blk list \<Rightarrow> u32 \<Rightarrow> bool" where
  "tiles a [] e \<longleftrightarrow> a = e"
| "tiles a ((b, sz, al) # bs) e \<longleftrightarrow>
     b = a \<and> 16 \<le> unat sz \<and> 4 dvd unat sz \<and> unat a + unat sz \<le> unat e \<and> tiles (a + sz) bs e"

definition tags_ok :: "memory \<Rightarrow> blk list \<Rightarrow> bool" where
  "tags_ok m bs \<longleftrightarrow> 
     (\<forall>b sz al. (b, sz, al) \<in> set bs \<longrightarrow> m b = tag sz al \<and> m (b + sz - 4) = tag sz al)"

text \<open>
  What the linker guarantees: the heap is aligned, not null and does not wrap around the address
  space, and the free list head is a distinct object.
\<close>

definition layout_ok :: "layout \<Rightarrow> bool" where
  "layout_ok L \<longleftrightarrow>
     4 dvd unat (mem_heap L) \<and> mem_heap L \<noteq> 0 \<and>
     unat (mem_heap L) + unat MEM_HEAP_SIZE < 2 ^ 32 \<and>
     unat (mem_free_list L) + 8 < 2 ^ 32 \<and>
     (unat (mem_free_list L) + 8 \<le> unat (mem_heap L) \<or>
      unat (mem_heap L) + unat MEM_HEAP_SIZE \<le> unat (mem_free_list L))"

definition free_addrs :: "blk list \<Rightarrow> u32 list" where
  "free_addrs bs = map fst (filter (\<lambda>(b, sz, al). \<not> al) bs)"

definition heap_rep :: "layout \<Rightarrow> memory \<Rightarrow> blk list \<Rightarrow> u32 list \<Rightarrow> bool" where
  "heap_rep L m bs fr \<longleftrightarrow>
     layout_ok L \<and> tiles (mem_heap L) bs (mem_heap_end L) \<and> tags_ok m bs \<and>
     distinct fr \<and> set fr = set (free_addrs bs) \<and>
     dll m (mem_free_list L) (map mem_block_payload fr)"

lemma free_addrs_simps [simp]:
  "free_addrs [] = []"
  "free_addrs ((b, sz, al) # bs) = (if al then free_addrs bs else b # free_addrs bs)"
  "free_addrs (xs @ ys) = free_addrs xs @ free_addrs ys"
  by (simp_all add: free_addrs_def)

lemma in_free_addrs: "b \<in> set (free_addrs bs) \<longleftrightarrow> (\<exists>sz. (b, sz, False) \<in> set bs)"
  by (induction bs) (auto split: if_splits)

text \<open>No two neighbours are both free: liberation merges.\<close>

fun coalesced :: "blk list \<Rightarrow> bool" where
  "coalesced ((b, s, al) # (b', s', al') # bs) \<longleftrightarrow>
     (al \<or> al') \<and> coalesced ((b', s', al') # bs)"
| "coalesced _ \<longleftrightarrow> True"

text \<open>
  A word of the payload of an allocated block belongs to the user.  \<open>keeps m m' bs\<close>: none of
  the users' words differs.
\<close>

definition user_cell :: "blk list \<Rightarrow> u32 \<Rightarrow> bool" where
  "user_cell bs a \<longleftrightarrow>
     (\<exists>b sz. (b, sz, True) \<in> set bs \<and> unat b + 4 \<le> unat a \<and> unat a < unat b + unat sz - 4)"

definition keeps :: "memory \<Rightarrow> memory \<Rightarrow> blk list \<Rightarrow> bool" where
  "keeps m m' bs \<longleftrightarrow> (\<forall>a. user_cell bs a \<longrightarrow> m' a = m a)"

lemma keeps_refl [simp]: "keeps m m bs"
  by (simp add: keeps_def)

lemma keeps_trans: "keeps m m' bs \<Longrightarrow> keeps m' m'' bs \<Longrightarrow> keeps m m'' bs"
  by (simp add: keeps_def)

lemma user_cell_append [simp]: "user_cell (xs @ ys) a \<longleftrightarrow> user_cell xs a \<or> user_cell ys a"
  by (auto simp: user_cell_def)

lemma user_cell_Cons [simp]:
  "user_cell ((b, sz, al) # bs) a \<longleftrightarrow>
   al \<and> unat b + 4 \<le> unat a \<and> unat a < unat b + unat sz - 4 \<or> user_cell bs a"
  by (auto simp: user_cell_def)

lemma user_cell_Nil [simp]: "\<not> user_cell [] a"
  by (simp add: user_cell_def)

lemma tiles_le: "tiles a bs e \<Longrightarrow> unat a \<le> unat e"
  by (induction a bs e rule: tiles.induct) auto

lemma tiles_step:
  assumes "tiles a ((b, sz, al) # bs) e"
  shows "unat (a + sz) = unat a + unat sz"
  using assms unat_u32_less [of e] by (intro unat_add_no_wrap) auto

lemma tiles_append:
  "tiles a (xs @ ys) e \<longleftrightarrow> (\<exists>c. tiles a xs c \<and> tiles c ys e)"
proof (induction xs arbitrary: a)
  case (Cons x xs)
  obtain b sz al where x: "x = (b, sz, al)" by (cases x)
  show ?case
  proof
    assume "tiles a ((x # xs) @ ys) e"
    then obtain c where c: "tiles (a + sz) xs c" "tiles c ys e"
      and t: "tiles a ((b, sz, al) # xs @ ys) e"
      using Cons.IH x by auto
    have "unat a + unat sz \<le> unat c"
      using tiles_le [OF c(1)] tiles_step [OF t] by simp
    with c t show "\<exists>c. tiles a (x # xs) c \<and> tiles c ys e" by (auto simp: x)
  next
    assume "\<exists>c. tiles a (x # xs) c \<and> tiles c ys e"
    then obtain c where c: "tiles a (x # xs) c" "tiles c ys e" by blast
    then show "tiles a ((x # xs) @ ys) e"
      using Cons.IH [of "a + sz"] tiles_le [OF c(2)] by (auto simp: x)
  qed
qed simp

lemma tiles_member:
  assumes "tiles a bs e" and "(b, sz, al) \<in> set bs"
  shows "unat a \<le> unat b \<and> unat b + unat sz \<le> unat e \<and> 16 \<le> unat sz \<and> 4 dvd unat sz"
  using assms
proof (induction a bs e rule: tiles.induct)
  case (2 a b' sz' al' bs e)
  have s: "unat (a + sz') = unat a + unat sz'" by (rule tiles_step [OF 2(2)])
  from 2 show ?case by (cases "(b, sz, al) = (b', sz', al')") (auto simp: s)
qed simp

lemma tiles_aligned:
  assumes "tiles a bs e" and "4 dvd unat a"
  shows "4 dvd unat e" and "(b, sz, al) \<in> set bs \<Longrightarrow> 4 dvd unat b"
  using assms
proof (induction a bs e rule: tiles.induct)
  case (2 a b' sz' al' bs e)
  {
    case 1
    with 2 tiles_step [OF 1(1)] show ?case by simp
  next
    case 2
    with "2.IH"(2) tiles_step [OF 2(2)] show ?case by auto
  }
qed simp_all

lemma tiles_focus:
  assumes "tiles a (xs @ (b, sz, al) # ys) e"
  shows "tiles a xs b" and "tiles (b + sz) ys e" and "unat (b + sz) = unat b + unat sz"
    and "unat b + unat sz \<le> unat e" and "16 \<le> unat sz" and "4 dvd unat sz" and "unat a \<le> unat b"
proof -
  from assms obtain c where c: "tiles a xs c" "tiles c ((b, sz, al) # ys) e"
    by (auto simp: tiles_append)
  then show "tiles a xs b" "tiles (b + sz) ys e" "unat b + unat sz \<le> unat e" "16 \<le> unat sz"
    "4 dvd unat sz" "unat a \<le> unat b"
    using tiles_le [OF c(1)] by auto
  from c tiles_step [OF c(2)] show "unat (b + sz) = unat b + unat sz" by simp
qed

text \<open>Another block lies entirely before or entirely behind the block in focus.\<close>

lemma tiles_others:
  assumes "tiles a (xs @ (b, sz, al) # ys) e" and "(c, tz, cl) \<in> set (xs @ ys)"
  shows "unat c + unat tz \<le> unat b \<or> unat b + unat sz \<le> unat c"
  using assms tiles_member [OF tiles_focus(1) [OF assms(1)], of c tz cl]
    tiles_member [OF tiles_focus(2) [OF assms(1)], of c tz cl] tiles_focus(3) [OF assms(1)]
  by auto

lemma tiles_pair:
  assumes "tiles a bs e" and "(b, sz, al) \<in> set bs" and "(c, tz, cl) \<in> set bs"
  shows "(b, sz, al) = (c, tz, cl) \<or> unat c + unat tz \<le> unat b \<or> unat b + unat sz \<le> unat c"
proof -
  from assms(2) obtain xs ys where bs: "bs = xs @ (b, sz, al) # ys" by (metis split_list)
  show ?thesis
  proof (cases "(c, tz, cl) = (b, sz, al)")
    case False
    with assms(3) bs have "(c, tz, cl) \<in> set (xs @ ys)" by auto
    with assms(1) bs show ?thesis using tiles_others by blast
  qed simp
qed

lemma blk_addr:
  fixes b sz :: u32
  assumes "16 \<le> unat sz" and "unat b + unat sz < 2 ^ 32"
  shows "unat (b + 4) = unat b + 4" and "unat (b + 8) = unat b + 8"
    and "unat (b + sz - 4) = unat b + unat sz - 4" and "b + sz - 4 \<noteq> b" and "b + sz - 4 \<noteq> b + 4"
    and "b + sz - 4 \<noteq> b + 8"
proof -
  show 4: "unat (b + 4) = unat b + 4" using unat_add_no_wrap [of b 4] assms by simp
  show 8: "unat (b + 8) = unat b + 8" using unat_add_no_wrap [of b 8] assms by simp
  have "unat (b + sz) = unat b + unat sz" using unat_add_no_wrap [of b sz] assms by simp
  then show e: "unat (b + sz - 4) = unat b + unat sz - 4"
    using unat_sub_no_wrap [of 4 "b + sz"] assms by simp
  have "unat (b + sz - 4) \<noteq> unat b" "unat (b + sz - 4) \<noteq> unat (b + 4)"
    "unat (b + sz - 4) \<noteq> unat (b + 8)"
    using e 4 8 assms(1) by linarith+
  then show "b + sz - 4 \<noteq> b" "b + sz - 4 \<noteq> b + 4" "b + sz - 4 \<noteq> b + 8" by metis+
qed

text \<open>The words written by the list operations are payload words of free blocks.\<close>

definition node_cells :: "layout \<Rightarrow> u32 list \<Rightarrow> u32 set" where
  "node_cells L bs = list_cells (mem_free_list L # map mem_block_payload bs)"

lemma node_cells_iff:
  "a \<in> node_cells L bs \<longleftrightarrow>
   a = mem_free_list L \<or> a = mem_free_list L + 4 \<or> (\<exists>b \<in> set bs. a = b + 4 \<or> a = b + 8)"
  by (auto simp: node_cells_def list_cells_def mem_block_payload_def add.assoc)

lemma layout_ends:
  assumes "layout_ok L"
  shows "unat (mem_heap_end L) = unat (mem_heap L) + 33554432"
    and "unat (mem_free_list L + 4) = unat (mem_free_list L) + 4"
  using assms unat_add_no_wrap [of "mem_heap L" 33554432] unat_add_no_wrap [of "mem_free_list L" 4]
  by (simp_all add: layout_ok_def mem_heap_end_def)

lemma layout_free_list_outside:
  assumes "layout_ok L" and "a = mem_free_list L \<or> a = mem_free_list L + 4"
  shows "unat a < unat (mem_heap L) \<or> unat (mem_heap_end L) \<le> unat a"
  using assms layout_ends [OF assms(1)] by (auto simp: layout_ok_def)

text \<open>A block of the heap: where its words are.\<close>

lemma heap_blk:
  assumes "layout_ok L" and "tiles (mem_heap L) bs (mem_heap_end L)" and "(b, sz, al) \<in> set bs"
  shows "16 \<le> unat sz" and "4 dvd unat sz" and "unat b + unat sz < 2 ^ 32" and "4 dvd unat b"
    and "unat (mem_heap L) \<le> unat b" and "unat b + unat sz \<le> unat (mem_heap_end L)"
  using tiles_member [OF assms(2,3)] tiles_aligned(2) [OF assms(2) _ assms(3)] assms(1)
    unat_u32_less [of "mem_heap_end L"]
  by (auto simp: layout_ok_def)

lemma blk_eq_addr:
  assumes "tiles a bs e" and "(b, sz, al) \<in> set bs" and "(b, tz, cl) \<in> set bs"
  shows "sz = tz" and "al = cl"
  using tiles_pair [OF assms] tiles_member [OF assms(1,2)] tiles_member [OF assms(1,3)] by auto

text \<open>A word of one block is not a word of another, nor of the free list head.\<close>

lemma node_cell_not_tag:
  assumes L: "layout_ok L" and t: "tiles (mem_heap L) bs (mem_heap_end L)"
    and a: "a \<in> node_cells L ds" and ds: "\<forall>d \<in> set ds. \<exists>uz dl. (d, uz, dl) \<in> set bs"
    and b: "(b, sz, al) \<in> set bs"
  shows "a \<noteq> b" and "a \<noteq> b + sz - 4"
proof -
  note B = heap_blk [OF L t b] and A = blk_addr [OF heap_blk(1,3) [OF L t b]]
  have "unat a \<noteq> unat b \<and> unat a \<noteq> unat (b + sz - 4)"
  proof (cases "a = mem_free_list L \<or> a = mem_free_list L + 4")
    case True
    from layout_free_list_outside [OF L this] B A(3) show ?thesis by auto
  next
    case False
    then obtain d uz dl where d: "(d, uz, dl) \<in> set bs" "a = d + 4 \<or> a = d + 8"
      using a ds by (auto simp: node_cells_iff)
    note D = heap_blk [OF L t d(1)] and E = blk_addr [OF heap_blk(1,3) [OF L t d(1)]]
    from tiles_pair [OF t b d(1)] show ?thesis using d(2) B(1) D(1) A(3) E(1,2) by auto
  qed
  then show "a \<noteq> b" and "a \<noteq> b + sz - 4" by auto
qed

lemma node_cell_not_user:
  assumes L: "layout_ok L" and t: "tiles (mem_heap L) bs (mem_heap_end L)"
    and a: "a \<in> node_cells L ds" and ds: "\<forall>d \<in> set ds. \<exists>uz. (d, uz, False) \<in> set bs"
  shows "\<not> user_cell bs a"
proof
  assume "user_cell bs a"
  then obtain b sz where b: "(b, sz, True) \<in> set bs"
    and ab: "unat b + 4 \<le> unat a" "unat a < unat b + unat sz - 4"
    by (auto simp: user_cell_def)
  note B = heap_blk [OF L t b]
  show False
  proof (cases "a = mem_free_list L \<or> a = mem_free_list L + 4")
    case True
    from layout_free_list_outside [OF L this] B ab show ?thesis by auto
  next
    case False
    then obtain d uz where d: "(d, uz, False) \<in> set bs" "a = d + 4 \<or> a = d + 8"
      using a ds by (auto simp: node_cells_iff)
    note D = heap_blk [OF L t d(1)] and E = blk_addr [OF heap_blk(1,3) [OF L t d(1)]]
    from tiles_pair [OF t b d(1)] show ?thesis using d(2) B(1) D(1) E(1,2) ab by auto
  qed
qed

lemma focus_not_user:
  assumes "tiles e (xs @ (b, sz, al) # ys) f" and "unat b \<le> unat a" and "unat a < unat b + unat sz"
  shows "\<not> user_cell (xs @ ys) a"
proof
  assume "user_cell (xs @ ys) a"
  then obtain c tz where "(c, tz, True) \<in> set (xs @ ys)"
    and "unat c + 4 \<le> unat a" "unat a < unat c + unat tz - 4"
    unfolding user_cell_def by blast
  with tiles_others [OF assms(1)] assms(2,3) show False by fastforce
qed

section \<open>Boundary tags in memory\<close>

lemma btag_reads:
  assumes "m b = tag sz al" and "4 dvd unat sz"
  shows "mem_block_size m b = sz" and "mem_block_allocated m b = al" and "mem_block_end m b = b + sz"
  using assms
  by (simp_all add: mem_block_size_def mem_btag_size_def tag_size mem_block_allocated_def
      mem_block_header_btag_def mem_btag_allocated_def tag_allocated mem_block_end_def)

lemma mem_block_init_eq:
  assumes "4 dvd unat sz"
  shows "mem_block_init m b sz = m(b := tag sz True, b + sz - 4 := tag sz True)"
proof -
  have i: "mem_btag_init m a sz = m(a := tag sz True)" for m a
    by (simp add: mem_btag_init_def mem_btag_set_allocated_def tag_def MEM_BTAG_ALLOCATED_MASK_def)
  have "mem_block_end (m(b := tag sz True)) b = b + sz"
    by (rule btag_reads(3)) (simp_all add: assms)
  then show ?thesis
    by (simp add: mem_block_init_def i mem_block_header_btag_def mem_block_footer_btag_def)
qed

lemma mem_block_set_allocated_eq:
  assumes "m b = tag sz al" and "m (b + sz - 4) = tag sz al" and "4 dvd unat sz" and "b + sz - 4 \<noteq> b"
  shows "mem_block_set_allocated m b = m(b := tag sz True, b + sz - 4 := tag sz True)"
proof -
  have "mem_block_end (m(b := tag sz True)) b = b + sz"
    by (rule btag_reads(3)) (simp_all add: assms)
  with assms show ?thesis
    by (simp add: mem_block_set_allocated_def mem_btag_set_allocated_def mem_block_header_btag_def
        mem_block_footer_btag_def tag_or)
qed

lemma mem_block_clear_allocated_eq:
  assumes "m b = tag sz al" and "m (b + sz - 4) = tag sz al" and "4 dvd unat sz" and "b + sz - 4 \<noteq> b"
  shows "mem_block_clear_allocated m b = m(b := tag sz False, b + sz - 4 := tag sz False)"
proof -
  have "mem_block_end (m(b := tag sz False)) b = b + sz"
    by (rule btag_reads(3)) (simp_all add: assms)
  with assms show ?thesis
    by (simp add: mem_block_clear_allocated_def mem_btag_clear_allocated_def
        mem_block_header_btag_def mem_block_footer_btag_def tag_clear)
qed

lemma tags_ok_append [simp]: "tags_ok m (xs @ ys) \<longleftrightarrow> tags_ok m xs \<and> tags_ok m ys"
  by (auto simp: tags_ok_def)

lemma tags_ok_Cons [simp]:
  "tags_ok m ((b, sz, al) # bs) \<longleftrightarrow>
   m b = tag sz al \<and> m (b + sz - 4) = tag sz al \<and> tags_ok m bs"
  by (auto simp: tags_ok_def)

lemma tags_ok_Nil [simp]: "tags_ok m []"
  by (simp add: tags_ok_def)

text \<open>Writes inside the block in focus do not touch the tags of the others.\<close>

lemma tags_ok_focus:
  assumes L: "layout_ok L" and t: "tiles (mem_heap L) (xs @ (b, sz, al) # ys) (mem_heap_end L)"
    and ok: "tags_ok m (xs @ ys)"
    and fr: "\<And>a. unat a < unat b \<or> unat b + unat sz \<le> unat a \<Longrightarrow> m' a = m a"
  shows "tags_ok m' (xs @ ys)"
  unfolding tags_ok_def
proof clarify
  fix c tz cl assume c: "(c, tz, cl) \<in> set (xs @ ys)"
  have c': "(c, tz, cl) \<in> set (xs @ (b, sz, al) # ys)" using c by auto
  note C = heap_blk [OF L t c'] and A = blk_addr [OF heap_blk(1,3) [OF L t c']]
  from tiles_others [OF t c] have "m' c = m c" "m' (c + tz - 4) = m (c + tz - 4)"
    using C(1) A(3) by (auto intro!: fr)
  with ok c show "m' c = tag tz cl \<and> m' (c + tz - 4) = tag tz cl"
    by (auto simp: tags_ok_def)
qed

text \<open>Writes to list nodes touch no tag.\<close>

lemma tags_ok_nodes:
  assumes L: "layout_ok L" and t: "tiles (mem_heap L) bs (mem_heap_end L)" and ok: "tags_ok m bs"
    and ds: "\<forall>d \<in> set ds. \<exists>uz dl. (d, uz, dl) \<in> set bs"
    and fr: "\<And>a. a \<notin> node_cells L ds \<Longrightarrow> m' a = m a"
  shows "tags_ok m' bs"
  unfolding tags_ok_def
proof clarify
  fix c tz cl assume c: "(c, tz, cl) \<in> set bs"
  have "c \<notin> node_cells L ds" "c + tz - 4 \<notin> node_cells L ds"
    using node_cell_not_tag [OF L t _ ds c] by blast+
  with ok c fr show "m' c = tag tz cl \<and> m' (c + tz - 4) = tag tz cl"
    by (auto simp: tags_ok_def)
qed

section \<open>Effect of the internal operations on the abstraction\<close>

lemma focus_addr_unique:
  "tiles a (xs @ (b, sz, al) # ys) e \<Longrightarrow> (b, tz, cl) \<notin> set (xs @ ys)"
  using tiles_others [of a xs b sz al ys e b tz cl] tiles_focus(5) [of a xs b sz al ys e]
    tiles_member [of a "xs @ (b, sz, al) # ys" e b tz cl]
  by auto

lemma tiles_flag: "tiles a (xs @ (b, sz, al) # ys) e \<longleftrightarrow> tiles a (xs @ (b, sz, al') # ys) e"
  by (simp add: tiles_append)

lemma node_cells_subset: "set xs \<subseteq> set ys \<Longrightarrow> node_cells L xs \<subseteq> node_cells L ys"
  by (auto simp: node_cells_def list_cells_def)

lemma dll_node_cells:
  assumes "dll m (mem_free_list L) (map mem_block_payload ds)"
    and "\<And>a. a \<in> node_cells L ds \<Longrightarrow> m' a = m a"
  shows "dll m' (mem_free_list L) (map mem_block_payload ds)"
  by (rule dll_cong [OF assms(1)]) (auto intro!: assms(2) simp: node_cells_def list_cells_def)

lemma retag:
  assumes L: "layout_ok L" and t: "tiles (mem_heap L) (xs @ (b, sz, al) # ys) (mem_heap_end L)"
    and ok: "tags_ok m (xs @ ys)" and d: "dll m (mem_free_list L) (map mem_block_payload ds)"
    and ds: "\<forall>c \<in> set ds. \<exists>uz dl. (c, uz, dl) \<in> set (xs @ (b, sz, al) # ys)"
    and m': "m' = m(b := tag sz al', b + sz - 4 := tag sz al')"
  shows "tags_ok m' (xs @ (b, sz, al') # ys)" and "dll m' (mem_free_list L) (map mem_block_payload ds)"
    and "keeps m m' (xs @ ys)"
proof -
  have b: "(b, sz, al) \<in> set (xs @ (b, sz, al) # ys)" by simp
  note B = heap_blk [OF L t b] and A = blk_addr [OF heap_blk(1,3) [OF L t b]]
  have "tags_ok m' (xs @ ys)"
    by (rule tags_ok_focus [OF L t ok]) (use A(3) B(1) in \<open>auto simp: m'\<close>)
  then show "tags_ok m' (xs @ (b, sz, al') # ys)" using A(4) by (simp add: m')
  show "dll m' (mem_free_list L) (map mem_block_payload ds)"
    by (rule dll_node_cells [OF d]) (use node_cell_not_tag [OF L t _ ds b] in \<open>auto simp: m'\<close>)
  have "m' a = m a" if "user_cell (xs @ ys) a" for a
  proof -
    have "\<not> (unat b \<le> unat a \<and> unat a < unat b + unat sz)"
      using focus_not_user [OF t] that by blast
    then have "a \<noteq> b" "a \<noteq> b + sz - 4" using A(3) B(1) by auto
    then show ?thesis by (simp add: m')
  qed
  then show "keeps m m' (xs @ ys)" by (simp add: keeps_def)
qed

lemma heap_rep_free_block:
  assumes "heap_rep L m bs fr" and "b \<in> set fr"
  obtains sz xs ys where "bs = xs @ (b, sz, False) # ys"
proof -
  from assms obtain sz where "(b, sz, False) \<in> set bs" by (auto simp: heap_rep_def in_free_addrs)
  then show ?thesis using that by (metis split_list)
qed

lemma heap_rep_reads:
  assumes "heap_rep L m bs fr" and "(b, sz, al) \<in> set bs"
  shows "mem_block_size m b = sz" and "mem_block_allocated m b = al" and "mem_block_end m b = b + sz"
proof -
  have "m b = tag sz al" using assms by (auto simp: heap_rep_def tags_ok_def)
  moreover have "4 dvd unat sz" using assms heap_blk(2) by (auto simp: heap_rep_def)
  ultimately show "mem_block_size m b = sz" "mem_block_allocated m b = al" "mem_block_end m b = b + sz"
    by (rule btag_reads)+
qed

lemma heap_rep_remove:
  assumes rep: "heap_rep L m (xs @ (b, sz, False) # ys) fr"
  obtains m' where "mem_free_list_remove m b = Some m'"
    and "heap_rep L m' (xs @ (b, sz, True) # ys) (remove1 b fr)" and "keeps m m' (xs @ ys)"
proof -
  let ?bs = "xs @ (b, sz, False) # ys"
  have L: "layout_ok L" and t: "tiles (mem_heap L) ?bs (mem_heap_end L)" and ok: "tags_ok m ?bs"
    and dist: "distinct fr" and fr: "set fr = set (free_addrs ?bs)"
    and d: "dll m (mem_free_list L) (map mem_block_payload fr)"
    using rep by (simp_all add: heap_rep_def)
  have "b \<in> set fr" using fr by auto
  then obtain f1 f2 where f: "fr = f1 @ b # f2" by (metis split_list)
  let ?n = "mem_block_payload b" and ?ds = "f1 @ f2"
  let ?m1 = "list_remove m ?n"
  have d1: "dll ?m1 (mem_free_list L) (map mem_block_payload ?ds)"
    using d f lq.remove [of m "mem_free_list L" "map mem_block_payload f1" ?n] by simp
  have fr1: "?m1 a = m a" if "a \<notin> node_cells L ?ds" for a
    using dll_remove_frame [of m "mem_free_list L" "map mem_block_payload f1" ?n
        "map mem_block_payload f2" a] d f that
    by (simp add: node_cells_def)
  have ds: "\<forall>c \<in> set ?ds. \<exists>uz. (c, uz, False) \<in> set ?bs"
    using fr f unfolding in_free_addrs [symmetric] by auto
  then have ds': "\<forall>c \<in> set ?ds. \<exists>uz dl. (c, uz, dl) \<in> set ?bs" by blast
  have ok1: "tags_ok ?m1 ?bs" by (rule tags_ok_nodes [OF L t ok ds' fr1])
  have b: "(b, sz, False) \<in> set ?bs" by simp
  note B = heap_blk [OF L t b] and A = blk_addr [OF heap_blk(1,3) [OF L t b]]
  let ?m2 = "?m1(b := tag sz True, b + sz - 4 := tag sz True)"
  have m2: "mem_block_set_allocated ?m1 b = ?m2"
    by (rule mem_block_set_allocated_eq [where al = False]) (use ok1 A(4) B(2) in auto)
  have r: "mem_free_list_remove m b = Some ?m2"
    using heap_rep_reads(2) [OF rep b] m2
    by (simp add: mem_free_list_remove_def mem_block_get_free_node_def)
  note R = retag [OF L t _ d1 ds' refl, where al' = True]
  have k1: "keeps m ?m1 (xs @ ys)"
    using node_cell_not_user [OF L t _ ds] fr1 by (auto simp: keeps_def)
  have "b \<notin> set (free_addrs (xs @ ys))"
    using focus_addr_unique [OF t] by (simp only: in_free_addrs) blast
  then have "set ?ds = set (free_addrs (xs @ (b, sz, True) # ys))"
    using fr f dist by auto
  then have "heap_rep L ?m2 (xs @ (b, sz, True) # ys) ?ds"
    using L t R(1,2) ok1 dist f tiles_flag [of _ xs b sz False ys _ True] by (auto simp: heap_rep_def)
  moreover have "remove1 b fr = ?ds" using f dist by (simp add: remove1_append)
  moreover have "keeps m ?m2 (xs @ ys)" using k1 R(3) ok1 by (auto intro: keeps_trans)
  ultimately show ?thesis using that r by simp
qed

text \<open>
  Replacing a stretch \<open>ws\<close> of allocated blocks by another tiling \<open>zs\<close> of the same range, with
  writes inside this range only: splitting and joining blocks are instances.
\<close>

lemma node_cell_outside:
  assumes L: "layout_ok L" and t: "tiles (mem_heap L) xs b" "tiles b ws c" "tiles c ys (mem_heap_end L)"
    and a: "a \<in> node_cells L ds" and ds: "\<forall>d \<in> set ds. \<exists>uz dl. (d, uz, dl) \<in> set (xs @ ys)"
  shows "unat a < unat b \<or> unat c \<le> unat a"
proof (cases "a = mem_free_list L \<or> a = mem_free_list L + 4")
  case True
  from layout_free_list_outside [OF L this] tiles_le [OF t(1)] tiles_le [OF t(3)]
  show ?thesis by auto
next
  case False
  have T: "tiles (mem_heap L) (xs @ ws @ ys) (mem_heap_end L)" using t by (auto simp: tiles_append)
  from False a obtain d where "d \<in> set ds" "a = d + 4 \<or> a = d + 8"
    by (auto simp: node_cells_iff)
  then obtain uz dl where d: "(d, uz, dl) \<in> set (xs @ ys)" "a = d + 4 \<or> a = d + 8"
    using ds by blast
  then have "(d, uz, dl) \<in> set (xs @ ws @ ys)" by auto
  note D = heap_blk [OF L T this] and E = blk_addr [OF heap_blk(1,3) [OF L T this]]
  from d(1) tiles_member [OF t(1), of d uz dl] tiles_member [OF t(3), of d uz dl]
  show ?thesis using d(2) D(1) E(1,2) by auto
qed

lemma user_cell_outside:
  assumes "tiles e xs b" "tiles c ys f" and "user_cell (xs @ ys) a"
  shows "unat a < unat b \<or> unat c \<le> unat a"
proof -
  from assms(3) obtain d uz where "(d, uz, True) \<in> set (xs @ ys)"
    and "unat d + 4 \<le> unat a" "unat a < unat d + unat uz - 4"
    unfolding user_cell_def by blast
  then show ?thesis
    using tiles_member [OF assms(1), of d uz True] tiles_member [OF assms(2), of d uz True] by auto
qed

lemma tags_ok_outside:
  assumes L: "layout_ok L" and t: "tiles (mem_heap L) xs b" "tiles b ws c" "tiles c ys (mem_heap_end L)"
    and ok: "tags_ok m (xs @ ys)"
    and frame: "\<And>a. unat a < unat b \<or> unat c \<le> unat a \<Longrightarrow> m' a = m a"
  shows "tags_ok m' (xs @ ys)"
  unfolding tags_ok_def
proof clarify
  fix d uz dl assume d: "(d, uz, dl) \<in> set (xs @ ys)"
  have T: "tiles (mem_heap L) (xs @ ws @ ys) (mem_heap_end L)" using t by (auto simp: tiles_append)
  have "(d, uz, dl) \<in> set (xs @ ws @ ys)" using d by auto
  note D = heap_blk [OF L T this] and E = blk_addr [OF heap_blk(1,3) [OF L T this]]
  from d have "unat d + unat uz \<le> unat b \<or> unat c \<le> unat d"
    using tiles_member [OF t(1), of d uz dl] tiles_member [OF t(3), of d uz dl] by auto
  then have "m' d = m d" "m' (d + uz - 4) = m (d + uz - 4)"
    using D(1) E(3) by (auto intro!: frame)
  with ok d show "m' d = tag uz dl \<and> m' (d + uz - 4) = tag uz dl"
    by (auto simp: tags_ok_def)
qed

lemma heap_rep_refocus:
  assumes rep: "heap_rep L m (xs @ ws @ ys) fr" and t: "tiles (mem_heap L) xs b" "tiles b ws c"
    "tiles c ys (mem_heap_end L)" and zs: "tiles b zs c" "tags_ok m' zs"
    and al: "free_addrs ws = []" "free_addrs zs = []"
    and frame: "\<And>a. unat a < unat b \<or> unat c \<le> unat a \<Longrightarrow> m' a = m a"
  shows "heap_rep L m' (xs @ zs @ ys) fr" and "keeps m m' (xs @ ys)"
proof -
  have L: "layout_ok L" and ok: "tags_ok m (xs @ ys)"
    and d: "dll m (mem_free_list L) (map mem_block_payload fr)"
    and fr: "set fr = set (free_addrs (xs @ ys))" "distinct fr"
    using rep al by (auto simp: heap_rep_def)
  have ds: "\<forall>d \<in> set fr. \<exists>uz dl. (d, uz, dl) \<in> set (xs @ ys)"
    using fr(1) by (simp only: in_free_addrs Ball_def) blast
  have "tags_ok m' (xs @ ys)" by (rule tags_ok_outside [OF L t ok frame])
  moreover have "dll m' (mem_free_list L) (map mem_block_payload fr)"
    by (rule dll_node_cells [OF d]) (use node_cell_outside [OF L t _ ds] in \<open>auto intro: frame\<close>)
  moreover have "tiles (mem_heap L) (xs @ zs @ ys) (mem_heap_end L)"
    using t zs by (auto simp: tiles_append)
  ultimately show "heap_rep L m' (xs @ zs @ ys) fr" using L zs fr al by (auto simp: heap_rep_def)
  show "keeps m m' (xs @ ys)"
    unfolding keeps_def using user_cell_outside [OF t(1,3)] frame by blast
qed

lemma heap_rep_add:
  assumes rep: "heap_rep L m (xs @ (b, sz, True) # ys) fr"
  obtains m' where "mem_free_list_add m (mem_free_list L) b = Some m'"
    and "heap_rep L m' (xs @ (b, sz, False) # ys) (b # fr)" and "keeps m m' (xs @ ys)"
proof -
  let ?bs = "xs @ (b, sz, True) # ys" and ?n = "mem_block_payload b"
  have L: "layout_ok L" and t: "tiles (mem_heap L) ?bs (mem_heap_end L)" and ok: "tags_ok m ?bs"
    and dist: "distinct fr" and fr: "set fr = set (free_addrs (xs @ ys))"
    and d: "dll m (mem_free_list L) (map mem_block_payload fr)"
    using rep by (simp_all add: heap_rep_def)
  have b: "(b, sz, True) \<in> set ?bs" by simp
  note B = heap_blk [OF L t b] and A = blk_addr [OF heap_blk(1,3) [OF L t b]]
  have ds: "\<forall>c \<in> set fr. \<exists>uz dl. (c, uz, dl) \<in> set (xs @ ys)"
    using fr by (simp only: in_free_addrs Ball_def) blast
  let ?m1 = "m(b := tag sz False, b + sz - 4 := tag sz False)"
  let ?m2 = "list_insert_head ?m1 (mem_free_list L) ?n"
  have m1: "mem_block_clear_allocated m b = ?m1"
    by (rule mem_block_clear_allocated_eq [where al = True]) (use ok A(4) B(2) in auto)
  have ok': "tags_ok m (xs @ ys)" using ok by simp
  have ds': "\<forall>c \<in> set fr. \<exists>uz dl. (c, uz, dl) \<in> set ?bs" using ds by auto blast+
  note R = retag [OF L t ok' d ds' refl, where al' = False]
  have tb: "tiles b [(b, sz, True)] (b + sz)" using B tiles_focus(3) [OF t] by simp
  have out: "a \<notin> node_cells L fr" if "unat b \<le> unat a" "unat a < unat b + unat sz" for a
    using node_cell_outside [OF L tiles_focus(1) [OF t] tb tiles_focus(2) [OF t] _ ds, of a] that
      tiles_focus(3) [OF t] by auto
  have n: "?n \<notin> node_cells L fr" "?n + 4 \<notin> node_cells L fr"
    using A(1,2) B(1) out [of "b + 4"] out [of "b + 8"]
    by (auto simp: mem_block_payload_def add.assoc)
  have sep: "separate (?n # mem_free_list L # map mem_block_payload fr)"
    using n d by (auto simp: separate_def dll_def node_cells_def list_cells_def)
  have d2: "dll ?m2 (mem_free_list L) (map mem_block_payload (b # fr))"
    using lq.insert_head [OF R(2) sep] by simp
  have frame2: "?m2 a = ?m1 a" if "a \<notin> node_cells L (b # fr)" for a
    by (rule dll_insert_head_frame [OF R(2)]) (use that in \<open>auto simp: node_cells_def list_cells_def\<close>)
  have t': "tiles (mem_heap L) (xs @ (b, sz, False) # ys) (mem_heap_end L)"
    using t tiles_flag by blast
  have dsf: "\<forall>c \<in> set (b # fr). \<exists>uz. (c, uz, False) \<in> set (xs @ (b, sz, False) # ys)"
    using fr by (auto simp: in_free_addrs)
  then have "\<forall>c \<in> set (b # fr). \<exists>uz dl. (c, uz, dl) \<in> set (xs @ (b, sz, False) # ys)" by blast
  then have ok2: "tags_ok ?m2 (xs @ (b, sz, False) # ys)"
    by (rule tags_ok_nodes [OF L t' R(1)]) (use frame2 in auto)
  have "b \<notin> set fr" using fr focus_addr_unique [OF t] by (simp only: in_free_addrs) blast
  then have "heap_rep L ?m2 (xs @ (b, sz, False) # ys) (b # fr)"
    using L t' ok2 d2 dist fr by (auto simp: heap_rep_def)
  moreover have "keeps ?m1 ?m2 (xs @ ys)"
    unfolding keeps_def
  proof (intro allI impI)
    fix a assume "user_cell (xs @ ys) a"
    then have "user_cell (xs @ (b, sz, False) # ys) a" by simp
    then have "a \<notin> node_cells L (b # fr)" using node_cell_not_user [OF L t' _ dsf] by blast
    then show "?m2 a = ?m1 a" by (rule frame2)
  qed
  with R(3) have "keeps m ?m2 (xs @ ys)" by (rule keeps_trans)
  moreover have "mem_free_list_add m (mem_free_list L) b = Some ?m2"
  proof -
    have "\<not> mem_block_allocated ?m1 b"
      using btag_reads(2) [of ?m1 b sz False] A(4) B(2) by simp
    then show ?thesis
      using heap_rep_reads(2) [OF rep b] m1
      by (simp add: mem_free_list_add_def mem_block_get_free_node_def)
  qed
  ultimately show ?thesis using that by blast
qed

lemma heap_rep_split:
  assumes rep: "heap_rep L m (xs @ (b, sz, True) # ys) fr"
    and s: "4 dvd unat s" "16 \<le> unat s" "unat s + 16 \<le> unat sz"
  obtains m' where "mem_block_split m b s = Some (b + s, m')"
    and "heap_rep L m' (xs @ (b, s, True) # (b + s, sz - s, True) # ys) fr" and "keeps m m' (xs @ ys)"
proof -
  let ?bs = "xs @ (b, sz, True) # ys" and ?zs = "[(b, s, True), (b + s, sz - s, True)]"
  have L: "layout_ok L" and t: "tiles (mem_heap L) ?bs (mem_heap_end L)"
    using rep by (simp_all add: heap_rep_def)
  have b: "(b, sz, True) \<in> set ?bs" by simp
  note B = heap_blk [OF L t b]
  have us: "unat (sz - s) = unat sz - unat s" using s by (simp add: unat_sub_no_wrap)
  have ub: "unat (b + s) = unat b + unat s" using s B by (intro unat_add_no_wrap) simp
  have d4: "4 dvd unat (sz - s)" unfolding us by (rule dvd_diff_nat) (use s B(2) in auto)
  have e: "b + s + (sz - s) = b + sz" by simp
  let ?m1 = "m(b := tag s True, b + s - 4 := tag s True)"
  let ?m2 = "?m1(b + s := tag (sz - s) True, b + sz - 4 := tag (sz - s) True)"
  have A1: "unat (b + s - 4) = unat b + unat s - 4" "b + s - 4 \<noteq> b"
    using blk_addr(3,4) [of s b] s B by auto
  have A2: "unat (b + sz - 4) = unat b + unat sz - 4" "b + sz - 4 \<noteq> b"
    using blk_addr(3,4) [of sz b] s B by auto
  have "unat b \<noteq> unat (b + s)" "unat (b + s - 4) \<noteq> unat (b + s)"
    "unat (b + s - 4) \<noteq> unat (b + sz - 4)" "unat (b + s) \<noteq> unat (b + sz - 4)"
    using A1(1) A2(1) ub s by linarith+
  then have ne: "b \<noteq> b + s" "b + s - 4 \<noteq> b + s" "b + s - 4 \<noteq> b + sz - 4" "b + s \<noteq> b + sz - 4"
    by metis+
  have tt: "tiles b [(b, sz, True)] (b + sz)" "tiles b ?zs (b + sz)"
    using B tiles_focus(3) [OF t] s d4 us ub e by auto
  have ok: "tags_ok ?m2 ?zs" using ne A1 A2 by simp
  have "mem_block_end ?m1 b = b + s" by (rule btag_reads(3)) (use A1 s in auto)
  moreover have "unat (s + 16) = unat s + 16"
    using unat_add_no_wrap [of s 16] s unat_u32_less [of sz] by simp
  then have "\<not> sz < s + 16" using s by (simp add: word_less_nat_alt)
  ultimately have "mem_block_split m b s = Some (b + s, ?m2)"
    using heap_rep_reads(1,2) [OF rep b] s mem_block_init_eq [OF s(1), of m b]
      mem_block_init_eq [OF d4, of ?m1 "b + s"]
    by (simp add: mem_block_split_def mem_aligned_iff e Let_def)
  moreover have "?m2 a = m a" if "unat a < unat b \<or> unat (b + sz) \<le> unat a" for a
    using that A1(1) A2(1) ub s tiles_focus(3) [OF t] by auto
  note R = heap_rep_refocus [where ws = "[(b, sz, True)]" and m' = ?m2, OF _ tiles_focus(1) [OF t] tt(1)
      tiles_focus(2) [OF t] tt(2) ok _ _ this]
  have "heap_rep L ?m2 (xs @ ?zs @ ys) fr" "keeps m ?m2 (xs @ ys)"
    by (rule R; use rep in simp)+
  ultimately show ?thesis using that by simp
qed

lemma heap_rep_join:
  assumes rep: "heap_rep L m (xs @ (b, s1, True) # (b2, s2, True) # ys) fr"
  shows "heap_rep L (mem_block_init m b (s1 + s2)) (xs @ (b, s1 + s2, True) # ys) fr"
    and "keeps m (mem_block_init m b (s1 + s2)) (xs @ ys)"
proof -
  let ?bs = "xs @ (b, s1, True) # (b2, s2, True) # ys" and ?sz = "s1 + s2"
  have L: "layout_ok L" and t: "tiles (mem_heap L) ?bs (mem_heap_end L)"
    using rep by (simp_all add: heap_rep_def)
  then obtain c where c: "tiles (mem_heap L) xs b" "tiles b [(b, s1, True), (b2, s2, True)] c"
    "tiles c ys (mem_heap_end L)"
    using tiles_append [of "mem_heap L" xs "[(b, s1, True), (b2, s2, True)] @ ys"]
      tiles_append [of b "[(b, s1, True), (b2, s2, True)]" ys] by fastforce
  then have s: "16 \<le> unat s1" "4 dvd unat s1" "16 \<le> unat s2" "4 dvd unat s2" "c = b + s1 + s2"
    "b2 = b + s1" "unat b + unat s1 \<le> unat c" "unat (b + s1) + unat s2 \<le> unat c"
    by auto
  have u1: "unat (b + s1) = unat b + unat s1"
    using s(7) unat_u32_less [of c] by (intro unat_add_no_wrap) simp
  have us: "unat ?sz = unat s1 + unat s2"
    using s(8) u1 unat_u32_less [of c] by (intro unat_add_no_wrap) simp
  have uc: "unat c = unat b + unat s1 + unat s2"
    using s(5,8) u1 unat_add_no_wrap [of "b + s1" s2] unat_u32_less [of c] by simp
  have A: "unat (b + ?sz - 4) = unat b + unat ?sz - 4" "b + ?sz - 4 \<noteq> b"
    using blk_addr(3,4) [of ?sz b] us s uc unat_u32_less [of c] by auto
  have d4: "4 dvd unat ?sz" unfolding us using s by simp
  let ?m = "m(b := tag ?sz True, b + ?sz - 4 := tag ?sz True)"
  have m: "mem_block_init m b ?sz = ?m" by (rule mem_block_init_eq [OF d4])
  have tz: "tiles b [(b, ?sz, True)] c" using s us d4 uc by (simp add: add.assoc)
  have ok: "tags_ok ?m [(b, ?sz, True)]" using A by simp
  have "?m a = m a" if "unat a < unat b \<or> unat c \<le> unat a" for a
    using that A(1) us uc s by auto
  note R = heap_rep_refocus [where ws = "[(b, s1, True), (b2, s2, True)]" and m' = ?m, OF _ c tz ok _ _ this]
  show "heap_rep L (mem_block_init m b ?sz) (xs @ (b, ?sz, True) # ys) fr"
    unfolding m using R(1) rep by simp
  show "keeps m (mem_block_init m b ?sz) (xs @ ys)" unfolding m by (rule R(2)) (use rep in simp_all)
qed

lemma heap_rep_no_split:
  assumes rep: "heap_rep L m (xs @ (b, sz, True) # ys) fr"
    and s: "4 dvd unat s" "unat s \<le> unat sz" "unat sz < unat s + 16"
  shows "mem_block_split m b s = Some (0, m)"
proof -
  have t: "tiles (mem_heap L) (xs @ (b, sz, True) # ys) (mem_heap_end L)" and L: "layout_ok L"
    using rep by (simp_all add: heap_rep_def)
  have b: "(b, sz, True) \<in> set (xs @ (b, sz, True) # ys)" by simp
  have "unat sz \<le> 33554432"
    using heap_blk(5,6) [OF L t b] layout_ends(1) [OF L] by simp
  then have "unat (s + 16) = unat s + 16" using unat_add_no_wrap [of s 16] s by simp
  then have "sz < s + 16" using s by (simp add: word_less_nat_alt)
  then show ?thesis
    using heap_rep_reads(1,2) [OF rep b] s by (simp add: mem_block_split_def mem_aligned_iff)
qed

lemma find_from_linked:
  "linked m n ns h \<Longrightarrow> h \<notin> set (n # ns) \<Longrightarrow>
   mem_free_list_find_from m h s n =
     Some (case find (\<lambda>x. s \<le> mem_block_size m (mem_block_from_payload x)) (n # ns) of
             None \<Rightarrow> 0 | Some x \<Rightarrow> mem_block_from_payload x)"
proof (induction ns arbitrary: n)
  case Nil
  then show ?case
    by (simp add: mem_free_list_find_from.simps [of m h] list_end_def Let_def)
next
  case (Cons x ns)
  then show ?case
    by (simp add: mem_free_list_find_from.simps [of m h s n] list_end_def Let_def)
qed

lemma find_map: "find P (map f xs) = map_option f (find (P \<circ> f) xs)"
  by (induction xs) auto

lemma mem_block_from_payload_payload [simp]: "mem_block_from_payload (mem_block_payload b) = b"
  by (simp add: mem_block_from_payload_def mem_block_payload_def)

text \<open>The search ends, with the first block of the free list that is large enough.\<close>

lemma heap_rep_find:
  assumes "heap_rep L m bs fr"
  shows "mem_free_list_find m (mem_free_list L) s =
    Some (case find (\<lambda>b. s \<le> mem_block_size m b) fr of None \<Rightarrow> 0 | Some b \<Rightarrow> b)"
proof (cases fr)
  case Nil
  with assms have "list_first m (mem_free_list L) = mem_free_list L"
    by (simp add: heap_rep_def dll_Nil_iff list_first_def)
  then show ?thesis
    using Nil by (simp add: mem_free_list_find_def mem_free_list_find_from.simps list_end_def)
next
  case (Cons b bs')
  let ?ns = "map mem_block_payload bs'" and ?h = "mem_free_list L"
  have l: "linked m (mem_block_payload b) ?ns ?h" "list_first m ?h = mem_block_payload b"
    and h: "?h \<notin> set (mem_block_payload b # ?ns)"
    using assms Cons by (auto simp: heap_rep_def dll_def separate_def list_first_def)
  show ?thesis
    using find_from_linked [OF l(1) h, of s] l(2) Cons
    by (auto simp: mem_free_list_find_def find_map comp_def split: option.splits)
qed

lemma heap_rep_no_overlap:
  assumes rep: "heap_rep L m bs fr" and b: "(b, sz, al) \<in> set bs" and c: "(c, tz, cl) \<in> set bs"
    and "b \<noteq> c"
  shows "\<not> mem_block_overlap m b c"
proof -
  have t: "tiles (mem_heap L) bs (mem_heap_end L)" and L: "layout_ok L"
    using rep by (simp_all add: heap_rep_def)
  note B = heap_blk [OF L t b] and C = heap_blk [OF L t c]
  have "unat (b + sz) = unat b + unat sz" "unat (c + tz) = unat c + unat tz"
    using B(3) C(3) by (simp_all add: unat_add_no_wrap)
  with tiles_pair [OF t b c] assms(4) B(1) C(1) show ?thesis
    using heap_rep_reads(3) [OF rep b] heap_rep_reads(3) [OF rep c]
    by (auto simp: mem_block_overlap_def mem_block_inside_def word_le_nat_alt word_less_nat_alt)
qed

lemma heap_rep_merge_allocated:
  assumes "heap_rep L m bs fr" and "(b, sz, al) \<in> set bs" and "(c, tz, cl) \<in> set bs"
    and "b \<noteq> c" and "al \<or> cl"
  shows "mem_block_merge L m b c = Some (0, m)"
  using heap_rep_no_overlap [OF assms(1-4)] heap_rep_reads(2) [OF assms(1,2)]
    heap_rep_reads(2) [OF assms(1,3)] assms(5)
  by (auto simp: mem_block_merge_def)

text \<open>Two neighbouring free blocks become one, whichever of the two is named first.\<close>

lemma heap_rep_merge:
  assumes rep: "heap_rep L m (xs @ (b1, s1, False) # (b2, s2, False) # ys) fr"
    and xy: "(x, y) = (b1, b2) \<or> (x, y) = (b2, b1)"
  obtains m' where "mem_block_merge L m x y = Some (b1, m')"
    and "heap_rep L m' (xs @ (b1, s1 + s2, False) # ys) (b1 # remove1 b1 (remove1 b2 fr))"
    and "keeps m m' (xs @ ys)"
proof -
  let ?bs = "xs @ (b1, s1, False) # (b2, s2, False) # ys"
  have t: "tiles (mem_heap L) ?bs (mem_heap_end L)" using rep by (simp add: heap_rep_def)
  have "unat b1 + unat s1 \<le> unat b2" "16 \<le> unat s1"
    using tiles_focus [OF t] by auto
  then have lt: "b1 < b2" by (simp add: word_less_nat_alt)
  have in1: "(b1, s1, False) \<in> set ?bs" and in2: "(b2, s2, False) \<in> set ?bs" by auto
  have no: "\<not> mem_block_overlap m x y"
    using heap_rep_no_overlap [OF rep in1 in2] heap_rep_no_overlap [OF rep in2 in1] xy lt by auto
  have al: "\<not> mem_block_allocated m x" "\<not> mem_block_allocated m y"
    using heap_rep_reads(2) [OF rep in1] heap_rep_reads(2) [OF rep in2] xy by auto
  obtain m1 m2 where m12: "mem_free_list_remove m x = Some m1" "mem_free_list_remove m1 y = Some m2"
    and rep2: "heap_rep L m2 (xs @ (b1, s1, True) # (b2, s2, True) # ys) (remove1 b1 (remove1 b2 fr))"
    and k2: "keeps m m2 (xs @ ys)"
    using xy
  proof
    assume e: "(x, y) = (b1, b2)"
    obtain m1 where 1: "mem_free_list_remove m b1 = Some m1"
      "heap_rep L m1 (xs @ (b1, s1, True) # (b2, s2, False) # ys) (remove1 b1 fr)"
      "keeps m m1 (xs @ (b2, s2, False) # ys)"
      by (rule heap_rep_remove [OF rep])
    obtain m2 where 2: "mem_free_list_remove m1 b2 = Some m2"
      "heap_rep L m2 (xs @ (b1, s1, True) # (b2, s2, True) # ys) (remove1 b2 (remove1 b1 fr))"
      "keeps m1 m2 (xs @ (b1, s1, True) # ys)"
      by (rule heap_rep_remove [of L m1 "xs @ [(b1, s1, True)]" b2 s2 ys "remove1 b1 fr"]) (use 1 in auto)
    show ?thesis
      by (rule that [of m1 m2]) (use e 1 2 in \<open>auto simp: remove1_commute keeps_def\<close>)
  next
    assume e: "(x, y) = (b2, b1)"
    obtain m1 where 1: "mem_free_list_remove m b2 = Some m1"
      "heap_rep L m1 (xs @ (b1, s1, False) # (b2, s2, True) # ys) (remove1 b2 fr)"
      "keeps m m1 (xs @ (b1, s1, False) # ys)"
      by (rule heap_rep_remove [of L m "xs @ [(b1, s1, False)]" b2 s2 ys fr]) (use rep in auto)
    obtain m2 where 2: "mem_free_list_remove m1 b1 = Some m2"
      "heap_rep L m2 (xs @ (b1, s1, True) # (b2, s2, True) # ys) (remove1 b1 (remove1 b2 fr))"
      "keeps m1 m2 (xs @ (b2, s2, True) # ys)"
      by (rule heap_rep_remove [OF 1(2)])
    show ?thesis
      by (rule that [of m1 m2]) (use e 1 2 in \<open>auto simp: keeps_def\<close>)
  qed
  let ?m3 = "mem_block_init m2 b1 (s1 + s2)"
  note j = heap_rep_join [OF rep2]
  obtain m4 where 4: "mem_free_list_add ?m3 (mem_free_list L) b1 = Some m4"
    "heap_rep L m4 (xs @ (b1, s1 + s2, False) # ys) (b1 # remove1 b1 (remove1 b2 fr))"
    "keeps ?m3 m4 (xs @ ys)"
    by (rule heap_rep_add [OF j(1)])
  have sz: "mem_block_size m2 b1 = s1" "mem_block_size m2 b2 = s2"
    using heap_rep_reads(1) [OF rep2] by auto
  have "mem_block_merge L m x y = Some (b1, m4)"
    using no al m12 xy lt sz 4(1) by (auto simp: mem_block_merge_def Let_def add.commute)
  moreover have "keeps m m4 (xs @ ys)" using k2 j(2) 4(3) by (blast intro: keeps_trans)
  ultimately show ?thesis using that 4(2) by blast
qed

section \<open>Specification of allocation and liberation\<close>

text \<open>
  The contract of the allocator on the abstraction.  \<open>alloc_spec s bs fr\<close> gives the block found
  by first fit for a block size \<open>s\<close> (\<^term>\<open>None\<close> if there is none), and the heap and free
  list afterwards; the rest of a block is split off if it can hold a block of minimal size.
  \<open>free_spec b bs fr\<close> marks the block at \<open>b\<close> free and merges all neighbouring free blocks.
\<close>

fun blk_size :: "blk list \<Rightarrow> u32 \<Rightarrow> u32" where
  "blk_size [] b = 0"
| "blk_size ((c, sz, al) # bs) b = (if c = b then sz else blk_size bs b)"

fun carve :: "u32 \<Rightarrow> u32 \<Rightarrow> blk list \<Rightarrow> blk list" where
  "carve b s [] = []"
| "carve b s ((c, sz, al) # bs) =
     (if c = b then
        (if unat sz < unat s + 16 then (b, sz, True) # bs
         else (b, s, True) # (b + s, sz - s, False) # bs)
      else (c, sz, al) # carve b s bs)"

definition alloc_spec ::
  "u32 \<Rightarrow> blk list \<Rightarrow> u32 list \<Rightarrow> u32 option \<times> blk list \<times> u32 list" where
  "alloc_spec s bs fr =
     (case find (\<lambda>b. s \<le> blk_size bs b) fr of
        None \<Rightarrow> (None, bs, fr)
      | Some b \<Rightarrow> (Some b, carve b s bs,
          if unat (blk_size bs b) < unat s + 16 then remove1 b fr else (b + s) # remove1 b fr))"

fun mark_free :: "u32 \<Rightarrow> blk list \<Rightarrow> blk list" where
  "mark_free b [] = []"
| "mark_free b ((c, sz, al) # bs) = (if c = b then (c, sz, False) # bs else (c, sz, al) # mark_free b bs)"

fun merge_free :: "blk list \<Rightarrow> blk list" where
  "merge_free ((b, s, False) # (c, t, False) # bs) = merge_free ((b, s + t, False) # bs)"
| "merge_free (x # bs) = x # merge_free bs"
| "merge_free [] = []"

definition free_spec :: "u32 \<Rightarrow> blk list \<Rightarrow> u32 list \<Rightarrow> blk list \<times> u32 list" where
  "free_spec b bs fr =
     (let bs' = merge_free (mark_free b bs);
          rest = filter (\<lambda>c. c \<in> set (free_addrs bs')) fr;
          new = filter (\<lambda>c. c \<le> b) (free_addrs bs')
      in (bs', last new # filter (\<lambda>c. c \<noteq> last new) rest))"

text \<open>
  \<open>heap_inv\<close>: the invariant of the allocator between calls.  The mutex is free, memory
  represents the abstraction, and no two neighbours are free.
\<close>

definition heap_inv :: "layout \<Rightarrow> mem_state \<Rightarrow> blk list \<Rightarrow> u32 list \<Rightarrow> bool" where
  "heap_inv L s bs fr \<longleftrightarrow>
     heap_rep L (words s) bs fr \<and> coalesced bs \<and> mutex_inv (mem_mutex s) \<and> \<not> locked (mem_mutex s)"

lemma blk_size_mid:
  "tiles a (xs @ (b, sz, al) # ys) e \<Longrightarrow> blk_size (xs @ (b, sz, al) # ys) b = sz"
proof (induction xs arbitrary: a)
  case (Cons x xs)
  obtain c tz cl where x: "x = (c, tz, cl)" by (cases x)
  then have "c \<noteq> b"
    using focus_addr_unique [OF Cons.prems, of tz cl] by auto
  with Cons x show ?case by auto
qed simp

lemma carve_mid:
  assumes "tiles a (xs @ (b, sz, al) # ys) e"
  shows "carve b s (xs @ (b, sz, al) # ys) =
    xs @ (if unat sz < unat s + 16 then [(b, sz, True)] else [(b, s, True), (b + s, sz - s, False)]) @ ys"
  using assms
proof (induction xs arbitrary: a)
  case (Cons x xs)
  obtain c tz cl where x: "x = (c, tz, cl)" by (cases x)
  then have "c \<noteq> b"
    using focus_addr_unique [OF Cons.prems, of tz cl] by auto
  with Cons x show ?case by auto
qed simp

lemma mark_free_mid:
  assumes "tiles a (xs @ (b, sz, al) # ys) e"
  shows "mark_free b (xs @ (b, sz, al) # ys) = xs @ (b, sz, False) # ys"
  using assms
proof (induction xs arbitrary: a)
  case (Cons x xs)
  obtain c tz cl where x: "x = (c, tz, cl)" by (cases x)
  then have "c \<noteq> b"
    using focus_addr_unique [OF Cons.prems, of tz cl] by auto
  with Cons x show ?case by auto
qed simp

lemma coalesced_append:
  "coalesced (xs @ (b, s, al) # ys) \<longleftrightarrow>
   coalesced (xs @ [(b, s, al)]) \<and> coalesced ((b, s, al) # ys)"
  by (induction xs rule: coalesced.induct) auto

lemma coalesced_appendD: "coalesced (xs @ ys) \<Longrightarrow> coalesced xs \<and> coalesced ys"
  by (induction xs rule: coalesced.induct) (auto, cases ys, auto)

lemma coalesced_snoc_True: "coalesced (xs @ [(b, s, True)]) \<longleftrightarrow> coalesced xs"
  by (induction xs rule: coalesced.induct) auto

lemma coalesced_Cons_True: "coalesced ((b, s, True) # xs) \<longleftrightarrow> coalesced xs"
  by (cases xs) auto

text \<open>
  The block size for a request: rounded up, with room for the two tags, and at least the minimal
  size.
\<close>

lemma convert_block_size:
  assumes "unat n + 11 < 2 ^ 32"
  shows "unat (mem_convert_to_block_size n) = max 16 ((unat n + 3) div 4 * 4 + 8)"
proof -
  have r: "unat (P2ROUND n 4) = (unat n + 3) div 4 * 4"
  proof -
    have "(unat n + 3) div 4 * 4 \<le> unat n + 3" by simp
    then show ?thesis using unat_P2ROUND [of 2 n] assms by simp
  qed
  have "(unat n + 3) div 4 * 4 + 8 < 2 ^ 32" using assms by simp
  then have "unat (P2ROUND n 4 + 8) = (unat n + 3) div 4 * 4 + 8"
    using unat_add_no_wrap [of "P2ROUND n 4" 8] r by simp
  then show ?thesis
    by (auto simp: mem_convert_to_block_size_def Let_def word_less_nat_alt)
qed

end
