(* ===== verification/Mem_Alloc.thy ===== *)
theory Mem_Alloc
  imports Mem_Correct
begin

text \<open>
  The public functions of the allocator, \<^verbatim>\<open>mem_setup\<close>, \<^verbatim>\<open>mem_alloc\<close> and
  \<^verbatim>\<open>mem_free\<close>, implement the specification of theory Mem_Correct.
\<close>

section \<open>Initialisation\<close>

abbreviation whole_heap :: "layout \<Rightarrow> bool \<Rightarrow> blk" where
  "whole_heap L al \<equiv> (mem_heap L, 33554432, al)"

lemma tiles_whole_heap:
  assumes "layout_ok L"
  shows "tiles (mem_heap L) [whole_heap L al] (mem_heap_end L)"
  using layout_ends(1) [OF assms] by (simp add: mem_heap_end_def)

lemma heap_rep_setup:
  assumes L: "layout_ok L"
  shows "heap_rep L (mem_free_list_init (mem_block_init m (mem_heap L) 33554432) (mem_free_list L))
    [whole_heap L True] []"
proof -
  let ?b = "mem_heap L" and ?f = "mem_free_list L"
  have t: "tiles ?b [whole_heap L True] (mem_heap_end L)" by (rule tiles_whole_heap [OF L])
  have b: "whole_heap L True \<in> set [whole_heap L True]" by simp
  have ds: "\<forall>d \<in> set []. \<exists>uz dl. (d, uz, dl) \<in> set [whole_heap L True]" by simp
  note A = blk_addr [OF heap_blk(1,3) [OF L t b]]
  let ?m = "m(?b := tag 33554432 True, ?b + 33554432 - 4 := tag 33554432 True)"
  have m: "mem_block_init m ?b 33554432 = ?m" by (rule mem_block_init_eq) simp
  have "a = ?f \<or> a = ?f + 4 \<Longrightarrow> a \<in> node_cells L []" for a by (simp add: node_cells_iff)
  then have "?b \<noteq> ?f" "?b \<noteq> ?f + 4" "?b + 33554432 - 4 \<noteq> ?f" "?b + 33554432 - 4 \<noteq> ?f + 4"
    using node_cell_not_tag [OF L t _ ds b] by blast+
  then have ok: "tags_ok (list_init ?m ?f) [whole_heap L True]"
    using A(4) by (simp add: list_init_frame)
  show ?thesis
    unfolding heap_rep_def mem_free_list_init_def m by (intro conjI L t ok) (simp_all add: dll_init)
qed

section \<open>Allocation\<close>

lemma heap_inv_mutex:
  assumes "heap_inv L s bs fr"
  obtains mtx where "mutex_set_owner (mem_mutex s) self = Some mtx"
    and "mutex_clear_owner mtx self = Some (mem_mutex s)"
  using assms mutex_set_clear mutex_set_owner_free unfolding heap_inv_def by blast

lemma heap_rep_blk_size:
  assumes "heap_rep L m bs fr" and "b \<in> set fr"
  shows "mem_block_size m b = blk_size bs b"
proof -
  obtain sz xs ys where bs: "bs = xs @ (b, sz, False) # ys"
    by (rule heap_rep_free_block [OF assms])
  with assms(1) show ?thesis
    using heap_rep_reads(1) [of L m bs fr b sz False] blk_size_mid [of "mem_heap L" xs b sz False ys]
    by (auto simp: heap_rep_def)
qed

lemma heap_rep_find_spec:
  assumes rep: "heap_rep L m bs fr"
  shows "mem_free_list_find m (mem_free_list L) s =
    Some (case find (\<lambda>b. s \<le> blk_size bs b) fr of None \<Rightarrow> 0 | Some b \<Rightarrow> b)"
proof -
  have "find (\<lambda>b. s \<le> mem_block_size m b) fr = find (\<lambda>b. s \<le> blk_size bs b) fr"
    by (rule find_cong) (simp_all add: heap_rep_blk_size [OF rep])
  then show ?thesis by (simp add: heap_rep_find [OF rep])
qed

lemma find_SomeD: "find P xs = Some x \<Longrightarrow> x \<in> set xs \<and> P x"
  by (auto simp: find_Some_iff)

lemma heap_rep_not_null:
  assumes "heap_rep L m bs fr" and "(b, sz, al) \<in> set bs"
  shows "b \<noteq> 0" and "mem_aligned b" and "mem_aligned (mem_block_payload b)"
proof -
  have L: "layout_ok L" and t: "tiles (mem_heap L) bs (mem_heap_end L)"
    using assms by (simp_all add: heap_rep_def)
  note B = heap_blk [OF L t assms(2)]
  have "0 < unat (mem_heap L)" using L by (simp add: layout_ok_def unat_gt_0)
  with B(5) show "b \<noteq> 0" by auto
  show "mem_aligned b" using B(4) by (simp add: mem_aligned_iff)
  show "mem_aligned (mem_block_payload b)"
    using B(4) blk_addr(1) [OF B(1,3)] by (simp add: mem_aligned_iff mem_block_payload_def)
qed

lemma heap_rep_payload_unat:
  assumes "heap_rep L m bs fr" and "(b, sz, al) \<in> set bs"
  shows "unat (mem_block_payload b) = unat b + 4"
  using assms blk_addr(1) [OF heap_blk(1,3) [OF _ _ assms(2)]]
  by (auto simp: heap_rep_def mem_block_payload_def)

lemma heap_rep_payload_not_null:
  assumes "heap_rep L m bs fr" and "(b, sz, al) \<in> set bs"
  shows "mem_block_payload b \<noteq> 0"
  using heap_rep_payload_unat [OF assms] by auto

text \<open>Carving a block: the free block that was found becomes allocated, with its rest split off.\<close>

lemma heap_rep_carve:
  assumes rep: "heap_rep L m (xs @ (b, sz, False) # ys) fr"
    and s: "4 dvd unat s" "16 \<le> unat s" "unat s \<le> unat sz"
  obtains m1 b2 m2 m3 where "mem_free_list_remove m b = Some m1" and "mem_block_split m1 b s = Some (b2, m2)"
    and "(if b2 \<noteq> 0 then mem_free_list_add m2 (mem_free_list L) b2 else Some m2) = Some m3"
    and "heap_rep L m3 (carve b s (xs @ (b, sz, False) # ys))
      (if unat sz < unat s + 16 then remove1 b fr else (b + s) # remove1 b fr)"
    and "keeps m m3 (xs @ ys)"
proof -
  have t: "tiles (mem_heap L) (xs @ (b, sz, False) # ys) (mem_heap_end L)"
    using rep by (simp add: heap_rep_def)
  note c = carve_mid [OF t, of s]
  obtain m1 where 1: "mem_free_list_remove m b = Some m1"
    "heap_rep L m1 (xs @ (b, sz, True) # ys) (remove1 b fr)" "keeps m m1 (xs @ ys)"
    by (rule heap_rep_remove [OF rep])
  show ?thesis
  proof (cases "unat sz < unat s + 16")
    case True
    have "mem_block_split m1 b s = Some (0, m1)"
      by (rule heap_rep_no_split [OF 1(2) s(1,3) True])
    then show ?thesis using that [of m1 0 m1 m1] 1 c True by simp
  next
    case False
    then have "unat s + 16 \<le> unat sz" by simp
    then obtain m2 where 2: "mem_block_split m1 b s = Some (b + s, m2)"
      "heap_rep L m2 ((xs @ [(b, s, True)]) @ (b + s, sz - s, True) # ys) (remove1 b fr)"
      "keeps m1 m2 (xs @ ys)"
      using heap_rep_split [OF 1(2) s(1,2)] by (metis append.assoc append_Cons append_Nil)
    obtain m3 where 3: "mem_free_list_add m2 (mem_free_list L) (b + s) = Some m3"
      "heap_rep L m3 ((xs @ [(b, s, True)]) @ (b + s, sz - s, False) # ys) ((b + s) # remove1 b fr)"
      "keeps m2 m3 ((xs @ [(b, s, True)]) @ ys)"
      by (rule heap_rep_add [OF 2(2)])
    have "b + s \<noteq> 0" by (rule heap_rep_not_null(1) [OF 2(2), of _ "sz - s" True]) simp
    moreover have "keeps m m3 (xs @ ys)"
      using 1(3) 2(3) 3(3) by (auto simp: keeps_def)
    ultimately show ?thesis using that [of m1 "b + s" m2 m3] 1(1) 2(1) 3(1,2) c False by simp
  qed
qed

lemma coalesced_carve:
  assumes "coalesced (xs @ (b, sz, False) # ys)"
  shows "coalesced (xs @ (if P then [(b, sz, True)] else [(b, s, True), (c, t, False)]) @ ys)"
proof -
  have "coalesced (xs @ [(b, sz, False)])" and y: "coalesced ((b, sz, False) # ys)"
    using assms coalesced_append by blast+
  then have x: "coalesced xs" using coalesced_appendD by blast
  from y have y': "coalesced ys" "coalesced ((c, t, False) # ys)"
    by (cases ys; auto)+
  with x show ?thesis
    using coalesced_append [of xs b s True "(c, t, False) # ys"] coalesced_append [of xs b sz True ys]
    by (simp add: coalesced_snoc_True coalesced_Cons_True)
qed

lemma convert_size_ok:
  assumes "unat n + 11 < 2 ^ 32"
  shows "4 dvd unat (mem_convert_to_block_size n)" and "16 \<le> unat (mem_convert_to_block_size n)"
    and "unat n + 8 \<le> unat (mem_convert_to_block_size n)"
  using convert_block_size [OF assms] by (auto simp: max_def)

lemma heap_rep_alloc:
  assumes rep: "heap_rep L (words st) bs fr"
    and f: "find (\<lambda>b. mem_convert_to_block_size n \<le> blk_size bs b) fr = Some b"
    and n: "n \<noteq> 0" "unat n + 11 < 2 ^ 32"
    and mtx: "mutex_set_owner (mem_mutex st) self = Some mtx"
      "mutex_clear_owner mtx self = Some (mem_mutex st)"
  obtains m where "mem_alloc L self st n = Some (b + 4, st\<lparr>words := m\<rparr>)"
    and "case alloc_spec (mem_convert_to_block_size n) bs fr of (r, bs', fr') \<Rightarrow>
      heap_rep L m bs' fr'"
    and "keeps (words st) m bs"
proof -
  let ?s = "mem_convert_to_block_size n"
  note s = convert_size_ok [OF n(2)]
  have b: "b \<in> set fr" "?s \<le> blk_size bs b" using find_SomeD [OF f] by auto
  obtain sz xs ys where bs: "bs = xs @ (b, sz, False) # ys"
    by (rule heap_rep_free_block [OF rep b(1)])
  have t: "tiles (mem_heap L) (xs @ (b, sz, False) # ys) (mem_heap_end L)"
    using rep bs by (simp add: heap_rep_def)
  have sz: "blk_size bs b = sz" unfolding bs by (rule blk_size_mid [OF t])
  with b(2) have le: "unat ?s \<le> unat sz" by (simp add: word_le_nat_alt)
  have rep': "heap_rep L (words st) (xs @ (b, sz, False) # ys) fr" using rep bs by simp
  obtain m1 b2 m2 m3 where m: "mem_free_list_remove (words st) b = Some m1"
    "mem_block_split m1 b ?s = Some (b2, m2)"
    "(if b2 \<noteq> 0 then mem_free_list_add m2 (mem_free_list L) b2 else Some m2) = Some m3"
    "heap_rep L m3 (carve b ?s (xs @ (b, sz, False) # ys))
      (if unat sz < unat ?s + 16 then remove1 b fr else (b + ?s) # remove1 b fr)"
    "keeps (words st) m3 (xs @ ys)"
    by (rule heap_rep_carve [OF rep' s(1,2) le])
  have nn: "b \<noteq> 0" "mem_aligned (b + 4)"
    using heap_rep_not_null [OF rep', of b sz False] by (simp_all add: mem_block_payload_def)
  have "mem_free_list_find (words st) (mem_free_list L) ?s = Some b"
    by (simp add: heap_rep_find_spec [OF rep] f)
  then have "mem_alloc L self st n = Some (b + 4, st\<lparr>words := m3\<rparr>)"
    using n(1) mtx nn m(1-3)
    by (cases "b2 = 0") (simp_all add: mem_alloc_def mem_block_payload_def Let_def)
  moreover have "case alloc_spec ?s bs fr of (r, bs', fr') \<Rightarrow> heap_rep L m3 bs' fr'"
    using m(4) unfolding bs [symmetric] by (simp only: alloc_spec_def f option.case sz prod.case)
  moreover have "keeps (words st) m3 bs" using m(5) unfolding bs keeps_def by simp
  ultimately show ?thesis by (rule that)
qed

lemma coalesced_alloc_spec:
  assumes rep: "heap_rep L m bs fr" and co: "coalesced bs" and sp: "alloc_spec s bs fr = (r, bs', fr')"
  shows "coalesced bs'"
proof (cases "find (\<lambda>b. s \<le> blk_size bs b) fr")
  case None
  with sp co show ?thesis by (simp add: alloc_spec_def)
next
  case (Some b)
  then have "b \<in> set fr" using find_SomeD by fast
  then obtain sz xs ys where bs: "bs = xs @ (b, sz, False) # ys"
    by (rule heap_rep_free_block [OF rep])
  have "tiles (mem_heap L) (xs @ (b, sz, False) # ys) (mem_heap_end L)"
    using rep bs by (simp add: heap_rep_def)
  note c = carve_mid [OF this, of s]
  have "bs' = carve b s bs" using Some sp by (simp add: alloc_spec_def)
  then show ?thesis unfolding bs c using coalesced_carve [OF co [unfolded bs]] by simp
qed

lemma heap_inv_alloc:
  assumes "heap_inv L st bs fr" and "n \<noteq> 0" and "unat n + 11 < 2 ^ 32"
  shows "case alloc_spec (mem_convert_to_block_size n) bs fr of
      (None, _, _) \<Rightarrow> mem_alloc L self st n = Some (0, st)
    | (Some b, bs', fr') \<Rightarrow>
        \<exists>st'. mem_alloc L self st n = Some (mem_block_payload b, st') \<and> heap_inv L st' bs' fr' \<and>
          keeps (words st) (words st') bs"
proof -
  let ?s = "mem_convert_to_block_size n"
  have rep: "heap_rep L (words st) bs fr" and co: "coalesced bs"
    using assms(1) by (simp_all add: heap_inv_def)
  obtain mtx where mtx: "mutex_set_owner (mem_mutex st) self = Some mtx"
    "mutex_clear_owner mtx self = Some (mem_mutex st)"
    by (rule heap_inv_mutex [OF assms(1)])
  show ?thesis
  proof (cases "find (\<lambda>b. ?s \<le> blk_size bs b) fr")
    case None
    then show ?thesis
      using heap_rep_find_spec [OF rep, of ?s] mtx assms(2)
      by (simp add: alloc_spec_def mem_alloc_def Let_def)
  next
    case (Some b)
    obtain m where "mem_alloc L self st n = Some (b + 4, st\<lparr>words := m\<rparr>)"
      "case alloc_spec ?s bs fr of (r, bs', fr') \<Rightarrow> heap_rep L m bs' fr'"
      "keeps (words st) m bs"
      by (rule heap_rep_alloc [OF rep Some assms(2,3) mtx])
    moreover have "coalesced (fst (snd (alloc_spec ?s bs fr)))"
      by (rule coalesced_alloc_spec [OF rep co, of ?s "fst (alloc_spec ?s bs fr)" _
            "snd (snd (alloc_spec ?s bs fr))"]) simp
    ultimately show ?thesis
      using assms(1) Some
      by (auto simp: alloc_spec_def heap_inv_def mem_block_payload_def)
  qed
qed

section \<open>Liberation\<close>

lemma merge_free_coalesced: "coalesced bs \<Longrightarrow> merge_free bs = bs"
proof (induction bs)
  case (Cons x bs)
  obtain c t cl where x: "x = (c, t, cl)" by (cases x)
  have "coalesced bs" using Cons.prems x by (cases bs) auto
  with Cons x show ?case by (cases cl; cases bs) auto
qed simp

lemma merge_free_append:
  "coalesced (xs @ [(b, s, False)]) \<Longrightarrow>
   merge_free (xs @ (b, s, False) # ys) = xs @ merge_free ((b, s, False) # ys)"
proof (induction xs)
  case (Cons x xs)
  obtain c t cl where x: "x = (c, t, cl)" by (cases x)
  have "coalesced (xs @ [(b, s, False)])" using Cons.prems x by (cases xs) auto
  with Cons x show ?case by (cases cl; cases xs) auto
qed simp

text \<open>Merging free blocks leaves the allocated blocks as they are.\<close>

definition in_use :: "blk list \<Rightarrow> blk list" where
  "in_use bs = filter (\<lambda>(b, sz, al). al) bs"

lemma in_use_simps [simp]:
  "in_use [] = []" "in_use ((b, sz, al) # bs) = (if al then (b, sz, al) # in_use bs else in_use bs)"
  "in_use (xs @ ys) = in_use xs @ in_use ys"
  by (simp_all add: in_use_def)

lemma in_use_merge_free [simp]: "in_use (merge_free bs) = in_use bs"
  by (induction bs rule: merge_free.induct) auto

lemma user_cell_in_use: "user_cell bs a \<longleftrightarrow> user_cell (in_use bs) a"
  by (auto simp: user_cell_def in_use_def)

lemma coalesced_size: "coalesced (xs @ (b, s, al) # ys) \<longleftrightarrow> coalesced (xs @ (b, s', al) # ys)"
  by (induction xs rule: coalesced.induct) (auto, (cases ys; auto)+)

lemma coalesced_before:
  assumes "coalesced xs" and "\<And>xs' p ps. xs \<noteq> xs' @ [(p, ps, False)]"
  shows "coalesced (xs @ [(b, s, False)])"
proof (cases xs rule: rev_cases)
  case (snoc ws w)
  obtain p ps pl where w: "w = (p, ps, pl)" by (cases w)
  with snoc assms(2) have "pl" by (cases pl) auto
  with assms(1) snoc w show ?thesis
    using coalesced_append [of ws p ps pl "[(b, s, False)]"] by simp
qed simp

text \<open>The neighbours of a block, as the program computes them from the boundary tags.\<close>

lemma heap_rep_prev_none:
  assumes "heap_rep L m ((b, sz, al) # ys) fr"
  shows "mem_block_prev L m b = 0"
  using assms by (simp add: heap_rep_def mem_block_prev_def)

lemma heap_rep_prev:
  assumes rep: "heap_rep L m (xs @ (p, ps, pl) # (b, sz, al) # ys) fr"
  shows "mem_block_prev L m b = p" and "b = p + ps" and "p < b"
proof -
  let ?bs = "xs @ (p, ps, pl) # (b, sz, al) # ys"
  have t: "tiles (mem_heap L) ?bs (mem_heap_end L)" and ok: "tags_ok m ?bs"
    using rep by (simp_all add: heap_rep_def)
  have f: "tiles (p + ps) ((b, sz, al) # ys) (mem_heap_end L)" "unat (p + ps) = unat p + unat ps"
    "unat (mem_heap L) \<le> unat p" "16 \<le> unat ps" "4 dvd unat ps"
    using tiles_focus [OF t] by simp_all
  then show e: "b = p + ps" by simp
  with f show "p < b" by (simp add: word_less_nat_alt)
  have "b \<noteq> mem_heap L" using e f(2-4) by auto
  moreover have "m (b - 4) = tag ps pl" using ok e by simp
  then have "mem_btag_size m (b - 4) = ps" by (simp add: mem_btag_size_def tag_size f(5))
  ultimately show "mem_block_prev L m b = p"
    using e by (simp add: mem_block_prev_def mem_block_header_btag_def)
qed

lemma heap_rep_next:
  assumes rep: "heap_rep L m (xs @ (b, sz, al) # ys) fr"
  shows "mem_block_next L m b = (case ys of [] \<Rightarrow> 0 | (c, _) # _ \<Rightarrow> c)"
    and "ys = (c, tz, cl) # zs \<Longrightarrow> c = b + sz \<and> b < c"
proof -
  have t: "tiles (mem_heap L) (xs @ (b, sz, al) # ys) (mem_heap_end L)"
    using rep by (simp add: heap_rep_def)
  note f = tiles_focus [OF t]
  have e: "mem_block_end m b = b + sz" by (rule heap_rep_reads(3) [OF rep, of b sz al]) simp
  show "mem_block_next L m b = (case ys of [] \<Rightarrow> 0 | (c, _) # _ \<Rightarrow> c)"
  proof (cases ys)
    case Nil
    with f(2) e show ?thesis by (simp add: mem_block_next_def)
  next
    case (Cons y zs)
    obtain c tz cl where y: "y = (c, tz, cl)" by (cases y)
    from f(2) Cons y have "c = b + sz" "unat (b + sz) + unat tz \<le> unat (mem_heap_end L)" "16 \<le> unat tz"
      by auto
    then have "b + sz \<noteq> mem_heap_end L" by auto
    with Cons y e \<open>c = b + sz\<close> show ?thesis by (simp add: mem_block_next_def)
  qed
  assume "ys = (c, tz, cl) # zs"
  with f show "c = b + sz \<and> b < c" by (auto simp: word_less_nat_alt)
qed

text \<open>
  The first half of \<^verbatim>\<open>mem_free\<close>: the block has been added to the free list, and is merged
  with the block before it if that is free.  The result is again a free block at the head of the
  free list, whose predecessor is not free.
\<close>

definition mem_free_merge_prev :: "layout \<Rightarrow> memory \<Rightarrow> u32 \<Rightarrow> (u32 \<times> memory) option" where
  "mem_free_merge_prev L m block =
     (let tmp = mem_block_prev L m block in
      if tmp \<noteq> 0 then do {
        (tmp, m) \<leftarrow> mem_block_merge L m block tmp;
        Some (if tmp \<noteq> 0 then tmp else block, m)
      } else Some (block, m))"

definition mem_free_merge_next :: "layout \<Rightarrow> memory \<Rightarrow> u32 \<Rightarrow> memory option" where
  "mem_free_merge_next L m block =
     (let tmp = mem_block_next L m block in
      if tmp \<noteq> 0 then map_option snd (mem_block_merge L m block tmp) else Some m)"

lemma remove1_filter: "distinct xs \<Longrightarrow> remove1 x xs = filter (\<lambda>y. y \<noteq> x) xs"
  by (auto simp: distinct_remove1_removeAll removeAll_filter_not_eq intro: filter_cong)

lemma heap_rep_merge_prev:
  assumes rep: "heap_rep L m (xs @ (b, sz, False) # ys) (b # fr)" and co: "coalesced xs"
  obtains m' q qs xs' where "mem_free_merge_prev L m b = Some (q, m')"
    and "heap_rep L m' (xs' @ (q, qs, False) # ys) (q # filter (\<lambda>c. c \<noteq> q) fr)"
    and "keeps m m' (xs @ ys)" and "coalesced (xs' @ [(q, qs, False)])"
    and "merge_free (xs @ (b, sz, False) # ys) = xs' @ merge_free ((q, qs, False) # ys)"
    and "q \<le> b" and "b < q + qs"
proof (cases "\<exists>xs' p ps. xs = xs' @ [(p, ps, False)]")
  case True
  then obtain xs' p ps where xs: "xs = xs' @ [(p, ps, False)]" by blast
  have rep': "heap_rep L m (xs' @ (p, ps, False) # (b, sz, False) # ys) (b # fr)"
    using rep xs by simp
  note P = heap_rep_prev [OF rep']
  obtain m' where m': "mem_block_merge L m b p = Some (p, m')"
    "heap_rep L m' (xs' @ (p, ps + sz, False) # ys) (p # remove1 p (remove1 b (b # fr)))"
    "keeps m m' (xs' @ ys)"
    by (rule heap_rep_merge [OF rep', of b p]) auto
  have dist: "distinct fr" using rep by (simp add: heap_rep_def)
  have p0: "p \<noteq> 0" by (rule heap_rep_not_null(1) [OF rep', of p ps False]) simp
  have "coalesced (xs' @ [(p, ps + sz, False)])"
    using co xs coalesced_size [of xs' p ps False "[]"] by simp
  moreover have "coalesced (xs' @ [(p, ps, False)])" using co xs by simp
  then have "merge_free (xs @ (b, sz, False) # ys) = xs' @ merge_free ((p, ps + sz, False) # ys)"
    by (simp add: xs merge_free_append)
  moreover have "mem_free_merge_prev L m b = Some (p, m')"
    using P(1) p0 m'(1) by (simp add: mem_free_merge_prev_def)
  moreover have "b < p + (ps + sz)"
  proof -
    have "unat b + unat sz < 2 ^ 32" "16 \<le> unat sz"
      using heap_blk(1,3) [of L "xs @ (b, sz, False) # ys" b sz False] rep by (auto simp: heap_rep_def)
    then have "unat (b + sz) = unat b + unat sz" by (simp add: unat_add_no_wrap)
    with \<open>16 \<le> unat sz\<close> show ?thesis using P(2) by (simp add: word_less_nat_alt add.assoc)
  qed
  ultimately show ?thesis
    using that [of p m' xs' "ps + sz"] m'(2,3) P(3) xs dist by (simp add: remove1_filter keeps_def)
next
  case False
  then have c: "coalesced (xs @ [(b, sz, False)])" using coalesced_before [OF co] by blast
  have nb: "b \<notin> set fr" using rep by (simp add: heap_rep_def)
  then have fr: "filter (\<lambda>c. c \<noteq> b) fr = fr" by (auto simp: filter_id_conv)
  have "mem_free_merge_prev L m b = Some (b, m)"
  proof (cases xs rule: rev_cases)
    case Nil
    with heap_rep_prev_none [of L m b sz False ys "b # fr"] rep show ?thesis
      by (simp add: mem_free_merge_prev_def)
  next
    case (snoc ws w)
    obtain p ps pl where w: "w = (p, ps, pl)" by (cases w)
    with snoc False have pl by (cases pl) auto
    have rep': "heap_rep L m (ws @ (p, ps, pl) # (b, sz, False) # ys) (b # fr)"
      using rep snoc w by simp
    note P = heap_rep_prev [OF rep']
    have "mem_block_merge L m b p = Some (0, m)"
      by (rule heap_rep_merge_allocated [OF rep', of b sz False p ps pl]) (use P(3) \<open>pl\<close> in auto)
    with P(1) show ?thesis by (simp add: mem_free_merge_prev_def)
  qed
  moreover have "b < b + sz"
    using tiles_focus(3,5) [of "mem_heap L" xs b sz False ys "mem_heap_end L"] rep
    by (simp add: heap_rep_def word_less_nat_alt)
  ultimately show ?thesis
    using that [of b m xs sz] rep c fr merge_free_append [OF c] by simp
qed

lemma heap_rep_merge_next:
  assumes rep: "heap_rep L m (xs @ (q, qs, False) # ys) (q # fr)"
    and co: "coalesced (xs @ [(q, qs, False)])" "coalesced ys"
  obtains m' qs' ys' where "mem_free_merge_next L m q = Some m'"
    and "heap_rep L m' (xs @ (q, qs', False) # ys')
      (q # filter (\<lambda>c. c \<in> set (free_addrs (xs @ (q, qs', False) # ys'))) fr)"
    and "keeps m m' (xs @ ys)" and "coalesced (xs @ (q, qs', False) # ys')"
    and "merge_free ((q, qs, False) # ys) = (q, qs', False) # ys'"
    and "unat (q + qs) \<le> unat (q + qs')"
proof (cases "\<exists>c cs ys'. ys = (c, cs, False) # ys'")
  case True
  then obtain c cs ys' where ys: "ys = (c, cs, False) # ys'" by blast
  have rep': "heap_rep L m (xs @ (q, qs, False) # (c, cs, False) # ys') (q # fr)"
    using rep ys by simp
  note N = heap_rep_next [OF rep']
  have dist: "distinct fr" "q \<notin> set fr"
    and fr: "set (q # fr) = set (free_addrs (xs @ (q, qs, False) # (c, cs, False) # ys'))"
    using rep' by (simp_all add: heap_rep_def)
  have qc: "c = q + qs" "q < c" using N(2) [OF refl] by blast+
  obtain m' where m': "mem_block_merge L m q c = Some (q, m')"
    "heap_rep L m' (xs @ (q, qs + cs, False) # ys') (q # remove1 q (remove1 c (q # fr)))"
    "keeps m m' (xs @ ys')"
    by (rule heap_rep_merge [OF rep', of q c]) auto
  have c0: "c \<noteq> 0" by (rule heap_rep_not_null(1) [OF rep', of c cs False]) simp
  have t: "tiles (mem_heap L) ((xs @ [(q, qs, False)]) @ (c, cs, False) # ys') (mem_heap_end L)"
    using rep' by (simp add: heap_rep_def)
  have cn: "c \<notin> set (free_addrs (xs @ (q, qs + cs, False) # ys'))"
    using focus_addr_unique [OF t, of _ False] qc by (auto simp: in_free_addrs)
  have rem: "remove1 q (remove1 c (q # fr)) =
      filter (\<lambda>x. x \<in> set (free_addrs (xs @ (q, qs + cs, False) # ys'))) fr"
    using qc cn fr dist by (auto simp: remove1_filter intro!: filter_cong)
  have y': "coalesced ys'" "coalesced ((q, qs + cs, False) # ys')"
    using co(2) ys by (cases ys'; auto)+
  then have mf: "merge_free ((q, qs, False) # ys) = (q, qs + cs, False) # ys'"
    using merge_free_coalesced [OF y'(2)] ys by simp
  have co': "coalesced (xs @ (q, qs + cs, False) # ys')"
    using co(1) y'(2) coalesced_append [of xs q "qs + cs" False ys']
      coalesced_size [of xs q qs False "[]" "qs + cs"] by simp
  have u: "unat (q + qs) \<le> unat (q + (qs + cs))"
    using qc(1) tiles_focus(3) [OF t] by (simp add: add.assoc)
  have "mem_free_merge_next L m q = Some m'"
    using N(1) c0 m'(1) by (simp add: mem_free_merge_next_def)
  then show ?thesis
    by (rule that [of m' "qs + cs" ys'])
      (use m'(2,3) co' mf u ys rem in \<open>simp_all add: keeps_def\<close>)
next
  case False
  have dist: "distinct (q # fr)"
    and fr: "set (q # fr) = set (free_addrs (xs @ (q, qs, False) # ys))"
    using rep by (simp_all add: heap_rep_def)
  then have f: "filter (\<lambda>x. x \<in> set (free_addrs (xs @ (q, qs, False) # ys))) fr = fr"
    by (auto simp: filter_id_conv)
  have "coalesced ((q, qs, False) # ys)" using False co(2) by (cases ys) auto
  then have c: "coalesced (xs @ (q, qs, False) # ys)" "merge_free ((q, qs, False) # ys) = (q, qs, False) # ys"
    using co(1) coalesced_append [of xs q qs False ys] merge_free_coalesced by blast+
  have "mem_free_merge_next L m q = Some m"
  proof (cases ys)
    case Nil
    then show ?thesis using heap_rep_next(1) [OF rep] by (simp add: mem_free_merge_next_def)
  next
    case (Cons y zs)
    obtain d ds dl where y: "y = (d, ds, dl)" by (cases y)
    with False Cons have dl by (cases dl) auto
    have "q < d" using heap_rep_next(2) [OF rep] Cons y by blast
    then have "mem_block_merge L m q d = Some (0, m)"
      using heap_rep_merge_allocated [OF rep, of q qs False d ds dl] Cons y \<open>dl\<close> by simp
    then show ?thesis using heap_rep_next(1) [OF rep] Cons y by (simp add: mem_free_merge_next_def)
  qed
  then show ?thesis
    by (rule that [of m qs ys]) (use rep c f in simp_all)
qed

lemma mem_free_eq:
  assumes "ptr \<noteq> 0"
  shows "mem_free L self s ptr = do {
        assert (mem_aligned ptr);
        assert (mem_block_inside_heap L (words s) (mem_block_from_payload ptr));
        mtx \<leftarrow> mutex_set_owner (mem_mutex s) self;
        m \<leftarrow> mem_free_list_add (words s) (mem_free_list L) (mem_block_from_payload ptr);
        (block, m) \<leftarrow> mem_free_merge_prev L m (mem_block_from_payload ptr);
        m \<leftarrow> mem_free_merge_next L m block;
        mtx \<leftarrow> mutex_clear_owner mtx self;
        Some (s\<lparr>words := m, mem_mutex := mtx\<rparr>)
      }"
  using assms by (simp add: mem_free_def mem_free_merge_prev_def mem_free_merge_next_def Let_def)

lemma free_addrs_le: "tiles a bs e \<Longrightarrow> c \<in> set (free_addrs bs) \<Longrightarrow> unat a \<le> unat c \<and> unat c < unat e"
  using tiles_member by (fastforce simp: in_free_addrs)

text \<open>The specification's new free block is the merged one.\<close>

lemma free_spec_last:
  assumes t: "tiles a (xs @ (q, qs, False) # ys) e" and b: "q \<le> b" "b < q + qs"
  shows "last (filter (\<lambda>c. c \<le> b) (free_addrs (xs @ (q, qs, False) # ys))) = q"
proof -
  have "filter (\<lambda>c. c \<le> b) (free_addrs ys) = []"
    using free_addrs_le [OF tiles_focus(2) [OF t]] b
    by (fastforce simp: filter_empty_conv word_le_nat_alt word_less_nat_alt)
  with b show ?thesis by simp
qed

lemma mem_block_inside_heap_blk:
  assumes "heap_rep L m bs fr" and "(b, sz, al) \<in> set bs"
  shows "mem_block_inside_heap L m b"
proof -
  have L: "layout_ok L" and t: "tiles (mem_heap L) bs (mem_heap_end L)"
    using assms by (simp_all add: heap_rep_def)
  note B = heap_blk [OF L t assms(2)]
  have "unat (b + sz) = unat b + unat sz" using B(3) by (simp add: unat_add_no_wrap)
  then show ?thesis
    using B blk_addr(1) [OF B(1,3)] heap_rep_reads(3) [OF assms]
    by (simp add: mem_block_inside_heap_def mem_block_payload_def word_le_nat_alt word_less_nat_alt)
qed

lemma heap_inv_free:
  assumes inv: "heap_inv L st bs fr" and b: "(b, sz, True) \<in> set bs"
  obtains st' where "mem_free L self st (mem_block_payload b) = Some st'"
    and "case free_spec b bs fr of (bs', fr') \<Rightarrow>
      heap_inv L st' bs' fr' \<and> keeps (words st) (words st') bs'"
proof -
  obtain xs ys where bs: "bs = xs @ (b, sz, True) # ys" using b by (metis split_list)
  have rep: "heap_rep L (words st) (xs @ (b, sz, True) # ys) fr"
    and co: "coalesced xs" "coalesced ys"
    using inv bs coalesced_appendD [of xs "(b, sz, True) # ys"]
    by (auto simp: heap_inv_def coalesced_Cons_True)
  obtain mtx where mtx: "mutex_set_owner (mem_mutex st) self = Some mtx"
    "mutex_clear_owner mtx self = Some (mem_mutex st)"
    by (rule heap_inv_mutex [OF inv])
  obtain m1 where 1: "mem_free_list_add (words st) (mem_free_list L) b = Some m1"
    "heap_rep L m1 (xs @ (b, sz, False) # ys) (b # fr)" "keeps (words st) m1 (xs @ ys)"
    by (rule heap_rep_add [OF rep])
  obtain m2 q qs xs' where 2: "mem_free_merge_prev L m1 b = Some (q, m2)"
    "heap_rep L m2 (xs' @ (q, qs, False) # ys) (q # filter (\<lambda>c. c \<noteq> q) fr)"
    "keeps m1 m2 (xs @ ys)" "coalesced (xs' @ [(q, qs, False)])"
    "merge_free (xs @ (b, sz, False) # ys) = xs' @ merge_free ((q, qs, False) # ys)"
    "q \<le> b" "b < q + qs"
    by (rule heap_rep_merge_prev [OF 1(2) co(1)])
  obtain m3 qs' ys' where 3: "mem_free_merge_next L m2 q = Some m3"
    "heap_rep L m3 (xs' @ (q, qs', False) # ys') (q # filter
       (\<lambda>c. c \<in> set (free_addrs (xs' @ (q, qs', False) # ys'))) (filter (\<lambda>c. c \<noteq> q) fr))"
    "keeps m2 m3 (xs' @ ys)" "coalesced (xs' @ (q, qs', False) # ys')"
    "merge_free ((q, qs, False) # ys) = (q, qs', False) # ys'" "unat (q + qs) \<le> unat (q + qs')"
    by (rule heap_rep_merge_next [OF 2(2,4) co(2)])
  let ?bs = "xs' @ (q, qs', False) # ys'"
  have t: "tiles (mem_heap L) ?bs (mem_heap_end L)" using 3(2) by (simp add: heap_rep_def)
  have "last (filter (\<lambda>c. c \<le> b) (free_addrs ?bs)) = q"
    by (rule free_spec_last [OF t]) (use 2(6,7) 3(6) in \<open>auto simp: word_less_nat_alt\<close>)
  moreover have "merge_free (mark_free b bs) = ?bs"
    using mark_free_mid [of "mem_heap L" xs b sz True ys "mem_heap_end L"] rep 2(5) 3(5)
    by (simp add: heap_rep_def bs)
  ultimately have sp: "free_spec b bs fr = (?bs, q # filter
       (\<lambda>c. c \<in> set (free_addrs (xs' @ (q, qs', False) # ys'))) (filter (\<lambda>c. c \<noteq> q) fr))"
    by (simp add: free_spec_def Let_def conj_commute)
  have inb: "(b, sz, True) \<in> set (xs @ (b, sz, True) # ys)" by simp
  have "mem_block_payload b \<noteq> 0" by (rule heap_rep_payload_not_null [OF rep inb])
  then have "mem_free L self st (mem_block_payload b) = Some (st\<lparr>words := m3\<rparr>)"
    using mem_block_inside_heap_blk [OF rep inb] heap_rep_not_null(3) [OF rep inb] mtx 1(1) 2(1) 3(1)
    by (simp add: mem_free_eq)
  then show ?thesis
  proof (rule that)
    have "merge_free (xs @ (b, sz, False) # ys) = ?bs" "merge_free (xs' @ (q, qs, False) # ys) = ?bs"
      using 2(5) 3(5) merge_free_append [OF 2(4)] by simp_all
    from this [THEN arg_cong [where f = in_use]]
    have "in_use (xs @ ys) = in_use ?bs" "in_use (xs' @ ys) = in_use ?bs" by simp_all
    then have users: "user_cell (xs @ ys) a \<and> user_cell (xs' @ ys) a" if "user_cell ?bs a" for a
      using that user_cell_in_use by metis
    have "keeps (words st) m3 ?bs"
      using 1(3) 2(3) 3(3) users unfolding keeps_def by metis
    then show "case free_spec b bs fr of (bs', fr') \<Rightarrow>
        heap_inv L (st\<lparr>words := m3\<rparr>) bs' fr' \<and> keeps (words st) (words (st\<lparr>words := m3\<rparr>)) bs'"
      using sp 3(2,4) inv by (simp add: heap_inv_def)
  qed
qed

section \<open>Specification-level facts\<close>

definition live :: "blk list \<Rightarrow> u32 set" where
  "live bs = {b. \<exists>sz. (b, sz, True) \<in> set bs}"

lemma live_simps [simp]:
  "live [] = {}" "live ((b, sz, al) # bs) = (if al then insert b (live bs) else live bs)"
  "live (xs @ ys) = live xs \<union> live ys"
  by (auto simp: live_def)

lemma live_in_use: "live bs = live (in_use bs)"
  by (auto simp: live_def in_use_def)

lemma live_merge_free: "live (merge_free bs) = live bs"
  using live_in_use [of "merge_free bs"] live_in_use [of bs] by simp

lemma mark_free_skip:
  "b \<notin> fst ` set xs \<Longrightarrow> mark_free b (xs @ (b, sz, al) # ys) = xs @ (b, sz, False) # ys"
  by (induction xs) auto

lemma alloc_spec_mid:
  assumes rep: "heap_rep L m bs fr" and sp: "alloc_spec s bs fr = (Some b, bs', fr')"
  obtains xs sz ys where "bs = xs @ (b, sz, False) # ys" and "s \<le> sz" and "b \<notin> fst ` set (xs @ ys)"
    and "bs' = xs @ (if unat sz < unat s + 16 then [(b, sz, True)]
      else [(b, s, True), (b + s, sz - s, False)]) @ ys"
proof -
  have f: "find (\<lambda>b. s \<le> blk_size bs b) fr = Some b" and bs': "bs' = carve b s bs"
    using sp by (auto simp: alloc_spec_def split: option.splits)
  then have b: "b \<in> set fr" "s \<le> blk_size bs b" using find_SomeD [OF f] by auto
  obtain sz xs ys where bs: "bs = xs @ (b, sz, False) # ys"
    by (rule heap_rep_free_block [OF rep b(1)])
  have t: "tiles (mem_heap L) (xs @ (b, sz, False) # ys) (mem_heap_end L)"
    using rep bs by (simp add: heap_rep_def)
  have "s \<le> sz" using b(2) blk_size_mid [OF t] bs by simp
  moreover have "b \<notin> fst ` set (xs @ ys)" using focus_addr_unique [OF t] by force
  ultimately show ?thesis using that bs bs' carve_mid [OF t, of s] by blast
qed

lemma live_alloc_spec:
  assumes rep: "heap_rep L m bs fr" and sp: "alloc_spec s bs fr = (Some b, bs', fr')"
  shows "live bs' = insert b (live bs)" and "b \<notin> live bs" and "\<exists>sz. (b, sz, True) \<in> set bs' \<and> s \<le> sz"
proof -
  obtain xs sz ys where "bs = xs @ (b, sz, False) # ys" "s \<le> sz" "b \<notin> fst ` set (xs @ ys)"
    "bs' = xs @ (if unat sz < unat s + 16 then [(b, sz, True)]
      else [(b, s, True), (b + s, sz - s, False)]) @ ys"
    by (rule alloc_spec_mid [OF rep sp])
  then show "live bs' = insert b (live bs)" "b \<notin> live bs"
    "\<exists>sz. (b, sz, True) \<in> set bs' \<and> s \<le> sz"
    by (auto simp: live_def split: if_splits) force+
qed

text \<open>Freeing what was just allocated gives back the heap as it was.\<close>

lemma free_alloc_spec:
  assumes rep: "heap_rep L m bs fr" and sp: "alloc_spec s bs fr = (Some b, bs', fr')"
    and co: "coalesced bs"
  shows "merge_free (mark_free b bs') = bs"
proof -
  obtain xs sz ys where m: "bs = xs @ (b, sz, False) # ys" "s \<le> sz" "b \<notin> fst ` set (xs @ ys)"
    "bs' = xs @ (if unat sz < unat s + 16 then [(b, sz, True)]
      else [(b, s, True), (b + s, sz - s, False)]) @ ys"
    by (rule alloc_spec_mid [OF rep sp])
  have mk: "mark_free b (xs @ (b, tz, True) # zs) = xs @ (b, tz, False) # zs" for tz zs
    by (rule mark_free_skip) (use m(3) in auto)
  have c: "coalesced (xs @ [(b, s, False)])" "coalesced ((b, sz, False) # ys)"
    using co m(1) coalesced_append [of xs b sz False ys] coalesced_size [of xs b sz False "[]" s]
    by auto
  show ?thesis
  proof (cases "unat sz < unat s + 16")
    case True
    then show ?thesis using m(4) mk [of sz ys] merge_free_coalesced [OF co] m(1) by simp
  next
    case False
    then show ?thesis
      using m(4) mk [of s "(b + s, sz - s, False) # ys"] merge_free_append [OF c(1)]
        merge_free_coalesced [OF c(2)] m(1)
      by simp
  qed
qed

lemma live_free_spec:
  assumes rep: "heap_rep L m bs fr" and b: "b \<in> live bs"
  shows "live (fst (free_spec b bs fr)) = live bs - {b}"
proof -
  obtain xs sz ys where bs: "bs = xs @ (b, sz, True) # ys"
    using b split_list unfolding live_def by fastforce
  have t: "tiles (mem_heap L) (xs @ (b, sz, True) # ys) (mem_heap_end L)"
    using rep bs by (simp add: heap_rep_def)
  have "b \<notin> live (xs @ ys)" using focus_addr_unique [OF t] by (auto simp: live_def)
  moreover have "live (merge_free (mark_free b bs)) = live (xs @ ys)"
    unfolding bs mark_free_mid [OF t] live_merge_free by simp
  ultimately show ?thesis unfolding bs by (auto simp: free_spec_def Let_def)
qed

text \<open>A user may write the payload of a live block.\<close>

lemma user_cell_not_tag:
  assumes L: "layout_ok L" and t: "tiles (mem_heap L) bs (mem_heap_end L)" and u: "user_cell bs a"
    and c: "(c, tz, cl) \<in> set bs"
  shows "a \<noteq> c" and "a \<noteq> c + tz - 4"
proof -
  obtain b sz where b: "(b, sz, True) \<in> set bs" "unat b + 4 \<le> unat a" "unat a < unat b + unat sz - 4"
    using u by (auto simp: user_cell_def)
  have "unat a \<noteq> unat c \<and> unat a \<noteq> unat (c + tz - 4)"
    using tiles_pair [OF t b(1) c] b(2,3) blk_addr(3) [OF heap_blk(1,3) [OF L t c]]
      heap_blk(1) [OF L t c] by auto
  then show "a \<noteq> c" "a \<noteq> c + tz - 4" by auto
qed

lemma heap_rep_user_write:
  assumes rep: "heap_rep L m bs fr" and u: "user_cell bs a"
  shows "heap_rep L (m(a := v)) bs fr"
proof -
  have L: "layout_ok L" and t: "tiles (mem_heap L) bs (mem_heap_end L)" and ok: "tags_ok m bs"
    and d: "dll m (mem_free_list L) (map mem_block_payload fr)"
    and fr: "distinct fr" "set fr = set (free_addrs bs)"
    using rep by (simp_all add: heap_rep_def)
  have "tags_ok (m(a := v)) bs"
    using ok user_cell_not_tag [OF L t u] unfolding tags_ok_def by (metis fun_upd_other)
  moreover have "dll (m(a := v)) (mem_free_list L) (map mem_block_payload fr)"
    by (rule dll_node_cells [OF d]) (use node_cell_not_user [OF L t] u fr in \<open>auto simp: in_free_addrs\<close>)
  ultimately show ?thesis using L t fr by (simp add: heap_rep_def)
qed

end
