(* ===== verification/Mem_Props.thy ===== *)
theory Mem_Props
  imports Mem_Alloc
begin

text \<open>
  The properties of the allocator: refinement of the specification, the safety of every sequence
  of calls that respects the interface (\<open>mem_reach\<close>), the round trip of allocation and
  liberation, and the error paths.
\<close>

section \<open>Sequences of calls\<close>

lemma mem_setup_inv:
  assumes L: "layout_ok L" and o: "owner (mem_mutex st) = None"
  obtains st' where "mem_setup L st = Some st'" and "heap_inv L st' [whole_heap L False] [mem_heap L]"
proof -
  obtain m where m: "mem_free_list_add (mem_free_list_init
      (mem_block_init (words st) (mem_heap L) 33554432) (mem_free_list L)) (mem_free_list L)
      (mem_heap L) = Some m"
    "heap_rep L m [whole_heap L False] [mem_heap L]"
    by (rule heap_rep_add [of L _ "[]" _ _ "[]", simplified, OF heap_rep_setup [OF L]])
  then have "mem_setup L st = Some (st\<lparr>words := m, mem_mutex := mutex_init (mem_mutex st)\<rparr>)"
    by (simp add: mem_setup_def)
  then show ?thesis
    by (rule that) (use m(2) o in \<open>simp add: heap_inv_def mutex_init_def mutex_inv_def\<close>)
qed

text \<open>
  The states a client can reach: after \<^verbatim>\<open>mem_setup\<close>, by allocating, by freeing a pointer it
  holds, and by writing words of the payloads it holds.  The set is that of the pointers held.
  Requests whose rounding overflows are left out here; theorem \<open>mem_alloc_overflow\<close> shows what
  becomes of them.
\<close>

inductive mem_reach :: "layout \<Rightarrow> mem_state \<Rightarrow> u32 set \<Rightarrow> bool" for L where
  reach_setup: "owner (mem_mutex st) = None \<Longrightarrow> mem_setup L st = Some st' \<Longrightarrow> mem_reach L st' {}"
| reach_alloc: "mem_reach L st P \<Longrightarrow> unat n + 11 < 2 ^ 32 \<Longrightarrow> mem_alloc L self st n = Some (ptr, st') \<Longrightarrow>
    mem_reach L st' (if ptr = 0 then P else insert ptr P)"
| reach_free: "mem_reach L st P \<Longrightarrow> ptr \<in> P \<Longrightarrow> mem_free L self st ptr = Some st' \<Longrightarrow>
    mem_reach L st' (P - {ptr})"
| reach_free_null: "mem_reach L st P \<Longrightarrow> mem_free L self st 0 = Some st' \<Longrightarrow> mem_reach L st' P"
| reach_write: "mem_reach L st P \<Longrightarrow> ptr \<in> P \<Longrightarrow> unat ptr \<le> unat a \<Longrightarrow> 4 dvd unat a \<Longrightarrow>
    unat a < unat ptr + unat (mem_block_size (words st) (mem_block_from_payload ptr)) - 8 \<Longrightarrow>
    mem_reach L (st\<lparr>words := (words st)(a := v)\<rparr>) P"

lemma payload_inj: "inj mem_block_payload"
  by (simp add: inj_def mem_block_payload_def)

lemma mem_reach_inv:
  assumes "mem_reach L st P" and L: "layout_ok L"
  shows "\<exists>bs fr. heap_inv L st bs fr \<and> P = mem_block_payload ` live bs"
  using assms(1)
proof induction
  case (reach_setup st st')
  then obtain "heap_inv L st' [whole_heap L False] [mem_heap L]"
    using mem_setup_inv [OF L, of st] by auto
  then show ?case by fastforce
next
  case (reach_alloc st P n self ptr st')
  then obtain bs fr where inv: "heap_inv L st bs fr" and P: "P = mem_block_payload ` live bs" by blast
  show ?case
  proof (cases "n = 0")
    case True
    then show ?thesis using reach_alloc.hyps inv P by (auto simp: mem_alloc_def)
  next
    case False
    obtain r bs' fr' where sp: "alloc_spec (mem_convert_to_block_size n) bs fr = (r, bs', fr')"
      by (cases "alloc_spec (mem_convert_to_block_size n) bs fr")
    note A = heap_inv_alloc [OF inv False reach_alloc.hyps(2), unfolded sp prod.case, of self]
    show ?thesis
    proof (cases r)
      case None
      then show ?thesis using A reach_alloc.hyps inv P by auto
    next
      case (Some b)
      with A obtain st'' where r: "mem_alloc L self st n = Some (mem_block_payload b, st'')"
        and inv': "heap_inv L st'' bs' fr'" by auto
      have rep: "heap_rep L (words st) bs fr" "heap_rep L (words st'') bs' fr'"
        using inv inv' by (simp_all add: heap_inv_def)
      note l = live_alloc_spec [OF rep(1) sp [unfolded Some]]
      have "mem_block_payload b \<noteq> 0" using l(3) heap_rep_payload_not_null [OF rep(2)] by blast
      then have "heap_inv L st' bs' fr' \<and>
          (if ptr = 0 then P else insert ptr P) = mem_block_payload ` live bs'"
        using r reach_alloc.hyps(3) inv' P l(1) by auto
      then show ?thesis by blast
    qed
  qed
next
  case (reach_free st P ptr self st')
  then obtain bs fr where inv: "heap_inv L st bs fr" and P: "P = mem_block_payload ` live bs" by blast
  then obtain b sz where b: "ptr = mem_block_payload b" "(b, sz, True) \<in> set bs"
    using reach_free.hyps(2) by (auto simp: live_def)
  obtain st'' where r: "mem_free L self st (mem_block_payload b) = Some st''"
    and inv': "case free_spec b bs fr of (bs', fr') \<Rightarrow> heap_inv L st'' bs' fr' \<and>
      keeps (words st) (words st'') bs'"
    by (rule heap_inv_free [OF inv b(2)])
  have "live (fst (free_spec b bs fr)) = live bs - {b}"
    by (rule live_free_spec) (use inv b in \<open>auto simp: heap_inv_def live_def\<close>)
  then have "P - {ptr} = mem_block_payload ` live (fst (free_spec b bs fr))"
    using P b(1) by (simp add: image_set_diff [OF payload_inj])
  then show ?case using inv' r reach_free.hyps(3) b(1) by (auto split: prod.splits)
next
  case (reach_free_null st P self st')
  then show ?case by (auto simp: mem_free_def)
next
  case (reach_write st P ptr a v)
  then obtain bs fr where inv: "heap_inv L st bs fr" and P: "P = mem_block_payload ` live bs" by blast
  then obtain b sz where b: "ptr = mem_block_payload b" "(b, sz, True) \<in> set bs"
    using reach_write.hyps(2) by (auto simp: live_def)
  have rep: "heap_rep L (words st) bs fr" using inv by (simp add: heap_inv_def)
  have "mem_block_size (words st) b = sz" by (rule heap_rep_reads(1) [OF rep b(2)])
  then have "user_cell bs a"
    using reach_write.hyps b heap_rep_payload_unat [OF rep b(2)] by (auto simp: user_cell_def)
  then show ?case using heap_rep_user_write [OF rep, of a v] inv P by (auto simp: heap_inv_def)
qed

section \<open>A concrete heap\<close>

definition sample_layout :: layout where
  "sample_layout = \<lparr>mem_heap = 1048576, mem_free_list = 4096\<rparr>"

definition sample_state :: mem_state where
  "sample_state = \<lparr>words = (\<lambda>_. 0), mem_mutex = \<lparr>waiters = [], owner = None, locked = False\<rparr>\<rparr>"

lemma sample_layout_ok: "layout_ok sample_layout"
  by (simp add: layout_ok_def sample_layout_def)

lemma sample_setup:
  obtains st where "mem_setup sample_layout sample_state = Some st"
    and "heap_inv sample_layout st [(1048576, 33554432, False)] [1048576]"
  using mem_setup_inv [OF sample_layout_ok, of sample_state]
  by (auto simp: sample_state_def sample_layout_def)

lemma sample_convert: "mem_convert_to_block_size 100 = 108"
  by (simp add: mem_convert_to_block_size_def P2ROUND_def)

lemma unat_P2ROUND_4: "unat (P2ROUND (n::u32) 4) = (unat n + 3) div 4 * 4 mod 4294967296"
  using unat_P2ROUND [of 2 n] by (simp add: add.commute [of 3 "unat n"])

section \<open>Properties\<close>

text \<open>
  C2: \<^verbatim>\<open>mem_alloc\<close> implements its specification.  For every request that can be rounded
  without overflow it returns (the search ends and no assertion fails): the payload of the first
  block of the free list that is large enough, or \<^verbatim>\<open>NULL\<close> with the state unchanged if
  there is none.  The invariant is kept, and no word of a block in use is written.
\<close>

theorem mem_alloc_refines:
  assumes "heap_inv L st bs fr" and "n \<noteq> 0" and "unat n + 11 < 2 ^ 32"
  shows "case alloc_spec (mem_convert_to_block_size n) bs fr of
      (None, _, _) \<Rightarrow> mem_alloc L self st n = Some (0, st)
    | (Some b, bs', fr') \<Rightarrow>
        \<exists>st'. mem_alloc L self st n = Some (mem_block_payload b, st') \<and> heap_inv L st' bs' fr' \<and>
          keeps (words st) (words st') bs"
  using assms by (rule heap_inv_alloc)

theorem mem_alloc_refines_witness:
  "\<exists>st st'. mem_setup sample_layout sample_state = Some st \<and>
     mem_alloc sample_layout 1 st 100 = Some (1048580, st') \<and>
     heap_inv sample_layout st' [(1048576, 108, True), (1048684, 33554324, False)] [1048684]"
proof -
  obtain st where st: "mem_setup sample_layout sample_state = Some st"
    "heap_inv sample_layout st [(1048576, 33554432, False)] [1048576]" by (rule sample_setup)
  have "alloc_spec 108 [(1048576, 33554432, False)] [1048576] =
    (Some 1048576, [(1048576, 108, True), (1048684, 33554324, False)], [1048684])"
    by (simp add: alloc_spec_def)
  with mem_alloc_refines [OF st(2), of 100 1] st(1) show ?thesis
    by (auto simp: sample_convert mem_block_payload_def)
qed

text \<open>
  C3: \<^verbatim>\<open>mem_free\<close> implements its specification.  For every block in use it returns: no
  assertion fails, the block is free afterwards, merged with the free blocks next to it into the
  first block of the free list, the invariant holds (in particular no two neighbours are free), and
  no word of a block that stays in use is written.
\<close>

theorem mem_free_refines:
  assumes "heap_inv L st bs fr" and "(b, sz, True) \<in> set bs"
  shows "\<exists>st'. mem_free L self st (mem_block_payload b) = Some st' \<and>
    (case free_spec b bs fr of (bs', fr') \<Rightarrow>
       heap_inv L st' bs' fr' \<and> keeps (words st) (words st') bs')"
  by (rule heap_inv_free [OF assms, of self]) (intro exI conjI)

theorem mem_free_refines_witness:
  "\<exists>st st' st''. mem_setup sample_layout sample_state = Some st \<and>
     mem_alloc sample_layout 1 st 100 = Some (1048580, st') \<and>
     mem_free sample_layout 2 st' 1048580 = Some st'' \<and>
     heap_inv sample_layout st'' [(1048576, 33554432, False)] [1048576]"
proof -
  obtain st where st: "mem_setup sample_layout sample_state = Some st"
    "heap_inv sample_layout st [(1048576, 33554432, False)] [1048576]" by (rule sample_setup)
  have "alloc_spec 108 [(1048576, 33554432, False)] [1048576] =
    (Some 1048576, [(1048576, 108, True), (1048684, 33554324, False)], [1048684])"
    by (simp add: alloc_spec_def)
  then obtain st' where st': "mem_alloc sample_layout 1 st 100 = Some (1048580, st')"
    "heap_inv sample_layout st' [(1048576, 108, True), (1048684, 33554324, False)] [1048684]"
    using heap_inv_alloc [OF st(2), of 100 1] by (auto simp: sample_convert mem_block_payload_def)
  have "free_spec 1048576 [(1048576, 108, True), (1048684, 33554324, False)] [1048684] =
    ([(1048576, 33554432, False)], [1048576])"
    by (simp add: free_spec_def)
  with mem_free_refines [OF st'(2), of 1048576 108 2] st(1) st'(1) show ?thesis
    by (auto simp: mem_block_payload_def)
qed

text \<open>
  C1: whatever a client does within the interface, the allocator never panics and never loops:
  in every reachable state every allocation that can be rounded returns, every liberation of a
  pointer that is held returns, and the pointers held are aligned, lie in the heap, and their
  payloads do not overlap.
\<close>

theorem mem_reach_safe:
  assumes "layout_ok L" and "mem_reach L st P"
  shows "(\<forall>n self. unat n + 11 < 2 ^ 32 \<longrightarrow> mem_alloc L self st n \<noteq> None) \<and>
    (\<forall>p \<in> P. \<forall>self. mem_free L self st p \<noteq> None) \<and>
    (\<forall>p \<in> P. 4 dvd unat p \<and> unat (mem_heap L) < unat p \<and>
       unat p + (unat (mem_block_size (words st) (p - 4)) - 8) < unat (mem_heap_end L)) \<and>
    (\<forall>p \<in> P. \<forall>q \<in> P. p \<noteq> q \<longrightarrow>
       unat p + (unat (mem_block_size (words st) (p - 4)) - 8) \<le> unat q \<or>
       unat q + (unat (mem_block_size (words st) (q - 4)) - 8) \<le> unat p)"
proof -
  obtain bs fr where inv: "heap_inv L st bs fr" and P: "P = mem_block_payload ` live bs"
    using mem_reach_inv [OF assms(2,1)] by blast
  have rep: "heap_rep L (words st) bs fr" using inv by (simp add: heap_inv_def)
  then have t: "tiles (mem_heap L) bs (mem_heap_end L)" by (simp add: heap_rep_def)
  have blk: "\<exists>b sz. (b, sz, True) \<in> set bs \<and> p = mem_block_payload b \<and> unat p = unat b + 4 \<and>
      mem_block_size (words st) (p - 4) = sz" if "p \<in> P" for p
    using that P heap_rep_payload_unat [OF rep] heap_rep_reads(1) [OF rep]
    by (fastforce simp: live_def mem_block_payload_def)
  have "mem_alloc L self st n \<noteq> None" if "unat n + 11 < 2 ^ 32" for n self
    using heap_inv_alloc [OF inv _ that, of self]
    by (cases "n = 0") (auto simp: mem_alloc_def split: prod.splits option.splits)
  moreover have "mem_free L self st p \<noteq> None" if p: "p \<in> P" for p self
  proof -
    obtain b sz where b: "(b, sz, True) \<in> set bs" "p = mem_block_payload b" using blk [OF p] by blast
    show ?thesis by (rule heap_inv_free [OF inv b(1), of self]) (simp add: b(2))
  qed
  moreover have "4 dvd unat p \<and> unat (mem_heap L) < unat p \<and>
      unat p + (unat (mem_block_size (words st) (p - 4)) - 8) < unat (mem_heap_end L)" if p: "p \<in> P" for p
  proof -
    obtain b sz where b: "(b, sz, True) \<in> set bs" "unat p = unat b + 4"
      "mem_block_size (words st) (p - 4) = sz" using blk [OF p] by blast
    show ?thesis using heap_blk [OF assms(1) t b(1)] b(2,3) by simp
  qed
  moreover have "unat p + (unat (mem_block_size (words st) (p - 4)) - 8) \<le> unat q \<or>
      unat q + (unat (mem_block_size (words st) (q - 4)) - 8) \<le> unat p"
    if p: "p \<in> P" and q: "q \<in> P" and pq: "p \<noteq> q" for p q
  proof -
    obtain b sz where b: "(b, sz, True) \<in> set bs" "p = mem_block_payload b" "unat p = unat b + 4"
      "mem_block_size (words st) (p - 4) = sz" using blk [OF p] by blast
    obtain c tz where c: "(c, tz, True) \<in> set bs" "q = mem_block_payload c" "unat q = unat c + 4"
      "mem_block_size (words st) (q - 4) = tz" using blk [OF q] by blast
    show ?thesis using tiles_pair [OF t b(1) c(1)] b c pq by auto
  qed
  ultimately show ?thesis by blast
qed

theorem mem_reach_safe_witness:
  "\<exists>st. mem_setup sample_layout sample_state = Some st \<and>
     (\<forall>self. mem_alloc sample_layout self st 100 \<noteq> None)"
proof -
  obtain st where st: "mem_setup sample_layout sample_state = Some st"
    "heap_inv sample_layout st [(1048576, 33554432, False)] [1048576]" by (rule sample_setup)
  have "mem_reach sample_layout st {}"
    by (rule reach_setup [OF _ st(1)]) (simp add: sample_state_def)
  from mem_reach_safe [OF sample_layout_ok this] st(1) show ?thesis by auto
qed

text \<open>
  C4: round trip.  Freeing a pointer right after its allocation restores the heap block by block,
  whatever its state was.
\<close>

theorem mem_alloc_free_roundtrip:
  assumes "heap_inv L st bs fr" and "n \<noteq> 0" and "unat n + 11 < 2 ^ 32"
    and "mem_alloc L self st n = Some (ptr, st')" and "ptr \<noteq> 0"
  shows "\<exists>st'' fr''. mem_free L self st' ptr = Some st'' \<and> heap_inv L st'' bs fr'' \<and>
    set fr'' = set fr"
proof -
  let ?s = "mem_convert_to_block_size n"
  have rep: "heap_rep L (words st) bs fr" and co: "coalesced bs"
    using assms(1) by (simp_all add: heap_inv_def)
  obtain r bs' fr' where sp: "alloc_spec ?s bs fr = (r, bs', fr')" by (cases "alloc_spec ?s bs fr")
  note A = heap_inv_alloc [OF assms(1-3), unfolded sp prod.case, of self]
  obtain b where r: "r = Some b" using A assms(4,5) by (cases r) auto
  have inv': "heap_inv L st' bs' fr'" and ptr: "ptr = mem_block_payload b"
    using A assms(4) r by auto
  obtain sz where b: "(b, sz, True) \<in> set bs'"
    using live_alloc_spec(3) [OF rep sp [unfolded r]] by blast
  have bs: "fst (free_spec b bs' fr') = bs"
    using free_alloc_spec [OF rep sp [unfolded r] co] by (simp add: free_spec_def Let_def)
  obtain st'' where st'': "mem_free L self st' (mem_block_payload b) = Some st''"
    "case free_spec b bs' fr' of (bs'', fr'') \<Rightarrow> heap_inv L st'' bs'' fr'' \<and>
       keeps (words st') (words st'') bs''"
    by (rule heap_inv_free [OF inv' b])
  obtain fr'' where f: "free_spec b bs' fr' = (bs, fr'')" using bs by (cases "free_spec b bs' fr'") auto
  with st''(2) have "heap_inv L st'' bs fr''" by simp
  moreover from this rep have "set fr'' = set fr" by (simp add: heap_inv_def heap_rep_def)
  ultimately show ?thesis using st''(1) ptr by blast
qed

theorem mem_alloc_free_roundtrip_witness:
  "\<exists>st st' st'' fr. mem_setup sample_layout sample_state = Some st \<and>
     mem_alloc sample_layout 7 st 100 = Some (1048580, st') \<and>
     mem_free sample_layout 7 st' 1048580 = Some st'' \<and>
     heap_inv sample_layout st'' [(1048576, 33554432, False)] fr"
proof -
  obtain st where st: "mem_setup sample_layout sample_state = Some st"
    "heap_inv sample_layout st [(1048576, 33554432, False)] [1048576]" by (rule sample_setup)
  have "alloc_spec 108 [(1048576, 33554432, False)] [1048576] =
    (Some 1048576, [(1048576, 108, True), (1048684, 33554324, False)], [1048684])"
    by (simp add: alloc_spec_def)
  then obtain st' where st': "mem_alloc sample_layout 7 st 100 = Some (1048580, st')"
    using heap_inv_alloc [OF st(2), of 100 7] by (auto simp: sample_convert mem_block_payload_def)
  with mem_alloc_free_roundtrip [OF st(2) _ _ st'] st(1) show ?thesis by auto
qed

text \<open>
  C5: freeing a block a second time panics: as long as its block is free, the assertion of
  \<^verbatim>\<open>mem_free_list_add\<close> fails.
\<close>

theorem mem_double_free_panics:
  assumes "heap_inv L st bs fr" and "(b, sz, False) \<in> set bs"
  shows "mem_free L self st (mem_block_payload b) = None"
proof -
  have rep: "heap_rep L (words st) bs fr" using assms(1) by (simp add: heap_inv_def)
  have "mem_free_list_add (words st) (mem_free_list L) b = None"
    using heap_rep_reads(2) [OF rep assms(2)] by (simp add: mem_free_list_add_def)
  then show ?thesis
    using heap_rep_payload_not_null [OF rep assms(2)] heap_inv_mutex [OF assms(1), of self]
    by (cases "mutex_set_owner (mem_mutex st) self") (auto simp: mem_free_eq)
qed

theorem mem_double_free_panics_witness:
  "\<exists>st. mem_setup sample_layout sample_state = Some st \<and>
     mem_free sample_layout 1 st 1048580 = None"
proof -
  obtain st where st: "mem_setup sample_layout sample_state = Some st"
    "heap_inv sample_layout st [(1048576, 33554432, False)] [1048576]" by (rule sample_setup)
  from mem_double_free_panics [OF st(2), of 1048576 33554432 1] st(1) show ?thesis
    by (simp add: mem_block_payload_def)
qed

text \<open>
  C6: the size computation of \<^verbatim>\<open>mem_alloc\<close> is not checked for overflow.  A request within
  11 bytes of the top of the address space is treated as a request of 8 bytes, and is granted.
\<close>

theorem mem_alloc_overflow:
  assumes "2 ^ 32 - 11 \<le> unat n"
  shows "mem_alloc L self st n = mem_alloc L self st 8"
proof -
  define k where "k = (unat n + 3) div 4"
  have "unat n \<le> 4294967295" "4294967285 \<le> unat n" using assms unat_u32_less [of n] by simp_all
  then have "1073741822 \<le> k" "k \<le> 1073741824" unfolding k_def by linarith+
  then have "k = 1073741822 \<or> k = 1073741823 \<or> k = 1073741824" by linarith
  moreover have "unat (P2ROUND n 4) = k * 4 mod 4294967296"
    unfolding k_def by (rule unat_P2ROUND_4)
  ultimately have "P2ROUND n 4 = - 8 \<or> P2ROUND n 4 = - 4 \<or> P2ROUND n 4 = 0"
    by (elim disjE) (simp_all add: word_unat_eq_iff)
  then have c: "mem_convert_to_block_size n = 16"
    by (elim disjE) (simp_all add: mem_convert_to_block_size_def)
  have c8: "mem_convert_to_block_size 8 = 16"
    by (simp add: mem_convert_to_block_size_def P2ROUND_def)
  have "n \<noteq> 0" using assms by auto
  then show ?thesis unfolding mem_alloc_def Let_def c c8 by simp
qed

theorem mem_alloc_overflow_witness:
  "\<exists>st st'. mem_setup sample_layout sample_state = Some st \<and>
     mem_alloc sample_layout 1 st 4294967285 = Some (1048580, st') \<and>
     heap_inv sample_layout st' [(1048576, 16, True), (1048592, 33554416, False)] [1048592]"
proof -
  obtain st where st: "mem_setup sample_layout sample_state = Some st"
    "heap_inv sample_layout st [(1048576, 33554432, False)] [1048576]" by (rule sample_setup)
  have "alloc_spec (mem_convert_to_block_size 8) [(1048576, 33554432, False)] [1048576] =
    (Some 1048576, [(1048576, 16, True), (1048592, 33554416, False)], [1048592])"
    by (simp add: alloc_spec_def mem_convert_to_block_size_def P2ROUND_def)
  moreover have "mem_alloc sample_layout 1 st 4294967285 = mem_alloc sample_layout 1 st 8"
    by (rule mem_alloc_overflow) simp
  ultimately show ?thesis
    using heap_inv_alloc [OF st(2), of 8 1] st(1) by (auto simp: mem_block_payload_def)
qed

end
