(* ===== verification/Cstring.thy ===== *)
theory Cstring
  imports Prelude
begin

text \<open>
  The string functions of src/string.c over a memory of bytes.  Pointers are 32-bit addresses and
  wrap around as machine addresses do; \<^verbatim>\<open>size_t\<close> counters that only count down are
  natural numbers.  The loops that stop at a null byte need not end on an arbitrary memory, hence
  the option results.  \<^verbatim>\<open>char\<close> is signed on the target.
\<close>

type_synonym bytes = "u32 \<Rightarrow> u8"

section \<open>Operations\<close>

fun memcpy :: "bytes \<Rightarrow> u32 \<Rightarrow> u32 \<Rightarrow> nat \<Rightarrow> bytes" where
  "memcpy m dest_ptr src_ptr 0 = m"
| "memcpy m dest_ptr src_ptr (Suc n) =
     memcpy (m(dest_ptr := m src_ptr)) (dest_ptr + 1) (src_ptr + 1) n"

fun memmove_down :: "bytes \<Rightarrow> u32 \<Rightarrow> u32 \<Rightarrow> nat \<Rightarrow> bytes" where
  "memmove_down m dest_ptr src_ptr 0 = m"
| "memmove_down m dest_ptr src_ptr (Suc n) =
     memmove_down (m(dest_ptr := m src_ptr)) (dest_ptr - 1) (src_ptr - 1) n"

text \<open>The ascending loop of \<^verbatim>\<open>memmove\<close> is the loop of \<^verbatim>\<open>memcpy\<close>.\<close>

definition memmove :: "bytes \<Rightarrow> u32 \<Rightarrow> u32 \<Rightarrow> nat \<Rightarrow> bytes" where
  "memmove m dest src n =
     (if dest \<le> src then memcpy m dest src n
      else memmove_down m (dest + of_nat n - 1) (src + of_nat n - 1) n)"

partial_function (option) strcpy :: "bytes \<Rightarrow> u32 \<Rightarrow> u32 \<Rightarrow> bytes option" where
  "strcpy m dest src =
     (let m' = m(dest := m src) in
      if m src = 0 then Some m' else strcpy m' (dest + 1) (src + 1))"

partial_function (option) strlen_from :: "bytes \<Rightarrow> u32 \<Rightarrow> u32 \<Rightarrow> u32 option" where
  "strlen_from m start s = (if m s = 0 then Some (s - start) else strlen_from m start (s + 1))"

definition strlen :: "bytes \<Rightarrow> u32 \<Rightarrow> u32 option" where
  "strlen m s = strlen_from m s s"

partial_function (option) strcmp :: "bytes \<Rightarrow> u32 \<Rightarrow> u32 \<Rightarrow> int option" where
  "strcmp m s1 s2 =
     (if m s1 = m s2 then (if m s1 = 0 then Some 0 else strcmp m (s1 + 1) (s2 + 1))
      else Some (sint (m s1) - sint (m s2)))"

text \<open>
  When the count runs out after equal bytes, the last bytes read are equal and the result is 0.
\<close>

fun strncmp :: "bytes \<Rightarrow> u32 \<Rightarrow> u32 \<Rightarrow> nat \<Rightarrow> int" where
  "strncmp m s1 s2 0 = 0"
| "strncmp m s1 s2 (Suc n) =
     (if m s1 = m s2 then (if m s1 = 0 then 0 else strncmp m (s1 + 1) (s2 + 1) n)
      else sint (m s1) - sint (m s2))"

section \<open>Copying\<close>

text \<open>The bytes from \<open>a\<close> on, and membership of an address in a range of \<open>n\<close> bytes.\<close>

definition bytes_at :: "bytes \<Rightarrow> u32 \<Rightarrow> nat \<Rightarrow> u8 list" where
  "bytes_at m a n = map (\<lambda>i. m (a + of_nat i)) [0..<n]"

lemma length_bytes_at [simp]: "length (bytes_at m a n) = n"
  by (simp add: bytes_at_def)

lemma nth_bytes_at: "i < n \<Longrightarrow> bytes_at m a n ! i = m (a + of_nat i)"
  by (simp add: bytes_at_def)

definition in_range :: "u32 \<Rightarrow> nat \<Rightarrow> u32 \<Rightarrow> bool" where
  "in_range d n a \<longleftrightarrow> unat (a - d) < n"

lemma unat_minus_1 [simp]: "unat (- 1 :: u32) = 4294967295"
  by (simp add: unsigned_minus_1_eq_mask mask_eq_exp_minus_1)

lemma in_range_Suc: "n < 2 ^ 32 \<Longrightarrow> in_range d (Suc n) a \<longleftrightarrow> a = d \<or> in_range (d + 1) n a"
proof -
  assume n: "n < 2 ^ 32"
  have e: "unat (a - d) = (if a = d then 0 else Suc (unat (a - (d + 1))))"
  proof (cases "a = d")
    case False
    then have "a - d \<noteq> 0" by simp
    then have "unat (a - d - 1) = unat (a - d) - 1" "0 < unat (a - d)"
      by (simp_all add: unat_minus_one unat_gt_0)
    with False show ?thesis by (simp add: diff_diff_eq)
  qed simp
  have "a = d \<Longrightarrow> unat (a - (d + 1)) = 2 ^ 32 - 1" by (simp add: unat_minus_1)
  with n show ?thesis unfolding in_range_def e by auto
qed

text \<open>
  The ascending copy is right when the destination does not lie inside the source ahead of the
  reads: every byte of the destination gets the byte the source had before the call.
\<close>

lemma memcpy_apply:
  assumes "n < 2 ^ 32" and "\<And>i. i < n \<Longrightarrow> \<not> in_range d i (s + of_nat i)"
  shows "memcpy m d s n a = (if in_range d n a then m (s + (a - d)) else m a)"
  using assms
proof (induction n arbitrary: m d s)
  case 0
  then show ?case by (simp add: in_range_def)
next
  case (Suc n)
  let ?m = "m(d := m s)"
  have r: "\<not> in_range (d + 1) i (s + 1 + of_nat i)" if "i < n" for i
    using Suc.prems(2) [of "Suc i"] that in_range_Suc [of i d "s + 1 + of_nat i"] Suc.prems(1)
    by (simp add: add.assoc)
  have IH: "memcpy ?m (d + 1) (s + 1) n a =
      (if in_range (d + 1) n a then ?m (s + 1 + (a - (d + 1))) else ?m a)"
    by (rule Suc.IH) (use Suc.prems(1) r in auto)
  have src: "s + (a - d) \<noteq> d" if "in_range (d + 1) n a"
  proof
    assume "s + (a - d) = d"
    have u: "unat (a - d) < Suc n" "a \<noteq> d"
      using that in_range_Suc [of n d a] Suc.prems(1) by (auto simp: in_range_def unat_minus_1)
    have "\<not> in_range d (unat (a - d)) (s + of_nat (unat (a - d)))"
      by (rule Suc.prems(2) [OF u(1)])
    with \<open>s + (a - d) = d\<close> u(2) show False by (simp add: in_range_def unat_gt_0)
  qed
  show ?case
    using IH src in_range_Suc [of n d a] Suc.prems(1) by (auto simp: algebra_simps in_range_def)
qed

lemma in_range_snoc: "n < 2 ^ 32 \<Longrightarrow> in_range d (Suc n) a \<longleftrightarrow> a = d + of_nat n \<or> in_range d n a"
proof -
  assume "n < 2 ^ 32"
  then have n: "unat (of_nat n :: u32) = n" by (simp add: unat_of_nat_u32)
  have "a = d + of_nat n \<longleftrightarrow> unat (a - d) = n"
    using n by (auto simp: word_unat_eq_iff [of "a - d" "of_nat n", symmetric] algebra_simps)
  then show ?thesis by (auto simp: in_range_def less_Suc_eq)
qed

lemma memmove_down_apply:
  assumes "n < 2 ^ 32" and "\<And>i j. i < j \<Longrightarrow> j < n \<Longrightarrow> s + of_nat i \<noteq> d + of_nat j"
  shows "memmove_down m (d + of_nat n - 1) (s + of_nat n - 1) n a =
    (if in_range d n a then m (s + (a - d)) else m a)"
  using assms
proof (induction n arbitrary: m)
  case 0
  then show ?case by (simp add: in_range_def)
next
  case (Suc n)
  let ?m = "m(d + of_nat n := m (s + of_nat n))"
  have IH: "memmove_down ?m (d + of_nat n - 1) (s + of_nat n - 1) n a =
      (if in_range d n a then ?m (s + (a - d)) else ?m a)"
    by (rule Suc.IH) (use Suc.prems in auto)
  have "s + (a - d) \<noteq> d + of_nat n" if "in_range d n a"
    using Suc.prems(2) [of "unat (a - d)" n] that by (simp add: in_range_def)
  moreover have "\<not> in_range d n (d + of_nat n)"
    using Suc.prems(1) by (simp add: in_range_def unat_of_nat_u32)
  ultimately show ?case
    using IH in_range_snoc [of n d a] Suc.prems(1) by (auto simp: algebra_simps)
qed

lemma unat_add_of_nat: "unat (a::u32) + i < 2 ^ 32 \<Longrightarrow> unat (a + of_nat i) = unat a + i"
  by (subst unat_add_no_wrap) (simp_all add: unat_of_nat_u32)

lemma memmove_apply:
  assumes "unat d + n < 2 ^ 32" and "unat s + n < 2 ^ 32"
  shows "memmove m d s n a = (if in_range d n a then m (s + (a - d)) else m a)"
proof (cases "d \<le> s")
  case True
  have "\<not> in_range d i (s + of_nat i)" if "i < n" for i
  proof -
    have "unat (s + of_nat i) = unat s + i" using assms that by (intro unat_add_of_nat) simp
    moreover from this have "unat (s + of_nat i - d) = unat s + i - unat d"
      using True by (subst unat_sub_no_wrap) (simp_all add: word_le_nat_alt)
    ultimately show ?thesis using True by (simp add: in_range_def word_le_nat_alt)
  qed
  then show ?thesis using True assms by (simp add: memmove_def memcpy_apply)
next
  case False
  have "s + of_nat i \<noteq> d + of_nat j" if "i < j" "j < n" for i j
  proof -
    have "unat (s + of_nat i) = unat s + i" "unat (d + of_nat j) = unat d + j"
      using assms that by (intro unat_add_of_nat; simp)+
    then have "unat (s + of_nat i) < unat (d + of_nat j)"
      using False that by (simp add: word_le_nat_alt)
    then show ?thesis by auto
  qed
  with False assms show ?thesis by (simp add: memmove_def memmove_down_apply)
qed

section \<open>Null-terminated strings\<close>

fun cstr :: "bytes \<Rightarrow> u32 \<Rightarrow> u8 list \<Rightarrow> bool" where
  "cstr m a [] \<longleftrightarrow> m a = 0"
| "cstr m a (x # xs) \<longleftrightarrow> m a = x \<and> x \<noteq> 0 \<and> cstr m (a + 1) xs"

lemma strlen_from_cstr: "cstr m s xs \<Longrightarrow> strlen_from m start s = Some (s - start + of_nat (length xs))"
proof (induction xs arbitrary: s)
  case Nil
  then show ?case by (simp add: strlen_from.simps)
next
  case (Cons x xs)
  then show ?case by (simp add: strlen_from.simps [of m start s])
qed

text \<open>The specification of the comparisons: the difference of the first bytes that differ.\<close>

fun str_diff :: "u8 list \<Rightarrow> u8 list \<Rightarrow> int" where
  "str_diff [] [] = 0"
| "str_diff [] (y # ys) = - sint y"
| "str_diff (x # xs) [] = sint x"
| "str_diff (x # xs) (y # ys) = (if x = y then str_diff xs ys else sint x - sint y)"

lemma sint_eq_0: "sint (x::u8) = 0 \<longleftrightarrow> x = 0"
  using signed_word_eqI [of x 0] by auto

lemma str_diff_eq_0:
  "0 \<notin> set xs \<Longrightarrow> 0 \<notin> set ys \<Longrightarrow> str_diff xs ys = 0 \<longleftrightarrow> xs = ys"
  by (induction xs ys rule: str_diff.induct) (auto simp: sint_eq_0 dest: signed_word_eqI)

lemma cstr_nonzero: "cstr m a xs \<Longrightarrow> 0 \<notin> set xs"
  by (induction xs arbitrary: a) auto

lemma strcmp_cstr: "cstr m a xs \<Longrightarrow> cstr m b ys \<Longrightarrow> strcmp m a b = Some (str_diff xs ys)"
proof (induction xs ys arbitrary: a b rule: str_diff.induct)
  case (4 x xs y ys)
  then show ?case by (simp add: strcmp.simps [of m a b])
qed (auto simp: strcmp.simps [of m a b for a b])

lemma strncmp_cstr:
  "cstr m a xs \<Longrightarrow> cstr m b ys \<Longrightarrow> strncmp m a b n = str_diff (take n xs) (take n ys)"
proof (induction m a b n arbitrary: xs ys rule: strncmp.induct)
  case (2 m a b n)
  then show ?case by (cases xs; cases ys) auto
qed simp

lemma cstr_cong:
  "(\<And>i. i \<le> length xs \<Longrightarrow> m' (a + of_nat i) = m (a + of_nat i)) \<Longrightarrow> cstr m a xs \<Longrightarrow> cstr m' a xs"
proof (induction xs arbitrary: a)
  case (Cons x xs)
  have "m' a = m a" using Cons.prems(1) [of 0] by simp
  moreover have "m' (a + 1 + of_nat i) = m (a + 1 + of_nat i)" if "i \<le> length xs" for i
    using Cons.prems(1) [of "Suc i"] that by (simp add: add.assoc)
  ultimately show ?case using Cons by simp
qed simp

lemma cstr_shift: "cstr m (s + k) xs \<Longrightarrow> cstr (\<lambda>a. m (s + (a - d))) (d + k) xs"
  by (induction xs arbitrary: k) (auto simp: add.assoc)

text \<open>\<^verbatim>\<open>strcpy\<close> ends, and copies the string with its terminator.\<close>

lemma strcpy_cstr:
  assumes "cstr m s xs" and "length xs < 2 ^ 32 - 1"
    and "\<And>i. i \<le> length xs \<Longrightarrow> \<not> in_range d i (s + of_nat i)"
  shows "strcpy m d s = Some (memcpy m d s (Suc (length xs)))"
  using assms
proof (induction xs arbitrary: m d s)
  case Nil
  then show ?case by (simp add: strcpy.simps [of m d s] fun_upd_def)
next
  case (Cons x xs)
  let ?m = "m(d := m s)"
  have r: "\<not> in_range d (Suc i) (s + 1 + of_nat i)" if "i \<le> length xs" for i
    using Cons.prems(3) [of "Suc i"] that by (simp add: add.assoc)
  have sep: "s + 1 + of_nat i \<noteq> d" "\<not> in_range (d + 1) i (s + 1 + of_nat i)" if "i \<le> length xs" for i
    using r [OF that] in_range_Suc [of i d "s + 1 + of_nat i"] that Cons.prems(2) by auto
  have "cstr m (s + 1) xs" using Cons.prems(1) by simp
  then have "cstr ?m (s + 1) xs" by (rule cstr_cong [rotated]) (use sep(1) in auto)
  then have "strcpy ?m (d + 1) (s + 1) = Some (memcpy ?m (d + 1) (s + 1) (Suc (length xs)))"
    by (rule Cons.IH) (use Cons.prems(2) sep(2) in auto)
  then show ?case using Cons.prems(1) by (simp add: strcpy.simps [of m d s])
qed

section \<open>Properties\<close>

text \<open>
  \<^verbatim>\<open>memmove\<close> copies correctly whether or not the two areas overlap: every byte of the
  destination gets the byte the source had before the call, and no other byte changes.
\<close>

theorem memmove_correct:
  assumes "unat d + n < 2 ^ 32" and "unat s + n < 2 ^ 32"
  shows "bytes_at (memmove m d s n) d n = bytes_at m s n \<and>
    (\<forall>a. \<not> in_range d n a \<longrightarrow> memmove m d s n a = m a)"
proof -
  have "in_range d n (d + of_nat i)" if "i < n" for i
    using that assms by (simp add: in_range_def unat_of_nat_u32)
  then show ?thesis by (auto simp: bytes_at_def memmove_apply [OF assms])
qed

theorem memmove_correct_witness:
  "bytes_at (memmove (\<lambda>a. ucast a) 101 100 3) 101 3 = [100, 101, 102]"
  using memmove_correct [of 101 3 100 "\<lambda>a. ucast a"] by (simp add: bytes_at_def upt_rec)

text \<open>
  \<^verbatim>\<open>strcpy\<close> of a null-terminated string to an area apart from it ends, with the string
  in both places: \<^verbatim>\<open>strlen\<close> of the copy is the length and \<^verbatim>\<open>strcmp\<close> of the two
  areas is 0.
\<close>

theorem strcpy_strlen_strcmp:
  assumes "cstr m s xs" and "length xs < 2 ^ 32 - 1"
    and "\<forall>i \<le> length xs. \<not> in_range d (Suc (length xs)) (s + of_nat i)"
  shows "\<exists>m'. strcpy m d s = Some m' \<and> strlen m' d = Some (of_nat (length xs)) \<and>
    strcmp m' d s = Some 0 \<and> (\<forall>a. \<not> in_range d (Suc (length xs)) a \<longrightarrow> m' a = m a)"
proof -
  let ?m = "memcpy m d s (Suc (length xs))"
  have r: "\<not> in_range d i (s + of_nat i)" if "i \<le> length xs" for i
    using assms(3) that by (auto simp: in_range_def)
  have ap: "?m a = (if in_range d (Suc (length xs)) a then m (s + (a - d)) else m a)" for a
    by (rule memcpy_apply) (use assms(2) r in auto)
  have s: "cstr ?m s xs" by (rule cstr_cong [OF _ assms(1)]) (use ap assms(3) in auto)
  have "cstr (\<lambda>a. m (s + (a - d))) d xs" using cstr_shift [of m s 0 xs d] assms(1) by simp
  then have d: "cstr ?m d xs"
    by (rule cstr_cong [rotated]) (use ap assms(2) in \<open>simp add: in_range_def unat_of_nat_u32\<close>)
  have "str_diff xs xs = 0" using str_diff_eq_0 cstr_nonzero [OF assms(1)] by blast
  then show ?thesis
    using strcpy_cstr [OF assms(1,2) r] strlen_from_cstr [OF d, of d] strcmp_cstr [OF d s] ap
    by (auto simp: strlen_def)
qed

definition sample_string :: bytes where
  "sample_string = (\<lambda>_. 0)(16 := 97, 17 := 98)"

theorem strcpy_strlen_strcmp_witness:
  "\<exists>m. strcpy sample_string 64 16 = Some m \<and> strlen m 64 = Some 2 \<and> strcmp m 64 16 = Some 0"
proof -
  have "cstr sample_string 16 [97, 98]" by (simp add: sample_string_def)
  moreover have "\<forall>i \<le> length [97, 98::u8]. \<not> in_range 64 (Suc (length [97, 98::u8])) (16 + of_nat i)"
    by (auto simp: in_range_def le_Suc_eq)
  ultimately show ?thesis
    using strcpy_strlen_strcmp [of sample_string 16 "[97, 98]" 64] by auto
qed

text \<open>
  \<^verbatim>\<open>strcmp\<close> and \<^verbatim>\<open>strncmp\<close> end on null-terminated strings, return the
  difference of the first bytes that differ (within the count), and return 0 exactly for equal
  strings (equal prefixes).
\<close>

theorem strcmp_strncmp_spec:
  assumes "cstr m a xs" and "cstr m b ys"
  shows "strcmp m a b = Some (str_diff xs ys) \<and> (strcmp m a b = Some 0 \<longleftrightarrow> xs = ys) \<and>
    strncmp m a b n = str_diff (take n xs) (take n ys) \<and>
    (strncmp m a b n = 0 \<longleftrightarrow> take n xs = take n ys)"
  using strcmp_cstr [OF assms] strncmp_cstr [OF assms, of n] cstr_nonzero [OF assms(1)]
    cstr_nonzero [OF assms(2)] str_diff_eq_0 [of xs ys] str_diff_eq_0 [of "take n xs" "take n ys"]
  by (auto dest: in_set_takeD)

text \<open>
  The bytes are compared as signed characters: a byte from 128 on is smaller than a letter.
\<close>

theorem strcmp_strncmp_spec_witness:
  "strcmp ((\<lambda>_. 0)(16 := 128, 32 := 97)) 16 32 = Some (- 225) \<and>
   strncmp ((\<lambda>_. 0)(16 := 128, 32 := 97)) 16 32 1 = - 225"
  using strcmp_strncmp_spec [of "(\<lambda>_. 0)(16 := 128, 32 := 97)" 16 "[128]" 32 "[97]" 1] by simp

end
