(* ===== verification/Cbuf.thy ===== *)
theory Cbuf
  imports Macros Cstring
begin

text \<open>
  The circular buffer of lib/cbuf.c and lib/cbuf.h.  The descriptor holds the address of the
  storage in the byte memory and two absolute indexes that wrap around.  An operation returns the
  error code (\<^term>\<open>None\<close> for 0), the descriptor and the memory.  The abstraction of a buffer
  is the list of its bytes, oldest first: \<open>cbuf_contents\<close>.
\<close>

record cbuf =
  buf :: u32
  capacity :: u32
  start :: u32
  stop :: u32

text \<open>The field \<^verbatim>\<open>end\<close> of the source is named \<open>stop\<close> here.\<close>

section \<open>Operations\<close>

definition CBUF_INIT_INDEX :: u32 where "CBUF_INIT_INDEX = - 500"

definition cbuf_capacity :: "cbuf \<Rightarrow> u32" where "cbuf_capacity c = capacity c"
definition cbuf_start :: "cbuf \<Rightarrow> u32" where "cbuf_start c = start c"
definition cbuf_end :: "cbuf \<Rightarrow> u32" where "cbuf_end c = stop c"
definition cbuf_size :: "cbuf \<Rightarrow> u32" where "cbuf_size c = stop c - start c"

definition cbuf_clear :: "cbuf \<Rightarrow> cbuf" where
  "cbuf_clear c = c\<lparr>start := stop c\<rparr>"

definition cbuf_range_valid :: "cbuf \<Rightarrow> u32 \<Rightarrow> u32 \<Rightarrow> bool" where
  "cbuf_range_valid c s e \<longleftrightarrow>
     e - s \<le> cbuf_size c \<and> s - start c \<le> cbuf_size c \<and> stop c - e \<le> cbuf_size c"

definition cbuf_init :: "u32 \<Rightarrow> u32 \<Rightarrow> cbuf option" where
  "cbuf_init b cap = do {
     assert (ISP2 cap);
     Some \<lparr>buf = b, capacity = cap, start = CBUF_INIT_INDEX, stop = CBUF_INIT_INDEX\<rparr>
   }"

definition cbuf_index :: "cbuf \<Rightarrow> u32 \<Rightarrow> u32" where
  "cbuf_index c abs_index = abs_index AND (capacity c - 1)"

definition cbuf_update_start :: "cbuf \<Rightarrow> cbuf" where
  "cbuf_update_start c =
     (if capacity c < cbuf_size c then c\<lparr>start := stop c - capacity c\<rparr> else c)"

text \<open>
  The copy at the end of \<^verbatim>\<open>cbuf_write\<close>, in two parts if it reaches the end of the
  storage.
\<close>

definition cbuf_copy_in :: "bytes \<Rightarrow> cbuf \<Rightarrow> u32 \<Rightarrow> u32 \<Rightarrow> u32 \<Rightarrow> bytes" where
  "cbuf_copy_in m c index src sz =
     (let p = buf c + cbuf_index c index;
          e = p + sz;
          buf_end = buf c + capacity c
      in if e \<le> buf c \<or> buf_end < e then
           (let skip = buf_end - p;
                m = memcpy m p src (unat skip)
            in memcpy m (buf c) (src + skip) (unat (sz - skip)))
         else memcpy m p src (unat sz))"

definition cbuf_write :: "bytes \<Rightarrow> cbuf \<Rightarrow> u32 \<Rightarrow> u32 \<Rightarrow> u32 \<Rightarrow> error option \<times> cbuf \<times> bytes" where
  "cbuf_write m c index src sz =
     (if \<not> cbuf_range_valid c index (stop c) then (Some ERROR_INVAL, c, m)
      else
        (let new_end = index + sz;
             (c, index, src, sz) =
               (if \<not> cbuf_range_valid c (start c) new_end then
                  (let c = c\<lparr>stop := new_end\<rparr>
                   in if cbuf_capacity c < sz then
                        (let skip = sz - cbuf_capacity c
                         in (c, index + skip, src + skip, cbuf_capacity c))
                      else (c, index, src, sz))
                else (c, index, src, sz));
             m = cbuf_copy_in m c index src sz
         in (None, cbuf_update_start c, m)))"

text \<open>
  \<^verbatim>\<open>cbuf_read\<close> returns the error, the value left in \<^verbatim>\<open>*sizep\<close> and the memory.
\<close>

definition cbuf_read :: "bytes \<Rightarrow> cbuf \<Rightarrow> u32 \<Rightarrow> u32 \<Rightarrow> u32 \<Rightarrow> error option \<times> u32 \<times> bytes" where
  "cbuf_read m c index dst sizep =
     (if \<not> cbuf_range_valid c index (index + 1) then (Some ERROR_INVAL, sizep, m)
      else
        (let sz = stop c - index;
             sizep = (if sz < sizep then sz else sizep);
             p = buf c + cbuf_index c index;
             e = p + sizep;
             buf_end = buf c + capacity c
         in if buf c < e \<and> e \<le> buf_end then (None, sizep, memcpy m dst p (unat sizep))
            else
              (let sz = buf_end - p;
                   m = memcpy m dst p (unat sz)
               in (None, sizep, memcpy m (dst + sz) (buf c) (unat (sizep - sz))))))"

definition cbuf_push :: "bytes \<Rightarrow> cbuf \<Rightarrow> u32 \<Rightarrow> u32 \<Rightarrow> bool \<Rightarrow> error option \<times> cbuf \<times> bytes" where
  "cbuf_push m c src sz erase =
     (if \<not> erase \<and> cbuf_capacity c - cbuf_size c < sz then (Some ERROR_AGAIN, c, m)
      else cbuf_write m c (cbuf_end c) src sz)"

text \<open>\<^term>\<open>None\<close> is the failure of the assertion that the read succeeds.\<close>

definition cbuf_pop ::
  "bytes \<Rightarrow> cbuf \<Rightarrow> u32 \<Rightarrow> u32 \<Rightarrow> (error option \<times> u32 \<times> cbuf \<times> bytes) option" where
  "cbuf_pop m c dst sizep =
     (if cbuf_size c = 0 then Some (Some ERROR_AGAIN, sizep, c, m)
      else do {
        let (err, sizep, m) = cbuf_read m c (cbuf_start c) dst sizep;
        assert (err = None);
        Some (None, sizep, c\<lparr>start := start c + sizep\<rparr>, m)
      })"

definition cbuf_pushb :: "bytes \<Rightarrow> cbuf \<Rightarrow> u8 \<Rightarrow> bool \<Rightarrow> error option \<times> cbuf \<times> bytes" where
  "cbuf_pushb m c byte erase =
     (if \<not> erase \<and> cbuf_capacity c - cbuf_size c = 0 then (Some ERROR_AGAIN, c, m)
      else
        (let m = m(buf c + cbuf_index c (stop c) := byte);
             c = c\<lparr>stop := stop c + 1\<rparr>
         in (None, cbuf_update_start c, m)))"

definition cbuf_popb :: "bytes \<Rightarrow> cbuf \<Rightarrow> (error, u8 \<times> cbuf) sum" where
  "cbuf_popb m c =
     (if cbuf_size c = 0 then Inl ERROR_AGAIN
      else Inr (m (buf c + cbuf_index c (start c)), c\<lparr>start := start c + 1\<rparr>))"

section \<open>The abstraction\<close>

text \<open>
  The invariant: the capacity is a power of two, the storage does not wrap around the address
  space, and the indexes are at most the capacity apart.
\<close>

definition cbuf_inv :: "cbuf \<Rightarrow> bool" where
  "cbuf_inv c \<longleftrightarrow>
     (\<exists>k < 32. capacity c = 2 ^ k) \<and> unat (buf c) + unat (capacity c) < 2 ^ 32 \<and>
     unat (cbuf_size c) \<le> unat (capacity c)"

definition cap :: "cbuf \<Rightarrow> nat" where "cap c = unat (capacity c)"

text \<open>The address of the byte at offset \<open>p\<close> from the oldest one.\<close>

definition cell :: "cbuf \<Rightarrow> nat \<Rightarrow> u32" where
  "cell c p = buf c + cbuf_index c (start c + of_nat p)"

definition cbuf_contents :: "bytes \<Rightarrow> cbuf \<Rightarrow> u8 list" where
  "cbuf_contents m c = map (\<lambda>p. m (cell c p)) [0..<unat (cbuf_size c)]"

lemma length_cbuf_contents [simp]: "length (cbuf_contents m c) = unat (cbuf_size c)"
  by (simp add: cbuf_contents_def)

lemma cap_dvd: "cbuf_inv c \<Longrightarrow> cap c dvd 2 ^ 32"
  using le_imp_power_dvd [of _ 32 "2::nat"] by (auto simp: cbuf_inv_def cap_def unat_exp_u32)

lemma cap_pos: "cbuf_inv c \<Longrightarrow> 0 < cap c"
  by (auto simp: cbuf_inv_def cap_def unat_exp_u32)

lemma cap_half: "cbuf_inv c \<Longrightarrow> cap c \<le> 2 ^ 31"
  using power_increasing [of _ 31 "2::nat"] by (fastforce simp: cbuf_inv_def cap_def unat_exp_u32)

lemma unat_cbuf_index: "cbuf_inv c \<Longrightarrow> unat (cbuf_index c x) = unat x mod cap c"
  by (auto simp: cbuf_inv_def cap_def cbuf_index_def unat_and_low unat_exp_u32)

lemma unat_add_mod: "q dvd 2 ^ 32 \<Longrightarrow> unat (x + of_nat p :: u32) mod q = (unat x + p) mod q"
  by (simp add: unat_word_ariths unat_of_nat mod_mod_cancel mod_add_right_eq)

lemma unat_cell:
  assumes "cbuf_inv c"
  shows "unat (cell c p) = unat (buf c) + (unat (start c) + p) mod cap c"
proof -
  have i: "unat (cbuf_index c (start c + of_nat p)) = (unat (start c) + p) mod cap c"
    by (simp only: unat_cbuf_index [OF assms] unat_add_mod [OF cap_dvd [OF assms]])
  have "(unat (start c) + p) mod cap c < cap c" using assms by (simp add: cap_pos)
  then show ?thesis
    using assms i unfolding cell_def by (subst unat_add_no_wrap) (auto simp: cbuf_inv_def cap_def)
qed

text \<open>Different offsets less than the capacity apart are different bytes of the storage.\<close>

lemma cell_inj:
  assumes "cbuf_inv c" and "cell c p = cell c q" and "p \<le> q" and "q < p + cap c"
  shows "p = q"
proof -
  have "(unat (start c) + p) mod cap c = (unat (start c) + q) mod cap c"
    using unat_cell [OF assms(1)] assms(2) by (metis add_left_cancel)
  then have "cap c dvd q - p"
    using mod_eq_dvd_iff_nat [of "unat (start c) + p" "unat (start c) + q" "cap c"] assms(3) by simp
  then show ?thesis using assms(3,4) by (auto dest: dvd_imp_le)
qed

section \<open>Copying into the storage\<close>

definition ring :: "cbuf \<Rightarrow> nat \<Rightarrow> nat" where
  "ring c p = (unat (start c) + p) mod cap c"

lemma ring_less: "cbuf_inv c \<Longrightarrow> ring c p < cap c"
  by (simp add: ring_def cap_pos)

lemma cell_ring:
  assumes "cbuf_inv c"
  shows "cell c p = buf c + of_nat (ring c p)"
proof (rule word_unat_eq_iff [THEN iffD2])
  have "unat (buf c + of_nat (ring c p)) = unat (buf c) + ring c p"
    using assms ring_less [OF assms, of p]
    by (intro unat_add_of_nat) (auto simp: cbuf_inv_def cap_def)
  then show "unat (cell c p) = unat (buf c + of_nat (ring c p))"
    by (simp add: unat_cell [OF assms] ring_def)
qed

lemma ring_add:
  assumes "cbuf_inv c" and "j \<le> cap c"
  shows "ring c (i + j) = (if ring c i + j < cap c then ring c i + j else ring c i + j - cap c)"
proof -
  have "ring c (i + j) = (ring c i + j) mod cap c"
    by (simp add: ring_def mod_add_left_eq add.assoc)
  with ring_less [OF assms(1), of i] assms(2) show ?thesis by (simp add: le_mod_geq)
qed

lemma in_range_offset:
  assumes "r + n \<le> q" and "q < 2 ^ 32" and "in_range (b + of_nat r) n a"
  shows "in_range b q a"
proof -
  have "unat (a - b) = unat ((a - (b + of_nat r)) + of_nat r)" by (simp add: algebra_simps)
  also have "\<dots> = unat (a - (b + of_nat r)) + r"
    using assms by (intro unat_add_of_nat) (simp add: in_range_def)
  finally show ?thesis using assms by (simp add: in_range_def)
qed

lemma in_range_nth: "j < n \<Longrightarrow> n < 2 ^ 32 \<Longrightarrow> in_range d n (d + of_nat j)"
  by (simp add: in_range_def unat_of_nat_u32)

lemma memcpy_into:
  assumes "r + n \<le> q" and "q < 2 ^ 32" and "\<forall>j < n. \<not> in_range b q (src + of_nat j)"
  shows "j < n \<Longrightarrow> memcpy m (b + of_nat r) src n (b + of_nat (r + j)) = m (src + of_nat j)"
    and "\<not> in_range (b + of_nat r) n a \<Longrightarrow> memcpy m (b + of_nat r) src n a = m a"
proof -
  have ap: "memcpy m (b + of_nat r) src n a =
      (if in_range (b + of_nat r) n a then m (src + (a - (b + of_nat r))) else m a)" for a
  proof (rule memcpy_apply)
    fix i assume "i < n"
    then show "\<not> in_range (b + of_nat r) i (src + of_nat i)"
      using in_range_offset [of r i q b] assms by fastforce
  qed (use assms in simp)
  show "j < n \<Longrightarrow> memcpy m (b + of_nat r) src n (b + of_nat (r + j)) = m (src + of_nat j)"
    using ap [of "b + of_nat (r + j)"] in_range_nth [of j n "b + of_nat r"] assms(1,2)
    by (simp add: algebra_simps)
  show "\<not> in_range (b + of_nat r) n a \<Longrightarrow> memcpy m (b + of_nat r) src n a = m a"
    using ap by simp
qed

lemma in_rangeE:
  assumes "in_range d n a"
  obtains j where "j < n" and "a = d + of_nat j"
proof
  show "unat (a - d) < n" using assms by (simp add: in_range_def)
  show "a = d + of_nat (unat (a - d))" by simp
qed

text \<open>When the copy has to be cut in two.\<close>

lemma cbuf_cut_iff:
  assumes "cbuf_inv c" and "sz \<noteq> 0" and "unat sz \<le> cap c"
  shows "cell c i + sz \<le> buf c \<or> buf c + capacity c < cell c i + sz \<longleftrightarrow> cap c < ring c i + unat sz"
proof -
  let ?r = "ring c i"
  have r: "?r < cap c" by (rule ring_less [OF assms(1)])
  have c: "unat (buf c) + cap c < 2 ^ 32" "cap c \<le> 2 ^ 31"
    using assms(1) cap_half [OF assms(1)] by (simp_all add: cbuf_inv_def cap_def)
  have p: "unat (cell c i) = unat (buf c) + ?r" by (simp add: unat_cell [OF assms(1)] ring_def)
  have e: "unat (buf c + capacity c) = unat (buf c) + cap c"
    using c by (subst unat_add_no_wrap) (simp_all add: cap_def)
  have sz: "0 < unat sz" using assms(2) by (simp add: unat_gt_0)
  show ?thesis
  proof (cases "unat (buf c) + ?r + unat sz < 2 ^ 32")
    case True
    then have "unat (cell c i + sz) = unat (buf c) + ?r + unat sz"
      using p by (subst unat_add_no_wrap) simp_all
    then show ?thesis using e sz by (simp add: word_le_nat_alt word_less_nat_alt)
  next
    case False
    then have "unat (cell c i + sz) = unat (buf c) + ?r + unat sz - 2 ^ 32"
      using p by (simp add: unat_plus_if')
    then have "unat (cell c i + sz) \<le> unat (buf c)" using r assms(3) c(2) by simp
    then show ?thesis using False c(1) by (simp add: word_le_nat_alt)
  qed
qed

text \<open>The copy sets exactly the bytes at the offsets written, wherever the storage is cut.\<close>

lemma cbuf_copy_in_apply:
  fixes m :: bytes and i :: nat
  assumes inv: "cbuf_inv c" and sz: "sz \<noteq> 0" "unat sz \<le> cap c"
    and src: "\<forall>j < unat sz. \<not> in_range (buf c) (cap c) (src + of_nat j)"
  defines "m' \<equiv> cbuf_copy_in m c (start c + of_nat i) src sz"
  shows "j < unat sz \<Longrightarrow> m' (cell c (i + j)) = m (src + of_nat j)"
    and "(\<And>j. j < unat sz \<Longrightarrow> a \<noteq> cell c (i + j)) \<Longrightarrow> m' a = m a"
proof -
  let ?r = "ring c i" and ?b = "buf c" and ?n = "unat sz"
  have c: "cap c < 2 ^ 32" using cap_half [OF inv] by simp
  have r: "?r < cap c" by (rule ring_less [OF inv])
  have p: "?b + cbuf_index c (start c + of_nat i) = ?b + of_nat ?r"
    using cell_ring [OF inv, of i] by (simp add: cell_def)
  have cut: "cell c i + sz \<le> ?b \<or> ?b + capacity c < cell c i + sz \<longleftrightarrow> cap c < ?r + ?n"
    by (rule cbuf_cut_iff [OF inv sz])
  have ring: "cell c (i + j) = ?b + of_nat (if ?r + j < cap c then ?r + j else ?r + j - cap c)"
    if "j < ?n" for j
    using that sz ring_add [OF inv, of j i] by (simp add: cell_ring [OF inv])
  have both: "(j < ?n \<longrightarrow> m' (cell c (i + j)) = m (src + of_nat j)) \<and>
      ((\<forall>j < ?n. a \<noteq> cell c (i + j)) \<longrightarrow> m' a = m a)" for j a
  proof (cases "cap c < ?r + ?n")
    case False
    then have m': "m' = memcpy m (?b + of_nat ?r) src ?n"
      using cut p unfolding m'_def cbuf_copy_in_def Let_def cell_def by simp
    have le: "?r + ?n \<le> cap c" using False by simp
    note M = memcpy_into [OF le c src, where m = m]
    have ce: "cell c (i + j) = ?b + of_nat (?r + j)" if "j < ?n" for j
      using ring [OF that] that le by simp
    have "\<not> in_range (?b + of_nat ?r) ?n a" if "\<forall>j < ?n. a \<noteq> cell c (i + j)" for a
    proof
      assume "in_range (?b + of_nat ?r) ?n a"
      then obtain j where "j < ?n" "a = ?b + of_nat (?r + j)" by (auto elim!: in_rangeE simp: add.assoc)
      then show False using that [rule_format, of j] ce [of j] by simp
    qed
    then show ?thesis unfolding m' using M ce by simp
  next
    case True
    define k where "k = cap c - ?r"
    have k: "?r + k = cap c" "k < ?n" "0 < k" using r True by (simp_all add: k_def)
    have skip: "capacity c - of_nat ?r = of_nat k"
      unfolding k_def using r by (simp add: cap_def of_nat_diff)
    have uk: "unat (of_nat k :: u32) = k" using k c by (intro unat_of_nat_u32) simp
    have us: "unat (sz - of_nat k) = ?n - k" using k uk by (subst unat_sub_no_wrap) simp_all
    let ?m1 = "memcpy m (?b + of_nat ?r) src k"
    have m': "m' = memcpy ?m1 (?b + of_nat 0) (src + of_nat k) (?n - k)"
      using cut p True unfolding m'_def cbuf_copy_in_def Let_def cell_def by (simp add: skip uk us)
    have src1: "\<forall>j < k. \<not> in_range ?b (cap c) (src + of_nat j)" using src k by simp
    have "\<not> in_range ?b (cap c) (src + of_nat k + of_nat j)" if "j < ?n - k" for j
      using src [rule_format, of "k + j"] that by (simp add: add.assoc)
    then have src2: "\<forall>j < ?n - k. \<not> in_range ?b (cap c) (src + of_nat k + of_nat j)" by simp
    have le2: "0 + (?n - k) \<le> cap c" using sz by simp
    note M1 = memcpy_into [OF eq_imp_le [OF k(1)] c src1, where m = m]
    note M2 = memcpy_into [OF le2 c src2, where m = ?m1]
    have out: "\<not> in_range (?b + of_nat ?r) k (src + of_nat j)" if "j < ?n" for j
      using src that in_range_offset [of ?r k "cap c" ?b] k c by fastforce
    have low: "\<not> in_range (?b + of_nat 0) (?n - k) (?b + of_nat (?r + j))" if "j < k" for j
      using that k sz r c by (simp add: in_range_def unat_of_nat_u32 del: of_nat_add)
    have A: "m' (cell c (i + j)) = m (src + of_nat j)" if j: "j < ?n" for j
    proof (cases "j < k")
      case True
      then have "cell c (i + j) = ?b + of_nat (?r + j)" using ring [OF j] k by simp
      then show ?thesis using M2(2) [OF low [OF True]] M1(1) [OF True] by (simp add: m')
    next
      case False
      then have e: "?r + j - cap c = 0 + (j - k)" "j - k < ?n - k" using j k by simp_all
      then have "cell c (i + j) = ?b + of_nat (0 + (j - k))" using ring [OF j] False k by simp
      moreover have "src + of_nat k + of_nat (j - k) = src + of_nat j"
        using False by (simp add: of_nat_diff)
      ultimately show ?thesis using M2(1) [OF e(2)] M1(2) [OF out [OF j]] by (simp add: m' add.assoc)
    qed
    have B: "m' a = m a" if na: "\<forall>j < ?n. a \<noteq> cell c (i + j)" for a
    proof -
      have "\<not> in_range (?b + of_nat ?r) k a"
      proof
        assume "in_range (?b + of_nat ?r) k a"
        then obtain j where "j < k" "a = ?b + of_nat (?r + j)" by (auto elim!: in_rangeE simp: add.assoc)
        then show False using na [rule_format, of j] ring [of j] k by simp
      qed
      moreover have "\<not> in_range (?b + of_nat 0) (?n - k) a"
      proof
        assume "in_range (?b + of_nat 0) (?n - k) a"
        then obtain j where j: "j < ?n - k" "a = ?b + of_nat j" by (auto elim!: in_rangeE)
        then have "\<not> ?r + (k + j) < cap c" "?r + (k + j) - cap c = j" "k + j < ?n" using k by simp_all
        with ring [of "k + j"] have "cell c (i + (k + j)) = ?b + of_nat j" by (simp only: if_False)
        with j(2) na [rule_format, OF \<open>k + j < ?n\<close>] show False by simp
      qed
      ultimately show ?thesis using M1(2) M2(2) by (simp add: m')
    qed
    show ?thesis using A B by blast
  qed
  show "j < ?n \<Longrightarrow> m' (cell c (i + j)) = m (src + of_nat j)" using both by blast
  show "(\<And>j. j < ?n \<Longrightarrow> a \<noteq> cell c (i + j)) \<Longrightarrow> m' a = m a" using both by blast
qed

section \<open>Writing\<close>

text \<open>
  The specification: the new bytes replace those at the offset, the list grows if they reach
  beyond its end, and only the newest bytes are kept if it grows beyond the capacity.
\<close>

definition overwrite :: "nat \<Rightarrow> u8 list \<Rightarrow> nat \<Rightarrow> u8 list \<Rightarrow> u8 list" where
  "overwrite q cs i ds = (let new = take i cs @ ds @ drop (i + length ds) cs in drop (length new - q) new)"

lemma cbuf_offsets:
  assumes "unat (index - start c) \<le> unat (cbuf_size c)"
  shows "unat (stop c - index) = unat (cbuf_size c) - unat (index - start c)"
proof -
  have "stop c - index = cbuf_size c - (index - start c)" by (simp add: cbuf_size_def)
  then show ?thesis using assms by (simp only: unat_sub_no_wrap)
qed

lemma cbuf_range_valid_index:
  "cbuf_range_valid c index (stop c) \<longleftrightarrow> unat (index - start c) \<le> unat (cbuf_size c)"
  using cbuf_offsets [of index c] by (auto simp: cbuf_range_valid_def word_le_nat_alt)

lemma cbuf_range_valid_end:
  "cbuf_range_valid c (start c) e \<longleftrightarrow> unat (e - start c) \<le> unat (cbuf_size c)"
  using cbuf_offsets [of e c] by (auto simp: cbuf_range_valid_def word_le_nat_alt)

lemma cbuf_copy_in_cong:
  "cbuf_copy_in m (c\<lparr>stop := e\<rparr>) index src sz = cbuf_copy_in m c index src sz"
  by (simp add: cbuf_copy_in_def cbuf_index_def Let_def)

lemma cbuf_write_eq:
  assumes inv: "cbuf_inv c" and i: "i \<le> unat (cbuf_size c)" and n: "i + unat sz < 2 ^ 32"
  defines "S \<equiv> unat (cbuf_size c)" and "k \<equiv> unat sz - cap c"
  shows "cbuf_write m c (start c + of_nat i) src sz =
    (None, c\<lparr>start := start c + of_nat (max S (i + unat sz) - cap c),
             stop := start c + of_nat (max S (i + unat sz))\<rparr>,
     cbuf_copy_in m c (start c + of_nat (i + k)) (src + of_nat k) (of_nat (unat sz - k)))"
proof -
  have S: "S \<le> cap c" using inv by (simp add: S_def cbuf_inv_def cap_def)
  have c: "cap c < 2 ^ 32" "capacity c = of_nat (cap c)" using cap_half [OF inv] by (simp_all add: cap_def)
  have ui: "unat (of_nat i :: u32) = i" using n by (intro unat_of_nat_u32) simp
  have e: "of_nat i + sz = (of_nat (i + unat sz) :: u32)" by simp
  have ue: "unat (of_nat i + sz) = i + unat sz" unfolding e using n by (rule unat_of_nat_u32)
  have v1: "cbuf_range_valid c (start c + of_nat i) (stop c)"
    using i ui by (simp add: cbuf_range_valid_index)
  have v2: "cbuf_range_valid c (start c) (start c + of_nat i + sz) \<longleftrightarrow> i + unat sz \<le> S"
    using ue by (simp add: cbuf_range_valid_end S_def add.assoc)
  show ?thesis
  proof (cases "i + unat sz \<le> S")
    case True
    then have "k = 0" "max S (i + unat sz) = S" "S - cap c = 0" using S by (simp_all add: k_def)
    moreover have "cbuf_update_start c = c"
      using inv by (simp add: cbuf_update_start_def cbuf_inv_def word_less_nat_alt)
    moreover have "start c + of_nat S = stop c" by (simp add: S_def cbuf_size_def)
    ultimately show ?thesis using v1 v2 True by (simp add: cbuf_write_def)
  next
    case False
    let ?c = "c\<lparr>stop := start c + of_nat i + sz\<rparr>"
    have N: "max S (i + unat sz) = i + unat sz" using False by simp
    have us: "unat (cbuf_size ?c) = i + unat sz" using ue by (simp add: cbuf_size_def add.assoc)
    have lt: "capacity c < cbuf_size ?c \<longleftrightarrow> cap c < i + unat sz" "capacity c < sz \<longleftrightarrow> cap c < unat sz"
      using us by (simp_all add: word_less_nat_alt cap_def)
    have upd: "cbuf_update_start ?c =
        c\<lparr>start := start c + of_nat (i + unat sz - cap c), stop := start c + of_nat (i + unat sz)\<rparr>"
    proof (cases "cap c < i + unat sz")
      case True
      then show ?thesis
        using lt(1) e c(2) by (simp add: cbuf_update_start_def of_nat_diff algebra_simps)
    next
      case False
      then show ?thesis using lt(1) by (simp add: cbuf_update_start_def add.assoc)
    qed
    have args: "(if capacity c < sz then (?c, start c + of_nat i + (sz - capacity c), src + (sz - capacity c), capacity c)
        else (?c, start c + of_nat i, src, sz)) =
      (?c, start c + of_nat (i + k), src + of_nat k, of_nat (unat sz - k))"
    proof (cases "cap c < unat sz")
      case True
      then have k: "of_nat k = sz - capacity c" "unat sz - k = cap c"
        by (simp_all add: k_def c(2) of_nat_diff)
      have "start c + of_nat (i + k) = start c + of_nat i + (sz - capacity c)"
        by (simp add: k(1) add.assoc)
      then show ?thesis using True lt(2) k c(2) by simp
    next
      case False
      then show ?thesis using lt(2) by (simp add: k_def)
    qed
    have "cbuf_write m c (start c + of_nat i) src sz =
        (case (?c, start c + of_nat (i + k), src + of_nat k, of_nat (unat sz - k)) of
          (c, index, src, sz) \<Rightarrow> (None, cbuf_update_start c, cbuf_copy_in m c index src sz))"
      unfolding args [symmetric] using v1 v2 False
      by (simp add: cbuf_write_def Let_def cbuf_capacity_def)
    then show ?thesis by (simp only: prod.case upd cbuf_copy_in_cong N)
  qed
qed

lemma cell_window:
  assumes "cbuf_inv c" and "d \<le> p" "p < d + cap c" "d \<le> q" "q < d + cap c" and "p \<noteq> q"
  shows "cell c p \<noteq> cell c q"
  using cell_inj [OF assms(1), of p q] cell_inj [OF assms(1), of q p] assms by (cases "p \<le> q") auto

lemma length_spliced:
  "i \<le> length cs \<Longrightarrow> length (take i cs @ ds @ drop (i + length ds) cs) = max (length cs) (i + length ds)"
  by (simp add: max_def)

lemma length_overwrite:
  assumes "i \<le> length cs"
  shows "length (overwrite q cs i ds) = min q (max (length cs) (i + length ds))"
  unfolding overwrite_def Let_def length_drop length_spliced [OF assms] by simp

lemma nth_overwrite:
  assumes "i \<le> length cs" and "p < length (overwrite q cs i ds)"
  defines "e \<equiv> max (length cs) (i + length ds) - q + p"
  shows "overwrite q cs i ds ! p =
    (if e < i then cs ! e else if e < i + length ds then ds ! (e - i) else cs ! e)"
proof -
  let ?new = "take i cs @ ds @ drop (i + length ds) cs"
  have "overwrite q cs i ds ! p = ?new ! e"
    unfolding overwrite_def Let_def e_def length_spliced [OF assms(1)]
    by (rule nth_drop) (simp only: length_spliced [OF assms(1)] diff_le_self)
  moreover have "e < max (length cs) (i + length ds)"
    using assms(2) unfolding e_def length_overwrite [OF assms(1)] by simp linarith
  ultimately show ?thesis using assms(1) by (auto simp: nth_append)
qed

lemma cell_in_storage: "cbuf_inv c \<Longrightarrow> in_range (buf c) (cap c) (cell c p)"
  using ring_less [of c p] cap_half [of c] by (simp add: cell_ring in_range_nth)

lemma cbuf_write_contents:
  assumes inv: "cbuf_inv c" and i: "i \<le> unat (cbuf_size c)" and sz: "sz \<noteq> 0" "i + unat sz < 2 ^ 32"
    and src: "\<forall>j < unat sz. \<not> in_range (buf c) (cap c) (src + of_nat j)"
  obtains c' m' where "cbuf_write m c (start c + of_nat i) src sz = (None, c', m')"
    and "cbuf_inv c'" and "buf c' = buf c" and "capacity c' = capacity c"
    and "cbuf_contents m' c' = overwrite (cap c) (cbuf_contents m c) i (bytes_at m src (unat sz))"
    and "\<forall>a. in_range (buf c) (cap c) a \<or> m' a = m a"
proof -
  define S n k where "S = unat (cbuf_size c)" and "n = unat sz" and "k = n - cap c"
  define N d where "N = max S (i + n)" and "d = N - cap c"
  define c' where "c' = c\<lparr>start := start c + of_nat d, stop := start c + of_nat N\<rparr>"
  define m' where "m' = cbuf_copy_in m c (start c + of_nat (i + k)) (src + of_nat k) (of_nat (n - k))"
  have c: "cap c < 2 ^ 32" "0 < cap c" using cap_half [OF inv] cap_pos [OF inv] by simp_all
  have S: "S \<le> cap c" using inv by (simp add: S_def cbuf_inv_def cap_def)
  have n: "0 < n" "n < 2 ^ 32" using sz by (simp_all add: n_def unat_gt_0)
  have N: "N < 2 ^ 32" using S c sz(2) by (simp add: N_def n_def)
  have nk: "0 < n - k" "n - k \<le> cap c" "k \<le> n" using n c by (auto simp: k_def)
  have unk: "unat (of_nat (n - k) :: u32) = n - k" using n by (intro unat_of_nat_u32) simp
  have w: "cbuf_write m c (start c + of_nat i) src sz = (None, c', m')"
    using cbuf_write_eq [OF inv i sz(2), of m src]
    by (simp add: c'_def m'_def d_def N_def S_def n_def k_def)
  have src': "\<forall>j < unat (of_nat (n - k) :: u32). \<not> in_range (buf c) (cap c) (src + of_nat k + of_nat j)"
    unfolding unk
  proof (intro allI impI)
    fix j assume "j < n - k"
    then show "\<not> in_range (buf c) (cap c) (src + of_nat k + of_nat j)"
      using src [rule_format, of "k + j"] by (simp add: n_def add.assoc)
  qed
  have "(of_nat (n - k) :: u32) \<noteq> 0" using unk nk(1) by auto
  note CP = cbuf_copy_in_apply [OF inv this _ src', where m = m and i = "i + k", folded m'_def, unfolded unk, OF nk(2)]
  have us: "unat (cbuf_size c') = N - d"
  proof -
    have "cbuf_size c' = of_nat (N - d)" by (simp add: c'_def cbuf_size_def d_def of_nat_diff)
    then show ?thesis using N by (simp add: unat_of_nat_u32)
  qed
  have inv': "cbuf_inv c'" using inv us S c by (auto simp: cbuf_inv_def c'_def d_def cap_def)
  have cell': "cell c' p = cell c (d + p)" for p
    by (simp add: cell_def c'_def cbuf_index_def add.assoc)
  have "cbuf_contents m' c' = overwrite (cap c) (cbuf_contents m c) i (bytes_at m src n)"
  proof (rule nth_equalityI)
    have L: "length (overwrite (cap c) (cbuf_contents m c) i (bytes_at m src n)) = min (cap c) N"
      using i by (simp add: length_overwrite N_def S_def)
    then show "length (cbuf_contents m' c') = length (overwrite (cap c) (cbuf_contents m c) i (bytes_at m src n))"
      using us by (simp add: d_def min_def)
    fix p assume "p < length (cbuf_contents m' c')"
    then have p: "p < N - d" using us by simp
    let ?e = "d + p"
    have lhs: "cbuf_contents m' c' ! p = m' (cell c ?e)"
      using p us by (simp add: cbuf_contents_def cell')
    have eq: "max (length (cbuf_contents m c)) (i + length (bytes_at m src n)) - cap c + p = ?e"
      by (simp add: d_def N_def S_def)
    have "p < min (cap c) N" using p d_def by (cases "cap c \<le> N") auto
    then have rhs: "overwrite (cap c) (cbuf_contents m c) i (bytes_at m src n) ! p =
        (if ?e < i then cbuf_contents m c ! ?e
         else if ?e < i + n then m (src + of_nat (?e - i)) else cbuf_contents m c ! ?e)"
      using nth_overwrite [of i "cbuf_contents m c" p "cap c" "bytes_at m src n", unfolded eq] i L
      by (auto simp: nth_bytes_at)
    have win: "d \<le> i + k" "i + n \<le> d + cap c"
      using S i c by (auto simp: d_def N_def k_def S_def)
    show "cbuf_contents m' c' ! p = overwrite (cap c) (cbuf_contents m c) i (bytes_at m src n) ! p"
    proof (cases "i + k \<le> ?e \<and> ?e < i + n")
      case True
      then have "?e = i + k + (?e - (i + k))" "?e - (i + k) < n - k"
        using nk(1,3) by linarith+
      with CP(1) [of "?e - (i + k)"] have "m' (cell c ?e) = m (src + of_nat k + of_nat (?e - (i + k)))"
        by simp
      moreover have "of_nat k + of_nat (?e - (i + k)) = (of_nat (?e - i) :: u32)"
        using True by (simp add: of_nat_diff)
      ultimately show ?thesis using lhs rhs True by (simp add: algebra_simps)
    next
      case False
      have e: "d \<le> ?e" "?e < d + cap c" "?e < N" using p by (auto simp: d_def)
      have "m' (cell c ?e) = m (cell c ?e)"
      proof (rule CP(2))
        fix j assume "j < n - k"
        then show "cell c ?e \<noteq> cell c (i + k + j)"
          using False win e by (intro cell_window [OF inv, of d]) auto
      qed
      moreover have "k = 0 \<or> i + k \<le> d" by (auto simp: k_def d_def N_def max_def)
      then have "?e < i \<or> i + n \<le> ?e" using False e(1) by auto
      moreover have "?e < S" using e(3) calculation(2) i by (auto simp: N_def S_def)
      ultimately show ?thesis using lhs rhs by (auto simp: cbuf_contents_def S_def)
    qed
  qed
  moreover have "m' a = m a" if "\<not> in_range (buf c) (cap c) a" for a
    by (rule CP(2)) (use that cell_in_storage [OF inv] in auto)
  ultimately show ?thesis using that [OF w inv'] by (auto simp: c'_def n_def)
qed

section \<open>Reading\<close>

lemma memcpy_from:
  assumes n: "n < 2 ^ 32" and dst: "\<forall>j < n. \<not> in_range b q (dst + of_nat j)"
    and src: "\<forall>j < n. in_range b q (s + of_nat j)"
  shows "j < n \<Longrightarrow> memcpy m dst s n (dst + of_nat j) = m (s + of_nat j)"
    and "\<not> in_range dst n a \<Longrightarrow> memcpy m dst s n a = m a"
proof -
  have ap: "memcpy m dst s n a = (if in_range dst n a then m (s + (a - dst)) else m a)" for a
  proof (rule memcpy_apply [OF n])
    fix i assume i: "i < n"
    show "\<not> in_range dst i (s + of_nat i)"
    proof
      assume "in_range dst i (s + of_nat i)"
      then obtain j where "j < i" "s + of_nat i = dst + of_nat j" by (rule in_rangeE)
      then show False using dst [rule_format, of j] src [rule_format, OF i] i by simp
    qed
  qed
  show "j < n \<Longrightarrow> memcpy m dst s n (dst + of_nat j) = m (s + of_nat j)"
    using ap [of "dst + of_nat j"] in_range_nth [of j n dst] n by simp
  show "\<not> in_range dst n a \<Longrightarrow> memcpy m dst s n a = m a" using ap by simp
qed

lemma cell_straight:
  assumes "cbuf_inv c" and "j \<le> cap c" and "ring c i + j < cap c"
  shows "cell c (i + j) = cell c i + of_nat j"
  using ring_add [OF assms(1,2), of i] assms(3) by (simp add: cell_ring [OF assms(1)])

lemma cell_wrapped:
  assumes "cbuf_inv c" and "ring c i + k = cap c" and "j + k \<le> cap c" "0 < k"
  shows "cell c (i + (k + j)) = buf c + of_nat j"
proof -
  have "k + j \<le> cap c" "\<not> ring c i + (k + j) < cap c" "ring c i + (k + j) - cap c = j" using assms by simp_all
  then show ?thesis using ring_add [OF assms(1), of "k + j" i] by (simp add: cell_ring [OF assms(1)])
qed

lemma cbuf_read_apply:
  fixes m :: bytes
  assumes inv: "cbuf_inv c" and i: "i < unat (cbuf_size c)" and z: "sizep \<noteq> 0"
  defines "n \<equiv> min (unat sizep) (unat (cbuf_size c) - i)"
  assumes dst: "\<forall>j < n. \<not> in_range (buf c) (cap c) (dst + of_nat j)"
  obtains m' where "cbuf_read m c (start c + of_nat i) dst sizep = (None, of_nat n, m')"
    and "\<And>j. j < n \<Longrightarrow> m' (dst + of_nat j) = m (cell c (i + j))"
    and "\<And>a. \<not> in_range dst n a \<Longrightarrow> m' a = m a"
proof -
  define S where "S = unat (cbuf_size c)"
  have S: "S \<le> cap c" "i < S" using inv i by (simp_all add: S_def cbuf_inv_def cap_def)
  have c: "cap c < 2 ^ 32" using cap_half [OF inv] by simp
  have n: "0 < n" "n \<le> cap c" "n < 2 ^ 32" "n \<le> S - i"
    using i z S c by (auto simp: n_def S_def unat_gt_0)
  have ui: "unat (of_nat i :: u32) = i" "unat (of_nat i + 1 :: u32) = i + 1"
    using unat_of_nat_u32 [of i] unat_of_nat_u32 [of "Suc i"] S c by (simp_all add: add.commute)
  have un: "unat (of_nat n :: u32) = n" by (rule unat_of_nat_u32 [OF n(3)])
  have nz: "(of_nat n :: u32) \<noteq> 0" using un n(1) by auto
  have rest: "unat (stop c - (start c + of_nat i)) = S - i"
    using cbuf_offsets [of "start c + of_nat i" c] ui S by (simp add: S_def)
  have "stop c - (start c + of_nat i + 1) = cbuf_size c - (of_nat i + 1)" by (simp add: cbuf_size_def algebra_simps)
  then have rest1: "unat (stop c - (start c + of_nat i + 1)) = S - (i + 1)"
    using ui S by (simp only: S_def unat_sub_no_wrap)
  have valid: "cbuf_range_valid c (start c + of_nat i) (start c + of_nat i + 1)"
    using ui S rest1 by (simp add: cbuf_range_valid_def word_le_nat_alt S_def)
  have sz: "(if stop c - (start c + of_nat i) < sizep then stop c - (start c + of_nat i) else sizep) = of_nat n"
  proof (cases "S - i < unat sizep")
    case True
    then have "n = unat (stop c - (start c + of_nat i))" using rest by (simp add: n_def S_def)
    then have "of_nat n = stop c - (start c + of_nat i)" by (simp only: of_nat_unat ucast_id)
    moreover have "stop c - (start c + of_nat i) < sizep" using True rest by (simp only: word_less_nat_alt)
    ultimately show ?thesis by simp
  next
    case False
    then have "n = unat sizep" by (simp add: n_def S_def)
    then show ?thesis using False rest by (simp add: word_less_nat_alt)
  qed
  have p: "buf c + cbuf_index c (start c + of_nat i) = cell c i" by (simp add: cell_def)
  note cut = cbuf_cut_iff [OF inv nz, unfolded un, OF n(2), of i]
  show ?thesis
  proof (cases "cap c < ring c i + n")
    case False
    let ?m = "memcpy m dst (cell c i) n"
    have r: "cbuf_read m c (start c + of_nat i) dst sizep = (None, of_nat n, ?m)"
      using cut False valid un unfolding cbuf_read_def Let_def sz p by (simp add: not_le not_less)
    have ce: "cell c (i + j) = cell c i + of_nat j" if "j < n" for j
      by (rule cell_straight [OF inv]) (use that False n in auto)
    have "\<forall>j < n. in_range (buf c) (cap c) (cell c i + of_nat j)"
      using ce cell_in_storage [OF inv] by metis
    note M = memcpy_from [OF n(3) dst this, where m = m]
    show ?thesis by (rule that [OF r]) (use M ce in simp_all)
  next
    case True
    define k where "k = cap c - ring c i"
    have k: "ring c i + k = cap c" "k < n" "0 < k" "k < 2 ^ 32"
      using ring_less [OF inv, of i] True c by (simp_all add: k_def)
    let ?m1 = "memcpy m dst (cell c i) k"
    let ?m2 = "memcpy ?m1 (dst + of_nat k) (buf c) (n - k)"
    have "capacity c - of_nat (ring c i) = of_nat k"
      unfolding k_def using ring_less [OF inv, of i] by (simp add: cap_def of_nat_diff)
    then have skip: "buf c + capacity c - cell c i = of_nat k" by (simp add: cell_ring [OF inv])
    have uk: "unat (of_nat k :: u32) = k" by (rule unat_of_nat_u32 [OF k(4)])
    have us: "unat (of_nat n - of_nat k :: u32) = n - k" using k un uk by (subst unat_sub_no_wrap) simp_all
    have r: "cbuf_read m c (start c + of_nat i) dst sizep = (None, of_nat n, ?m2)"
      using cut True valid un unfolding cbuf_read_def Let_def sz p skip uk us by (auto simp: not_le not_less)
    have ce1: "cell c (i + j) = cell c i + of_nat j" if "j < k" for j
      by (rule cell_straight [OF inv]) (use that k n in auto)
    have ce2: "cell c (i + (k + j)) = buf c + of_nat j" if "j < n - k" for j
      by (rule cell_wrapped [OF inv k(1)]) (use that k n in auto)
    have d1: "\<forall>j < k. \<not> in_range (buf c) (cap c) (dst + of_nat j)" using dst k by simp
    have "\<not> in_range (buf c) (cap c) (dst + of_nat k + of_nat j)" if "j < n - k" for j
      using dst [rule_format, of "k + j"] that by (simp add: add.assoc)
    then have d2: "\<forall>j < n - k. \<not> in_range (buf c) (cap c) (dst + of_nat k + of_nat j)" by simp
    have s1: "\<forall>j < k. in_range (buf c) (cap c) (cell c i + of_nat j)"
      using ce1 cell_in_storage [OF inv] by metis
    have s2: "\<forall>j < n - k. in_range (buf c) (cap c) (buf c + of_nat j)"
      using ce2 cell_in_storage [OF inv] by metis
    have nk: "n - k < 2 ^ 32" using n by simp
    note M1 = memcpy_from [OF k(4) d1 s1, where m = m]
    note M2 = memcpy_from [OF nk d2 s2, where m = ?m1]
    have keep: "?m1 x = m x" if "in_range (buf c) (cap c) x" for x
    proof (rule M1(2), rule notI)
      assume "in_range dst k x"
      then show False using d1 that by (metis in_rangeE)
    qed
    have "?m2 (dst + of_nat j) = m (cell c (i + j))" if j: "j < n" for j
    proof (cases "j < k")
      case True
      have "\<not> in_range (dst + of_nat k) (n - k) (dst + of_nat j)"
      proof
        assume "in_range (dst + of_nat k) (n - k) (dst + of_nat j)"
        then obtain j' where j': "j' < n - k" "dst + of_nat j = dst + of_nat k + of_nat j'" by (rule in_rangeE)
        then have "(of_nat j :: u32) = of_nat (k + j')" by (simp add: add.assoc)
        then have "j = k + j'"
          using unat_of_nat_u32 [of j] unat_of_nat_u32 [of "k + j'"] j j'(1) n(3) by simp
        then show False using True by simp
      qed
      then show ?thesis using M2(2) M1(1) True ce1 by simp
    next
      case False
      then have "dst + of_nat j = dst + of_nat k + of_nat (j - k)" by (simp add: of_nat_diff)
      moreover have "j - k < n - k" "j = k + (j - k)" using False j by simp_all
      ultimately show ?thesis
        using M2(1) [of "j - k"] keep [of "buf c + of_nat (j - k)"] s2 ce2 [of "j - k"] by metis
    qed
    moreover have "?m2 a = m a" if "\<not> in_range dst n a" for a
    proof -
      have "\<not> in_range dst k a" using that k by (auto simp: in_range_def)
      moreover have "\<not> in_range (dst + of_nat k) (n - k) a"
        using in_range_offset [of k "n - k" n dst a] that k n by auto
      ultimately show ?thesis using M1(2) M2(2) by simp
    qed
    ultimately show ?thesis by (rule that [OF r])
  qed
qed

end
