(* ===== verification/Cbuf_Props.thy ===== *)
theory Cbuf_Props
  imports Cbuf
begin

text \<open>
  The circular buffer behaves as a list of bytes.  The locale \<open>byte_queue\<close> is the contract its
  clients (the receive buffer of the UART driver) rely on: bytes leave in the order in which they
  were pushed, and a push fails exactly when the buffer is full.
\<close>

section \<open>The contract\<close>

locale byte_queue =
  fixes ok :: "'s \<Rightarrow> bool" and contents :: "'s \<Rightarrow> u8 list" and limit :: "'s \<Rightarrow> nat"
    and push :: "'s \<Rightarrow> u8 \<Rightarrow> 's option" and pop :: "'s \<Rightarrow> (u8 \<times> 's) option"
  assumes push_room: "ok s \<Longrightarrow> length (contents s) < limit s \<Longrightarrow>
      \<exists>s'. push s b = Some s' \<and> ok s' \<and> limit s' = limit s \<and> contents s' = contents s @ [b]"
    and push_full: "ok s \<Longrightarrow> limit s \<le> length (contents s) \<Longrightarrow> push s b = None"
    and pop_first: "ok s \<Longrightarrow> contents s = b # bs \<Longrightarrow>
      \<exists>s'. pop s = Some (b, s') \<and> ok s' \<and> limit s' = limit s \<and> contents s' = bs"
    and pop_empty: "ok s \<Longrightarrow> contents s = [] \<Longrightarrow> pop s = None"
begin

fun push_all :: "'s \<Rightarrow> u8 list \<Rightarrow> 's option" where
  "push_all s [] = Some s"
| "push_all s (b # bs) = Option.bind (push s b) (\<lambda>s. push_all s bs)"

fun pop_n :: "'s \<Rightarrow> nat \<Rightarrow> (u8 list \<times> 's) option" where
  "pop_n s 0 = Some ([], s)"
| "pop_n s (Suc n) =
     Option.bind (pop s) (\<lambda>(b, s). Option.bind (pop_n s n) (\<lambda>(bs, s). Some (b # bs, s)))"

lemma push_all_room:
  "ok s \<Longrightarrow> length (contents s) + length bs \<le> limit s \<Longrightarrow>
   \<exists>s'. push_all s bs = Some s' \<and> ok s' \<and> limit s' = limit s \<and> contents s' = contents s @ bs"
proof (induction bs arbitrary: s)
  case (Cons b bs)
  then have "length (contents s) < limit s" by simp
  then obtain s1 where 1: "push s b = Some s1" "ok s1" "limit s1 = limit s" "contents s1 = contents s @ [b]"
    using push_room [OF Cons.prems(1)] by blast
  obtain s2 where "push_all s1 bs = Some s2" "ok s2" "limit s2 = limit s1" "contents s2 = contents s1 @ bs"
    using Cons.IH [of s1] 1 Cons.prems(2) by auto
  then show ?case using 1 by simp
qed simp

lemma pop_n_contents:
  "ok s \<Longrightarrow> contents s = bs @ cs \<Longrightarrow>
   \<exists>s'. pop_n s (length bs) = Some (bs, s') \<and> ok s' \<and> limit s' = limit s \<and> contents s' = cs"
proof (induction bs arbitrary: s)
  case (Cons b bs)
  then obtain s1 where 1: "pop s = Some (b, s1)" "ok s1" "limit s1 = limit s" "contents s1 = bs @ cs"
    using pop_first [of s b "bs @ cs"] by auto
  obtain s2 where "pop_n s1 (length bs) = Some (bs, s2)" "ok s2" "limit s2 = limit s1" "contents s2 = cs"
    using Cons.IH [OF 1(2,4)] by blast
  then show ?case using 1 by simp
qed simp

lemma fifo:
  assumes "ok s" and "contents s = []" and "length bs \<le> limit s"
  shows "\<exists>s' s''. push_all s bs = Some s' \<and> pop_n s' (length bs) = Some (bs, s'') \<and> contents s'' = []"
proof -
  obtain s' where "push_all s bs = Some s'" "ok s'" "contents s' = bs @ []"
    using push_all_room [OF assms(1), of bs] assms(2,3) by auto
  then show ?thesis using pop_n_contents [of s' bs "[]"] by blast
qed

end

section \<open>Single bytes\<close>

lemma cbuf_pushb_contents:
  assumes inv: "cbuf_inv c" and room: "erase \<or> unat (cbuf_size c) < cap c"
  obtains c' m' where "cbuf_pushb m c byte erase = (None, c', m')" and "cbuf_inv c'"
    and "buf c' = buf c" and "capacity c' = capacity c"
    and "cbuf_contents m' c' = overwrite (cap c) (cbuf_contents m c) (unat (cbuf_size c)) [byte]"
    and "\<And>a. \<not> in_range (buf c) (cap c) a \<Longrightarrow> m' a = m a"
proof -
  define S where "S = unat (cbuf_size c)"
  define d where "d = S + 1 - cap c"
  define c' where "c' = c\<lparr>start := start c + of_nat d, stop := start c + of_nat (S + 1)\<rparr>"
  have S: "S \<le> cap c" using inv by (simp add: S_def cbuf_inv_def cap_def)
  have c: "cap c \<le> 2 ^ 31" "0 < cap c" using cap_half [OF inv] cap_pos [OF inv] .
  have st: "start c + of_nat S = stop c" by (simp add: S_def cbuf_size_def)
  have us1: "unat (of_nat (S + 1) :: u32) = S + 1" using S c by (intro unat_of_nat_u32) simp
  let ?c = "c\<lparr>stop := stop c + 1\<rparr>"
  have st1: "stop c + 1 = start c + of_nat (S + 1)" unfolding st [symmetric] by (simp add: add.assoc add.commute)
  have "cbuf_size ?c = of_nat (S + 1)" unfolding cbuf_size_def st1 by simp
  then have sz: "unat (cbuf_size ?c) = S + 1" by (simp only: us1)
  have lt: "capacity c < cbuf_size ?c \<longleftrightarrow> cap c < S + 1" using sz by (simp add: word_less_nat_alt cap_def)
  have upd: "cbuf_update_start ?c = c'"
  proof (cases "cap c < S + 1")
    case True
    then have "(of_nat d :: u32) = of_nat (S + 1) - capacity c"
      by (simp only: d_def of_nat_diff less_imp_le) (simp add: cap_def)
    then have e: "start c + of_nat d = stop c + 1 - capacity c" unfolding st1 by (simp only: add_diff_eq)
    have "cbuf_update_start ?c = ?c\<lparr>start := stop c + 1 - capacity c\<rparr>"
      using True lt by (simp add: cbuf_update_start_def)
    then show ?thesis unfolding c'_def e st1 [symmetric] by simp
  next
    case False
    then have "cbuf_update_start ?c = ?c" "d = 0" using lt by (simp_all add: cbuf_update_start_def d_def)
    then show ?thesis unfolding c'_def st1 [symmetric] by simp
  qed
  have full: "cbuf_capacity c - cbuf_size c = 0 \<longleftrightarrow> S = cap c"
    unfolding cbuf_capacity_def S_def cap_def right_minus_eq
    using word_unat_eq_iff [of "capacity c" "cbuf_size c"] by auto
  have cS: "cell c S = buf c + cbuf_index c (stop c)" by (simp add: cell_def st)
  let ?m = "m(cell c S := byte)"
  have r: "cbuf_pushb m c byte erase = (None, c', ?m)"
    using room [folded S_def] full upd cS by (auto simp: cbuf_pushb_def Let_def)
  have us: "unat (cbuf_size c') = S + 1 - d"
  proof -
    have "cbuf_size c' = of_nat (S + 1 - d)" by (simp add: c'_def cbuf_size_def d_def of_nat_diff)
    then show ?thesis using S c by (simp add: unat_of_nat_u32)
  qed
  have inv': "cbuf_inv c'" using inv us S c by (auto simp: cbuf_inv_def c'_def d_def cap_def)
  have cell': "cell c' p = cell c (d + p)" for p
    by (simp add: cell_def c'_def cbuf_index_def add.assoc)
  have "cbuf_contents ?m c' = overwrite (cap c) (cbuf_contents m c) S [byte]"
  proof (rule nth_equalityI)
    have L: "length (overwrite (cap c) (cbuf_contents m c) S [byte]) = min (cap c) (S + 1)"
      by (simp add: length_overwrite S_def)
    then show "length (cbuf_contents ?m c') = length (overwrite (cap c) (cbuf_contents m c) S [byte])"
      using us by (simp add: d_def min_def)
    fix p assume "p < length (cbuf_contents ?m c')"
    then have p: "p < S + 1 - d" using us by simp
    have eq: "max (length (cbuf_contents m c)) (S + length [byte]) - cap c + p = d + p"
      by (simp add: d_def S_def)
    have "p < min (cap c) (S + 1)" using p d_def by (cases "cap c \<le> S + 1") auto
    then have rhs: "overwrite (cap c) (cbuf_contents m c) S [byte] ! p =
        (if d + p < S then cbuf_contents m c ! (d + p) else byte)"
      using nth_overwrite [of S "cbuf_contents m c" p "cap c" "[byte]", unfolded eq] L p
      by (auto simp: S_def)
    have "cell c (d + p) \<noteq> cell c S" if "d + p < S"
      using that S c by (intro cell_window [OF inv, of d]) (auto simp: d_def)
    moreover have "d + p = S" if "\<not> d + p < S" using that p by simp
    ultimately show "cbuf_contents ?m c' ! p = overwrite (cap c) (cbuf_contents m c) S [byte] ! p"
      using rhs p us by (auto simp: cbuf_contents_def cell' S_def)
  qed
  moreover have "?m a = m a" if "\<not> in_range (buf c) (cap c) a" for a
    using that cell_in_storage [OF inv, of S] by auto
  ultimately show ?thesis using that [OF r inv'] by (simp add: c'_def S_def)
qed

lemma overwrite_append:
  "overwrite q cs (length cs) ds = drop (length cs + length ds - q) (cs @ ds)"
  by (simp add: overwrite_def)

lemma cbuf_advance:
  assumes "cbuf_inv c" and "n \<le> unat (cbuf_size c)"
  shows "cbuf_inv (c\<lparr>start := start c + of_nat n\<rparr>)"
    and "cbuf_contents m (c\<lparr>start := start c + of_nat n\<rparr>) = drop n (cbuf_contents m c)"
proof -
  let ?c = "c\<lparr>start := start c + of_nat n\<rparr>"
  have "unat (of_nat n :: u32) = n" using assms(2) unat_u32_less [of "cbuf_size c"] by (intro unat_of_nat_u32) simp
  moreover have "cbuf_size ?c = cbuf_size c - of_nat n" by (simp add: cbuf_size_def)
  ultimately have us: "unat (cbuf_size ?c) = unat (cbuf_size c) - n"
    using assms(2) by (simp only: unat_sub_no_wrap)
  show "cbuf_inv ?c" using assms(1) us by (auto simp: cbuf_inv_def)
  have "cell ?c p = cell c (n + p)" for p by (simp add: cell_def cbuf_index_def add.assoc)
  then show "cbuf_contents m ?c = drop n (cbuf_contents m c)"
    by (auto simp: cbuf_contents_def us drop_map intro!: nth_equalityI)
qed

lemma cbuf_contents_nth: "p < unat (cbuf_size c) \<Longrightarrow> cbuf_contents m c ! p = m (cell c p)"
  by (simp add: cbuf_contents_def)

lemma cbuf_popb_contents:
  assumes inv: "cbuf_inv c" and cs: "cbuf_contents m c = b # bs"
  shows "\<exists>c'. cbuf_popb m c = Inr (b, c') \<and> cbuf_inv c' \<and> buf c' = buf c \<and>
    capacity c' = capacity c \<and> cbuf_contents m c' = bs"
proof -
  have S: "unat (cbuf_size c) = Suc (length bs)" using cs by (metis length_Cons length_cbuf_contents)
  then have "cbuf_size c \<noteq> 0" by auto
  moreover have "m (buf c + cbuf_index c (start c)) = b"
    using cbuf_contents_nth [of 0 c m] cs S by (simp add: cell_def)
  ultimately show ?thesis
    using cbuf_advance [OF inv, of 1] cs S by (simp add: cbuf_popb_def)
qed

lemma cbuf_empty_iff: "cbuf_size c = 0 \<longleftrightarrow> cbuf_contents m c = []"
  by (metis length_0_conv length_cbuf_contents unat_eq_0)

definition ring_push :: "bytes \<times> cbuf \<Rightarrow> u8 \<Rightarrow> (bytes \<times> cbuf) option" where
  "ring_push s b = (case cbuf_pushb (fst s) (snd s) b False of
     (None, c, m) \<Rightarrow> Some (m, c) | (Some _, _, _) \<Rightarrow> None)"

definition ring_pop :: "bytes \<times> cbuf \<Rightarrow> (u8 \<times> bytes \<times> cbuf) option" where
  "ring_pop s = (case cbuf_popb (fst s) (snd s) of
     Inl _ \<Rightarrow> None | Inr (b, c) \<Rightarrow> Some (b, fst s, c))"

interpretation ringq: byte_queue "\<lambda>s. cbuf_inv (snd s)" "\<lambda>s. cbuf_contents (fst s) (snd s)"
  "\<lambda>s. cap (snd s)" ring_push ring_pop
proof
  fix s :: "bytes \<times> cbuf" and b
  assume inv: "cbuf_inv (snd s)"
  {
    assume "length (cbuf_contents (fst s) (snd s)) < cap (snd s)"
    then have room: "unat (cbuf_size (snd s)) < cap (snd s)" by simp
    then obtain c' m' where "cbuf_pushb (fst s) (snd s) b False = (None, c', m')" "cbuf_inv c'"
      "capacity c' = capacity (snd s)"
      "cbuf_contents m' c' = overwrite (cap (snd s)) (cbuf_contents (fst s) (snd s))
         (unat (cbuf_size (snd s))) [b]"
      using cbuf_pushb_contents [OF inv, of False] by metis
    then show "\<exists>s'. ring_push s b = Some s' \<and> cbuf_inv (snd s') \<and> cap (snd s') = cap (snd s) \<and>
        cbuf_contents (fst s') (snd s') = cbuf_contents (fst s) (snd s) @ [b]"
      using overwrite_append [of "cap (snd s)" "cbuf_contents (fst s) (snd s)" "[b]"] room
      by (auto simp: ring_push_def cap_def)
  next
    assume "cap (snd s) \<le> length (cbuf_contents (fst s) (snd s))"
    then have "capacity (snd s) = cbuf_size (snd s)"
      using inv by (auto simp: cbuf_inv_def cap_def word_unat_eq_iff)
    then show "ring_push s b = None" by (simp add: ring_push_def cbuf_pushb_def cbuf_capacity_def)
  next
    fix bs assume "cbuf_contents (fst s) (snd s) = b # bs"
    from cbuf_popb_contents [OF inv this]
    show "\<exists>s'. ring_pop s = Some (b, s') \<and> cbuf_inv (snd s') \<and> cap (snd s') = cap (snd s) \<and>
        cbuf_contents (fst s') (snd s') = bs"
      by (auto simp: ring_pop_def cap_def)
  next
    assume "cbuf_contents (fst s) (snd s) = []"
    then show "ring_pop s = None"
      using cbuf_empty_iff [of "snd s" "fst s"] by (simp add: ring_pop_def cbuf_popb_def)
  }
qed

section \<open>Properties\<close>

definition sample_cbuf :: cbuf where
  "sample_cbuf = \<lparr>buf = 256, capacity = 4, start = - 2, stop = 0\<rparr>"

definition sample_bytes :: bytes where
  "sample_bytes = (\<lambda>_. 0)(258 := 1, 259 := 2, 1024 := 3, 1025 := 4, 1026 := 5, 1027 := 6, 1028 := 7)"











text \<open>
  the buffer is a queue of bytes.  Any bytes up to the capacity, pushed one by one without
  permission to erase, are accepted and popped in the same order, wherever the indexes stand.
\<close>

theorem cbuf_bytes_fifo:
  assumes "cbuf_inv c" and "cbuf_size c = 0" and "length bs \<le> unat (capacity c)"
  shows "\<exists>s s'. ringq.push_all (m, c) bs = Some s \<and> ringq.pop_n s (length bs) = Some (bs, s') \<and>
    cbuf_size (snd s') = 0"
  using ringq.fifo [of "(m, c)" bs] assms cbuf_empty_iff by (fastforce simp: cap_def)

theorem cbuf_bytes_fifo_witness:
  "\<exists>s s'. ringq.push_all (sample_bytes, cbuf_clear sample_cbuf) [9, 8, 7, 6] = Some s \<and>
     ringq.pop_n s 4 = Some ([9, 8, 7, 6], s')"
proof -
  have "cbuf_inv (cbuf_clear sample_cbuf)" "cbuf_size (cbuf_clear sample_cbuf) = 0"
    "capacity (cbuf_clear sample_cbuf) = 4"
    unfolding cbuf_inv_def
    by (auto simp: sample_cbuf_def cbuf_size_def cbuf_clear_def intro!: exI [of _ 2])
  moreover have four: "length [9, 8, 7, 6 :: u8] = 4" by simp
  ultimately show ?thesis
    using cbuf_bytes_fifo [of "cbuf_clear sample_cbuf" "[9, 8, 7, 6]" sample_bytes, unfolded four]
    by (auto simp del: ringq.push_all.simps ringq.pop_n.simps)
qed

text \<open>
  \<^verbatim>\<open>cbuf_write\<close> of no bytes at an index that is a multiple of the capacity takes the
  branch of a copy that is cut in two: it copies the whole capacity from the source, and then the
  rest of the address space.
\<close>

theorem cbuf_write_zero:
  assumes "cbuf_range_valid c index (stop c)" and "cbuf_range_valid c (start c) index"
    and "cbuf_index c index = 0"
  shows "cbuf_write m c index src 0 =
    (None, cbuf_update_start c,
     memcpy (memcpy m (buf c) src (unat (capacity c))) (buf c) (src + capacity c) (unat (- capacity c)))"
  using assms by (simp add: cbuf_write_def cbuf_copy_in_def Let_def)

theorem cbuf_write_zero_witness:
  "cbuf_write sample_bytes sample_cbuf 0 1024 0 =
     (None, sample_cbuf, memcpy (memcpy sample_bytes 256 1024 4) 256 1028 4294967292)"
proof -
  have "cbuf_range_valid sample_cbuf 0 (stop sample_cbuf)" "cbuf_range_valid sample_cbuf (start sample_cbuf) 0"
    "cbuf_index sample_cbuf 0 = 0"
    by (simp_all add: sample_cbuf_def cbuf_range_valid_def cbuf_size_def cbuf_index_def)
  from cbuf_write_zero [OF this, of sample_bytes 1024] show ?thesis
    by (simp add: cbuf_update_start_def cbuf_size_def sample_cbuf_def unat_minus)
qed

end
