(* ===== verification/Thread.thy ===== *)
theory Thread
  imports Mutex
begin

text \<open>
  The thread module of src/thread.c: the run queue, context switches, preemption levels, sleeping
  and waking up.

  A thread that is switched out inside a kernel function continues later behind its call of
  \<^verbatim>\<open>thread_switch_context\<close>.  What remains to be executed by a thread is the field
  \<open>code\<close> of its record, a stack of instructions: calls of kernel functions (the program of
  the thread), and the rests of kernel functions that have been entered.  A function that does
  something after a call that may switch pushes this rest before the call.  \<open>intr\<close> is the
  interrupt flag of EFLAGS, the only flag the code reads; it is saved and restored by a context
  switch (thread_asm.S).

  The run queue's lists are sequences of threads, which theory Linked shows the linked lists to
  be.  A null thread pointer is address 0.  The result \<^term>\<open>None\<close> is a panic or the use of
  an empty list's first entry.
\<close>

datatype thread_state = THREAD_STATE_RUNNING | THREAD_STATE_SLEEPING | THREAD_STATE_DEAD

datatype instr =
    Mutex_lock u32
  | Mutex_unlock u32
  | Condvar_wait u32 u32
  | Condvar_signal u32
  | Condvar_broadcast u32
  | Thread_yield
  | Thread_wakeup tid
  | Thread_sleep
  | Thread_join tid
  | Thread_exit
  | Preempt_disable
  | Preempt_enable
  | Cpu_idle
  | Thread_main
  | Unlock_scheduler bool bool
  | Sleep_done bool
  | Lock_loop u32
  | Wait_loop u32 u32
  | Wait_unlocked u32 u32
  | Join_loop tid bool
  | Join_done tid
  | Dead_walking
  | Iret

text \<open>
  The constructors from \<^const>\<open>Cpu_idle\<close> on are the loop of the idle thread and rests of
  functions: \<^const>\<open>Thread_main\<close> is the entry of a new thread, \<^const>\<open>Unlock_scheduler\<close> the
  end of \<^verbatim>\<open>thread_yield\<close>, \<^const>\<open>Sleep_done\<close> the end of \<^verbatim>\<open>thread_sleep\<close>,
  \<^const>\<open>Lock_loop\<close> the loop condition and the end of \<^verbatim>\<open>mutex_lock\<close>,
  \<^const>\<open>Wait_unlocked\<close> and \<^const>\<open>Wait_loop\<close> the rests of \<^verbatim>\<open>condvar_wait\<close> behind
  its call of \<^verbatim>\<open>mutex_unlock\<close> and at its loop condition, \<^const>\<open>Join_loop\<close> and
  \<^const>\<open>Join_done\<close> those of \<^verbatim>\<open>thread_join\<close>, \<^const>\<open>Dead_walking\<close> the panic
  behind \<^verbatim>\<open>thread_exit\<close> and \<^const>\<open>Iret\<close> the return from an interrupt.
\<close>

record thread =
  tstate :: thread_state
  yield :: bool
  preempt_level :: u32
  priority :: u32
  joiner :: tid
  saved_intr :: bool
  code :: "instr list"

record kernel =
  current :: tid
  nr_threads :: u32
  lists :: "tid list list"
  idle :: tid
  threads :: "tid \<Rightarrow> thread"
  intr :: bool
  mutexes :: "u32 \<Rightarrow> mutex"
  condvars :: "u32 \<Rightarrow> (tid \<times> bool) list"

definition THREAD_NR_PRIORITIES :: nat where "THREAD_NR_PRIORITIES = 20"

section \<open>Accessors\<close>

definition upd_thread :: "tid \<Rightarrow> (thread \<Rightarrow> thread) \<Rightarrow> kernel \<Rightarrow> kernel" where
  "upd_thread t f k = k\<lparr>threads := (threads k)(t := f (threads k t))\<rparr>"

definition push :: "instr list \<Rightarrow> kernel \<Rightarrow> kernel" where
  "push is k = upd_thread (current k) (\<lambda>t. t\<lparr>code := is @ code t\<rparr>) k"

definition thread_runq_get_current :: "kernel \<Rightarrow> tid" where
  "thread_runq_get_current k = current k"

definition thread_self :: "kernel \<Rightarrow> tid" where
  "thread_self k = thread_runq_get_current k"

lemma thread_self_eq: "thread_self k = current k"
  by (simp add: thread_self_def thread_runq_get_current_def)

definition thread_is_running :: "kernel \<Rightarrow> tid \<Rightarrow> bool" where
  "thread_is_running k t \<longleftrightarrow> tstate (threads k t) = THREAD_STATE_RUNNING"

definition thread_is_dead :: "kernel \<Rightarrow> tid \<Rightarrow> bool" where
  "thread_is_dead k t \<longleftrightarrow> tstate (threads k t) = THREAD_STATE_DEAD"

definition thread_set_running :: "tid \<Rightarrow> kernel \<Rightarrow> kernel" where
  "thread_set_running t = upd_thread t (\<lambda>t. t\<lparr>tstate := THREAD_STATE_RUNNING\<rparr>)"

definition thread_set_sleeping :: "tid \<Rightarrow> kernel \<Rightarrow> kernel" where
  "thread_set_sleeping t = upd_thread t (\<lambda>t. t\<lparr>tstate := THREAD_STATE_SLEEPING\<rparr>)"

definition thread_set_dead :: "tid \<Rightarrow> kernel \<Rightarrow> kernel" where
  "thread_set_dead t = upd_thread t (\<lambda>t. t\<lparr>tstate := THREAD_STATE_DEAD\<rparr>)"

definition thread_should_yield :: "kernel \<Rightarrow> tid \<Rightarrow> bool" where
  "thread_should_yield k t = yield (threads k t)"

definition thread_set_yield :: "tid \<Rightarrow> kernel \<Rightarrow> kernel" where
  "thread_set_yield t = upd_thread t (\<lambda>t. t\<lparr>yield := True\<rparr>)"

definition thread_clear_yield :: "tid \<Rightarrow> kernel \<Rightarrow> kernel" where
  "thread_clear_yield t = upd_thread t (\<lambda>t. t\<lparr>yield := False\<rparr>)"

definition thread_get_priority :: "kernel \<Rightarrow> tid \<Rightarrow> u32" where
  "thread_get_priority k t = priority (threads k t)"

section \<open>Interrupts and preemption\<close>

definition cpu_intr_save :: "kernel \<Rightarrow> bool \<times> kernel" where
  "cpu_intr_save k = (intr k, k\<lparr>intr := False\<rparr>)"

definition cpu_intr_restore :: "bool \<Rightarrow> kernel \<Rightarrow> kernel" where
  "cpu_intr_restore eflags k = k\<lparr>intr := eflags\<rparr>"

definition cpu_intr_enabled :: "kernel \<Rightarrow> bool" where
  "cpu_intr_enabled k = intr k"

definition thread_preempt_enabled :: "kernel \<Rightarrow> bool" where
  "thread_preempt_enabled k \<longleftrightarrow> preempt_level (threads k (thread_self k)) = 0"

definition thread_preempt_disable :: "kernel \<Rightarrow> kernel option" where
  "thread_preempt_disable k = do {
     let k = upd_thread (thread_self k) (\<lambda>t. t\<lparr>preempt_level := preempt_level t + 1\<rparr>) k;
     assert (preempt_level (threads k (thread_self k)) \<noteq> 0);
     Some k
   }"

definition thread_preempt_enable_no_yield :: "kernel \<Rightarrow> kernel option" where
  "thread_preempt_enable_no_yield k = do {
     assert (preempt_level (threads k (thread_self k)) \<noteq> 0);
     Some (upd_thread (thread_self k) (\<lambda>t. t\<lparr>preempt_level := preempt_level t - 1\<rparr>) k)
   }"

definition thread_scheduler_locked :: "kernel \<Rightarrow> bool" where
  "thread_scheduler_locked k \<longleftrightarrow> \<not> cpu_intr_enabled k \<and> \<not> thread_preempt_enabled k"

definition thread_lock_scheduler :: "kernel \<Rightarrow> (bool \<times> kernel) option" where
  "thread_lock_scheduler k = do {
     k \<leftarrow> thread_preempt_disable k;
     Some (cpu_intr_save k)
   }"

section \<open>The run queue\<close>

definition thread_runq_get_list :: "u32 \<Rightarrow> nat option" where
  "thread_runq_get_list prio = do {
     assert (unat prio < THREAD_NR_PRIORITIES);
     Some (unat prio)
   }"

definition thread_list_enqueue :: "nat \<Rightarrow> tid \<Rightarrow> kernel \<Rightarrow> kernel" where
  "thread_list_enqueue i t k = k\<lparr>lists := (lists k)[i := lists k ! i @ [t]]\<rparr>"

definition thread_list_dequeue :: "nat \<Rightarrow> kernel \<Rightarrow> (tid \<times> kernel) option" where
  "thread_list_dequeue i k =
     (case lists k ! i of [] \<Rightarrow> None | t # ts \<Rightarrow> Some (t, k\<lparr>lists := (lists k)[i := ts]\<rparr>))"

definition thread_remove_from_list :: "tid \<Rightarrow> kernel \<Rightarrow> kernel" where
  "thread_remove_from_list t k = k\<lparr>lists := map (remove1 t) (lists k)\<rparr>"

definition thread_runq_put_prev :: "tid \<Rightarrow> kernel \<Rightarrow> kernel option" where
  "thread_runq_put_prev t k =
     (if t = idle k then Some k
      else do {
        i \<leftarrow> thread_runq_get_list (thread_get_priority k t);
        Some (thread_list_enqueue i t k)
      })"

definition thread_list_empty :: "tid list \<Rightarrow> bool" where
  [simp]: "thread_list_empty l \<longleftrightarrow> l = []"

text \<open>
  The loop of \<^verbatim>\<open>thread_runq_get_next\<close>, from the list of the highest priority down: the list
  with which it ends.
\<close>

fun thread_runq_scan :: "tid list list \<Rightarrow> nat \<Rightarrow> nat" where
  "thread_runq_scan ls 0 = 0"
| "thread_runq_scan ls (Suc i) =
     (if \<not> thread_list_empty (ls ! Suc i) then Suc i else thread_runq_scan ls i)"

definition thread_runq_get_next :: "kernel \<Rightarrow> (tid \<times> kernel) option" where
  "thread_runq_get_next k = do {
     assert (current k \<noteq> 0);
     (t, k) \<leftarrow>
       (if nr_threads k = 0 then Some (idle k, k)
        else thread_list_dequeue (thread_runq_scan (lists k) (THREAD_NR_PRIORITIES - 1)) k);
     Some (t, k\<lparr>current := t\<rparr>)
   }"

definition thread_runq_add :: "tid \<Rightarrow> kernel \<Rightarrow> kernel option" where
  "thread_runq_add t k = do {
     assert (thread_scheduler_locked k);
     assert (thread_is_running k t);
     i \<leftarrow> thread_runq_get_list (thread_get_priority k t);
     let k = thread_list_enqueue i t k;
     let k = k\<lparr>nr_threads := nr_threads k + 1\<rparr>;
     assert (nr_threads k \<noteq> 0);
     Some (if thread_get_priority k (current k) < thread_get_priority k t
           then thread_set_yield (current k) k else k)
   }"

definition thread_runq_remove :: "tid \<Rightarrow> kernel \<Rightarrow> kernel option" where
  "thread_runq_remove t k = do {
     assert (nr_threads k \<noteq> 0);
     let k = k\<lparr>nr_threads := nr_threads k - 1\<rparr>;
     assert (\<not> thread_is_running k t);
     Some (thread_remove_from_list t k)
   }"

text \<open>\<^verbatim>\<open>thread_switch_context\<close> of thread_asm.S: EFLAGS is saved and restored.\<close>

definition thread_switch_context :: "tid \<Rightarrow> tid \<Rightarrow> kernel \<Rightarrow> kernel" where
  "thread_switch_context prev next k =
     (let k = upd_thread prev (\<lambda>t. t\<lparr>saved_intr := intr k\<rparr>) k
      in k\<lparr>intr := saved_intr (threads k next)\<rparr>)"

definition thread_runq_schedule :: "kernel \<Rightarrow> kernel option" where
  "thread_runq_schedule k = do {
     let prev = current k;
     assert (thread_scheduler_locked k);
     assert (preempt_level (threads k prev) = 1);
     k \<leftarrow> thread_runq_put_prev prev k;
     k \<leftarrow> (if \<not> thread_is_running k prev then thread_runq_remove prev k else Some k);
     (next, k) \<leftarrow> thread_runq_get_next k;
     Some (if prev \<noteq> next then thread_switch_context prev next k else k)
   }"

section \<open>Yielding, sleeping, waking up\<close>

definition thread_yield :: "kernel \<Rightarrow> kernel option" where
  "thread_yield k =
     (if \<not> thread_preempt_enabled k then Some k
      else do {
        (eflags, k) \<leftarrow> thread_lock_scheduler k;
        let k = thread_clear_yield (thread_self k) k;
        thread_runq_schedule (push [Unlock_scheduler eflags False] k)
      })"

definition thread_yield_if_needed :: "kernel \<Rightarrow> kernel option" where
  "thread_yield_if_needed k =
     (if thread_should_yield k (thread_self k) then thread_yield k else Some k)"

definition thread_preempt_enable :: "kernel \<Rightarrow> kernel option" where
  "thread_preempt_enable k = do {
     k \<leftarrow> thread_preempt_enable_no_yield k;
     thread_yield_if_needed k
   }"

definition thread_unlock_scheduler :: "bool \<Rightarrow> bool \<Rightarrow> kernel \<Rightarrow> kernel option" where
  "thread_unlock_scheduler eflags yld k =
     (let k = cpu_intr_restore eflags k in
      if yld then thread_preempt_enable k else thread_preempt_enable_no_yield k)"

definition thread_sleep :: "kernel \<Rightarrow> kernel option" where
  "thread_sleep k = do {
     let t = thread_self k;
     let (eflags, k) = cpu_intr_save k;
     assert (thread_is_running k t);
     let k = thread_set_sleeping t k;
     thread_runq_schedule (push [Sleep_done eflags] k)
   }"

definition thread_sleep_done :: "bool \<Rightarrow> kernel \<Rightarrow> kernel option" where
  "thread_sleep_done eflags k = do {
     assert (thread_is_running k (thread_self k));
     Some (cpu_intr_restore eflags k)
   }"

definition thread_wakeup :: "tid \<Rightarrow> kernel \<Rightarrow> kernel option" where
  "thread_wakeup t k =
     (if t = 0 \<or> t = thread_self k then Some k
      else do {
        (eflags, k) \<leftarrow> thread_lock_scheduler k;
        k \<leftarrow> (if \<not> thread_is_running k t then do {
                 assert (\<not> thread_is_dead k t);
                 thread_runq_add t (thread_set_running t k)
               } else Some k);
        thread_unlock_scheduler eflags True k
      })"

text \<open>A tick sets the yield flag; the timer module's part is in theory Timer.\<close>

definition thread_report_tick :: "kernel \<Rightarrow> kernel" where
  "thread_report_tick k = thread_set_yield (thread_self k) k"

section \<open>Creation and termination\<close>

definition thread_main :: "kernel \<Rightarrow> kernel option" where
  "thread_main k = do {
     assert (thread_scheduler_locked k);
     assert (preempt_level (threads k (thread_self k)) = 1);
     thread_preempt_enable (k\<lparr>intr := True\<rparr>)
   }"

text \<open>
  \<^verbatim>\<open>thread_init\<close>: the forged stack makes the thread start in \<^verbatim>\<open>thread_main\<close>, which
  runs the function and exits, with only the always-one bit of EFLAGS set.
\<close>

definition thread_init :: "tid \<Rightarrow> instr list \<Rightarrow> u32 \<Rightarrow> kernel \<Rightarrow> kernel" where
  "thread_init t fn prio = upd_thread t (\<lambda>t. t\<lparr>
     tstate := THREAD_STATE_RUNNING, yield := False, preempt_level := 1, priority := prio,
     joiner := 0, saved_intr := False, code := Thread_main # fn @ [Thread_exit]\<rparr>)"

text \<open>
  \<^verbatim>\<open>thread_create\<close>: \<open>t\<close> and \<open>stack\<close> are the results of its two calls of
  \<^verbatim>\<open>malloc\<close> (theory Thread\_Memory), 0 for a failure.  The result is the error, \<^term>\<open>None\<close> for 0.
\<close>

definition thread_create ::
  "tid \<Rightarrow> u32 \<Rightarrow> instr list \<Rightarrow> u32 \<Rightarrow> kernel \<Rightarrow> (error option \<times> kernel) option" where
  "thread_create t stack fn prio k =
     (if t = 0 \<or> stack = 0 then Some (Some ERROR_NOMEM, k)
      else do {
        (eflags, k) \<leftarrow> thread_lock_scheduler (thread_init t fn prio k);
        k \<leftarrow> thread_runq_add t k;
        k \<leftarrow> thread_unlock_scheduler eflags True k;
        Some (None, k)
      })"

definition thread_exit :: "kernel \<Rightarrow> kernel option" where
  "thread_exit k = do {
     let t = thread_self k;
     assert (thread_preempt_enabled k);
     (_, k) \<leftarrow> thread_lock_scheduler k;
     assert (thread_is_running k t);
     let k = thread_set_dead t k;
     k \<leftarrow> thread_wakeup (joiner (threads k t)) k;
     thread_runq_schedule (push [Dead_walking] k)
   }"

text \<open>\<^verbatim>\<open>thread_join\<close> and its loop; the memory that \<^verbatim>\<open>thread_destroy\<close> frees is in theory Thread\_Memory.\<close>

definition thread_join_loop :: "tid \<Rightarrow> bool \<Rightarrow> kernel \<Rightarrow> kernel option" where
  "thread_join_loop t eflags k =
     (if \<not> thread_is_dead k t then thread_sleep (push [Join_loop t eflags] k)
      else thread_unlock_scheduler eflags True (push [Join_done t] k))"

definition thread_join :: "tid \<Rightarrow> kernel \<Rightarrow> kernel option" where
  "thread_join t k = do {
     (eflags, k) \<leftarrow> thread_lock_scheduler k;
     let k = upd_thread t (\<lambda>x. x\<lparr>joiner := thread_self k\<rparr>) k;
     thread_join_loop t eflags k
   }"

definition thread_destroy :: "tid \<Rightarrow> kernel \<Rightarrow> kernel option" where
  "thread_destroy t k = do {
     assert (thread_is_dead k t);
     Some k
   }"

text \<open>
  Start-up: \<open>thread_setup\<close> initialises the run queue with the idle thread (\<open>t\<close> is the
  result of \<^verbatim>\<open>malloc\<close>), and \<open>thread_enable_scheduler\<close> switches to the first thread.
\<close>

definition thread_runq_preinit :: "tid \<Rightarrow> kernel \<Rightarrow> kernel" where
  "thread_runq_preinit dummy k =
     (upd_thread dummy (\<lambda>t. t\<lparr>tstate := THREAD_STATE_RUNNING, yield := False,
        preempt_level := 1, priority := 0, joiner := 0\<rparr>) k)\<lparr>current := dummy\<rparr>"

definition thread_bootstrap :: "tid \<Rightarrow> kernel \<Rightarrow> kernel" where
  "thread_bootstrap dummy k = thread_runq_preinit dummy k"

definition THREAD_IDLE_PRIORITY :: u32 where "THREAD_IDLE_PRIORITY = 0"

definition thread_idle :: "instr list" where
  "thread_idle = [Cpu_idle]"

definition thread_create_idle :: "tid \<Rightarrow> u32 \<Rightarrow> kernel \<Rightarrow> kernel option" where
  "thread_create_idle t stack k = do {
     assert (t \<noteq> 0);
     assert (stack \<noteq> 0);
     Some (thread_init t thread_idle THREAD_IDLE_PRIORITY k)
   }"

definition thread_list_init :: "tid list" where
  "thread_list_init = []"

definition thread_runq_init :: "tid \<Rightarrow> u32 \<Rightarrow> kernel \<Rightarrow> kernel option" where
  "thread_runq_init t stack k = do {
     let k = k\<lparr>nr_threads := 0, lists := replicate THREAD_NR_PRIORITIES thread_list_init\<rparr>;
     k \<leftarrow> thread_create_idle t stack k;
     Some (k\<lparr>idle := t\<rparr>)
   }"

definition thread_setup :: "tid \<Rightarrow> u32 \<Rightarrow> kernel \<Rightarrow> kernel option" where
  "thread_setup t stack k = thread_runq_init t stack k"

definition thread_enable_scheduler :: "kernel \<Rightarrow> kernel option" where
  "thread_enable_scheduler k = do {
     (t, k) \<leftarrow> thread_runq_get_next k;
     assert (t \<noteq> 0);
     assert (preempt_level (threads k t) = 1);
     Some (k\<lparr>intr := saved_intr (threads k t)\<rparr>)
   }"

end
