(* ===== verification/Sync.thy ===== *)
theory Sync
  imports Thread
begin

text \<open>
  Mutexes (src/mutex.c) and condition variables (src/condvar.c) on top of the thread module, the
  interrupt entry of src/cpu.c, and the machine that executes threads: \<open>exec\<close> is the effect of
  one instruction of the current thread, and \<open>kstep\<close> the step relation of the kernel, in which
  an interrupt may be taken between any two instructions while interrupts are enabled.
\<close>

section \<open>Mutexes\<close>

definition upd_mutex :: "u32 \<Rightarrow> mutex \<Rightarrow> kernel \<Rightarrow> kernel" where
  "upd_mutex m mtx k = k\<lparr>mutexes := (mutexes k)(m := mtx)\<rparr>"

text \<open>The end of \<^verbatim>\<open>mutex_lock\<close>.\<close>

definition mutex_lock_own :: "u32 \<Rightarrow> kernel \<Rightarrow> kernel option" where
  "mutex_lock_own m k = do {
     mtx \<leftarrow> mutex_set_owner (mutexes k m) (thread_self k);
     thread_preempt_enable (upd_mutex m mtx k)
   }"

definition mutex_lock :: "u32 \<Rightarrow> kernel \<Rightarrow> kernel option" where
  "mutex_lock m k = do {
     let t = thread_self k;
     k \<leftarrow> thread_preempt_disable k;
     let mtx = mutexes k m;
     if locked mtx then
       thread_sleep (push [Lock_loop m] (upd_mutex m (mtx\<lparr>waiters := waiters mtx @ [t]\<rparr>) k))
     else mutex_lock_own m k
   }"

definition mutex_lock_loop :: "u32 \<Rightarrow> kernel \<Rightarrow> kernel option" where
  "mutex_lock_loop m k =
     (let mtx = mutexes k m in
      if locked mtx then thread_sleep (push [Lock_loop m] k)
      else mutex_lock_own m (upd_mutex m (mtx\<lparr>waiters := remove1 (thread_self k) (waiters mtx)\<rparr>) k))"

definition mutex_trylock :: "u32 \<Rightarrow> kernel \<Rightarrow> (error option \<times> kernel) option" where
  "mutex_trylock m k = do {
     k \<leftarrow> thread_preempt_disable k;
     (err, k) \<leftarrow>
       (if locked (mutexes k m) then Some (Some ERROR_BUSY, k)
        else do {
          mtx \<leftarrow> mutex_set_owner (mutexes k m) (thread_self k);
          Some (None, upd_mutex m mtx k)
        });
     k \<leftarrow> thread_preempt_enable k;
     Some (err, k)
   }"

definition mutex_unlock :: "u32 \<Rightarrow> kernel \<Rightarrow> kernel option" where
  "mutex_unlock m k = do {
     k \<leftarrow> thread_preempt_disable k;
     mtx \<leftarrow> mutex_clear_owner (mutexes k m) (thread_self k);
     let k = push [Preempt_enable] (upd_mutex m mtx k);
     (case waiters mtx of [] \<Rightarrow> Some k | t # _ \<Rightarrow> thread_wakeup t k)
   }"

section \<open>Condition variables\<close>

definition condvar_init :: "u32 \<Rightarrow> kernel \<Rightarrow> kernel" where
  "condvar_init c k = k\<lparr>condvars := (condvars k)(c := [])\<rparr>"

text \<open>A waiter is the pair of its thread and its member \<^verbatim>\<open>awaken\<close>.\<close>

definition upd_condvar :: "u32 \<Rightarrow> (tid \<times> bool) list \<Rightarrow> kernel \<Rightarrow> kernel" where
  "upd_condvar c ws k = k\<lparr>condvars := (condvars k)(c := ws)\<rparr>"

fun set_awaken :: "tid \<Rightarrow> (tid \<times> bool) list \<Rightarrow> (tid \<times> bool) list" where
  "set_awaken t [] = []"
| "set_awaken t ((u, a) # ws) = (if u = t then (u, True) # ws else (u, a) # set_awaken t ws)"

fun remove_waiter :: "tid \<Rightarrow> (tid \<times> bool) list \<Rightarrow> (tid \<times> bool) list" where
  "remove_waiter t [] = []"
| "remove_waiter t ((u, a) # ws) = (if u = t then ws else (u, a) # remove_waiter t ws)"

definition condvar_waiter_awaken :: "tid \<times> bool \<Rightarrow> bool" where
  "condvar_waiter_awaken w = snd w"

definition condvar_waiter_wakeup :: "u32 \<Rightarrow> tid \<times> bool \<Rightarrow> kernel \<Rightarrow> (bool \<times> kernel) option" where
  "condvar_waiter_wakeup c w k =
     (if condvar_waiter_awaken w then Some (False, k)
      else do {
        k \<leftarrow> thread_wakeup (fst w) k;
        Some (True, upd_condvar c (set_awaken (fst w) (condvars k c)) k)
      })"

fun condvar_signal_loop :: "u32 \<Rightarrow> (tid \<times> bool) list \<Rightarrow> kernel \<Rightarrow> kernel option" where
  "condvar_signal_loop c [] k = Some k"
| "condvar_signal_loop c (w # ws) k = do {
     (awaken, k) \<leftarrow> condvar_waiter_wakeup c w k;
     if awaken then Some k else condvar_signal_loop c ws k
   }"

definition condvar_signal :: "u32 \<Rightarrow> kernel \<Rightarrow> kernel option" where
  "condvar_signal c k = do {
     k \<leftarrow> thread_preempt_disable k;
     condvar_signal_loop c (condvars k c) (push [Preempt_enable] k)
   }"

fun condvar_broadcast_loop :: "u32 \<Rightarrow> (tid \<times> bool) list \<Rightarrow> kernel \<Rightarrow> kernel option" where
  "condvar_broadcast_loop c [] k = Some k"
| "condvar_broadcast_loop c (w # ws) k = do {
     (_, k) \<leftarrow> condvar_waiter_wakeup c w k;
     condvar_broadcast_loop c ws k
   }"

definition condvar_broadcast :: "u32 \<Rightarrow> kernel \<Rightarrow> kernel option" where
  "condvar_broadcast c k = do {
     k \<leftarrow> thread_preempt_disable k;
     condvar_broadcast_loop c (condvars k c) (push [Preempt_enable] k)
   }"

definition condvar_wait :: "u32 \<Rightarrow> u32 \<Rightarrow> kernel \<Rightarrow> kernel option" where
  "condvar_wait c m k = do {
     k \<leftarrow> thread_preempt_disable k;
     mutex_unlock m (push [Wait_unlocked c m] k)
   }"

definition condvar_wait_unlocked :: "u32 \<Rightarrow> u32 \<Rightarrow> kernel \<Rightarrow> kernel option" where
  "condvar_wait_unlocked c m k =
     thread_sleep (push [Wait_loop c m] (upd_condvar c (condvars k c @ [(thread_self k, False)]) k))"

definition condvar_wait_loop :: "u32 \<Rightarrow> u32 \<Rightarrow> kernel \<Rightarrow> kernel option" where
  "condvar_wait_loop c m k =
     (let t = thread_self k in
      if (t, True) \<notin> set (condvars k c) then thread_sleep (push [Wait_loop c m] k)
      else thread_preempt_enable
        (push [Mutex_lock m] (upd_condvar c (remove_waiter t (condvars k c)) k)))"

section \<open>Interrupts\<close>

text \<open>
  The processor clears the interrupt flag and enters \<^verbatim>\<open>cpu_intr_main\<close>, which calls the
  handler with preemption disabled; \<^const>\<open>Iret\<close> returns with interrupts enabled.
\<close>

definition cpu_intr_main :: "(kernel \<Rightarrow> kernel option) \<Rightarrow> kernel \<Rightarrow> kernel option" where
  "cpu_intr_main handler k = do {
     let k = push [Iret] (k\<lparr>intr := False\<rparr>);
     assert (\<not> cpu_intr_enabled k);
     k \<leftarrow> thread_preempt_disable k;
     k \<leftarrow> handler k;
     thread_preempt_enable k
   }"

section \<open>The machine\<close>

fun exec :: "instr \<Rightarrow> kernel \<Rightarrow> kernel option" where
  "exec (Mutex_lock m) k = mutex_lock m k"
| "exec (Mutex_unlock m) k = mutex_unlock m k"
| "exec (Condvar_wait c m) k = condvar_wait c m k"
| "exec (Condvar_signal c) k = condvar_signal c k"
| "exec (Condvar_broadcast c) k = condvar_broadcast c k"
| "exec Thread_yield k = thread_yield k"
| "exec (Thread_wakeup t) k = thread_wakeup t k"
| "exec Thread_sleep k = thread_sleep k"
| "exec (Thread_join t) k = thread_join t k"
| "exec Thread_exit k = thread_exit k"
| "exec Preempt_disable k = thread_preempt_disable k"
| "exec Preempt_enable k = thread_preempt_enable k"
| "exec Cpu_idle k = Some (push [Cpu_idle] k)"
| "exec Thread_main k = thread_main k"
| "exec (Unlock_scheduler eflags yld) k = thread_unlock_scheduler eflags yld k"
| "exec (Sleep_done eflags) k = thread_sleep_done eflags k"
| "exec (Lock_loop m) k = mutex_lock_loop m k"
| "exec (Wait_loop c m) k = condvar_wait_loop c m k"
| "exec (Wait_unlocked c m) k = condvar_wait_unlocked c m k"
| "exec (Join_loop t eflags) k = thread_join_loop t eflags k"
| "exec (Join_done t) k = thread_destroy t k"
| "exec Dead_walking k = None"
| "exec Iret k = Some (cpu_intr_restore True k)"

definition pop_code :: "kernel \<Rightarrow> kernel" where
  "pop_code k = upd_thread (current k) (\<lambda>t. t\<lparr>code := tl (code t)\<rparr>) k"

text \<open>
  One step: the next instruction of the current thread, or an interrupt whose handler reports a
  tick and wakes up some threads.  \<open>handlers\<close> gives the handlers that may run.
\<close>

definition run_current :: "kernel \<Rightarrow> kernel option" where
  "run_current k =
     (case code (threads k (current k)) of [] \<Rightarrow> None | i # _ \<Rightarrow> exec i (pop_code k))"

inductive kstep :: "(kernel \<Rightarrow> kernel option) set \<Rightarrow> kernel \<Rightarrow> kernel \<Rightarrow> bool" for H where
  step_run: "run_current k = Some k' \<Longrightarrow> kstep H k k'"
| step_intr: "intr k \<Longrightarrow> h \<in> H \<Longrightarrow> cpu_intr_main h k = Some k' \<Longrightarrow> kstep H k k'"

text \<open>The kernel panics when the next instruction, or an interrupt, has no result.\<close>

definition kpanic :: "(kernel \<Rightarrow> kernel option) set \<Rightarrow> kernel \<Rightarrow> bool" where
  "kpanic H k \<longleftrightarrow> run_current k = None \<or> (intr k \<and> (\<exists>h \<in> H. cpu_intr_main h k = None))"

section \<open>Start-up\<close>

text \<open>
  The part of \<^verbatim>\<open>main\<close> (src/main.c) that concerns threads, in its order:
  \<open>dummy\<close> is the thread that the module uses before scheduling is enabled, \<open>idl\<close> the idle
  thread, and \<open>ps\<close> gives the threads created by the modules' set-up functions, each with its
  stack, its program and its priority.  Those functions panic on an error.
\<close>

fun create_threads :: "(tid \<times> u32 \<times> instr list \<times> u32) list \<Rightarrow> kernel \<Rightarrow> kernel option" where
  "create_threads [] k = Some k"
| "create_threads ((t, stack, fn, prio) # ps) k = do {
     (err, k) \<leftarrow> thread_create t stack fn prio k;
     assert (err = None);
     create_threads ps k
   }"

definition main_threads ::
  "tid \<Rightarrow> tid \<Rightarrow> u32 \<Rightarrow> (tid \<times> u32 \<times> instr list \<times> u32) list \<Rightarrow> kernel \<Rightarrow> kernel option" where
  "main_threads dummy idl stack ps k = do {
     k \<leftarrow> thread_setup idl stack (thread_bootstrap dummy k);
     k \<leftarrow> create_threads ps k;
     thread_enable_scheduler k
   }"

end
