(* ===== verification/Thread_Correct.thy ===== *)
theory Thread_Correct
  imports Thread
begin

text \<open>
  Correctness of the scheduler.  \<open>runq_inv T k\<close>: the lists of the run queue hold exactly the
  runnable threads of \<open>T\<close> other than the current one and the idle thread, each once, on the
  list of its priority, and \<^verbatim>\<open>nr_threads\<close> counts them and the current thread.  Under this
  invariant \<^verbatim>\<open>thread_runq_schedule\<close> fails no assertion, never takes a thread from an empty
  list, and switches to the first thread of the highest priority.
\<close>

section \<open>The invariant\<close>

definition runnable :: "kernel \<Rightarrow> tid set \<Rightarrow> tid set" where
  "runnable k T = {t \<in> T. thread_is_running k t \<and> t \<noteq> idle k}"

definition total_len :: "'a list list \<Rightarrow> nat" where
  "total_len ls = sum_list (map length ls)"

definition queued :: "kernel \<Rightarrow> tid set \<Rightarrow> nat \<Rightarrow> tid set" where
  "queued k T i = {t \<in> runnable k T. t \<noteq> current k \<and> unat (thread_get_priority k t) = i}"

definition runq_inv :: "tid set \<Rightarrow> kernel \<Rightarrow> bool" where
  "runq_inv T k \<longleftrightarrow>
     finite T \<and> card T < 2 ^ 32 \<and> 0 \<notin> T \<and> current k \<in> T \<and> idle k \<in> T \<and>
     thread_is_running k (idle k) \<and>
     (\<forall>t \<in> T. unat (thread_get_priority k t) < 20 \<and> \<not> saved_intr (threads k t)) \<and>
     length (lists k) = 20 \<and>
     (\<forall>i < 20. distinct (lists k ! i) \<and> set (lists k ! i) = queued k T i) \<and>
     unat (nr_threads k) = total_len (lists k) + (if current k = idle k then 0 else 1)"

lemma total_update:
  "i < length ls \<Longrightarrow> total_len (ls[i := xs]) + length (ls ! i) = total_len ls + length xs"
  by (induction ls arbitrary: i) (auto simp: total_len_def split: nat.splits)

lemma total_0: "total_len ls = 0 \<longleftrightarrow> (\<forall>i < length ls. ls ! i = [])"
  by (auto simp: total_len_def sum_list_eq_0_iff all_set_conv_all_nth)

lemma total_card:
  "distinct ns \<Longrightarrow> (\<forall>i \<in> set ns. distinct (f i) \<and> set (f i) = {t \<in> R. p t = i}) \<Longrightarrow> finite R \<Longrightarrow>
   total_len (map f ns) = card {t \<in> R. p t \<in> set ns}"
proof (induction ns)
  case (Cons n ns)
  have "{t \<in> R. p t \<in> set (n # ns)} = {t \<in> R. p t = n} \<union> {t \<in> R. p t \<in> set ns}" by auto
  moreover have "{t \<in> R. p t = n} \<inter> {t \<in> R. p t \<in> set ns} = {}" using Cons.prems(1) by auto
  ultimately have "card {t \<in> R. p t \<in> set (n # ns)} = card {t \<in> R. p t = n} + card {t \<in> R. p t \<in> set ns}"
    using Cons.prems(3) by (simp add: card_Un_disjoint)
  moreover have "length (f n) = card {t \<in> R. p t = n}"
    using Cons.prems(2) distinct_card [of "f n"] by auto
  moreover have "total_len (map f ns) = card {t \<in> R. p t \<in> set ns}" using Cons by simp
  ultimately show ?case by (simp add: total_len_def)
qed (simp add: total_len_def)

text \<open>The total is the number of queued threads; it does not wrap around.\<close>

lemma runq_total:
  assumes "runq_inv T k"
  shows "total_len (lists k) = card (runnable k T - {current k})"
proof -
  let ?R = "runnable k T - {current k}" and ?p = "\<lambda>t. unat (thread_get_priority k t)"
  have ls: "lists k = map ((!) (lists k)) [0..<20]"
    using assms map_nth [of "lists k"] by (simp add: runq_inv_def)
  have fin: "finite ?R" using assms by (simp add: runq_inv_def runnable_def)
  have "total_len (map ((!) (lists k)) [0..<20]) = card {t \<in> ?R. ?p t \<in> set [0..<20]}"
  proof (rule total_card)
    show "\<forall>i \<in> set [0..<20]. distinct (lists k ! i) \<and> set (lists k ! i) = {t \<in> ?R. ?p t = i}"
      using assms by (auto simp: runq_inv_def queued_def)
  qed (use fin in auto)
  moreover have "{t \<in> ?R. ?p t \<in> set [0..<20]} = ?R"
    using assms by (auto simp: runq_inv_def runnable_def)
  ultimately show ?thesis using ls by simp
qed

lemma runq_total_less:
  assumes "runq_inv T k"
  shows "total_len (lists k) < card T"
proof -
  have sub: "runnable k T - {current k} \<subseteq> T - {idle k}" and fin: "finite T" "idle k \<in> T"
    using assms by (auto simp: runq_inv_def runnable_def)
  then have "card (runnable k T - {current k}) \<le> card (T - {idle k})" by (intro card_mono) auto
  also have "\<dots> < card T" using fin by (intro card_Diff1_less)
  finally show ?thesis by (simp add: runq_total [OF assms])
qed

section \<open>Choosing the next thread\<close>

lemma thread_runq_scan_highest:
  assumes "\<exists>i \<le> n. ls ! i \<noteq> []"
  shows "thread_runq_scan ls n \<le> n \<and> ls ! thread_runq_scan ls n \<noteq> [] \<and>
    (\<forall>i. thread_runq_scan ls n < i \<and> i \<le> n \<longrightarrow> ls ! i = [])"
  using assms
proof (induction n)
  case (Suc n)
  show ?case
  proof (cases "ls ! Suc n = []")
    case True
    then have "\<exists>i \<le> n. ls ! i \<noteq> []" using Suc.prems le_Suc_eq by metis
    from Suc.IH [OF this] True show ?thesis by (auto simp: le_Suc_eq)
  qed auto
qed auto

text \<open>
  The thread chosen from a run queue given by its lists: the first of the highest non-empty list,
  the idle thread if there is none.
\<close>

definition next_thread :: "tid list list \<Rightarrow> tid \<Rightarrow> tid" where
  "next_thread ls idl =
     (if total_len ls = 0 then idl else hd (ls ! thread_runq_scan ls 19))"

definition next_lists :: "tid list list \<Rightarrow> tid list list" where
  "next_lists ls =
     (if total_len ls = 0 then ls
      else (let i = thread_runq_scan ls 19 in ls[i := tl (ls ! i)]))"

lemma thread_runq_get_next_eq:
  assumes "length (lists k) = 20" and "current k \<noteq> 0" and "unat (nr_threads k) = total_len (lists k)"
  shows "thread_runq_get_next k =
    Some (next_thread (lists k) (idle k),
      k\<lparr>lists := next_lists (lists k), current := next_thread (lists k) (idle k)\<rparr>)"
proof (cases "total_len (lists k) = 0")
  case True
  then have "nr_threads k = 0" using assms(3) by (simp add: unat_eq_0)
  with True assms(2) show ?thesis
    by (simp add: thread_runq_get_next_def next_thread_def next_lists_def)
next
  case False
  then have "nr_threads k \<noteq> 0" using assms(3) by (auto simp: unat_eq_0)
  moreover obtain i where "i < 20" "lists k ! i \<noteq> []" using False assms(1) by (auto simp: total_0)
  then have "\<exists>i \<le> 19. lists k ! i \<noteq> []" by (intro exI [of _ i]) simp
  then have "lists k ! thread_runq_scan (lists k) 19 \<noteq> []" using thread_runq_scan_highest by blast
  ultimately show ?thesis
    using False assms(2)
    by (auto simp: thread_runq_get_next_def next_thread_def next_lists_def thread_list_dequeue_def
        THREAD_NR_PRIORITIES_def neq_Nil_conv split: list.splits)
qed

text \<open>All runnable threads are on the lists, as they are when the next thread is chosen.\<close>

definition all_queued :: "tid set \<Rightarrow> kernel \<Rightarrow> tid list list \<Rightarrow> bool" where
  "all_queued T k ls \<longleftrightarrow> length ls = 20 \<and>
     (\<forall>i < 20. distinct (ls ! i) \<and>
        set (ls ! i) = {t \<in> runnable k T. unat (thread_get_priority k t) = i})"

lemma all_queued_next:
  assumes q: "all_queued T k ls" and idle: "idle k \<in> T"
    and prio: "\<forall>t \<in> T. unat (thread_get_priority k t) < 20"
  defines "n \<equiv> next_thread ls (idle k)"
  shows "n \<in> T" and "n = idle k \<or> thread_is_running k n"
    and "\<forall>t \<in> runnable k T. n \<noteq> idle k \<and> thread_get_priority k t \<le> thread_get_priority k n"
    and "\<forall>i < 20. distinct (next_lists ls ! i) \<and>
      set (next_lists ls ! i) = {t \<in> runnable k T. t \<noteq> n \<and> unat (thread_get_priority k t) = i}"
    and "total_len ls = total_len (next_lists ls) + (if n = idle k then 0 else 1)"
    and "length (next_lists ls) = 20"
proof -
  have len: "length ls = 20" and dist: "distinct (ls ! i)"
    and set: "set (ls ! i) = {t \<in> runnable k T. unat (thread_get_priority k t) = i}" if "i < 20" for i
    using q that by (auto simp: all_queued_def)
  have on: "t \<in> set (ls ! unat (thread_get_priority k t))" "unat (thread_get_priority k t) < 20"
    if "t \<in> runnable k T" for t
    using that prio set by (auto simp: runnable_def)
  have "(n \<in> T \<and> (n = idle k \<or> thread_is_running k n)) \<and>
    (\<forall>t \<in> runnable k T. n \<noteq> idle k \<and> thread_get_priority k t \<le> thread_get_priority k n) \<and>
    (\<forall>i < 20. distinct (next_lists ls ! i) \<and>
      set (next_lists ls ! i) = {t \<in> runnable k T. t \<noteq> n \<and> unat (thread_get_priority k t) = i}) \<and>
    total_len ls = total_len (next_lists ls) + (if n = idle k then 0 else 1)"
  proof (cases "total_len ls = 0")
    case True
    then have e: "\<forall>i < 20. ls ! i = []" using len [of 0] by (simp add: total_0)
    then have none: "t \<notin> runnable k T" for t using on [of t] by force
    have "n = idle k" "next_lists ls = ls" using True by (simp_all add: n_def next_thread_def next_lists_def)
    then show ?thesis using idle e none True by auto
  next
    case False
    define s where "s = thread_runq_scan ls 19"
    obtain i where "i < 20" "ls ! i \<noteq> []" using False len [of 0] by (auto simp: total_0)
    then have "\<exists>i \<le> 19. ls ! i \<noteq> []" by (intro exI [of _ i]) simp
    from thread_runq_scan_highest [OF this] have s: "s < 20" "ls ! s \<noteq> []"
      and above: "\<And>i. s < i \<Longrightarrow> i < 20 \<Longrightarrow> ls ! i = []"
      by (auto simp: s_def)
    obtain ts where ts: "ls ! s = n # ts"
      using s False by (cases "ls ! s") (auto simp: n_def next_thread_def s_def)
    have nl: "next_lists ls = ls[s := ts]" using False ts by (simp add: next_lists_def s_def)
    have n: "n \<in> runnable k T" "unat (thread_get_priority k n) = s" using set [OF s(1)] ts by auto
    have le: "thread_get_priority k t \<le> thread_get_priority k n" if "t \<in> runnable k T" for t
    proof -
      have "unat (thread_get_priority k t) \<le> s"
        using on [OF that] above [of "unat (thread_get_priority k t)"] by (metis empty_iff empty_set not_le)
      then show ?thesis using n(2) by (simp add: word_le_nat_alt)
    qed
    have "total_len ls = total_len (ls[s := ts]) + 1"
      using total_update [of s ls ts] ts s(1) len [of 0] by simp
    moreover have "distinct (ls[s := ts] ! i) \<and>
        set (ls[s := ts] ! i) = {t \<in> runnable k T. t \<noteq> n \<and> unat (thread_get_priority k t) = i}"
      if "i < 20" for i
    proof (cases "i = s")
      case True
      then show ?thesis using dist [OF s(1)] set [OF s(1)] ts s(1) len [of 0] by auto
    next
      case False
      then show ?thesis using dist [OF that] set [OF that] n(2) by auto
    qed
    ultimately show ?thesis using n le nl by (auto simp: runnable_def)
  qed
  then show "n \<in> T" and "n = idle k \<or> thread_is_running k n"
    and "\<forall>t \<in> runnable k T. n \<noteq> idle k \<and> thread_get_priority k t \<le> thread_get_priority k n"
    and "\<forall>i < 20. distinct (next_lists ls ! i) \<and>
      set (next_lists ls ! i) = {t \<in> runnable k T. t \<noteq> n \<and> unat (thread_get_priority k t) = i}"
    and "total_len ls = total_len (next_lists ls) + (if n = idle k then 0 else 1)"
    by blast+
  show "length (next_lists ls) = 20" using len [of 0] by (simp add: next_lists_def Let_def)
qed

section \<open>Scheduling\<close>

text \<open>The lists from which \<^verbatim>\<open>thread_runq_schedule\<close> chooses.\<close>

definition offered :: "kernel \<Rightarrow> tid list list" where
  "offered k =
     (if current k = idle k \<or> \<not> thread_is_running k (current k) then lists k
      else (let i = unat (thread_get_priority k (current k))
            in (lists k)[i := lists k ! i @ [current k]]))"

lemma runq_invD:
  assumes "runq_inv T k"
  shows "finite T" "card T < 2 ^ 32" "0 \<notin> T" "current k \<in> T" "idle k \<in> T" "thread_is_running k (idle k)"
    "length (lists k) = 20" "unat (nr_threads k) = total_len (lists k) + (if current k = idle k then 0 else 1)"
    and "t \<in> T \<Longrightarrow> unat (thread_get_priority k t) < 20" "t \<in> T \<Longrightarrow> \<not> saved_intr (threads k t)"
    and "i < 20 \<Longrightarrow> distinct (lists k ! i)" "i < 20 \<Longrightarrow> set (lists k ! i) = queued k T i"
  using assms by (auto simp: runq_inv_def)

lemma all_queued_offered:
  assumes inv: "runq_inv T k"
  shows "all_queued T k (offered k)"
proof (cases "current k = idle k \<or> \<not> thread_is_running k (current k)")
  case True
  then have "t \<in> runnable k T \<Longrightarrow> t \<noteq> current k" for t by (auto simp: runnable_def)
  then have "queued k T i = {t \<in> runnable k T. unat (thread_get_priority k t) = i}" for i
    by (auto simp: queued_def)
  then show ?thesis using runq_invD [OF inv] True by (auto simp: all_queued_def offered_def)
next
  case False
  define p where "p = unat (thread_get_priority k (current k))"
  have p: "p < 20" using runq_invD(4,9) [OF inv] by (simp add: p_def)
  have cur: "current k \<in> runnable k T" using False runq_invD(4) [OF inv] by (simp add: runnable_def)
  have "distinct ((lists k)[p := lists k ! p @ [current k]] ! i) \<and>
      set ((lists k)[p := lists k ! p @ [current k]] ! i) =
      {t \<in> runnable k T. unat (thread_get_priority k t) = i}" if i: "i < 20" for i
    using runq_invD(7) [OF inv] runq_invD(11,12) [OF inv i] runq_invD(11,12) [OF inv p] cur p i
    by (cases "i = p") (auto simp: queued_def p_def)
  then show ?thesis
    using False runq_invD(7) [OF inv] by (auto simp: all_queued_def offered_def Let_def p_def)
qed

lemma remove_unqueued:
  assumes "\<forall>i < length ls. t \<notin> set (ls ! i)" and "p < length ls"
  shows "map (remove1 t) (ls[p := ls ! p @ [t]]) = ls"
proof (rule nth_equalityI)
  fix i assume "i < length (map (remove1 t) (ls[p := ls ! p @ [t]]))"
  then show "map (remove1 t) (ls[p := ls ! p @ [t]]) ! i = ls ! i"
    using assms by (cases "i = p") (auto simp: remove1_append remove1_idem)
qed simp

lemma not_queued_current: "runq_inv T k \<Longrightarrow> i < 20 \<Longrightarrow> current k \<notin> set (lists k ! i)"
  by (simp add: runq_invD(12) queued_def)

text \<open>What is handed to \<^verbatim>\<open>thread_runq_get_next\<close>: the lists offered and their total.\<close>

lemma schedule_put:
  assumes inv: "runq_inv T k"
  obtains nr where "unat nr = total_len (offered k)" and
    "do { k \<leftarrow> thread_runq_put_prev (current k) k;
          if \<not> thread_is_running k (current k) then thread_runq_remove (current k) k else Some k } =
     Some (k\<lparr>nr_threads := nr, lists := offered k\<rparr>)"
proof (cases "current k = idle k")
  case True
  then show ?thesis
    using that [of "nr_threads k"] runq_invD(6,8) [OF inv]
    by (simp add: thread_runq_put_prev_def offered_def)
next
  case ni: False
  let ?p = "unat (thread_get_priority k (current k))"
  have p: "?p < 20" using runq_invD(4,9) [OF inv] by simp
  have put: "thread_runq_put_prev (current k) k =
      Some (k\<lparr>lists := (lists k)[?p := lists k ! ?p @ [current k]]\<rparr>)"
    using ni p by (simp add: thread_runq_put_prev_def thread_runq_get_list_def
        THREAD_NR_PRIORITIES_def thread_list_enqueue_def)
  have tot: "total_len ((lists k)[?p := lists k ! ?p @ [current k]]) = total_len (lists k) + 1"
    using total_update [of ?p "lists k" "lists k ! ?p @ [current k]"] p runq_invD(7) [OF inv] by simp
  show ?thesis
  proof (cases "thread_is_running k (current k)")
    case True
    then show ?thesis
      using that [of "nr_threads k"] put tot ni runq_invD(8) [OF inv]
      by (simp add: offered_def thread_is_running_def Let_def)
  next
    case False
    have nr: "unat (nr_threads k) = total_len (lists k) + 1" using runq_invD(8) [OF inv] ni by simp
    then have "nr_threads k \<noteq> 0" by auto
    moreover have "unat (nr_threads k - 1) = total_len (lists k)"
      using nr by (subst unat_sub_no_wrap) simp_all
    moreover have "map (remove1 (current k)) ((lists k)[?p := lists k ! ?p @ [current k]]) = lists k"
      by (rule remove_unqueued) (use not_queued_current [OF inv] runq_invD(7) [OF inv] p in auto)
    ultimately show ?thesis
      using that [of "nr_threads k - 1"] put ni False
      by (simp add: offered_def thread_runq_remove_def thread_is_running_def thread_remove_from_list_def)
  qed
qed

lemma kernel_threads_id:
  "(threads k)(t := (threads k t)\<lparr>saved_intr := saved_intr (threads k t)\<rparr>) = threads k"
  by simp

lemma schedule_ok:
  assumes inv: "runq_inv T k" and intr: "\<not> intr k" and level: "preempt_level (threads k (current k)) = 1"
  defines "n \<equiv> next_thread (offered k) (idle k)"
  obtains nr where "thread_runq_schedule k =
      Some (k\<lparr>nr_threads := nr, lists := next_lists (offered k), current := n\<rparr>)"
    and "runq_inv T (k\<lparr>nr_threads := nr, lists := next_lists (offered k), current := n\<rparr>)"
    and "n \<in> T" and "thread_is_running k n"
proof -
  obtain nr where nr: "unat nr = total_len (offered k)"
    and put: "do { k \<leftarrow> thread_runq_put_prev (current k) k;
          if \<not> thread_is_running k (current k) then thread_runq_remove (current k) k else Some k } =
     Some (k\<lparr>nr_threads := nr, lists := offered k\<rparr>)"
    by (rule schedule_put [OF inv])
  let ?k1 = "k\<lparr>nr_threads := nr, lists := offered k\<rparr>"
  let ?k2 = "k\<lparr>nr_threads := nr, lists := next_lists (offered k), current := n\<rparr>"
  have q: "all_queued T k (offered k)" by (rule all_queued_offered [OF inv])
  have prio: "\<forall>t \<in> T. unat (thread_get_priority k t) < 20" using runq_invD(9) [OF inv] by blast
  note N = all_queued_next [OF q runq_invD(5) [OF inv] prio, folded n_def]
  have cur0: "current k \<noteq> 0" using runq_invD(3,4) [OF inv] by auto
  have "thread_runq_get_next ?k1 = Some (n, ?k2)"
    using thread_runq_get_next_eq [of ?k1] q nr cur0 by (simp add: all_queued_def n_def)
  moreover have "thread_scheduler_locked k"
    using intr level by (simp add: thread_scheduler_locked_def cpu_intr_enabled_def
        thread_preempt_enabled_def thread_self_eq)
  moreover have "thread_switch_context (current k) n ?k2 = ?k2"
    using intr runq_invD(4,10) [OF inv] N(1)
    by (auto simp: thread_switch_context_def upd_thread_def Let_def intro!: kernel.equality)
  moreover have "Option.bind (thread_runq_put_prev (current k) k)
      (\<lambda>k'. Option.bind (if \<not> thread_is_running k' (current k) then thread_runq_remove (current k) k' else Some k') f) =
    f ?k1" for f :: "kernel \<Rightarrow> kernel option"
  proof -
    obtain k' where k': "thread_runq_put_prev (current k) k = Some k'"
      using put by (cases "thread_runq_put_prev (current k) k") auto
    then have "current k' = current k"
      by (auto simp: thread_runq_put_prev_def thread_list_enqueue_def split: if_splits bind_splits)
    then show ?thesis using put k' by (auto split: if_splits)
  qed
  ultimately have "thread_runq_schedule k = Some ?k2"
    using level unfolding thread_runq_schedule_def Let_def by simp
  moreover have "runq_inv T ?k2"
    using runq_invD [OF inv] N nr
    by (auto simp: runq_inv_def queued_def runnable_def thread_is_running_def thread_get_priority_def)
  moreover have "thread_is_running k n" using N(2) runq_invD(6) [OF inv] by auto
  ultimately show ?thesis using that N(1) by blast
qed

section \<open>Adding a thread\<close>

definition wake :: "tid \<Rightarrow> kernel \<Rightarrow> kernel" where
  "wake t k = k\<lparr>
     threads := (threads k)(t := (threads k t)\<lparr>tstate := THREAD_STATE_RUNNING\<rparr>),
     lists := (let i = unat (thread_get_priority k t) in (lists k)[i := lists k ! i @ [t]]),
     nr_threads := nr_threads k + 1\<rparr>"

lemma runq_room:
  assumes inv: "runq_inv T k" and t: "t \<in> T" "\<not> thread_is_running k t" "t \<noteq> current k"
  shows "unat (nr_threads k) + 1 < card T"
proof -
  define Q where "Q = runnable k T - {current k}"
  have ti: "t \<noteq> idle k" using t(2) runq_invD(6) [OF inv] by auto
  have fin: "finite T" by (rule runq_invD(1) [OF inv])
  have q: "total_len (lists k) = card Q" unfolding Q_def by (rule runq_total [OF inv])
  have nin: "t \<notin> Q" "idle k \<notin> Q" "current k \<notin> Q" using t by (auto simp: Q_def runnable_def)
  have finQ: "finite Q" using fin by (simp add: Q_def runnable_def)
  have sub: "insert t (insert (idle k) (insert (current k) Q)) \<subseteq> T"
    using t(1) runq_invD(4,5) [OF inv] by (auto simp: Q_def runnable_def)
  have "card (insert t (insert (idle k) (insert (current k) Q))) \<le> card T"
    by (rule card_mono [OF fin sub])
  moreover have "card (insert t (insert (idle k) (insert (current k) Q))) =
      card Q + 2 + (if current k = idle k then 0 else 1)"
    using nin ti t(3) finQ by (cases "current k = idle k") simp_all
  ultimately show ?thesis using runq_invD(8) [OF inv] q by (auto split: if_splits)
qed

lemma runq_inv_wake:
  assumes inv: "runq_inv T k" and t: "t \<in> T" "\<not> thread_is_running k t" "t \<noteq> current k"
  shows "runq_inv T (wake t k)" and "nr_threads k + 1 \<noteq> 0"
proof -
  have nr: "unat (nr_threads k + 1) = unat (nr_threads k) + 1"
    using runq_room [OF inv t] runq_invD(2) [OF inv] unat_add_no_wrap [of "nr_threads k" 1] by simp
  then show "nr_threads k + 1 \<noteq> 0" by auto
  define p where "p = unat (thread_get_priority k t)"
  have p: "p < 20" using runq_invD(9) [OF inv t(1)] by (simp add: p_def)
  have ti: "t \<noteq> idle k" using t(2) runq_invD(6) [OF inv] by auto
  have prio: "thread_get_priority (wake t k) u = thread_get_priority k u" for u
    by (simp add: wake_def thread_get_priority_def)
  have run: "thread_is_running (wake t k) u \<longleftrightarrow> u = t \<or> thread_is_running k u" for u
    by (simp add: wake_def thread_is_running_def)
  have q: "queued (wake t k) T i = (if i = p then insert t (queued k T i) else queued k T i)" for i
    using t ti run prio by (auto simp: queued_def runnable_def p_def wake_def)
  have l: "lists (wake t k) = (lists k)[p := lists k ! p @ [t]]" by (simp add: wake_def p_def Let_def)
  have nq: "t \<notin> set (lists k ! p)" using runq_invD(12) [OF inv p] t(2) by (simp add: queued_def runnable_def)
  have "distinct (lists (wake t k) ! i) \<and> set (lists (wake t k) ! i) = queued (wake t k) T i" if "i < 20" for i
    using runq_invD(11,12) [OF inv that] runq_invD(7) [OF inv] nq p that by (cases "i = p") (auto simp: q l)
  moreover have "total_len (lists (wake t k)) = total_len (lists k) + 1"
    using total_update [of p "lists k" "lists k ! p @ [t]"] p runq_invD(7) [OF inv] by (simp add: l)
  moreover have "current (wake t k) = current k" "idle (wake t k) = idle k"
    "nr_threads (wake t k) = nr_threads k + 1" "saved_intr (threads (wake t k) u) = saved_intr (threads k u)" for u
    by (simp_all add: wake_def)
  moreover have "length (lists (wake t k)) = 20" using runq_invD(7) [OF inv] by (simp add: l)
  ultimately show "runq_inv T (wake t k)"
    using runq_invD [OF inv] nr run prio unfolding runq_inv_def by simp
qed

lemma runq_inv_cong:
  assumes "current k' = current k" "nr_threads k' = nr_threads k" "lists k' = lists k" "idle k' = idle k"
    and "\<And>u. tstate (threads k' u) = tstate (threads k u)"
      "\<And>u. priority (threads k' u) = priority (threads k u)"
      "\<And>u. saved_intr (threads k' u) = saved_intr (threads k u)"
  shows "runq_inv T k' \<longleftrightarrow> runq_inv T k"
  using assms unfolding runq_inv_def queued_def runnable_def thread_is_running_def thread_get_priority_def
  by simp

end
