(* ===== verification/Sync_Correct.thy ===== *)
theory Sync_Correct
  imports Sync Thread_Correct
begin

text \<open>
  The invariant of the machine of theory Sync.  Every thread's code is typed by \<open>ok_code\<close>, which
  gives the preemption level, the state of the interrupt flag and the set of mutexes held at which
  the code may be resumed; \<open>Hd\<close> is the (ghost) assignment of held mutexes.  From the invariant no
  instruction and no interrupt panics, and every step keeps it.
\<close>

declare One_nat_def [simp del]

section \<open>Typing of the remaining code\<close>

text \<open>The instructions of which the programs of threads are made.\<close>

fun is_user :: "instr \<Rightarrow> bool" where
  "is_user (Mutex_lock m) = True"
| "is_user (Mutex_unlock m) = True"
| "is_user (Condvar_wait c m) = True"
| "is_user (Condvar_signal c) = True"
| "is_user (Condvar_broadcast c) = True"
| "is_user Thread_yield = True"
| "is_user Thread_sleep = True"
| "is_user Thread_exit = True"
| "is_user Preempt_disable = True"
| "is_user Preempt_enable = True"
| "is_user _ = False"

text \<open>The instructions that the idle thread may be about to execute.\<close>

fun is_idle :: "instr \<Rightarrow> bool" where
  "is_idle Thread_main = True"
| "is_idle (Unlock_scheduler f y) = True"
| "is_idle Iret = True"
| "is_idle _ = False"

fun idle_code :: "instr list \<Rightarrow> bool" where
  "idle_code [] \<longleftrightarrow> False"
| "idle_code (i # c) \<longleftrightarrow> (i = Cpu_idle \<and> c = [Thread_exit]) \<or> (is_idle i \<and> idle_code c)"

text \<open>
  \<open>ok_code c l i H\<close>: the code \<open>c\<close> may run from preemption level \<open>l\<close> with interrupts enabled
  iff \<open>i\<close>, holding the mutexes \<open>H\<close>.  A program unlocks, and waits with, only mutexes it holds,
  locks only mutexes it does not hold, sleeps only with preemption disabled once, and ends with
  \<^const>\<open>Thread_exit\<close>.
\<close>

fun ok_code :: "instr list \<Rightarrow> nat \<Rightarrow> bool \<Rightarrow> u32 set \<Rightarrow> bool" where
  "ok_code [] l i H = False"
| "ok_code (Mutex_lock m # c) l i H \<longleftrightarrow>
     l = 0 \<and> i \<and> m \<notin> H \<and> list_all is_user c \<and> ok_code c 0 True (insert m H)"
| "ok_code (Mutex_unlock m # c) l i H \<longleftrightarrow>
     l \<le> 1 \<and> i \<and> m \<in> H \<and> list_all is_user c \<and> ok_code c l True (H - {m})"
| "ok_code (Condvar_wait cv m # c) l i H \<longleftrightarrow>
     l = 0 \<and> i \<and> m \<in> H \<and> list_all is_user c \<and> ok_code c 0 True H"
| "ok_code (Condvar_signal cv # c) l i H \<longleftrightarrow>
     l \<le> 1 \<and> i \<and> list_all is_user c \<and> ok_code c l True H"
| "ok_code (Condvar_broadcast cv # c) l i H \<longleftrightarrow>
     l \<le> 1 \<and> i \<and> list_all is_user c \<and> ok_code c l True H"
| "ok_code (Thread_yield # c) l i H \<longleftrightarrow> l \<le> 1 \<and> i \<and> list_all is_user c \<and> ok_code c l True H"
| "ok_code (Thread_sleep # c) l i H \<longleftrightarrow> l = 1 \<and> i \<and> list_all is_user c \<and> ok_code c 1 True H"
| "ok_code (Thread_exit # c) l i H \<longleftrightarrow> l = 0 \<and> i \<and> c = []"
| "ok_code (Preempt_disable # c) l i H \<longleftrightarrow> l = 0 \<and> i \<and> list_all is_user c \<and> ok_code c 1 True H"
| "ok_code (Preempt_enable # c) l i H \<longleftrightarrow> 1 \<le> l \<and> l \<le> 2 \<and> i \<and> ok_code c (l - 1) i H"
| "ok_code (Cpu_idle # c) l i H \<longleftrightarrow> l = 0 \<and> i \<and> c = [Thread_exit]"
| "ok_code (Thread_main # c) l i H \<longleftrightarrow> l = 1 \<and> \<not> i \<and> ok_code c 0 True H"
| "ok_code (Unlock_scheduler f y # c) l i H \<longleftrightarrow> l = 1 \<and> \<not> i \<and> ok_code c 0 f H"
| "ok_code (Sleep_done f # c) l i H \<longleftrightarrow> l = 1 \<and> \<not> i \<and> ok_code c 1 f H"
| "ok_code (Lock_loop m # c) l i H \<longleftrightarrow>
     l = 1 \<and> i \<and> m \<notin> H \<and> list_all is_user c \<and> ok_code c 0 True (insert m H)"
| "ok_code (Wait_loop cv m # c) l i H \<longleftrightarrow>
     l = 1 \<and> i \<and> m \<notin> H \<and> list_all is_user c \<and> ok_code c 0 True (insert m H)"
| "ok_code (Wait_unlocked cv m # c) l i H \<longleftrightarrow>
     l = 1 \<and> i \<and> m \<notin> H \<and> list_all is_user c \<and> ok_code c 0 True (insert m H)"
| "ok_code (Iret # c) l i H \<longleftrightarrow> l \<le> 2 \<and> \<not> i \<and> ok_code c l True H"
| "ok_code _ l i H = False"

lemma ok_code_level: "ok_code c l i H \<Longrightarrow> l \<le> 2"
  by (cases "(c, l, i, H)" rule: ok_code.cases) auto

section \<open>The invariant\<close>

definition thread_ok :: "(tid \<Rightarrow> u32 set) \<Rightarrow> kernel \<Rightarrow> tid \<Rightarrow> bool" where
  "thread_ok Hd k t \<longleftrightarrow>
     preempt_level (threads k t) = 1 \<and>
     (if thread_is_dead k t then code (threads k t) = [Dead_walking]
      else ok_code (code (threads k t)) 1 False (Hd t))"

definition mutexes_ok :: "tid set \<Rightarrow> (tid \<Rightarrow> u32 set) \<Rightarrow> kernel \<Rightarrow> bool" where
  "mutexes_ok T Hd k \<longleftrightarrow> (\<forall>m. mutex_inv (mutexes k m) \<and>
     (\<forall>t. owner (mutexes k m) = Some t \<longleftrightarrow> t \<in> T \<and> m \<in> Hd t) \<and>
     distinct (waiters (mutexes k m)) \<and>
     (\<forall>t \<in> set (waiters (mutexes k m)). t \<in> T \<and> Lock_loop m \<in> set (code (threads k t))))"

definition condvars_ok :: "tid set \<Rightarrow> kernel \<Rightarrow> bool" where
  "condvars_ok T k \<longleftrightarrow> (\<forall>c. distinct (map fst (condvars k c)) \<and>
     (\<forall>t \<in> fst ` set (condvars k c). t \<in> T \<and> (\<exists>m. Wait_loop c m \<in> set (code (threads k t)))))"

definition base_inv :: "tid set \<Rightarrow> (tid \<Rightarrow> u32 set) \<Rightarrow> kernel \<Rightarrow> bool" where
  "base_inv T Hd k \<longleftrightarrow>
     runq_inv T k \<and> mutexes_ok T Hd k \<and> condvars_ok T k \<and>
     (\<forall>t \<in> T. joiner (threads k t) = 0) \<and> idle_code (code (threads k (idle k))) \<and>
     (\<forall>t \<in> T. t \<noteq> current k \<longrightarrow> thread_ok Hd k t)"

definition cur_level :: "kernel \<Rightarrow> nat" where
  "cur_level k = unat (preempt_level (threads k (current k)))"

definition cur_code :: "kernel \<Rightarrow> instr list" where
  "cur_code k = code (threads k (current k))"

definition kinv :: "tid set \<Rightarrow> (tid \<Rightarrow> u32 set) \<Rightarrow> kernel \<Rightarrow> bool" where
  "kinv T Hd k \<longleftrightarrow> base_inv T Hd k \<and> thread_is_running k (current k) \<and>
     ok_code (cur_code k) (cur_level k) (intr k) (Hd (current k))"

text \<open>Changes of the current thread that the invariant of the others does not see.\<close>

lemma base_inv_current:
  assumes base: "base_inv T Hd k"
    and eq: "current k' = current k" "nr_threads k' = nr_threads k" "lists k' = lists k"
      "idle k' = idle k" "mutexes k' = mutexes k" "condvars k' = condvars k"
      "\<And>t. t \<noteq> current k \<Longrightarrow> threads k' t = threads k t"
    and cur: "priority (threads k' (current k)) = priority (threads k (current k))"
      "joiner (threads k' (current k)) = joiner (threads k (current k))"
      "saved_intr (threads k' (current k)) = saved_intr (threads k (current k))"
    and code: "\<And>m. Lock_loop m \<in> set (cur_code k) \<Longrightarrow> current k \<in> set (waiters (mutexes k m)) \<Longrightarrow>
        Lock_loop m \<in> set (cur_code k')"
      "\<And>c m. Wait_loop c m \<in> set (cur_code k) \<Longrightarrow> current k \<in> fst ` set (condvars k c) \<Longrightarrow>
        \<exists>m'. Wait_loop c m' \<in> set (cur_code k')"
    and idle: "current k = idle k \<Longrightarrow> thread_is_running k' (current k) \<and> idle_code (cur_code k')"
  shows "base_inv T Hd k'"
proof -
  have same: "threads k' t = threads k t" if "t \<noteq> current k" for t by (rule eq(7) [OF that])
  have run: "thread_is_running k' t = thread_is_running k t" if "t \<noteq> current k" for t
    using same [OF that] by (simp add: thread_is_running_def)
  have prio: "thread_get_priority k' t = thread_get_priority k t" for t
    using same [of t] cur(1) by (cases "t = current k") (simp_all add: thread_get_priority_def)
  have q: "queued k' T i = queued k T i" for i
    using run prio eq(1,4) by (auto simp: queued_def runnable_def)
  have "runq_inv T k'"
    using base eq cur q prio run [of "idle k"] same idle
    unfolding runq_inv_def base_inv_def by (metis (no_types, lifting))
  moreover have "mutexes_ok T Hd k'"
    using base code(1) same eq unfolding base_inv_def mutexes_ok_def cur_code_def by metis
  moreover have "condvars_ok T k'"
    using base code(2) same eq unfolding base_inv_def condvars_ok_def cur_code_def by metis
  moreover have "\<forall>t \<in> T. joiner (threads k' t) = 0"
    using base cur(2) same unfolding base_inv_def by metis
  moreover have "idle_code (code (threads k' (idle k')))"
    using base idle same eq(4,1) unfolding base_inv_def cur_code_def by metis
  moreover have "thread_ok Hd k' t" if "t \<in> T" "t \<noteq> current k'" for t
    using base that same [of t] eq(1) unfolding base_inv_def thread_ok_def thread_is_dead_def
    by simp
  ultimately show ?thesis by (simp add: base_inv_def)
qed

section \<open>Switching\<close>

lemma thread_is_simps [simp]:
  "thread_is_running (k\<lparr>nr_threads := n, lists := ls, current := c\<rparr>) = thread_is_running k"
  "thread_is_dead (k\<lparr>nr_threads := n, lists := ls, current := c\<rparr>) = thread_is_dead k"
  by (simp_all add: fun_eq_iff thread_is_running_def thread_is_dead_def)

lemma thread_running_not_dead: "thread_is_running k t \<Longrightarrow> \<not> thread_is_dead k t"
  by (simp add: thread_is_running_def thread_is_dead_def)

lemma schedule_kinv:
  assumes base: "base_inv T Hd k" and intr: "\<not> intr k" and cur: "thread_ok Hd k (current k)"
  obtains k' where "thread_runq_schedule k = Some k'" and "kinv T Hd k'"
proof -
  have inv: "runq_inv T k" using base by (simp add: base_inv_def)
  have level: "preempt_level (threads k (current k)) = 1" using cur by (simp add: thread_ok_def)
  obtain nr where s: "thread_runq_schedule k = Some (k\<lparr>nr_threads := nr, lists := next_lists (offered k),
      current := next_thread (offered k) (idle k)\<rparr>)"
    and inv': "runq_inv T (k\<lparr>nr_threads := nr, lists := next_lists (offered k),
      current := next_thread (offered k) (idle k)\<rparr>)"
    and n: "next_thread (offered k) (idle k) \<in> T" "thread_is_running k (next_thread (offered k) (idle k))"
    by (rule schedule_ok [OF inv intr level])
  let ?n = "next_thread (offered k) (idle k)"
  let ?k = "k\<lparr>nr_threads := nr, lists := next_lists (offered k), current := ?n\<rparr>"
  have ok: "thread_ok Hd k t" if "t \<in> T" for t
    using base cur that by (cases "t = current k") (auto simp: base_inv_def)
  then have "base_inv T Hd ?k"
    using base inv' unfolding base_inv_def mutexes_ok_def condvars_ok_def thread_ok_def by simp
  moreover have "ok_code (code (threads k ?n)) 1 False (Hd ?n)" "preempt_level (threads k ?n) = 1"
    using ok [OF n(1)] thread_running_not_dead [OF n(2)] by (simp_all add: thread_ok_def)
  ultimately have "kinv T Hd ?k"
    using n(2) intr by (simp add: kinv_def cur_code_def cur_level_def)
  with s show ?thesis using that by blast
qed

section \<open>Preemption\<close>

lemma unat_level_succ: "unat (l::u32) < 2 ^ 32 - 1 \<Longrightarrow> unat (l + 1) = unat l + 1"
  using unat_add_no_wrap [of l 1] by simp

lemma preempt_disable_eq:
  assumes "cur_level k < 2 ^ 32 - 1"
  shows "thread_preempt_disable k =
    Some (upd_thread (current k) (\<lambda>t. t\<lparr>preempt_level := preempt_level t + 1\<rparr>) k)"
proof -
  have "unat (preempt_level (threads k (current k)) + 1) \<noteq> 0"
    using assms unat_level_succ by (simp add: cur_level_def)
  then show ?thesis
    by (simp add: thread_preempt_disable_def thread_self_eq upd_thread_def unat_eq_0)
qed

lemma preempt_enable_no_yield_eq:
  assumes "0 < cur_level k"
  shows "thread_preempt_enable_no_yield k =
    Some (upd_thread (current k) (\<lambda>t. t\<lparr>preempt_level := preempt_level t - 1\<rparr>) k)"
proof -
  have "preempt_level (threads k (current k)) \<noteq> 0" using assms by (auto simp: cur_level_def)
  then show ?thesis by (simp add: thread_preempt_enable_no_yield_def thread_self_eq)
qed

text \<open>Yielding, from a state in which the invariant holds.\<close>

lemma thread_yield_kinv:
  assumes inv: "kinv T Hd k"
  obtains k' where "thread_yield k = Some k'" and "kinv T Hd k'"
proof (cases "thread_preempt_enabled k")
  case False
  then show ?thesis using that [of k] inv by (simp add: thread_yield_def)
next
  case True
  let ?t = "current k"
  let ?f = "\<lambda>t. t\<lparr>preempt_level := 1, yield := False, code := Unlock_scheduler (intr k) False # code t\<rparr>"
  let ?k = "upd_thread ?t ?f (k\<lparr>intr := False\<rparr>)"
  have base: "base_inv T Hd k" and run: "thread_is_running k ?t"
    and ok: "ok_code (cur_code k) 0 (intr k) (Hd ?t)"
    using inv True by (simp_all add: kinv_def cur_level_def thread_preempt_enabled_def thread_self_eq)
  have l0: "preempt_level (threads k ?t) = 0" using True by (simp add: thread_preempt_enabled_def thread_self_eq)
  have eq: "thread_yield k = thread_runq_schedule ?k"
    using True l0 preempt_disable_eq [of k]
    by (simp add: thread_yield_def thread_lock_scheduler_def cpu_intr_save_def thread_clear_yield_def
        thread_self_eq upd_thread_def push_def cur_level_def)
  have base': "base_inv T Hd ?k"
    by (rule base_inv_current [OF base])
      (use base run in \<open>auto simp: upd_thread_def cur_code_def thread_is_running_def base_inv_def\<close>)
  have off: "\<not> intr ?k" by (simp add: upd_thread_def)
  have cur: "thread_ok Hd ?k (current ?k)"
    using ok run by (simp add: thread_ok_def upd_thread_def thread_is_dead_def thread_is_running_def cur_code_def)
  obtain k' where "thread_runq_schedule ?k = Some k'" "kinv T Hd k'"
    by (rule schedule_kinv [OF base' off cur])
  then show ?thesis using that eq by simp
qed

lemma preempt_enable_kinv:
  assumes base: "base_inv T Hd k" and run: "thread_is_running k (current k)" and l: "0 < cur_level k"
    and ok: "ok_code (cur_code k) (cur_level k - 1) (intr k) (Hd (current k))"
  obtains k' where "thread_preempt_enable k = Some k'" and "kinv T Hd k'"
proof -
  let ?k = "upd_thread (current k) (\<lambda>t. t\<lparr>preempt_level := preempt_level t - 1\<rparr>) k"
  have "preempt_level (threads k (current k)) \<noteq> 0" using l by (auto simp: cur_level_def)
  then have "unat (preempt_level (threads k (current k)) - 1) = cur_level k - 1"
    by (simp add: cur_level_def unat_minus_one)
  moreover have "base_inv T Hd ?k"
    by (rule base_inv_current [OF base])
      (use base run in \<open>auto simp: upd_thread_def cur_code_def thread_is_running_def base_inv_def\<close>)
  ultimately have inv: "kinv T Hd ?k"
    using run ok by (simp add: kinv_def upd_thread_def cur_level_def cur_code_def thread_is_running_def)
  have e: "thread_preempt_enable k = thread_yield_if_needed ?k"
    using preempt_enable_no_yield_eq [OF l] by (simp add: thread_preempt_enable_def)
  obtain k' where "thread_yield ?k = Some k'" "kinv T Hd k'" by (rule thread_yield_kinv [OF inv])
  then show ?thesis using that e inv by (auto simp: thread_yield_if_needed_def split: if_splits)
qed

section \<open>Sleeping\<close>

lemma thread_sleep_kinv:
  assumes base: "base_inv T Hd k" and run: "thread_is_running k (current k)" and ni: "current k \<noteq> idle k"
    and l: "cur_level k = 1" and ok: "ok_code (cur_code k) 1 (intr k) (Hd (current k))"
  obtains k' where "thread_sleep k = Some k'" and "kinv T Hd k'"
proof -
  let ?t = "current k"
  let ?f = "\<lambda>t. t\<lparr>tstate := THREAD_STATE_SLEEPING, code := Sleep_done (intr k) # code t\<rparr>"
  let ?k = "upd_thread ?t ?f (k\<lparr>intr := False\<rparr>)"
  have eq: "thread_sleep k = thread_runq_schedule ?k"
    using run by (simp add: thread_sleep_def cpu_intr_save_def thread_self_eq thread_set_sleeping_def
        upd_thread_def push_def thread_is_running_def Let_def)
  have base': "base_inv T Hd ?k"
    by (rule base_inv_current [OF base]) (use ni in \<open>auto simp: upd_thread_def cur_code_def\<close>)
  have off: "\<not> intr ?k" by (simp add: upd_thread_def)
  have "preempt_level (threads k ?t) = 1" using l by (simp add: cur_level_def word_unat_eq_iff)
  then have cur: "thread_ok Hd ?k (current ?k)"
    using ok by (simp add: thread_ok_def upd_thread_def thread_is_dead_def cur_code_def)
  obtain k' where "thread_runq_schedule ?k = Some k'" "kinv T Hd k'"
    by (rule schedule_kinv [OF base' off cur])
  then show ?thesis using that eq by simp
qed

section \<open>Waking up\<close>

text \<open>What waking up a thread with preemption disabled leaves unchanged.\<close>

definition woken :: "kernel \<Rightarrow> kernel \<Rightarrow> bool" where
  "woken k k' \<longleftrightarrow> current k' = current k \<and> idle k' = idle k \<and> intr k' = intr k \<and>
     mutexes k' = mutexes k \<and> condvars k' = condvars k \<and>
     (\<forall>u. code (threads k' u) = code (threads k u) \<and>
        preempt_level (threads k' u) = preempt_level (threads k u) \<and>
        joiner (threads k' u) = joiner (threads k u) \<and>
        thread_is_dead k' u = thread_is_dead k u \<and> (thread_is_running k u \<longrightarrow> thread_is_running k' u))"

lemma base_inv_woken:
  assumes "base_inv T Hd k" and "woken k k'" and "runq_inv T k'"
  shows "base_inv T Hd k'"
  using assms unfolding base_inv_def woken_def mutexes_ok_def condvars_ok_def thread_ok_def by simp

lemma woken_trans: "woken k k' \<Longrightarrow> woken k' k'' \<Longrightarrow> woken k k''"
  by (simp add: woken_def)

lemma wakeup_ok:
  assumes base: "base_inv T Hd k" and l: "0 < cur_level k" "cur_level k < 2 ^ 32 - 1"
    and t: "t \<in> T" "\<not> thread_is_dead k t"
  obtains k' where "thread_wakeup t k = Some k'" and "woken k k'" and "base_inv T Hd k'"
    and "t \<noteq> current k \<longrightarrow> thread_is_running k' t"
proof (cases "t = current k")
  case True
  then show ?thesis using that [of k] base by (simp add: thread_wakeup_def thread_self_eq woken_def)
next
  case tc: False
  let ?c = "current k"
  have inv: "runq_inv T k" using base by (simp add: base_inv_def)
  have t0: "t \<noteq> 0" using t(1) runq_invD(3) [OF inv] by auto
  let ?k1 = "upd_thread ?c (\<lambda>t. t\<lparr>preempt_level := preempt_level t + 1\<rparr>) (k\<lparr>intr := False\<rparr>)"
  have lock: "thread_lock_scheduler k = Some (intr k, ?k1)"
    using preempt_disable_eq [OF l(2)]
    by (simp add: thread_lock_scheduler_def cpu_intr_save_def upd_thread_def)
  have l1: "preempt_level (threads k ?c) + 1 \<noteq> 0"
    using unat_level_succ [of "preempt_level (threads k ?c)"] l(2) by (auto simp: cur_level_def)
  have l0: "preempt_level (threads k ?c) \<noteq> 0" using l(1) by (auto simp: cur_level_def)
  have locked: "thread_scheduler_locked (k2\<lparr>threads := x\<rparr>)"
    if "\<not> intr k2" "current k2 = ?c" "preempt_level (x ?c) = preempt_level (threads k ?c) + 1" for k2 x
    using that l1 by (simp add: thread_scheduler_locked_def cpu_intr_enabled_def thread_preempt_enabled_def
        thread_self_eq)
  text \<open>Unlocking does not switch: the preemption level is not 0.\<close>
  have unlock: "thread_unlock_scheduler (intr k) True k2 =
      Some (upd_thread ?c (\<lambda>t. t\<lparr>preempt_level := preempt_level t - 1\<rparr>) (k2\<lparr>intr := intr k\<rparr>))"
    if "current k2 = ?c" "preempt_level (threads k2 ?c) = preempt_level (threads k ?c) + 1" for k2
  proof -
    have "thread_preempt_enable_no_yield (k2\<lparr>intr := intr k\<rparr>) =
        Some (upd_thread ?c (\<lambda>t. t\<lparr>preempt_level := preempt_level t - 1\<rparr>) (k2\<lparr>intr := intr k\<rparr>))"
      using preempt_enable_no_yield_eq [of "k2\<lparr>intr := intr k\<rparr>"] that l1
      by (simp add: cur_level_def unat_gt_0)
    then show ?thesis
      using that l0 by (simp add: thread_unlock_scheduler_def cpu_intr_restore_def thread_preempt_enable_def
          thread_yield_if_needed_def thread_yield_def thread_preempt_enabled_def thread_self_eq upd_thread_def)
  qed
  show ?thesis
  proof (cases "thread_is_running k t")
    case True
    then have "thread_is_running ?k1 t" using tc by (simp add: thread_is_running_def upd_thread_def)
    then have "thread_wakeup t k = thread_unlock_scheduler (intr k) True ?k1"
      using t0 tc lock by (simp add: thread_wakeup_def thread_self_eq)
    also have "\<dots> = Some k"
      by (subst unlock) (simp_all add: upd_thread_def)
    finally show ?thesis using that [of k] base True by (simp add: woken_def)
  next
    case False
    note W = runq_inv_wake [OF inv t(1) False tc]
    let ?y = "thread_get_priority k ?c < thread_get_priority k t"
    let ?k2 = "wake t ?k1"
    let ?k3 = "if ?y then thread_set_yield ?c ?k2 else ?k2"
    have "thread_runq_add t (thread_set_running t ?k1) = Some ?k3"
      using W(2) runq_invD(9) [OF inv t(1)] tc l1
      by (simp add: thread_runq_add_def thread_set_running_def upd_thread_def locked thread_is_running_def
          thread_runq_get_list_def THREAD_NR_PRIORITIES_def thread_get_priority_def thread_list_enqueue_def
          wake_def Let_def fun_upd_twist)
    moreover have "\<not> thread_is_running ?k1 t" "\<not> thread_is_dead ?k1 t"
      using False t(2) tc by (simp_all add: thread_is_running_def thread_is_dead_def upd_thread_def)
    ultimately have "thread_wakeup t k = thread_unlock_scheduler (intr k) True ?k3"
      using t0 tc lock by (simp add: thread_wakeup_def thread_self_eq)
    also have "\<dots> = Some (upd_thread ?c (\<lambda>t. t\<lparr>preempt_level := preempt_level t - 1\<rparr>) (?k3\<lparr>intr := intr k\<rparr>))"
      by (rule unlock) (use tc in \<open>simp_all add: wake_def upd_thread_def thread_set_yield_def\<close>)
    finally have r: "thread_wakeup t k =
      Some (upd_thread ?c (\<lambda>t. t\<lparr>preempt_level := preempt_level t - 1\<rparr>) (?k3\<lparr>intr := intr k\<rparr>))"
      (is "_ = Some ?k4") .
    have "woken k ?k4"
      using tc False t(2) by (auto simp: woken_def wake_def upd_thread_def thread_set_yield_def
          thread_is_dead_def thread_is_running_def)
    moreover have "runq_inv T ?k4"
    proof -
      have "runq_inv T ?k4 \<longleftrightarrow> runq_inv T (wake t k)"
        by (rule runq_inv_cong)
          (use tc in \<open>auto simp: wake_def upd_thread_def thread_set_yield_def thread_get_priority_def\<close>)
      then show ?thesis using W(1) by simp
    qed
    moreover have "thread_is_running ?k4 t"
      using tc by (simp add: wake_def upd_thread_def thread_set_yield_def thread_is_running_def)
    ultimately show ?thesis using that [OF r] base_inv_woken [OF base] by blast
  qed
qed

end
