(* ===== verification/Sync_Step.thy ===== *)
theory Sync_Step
  imports Sync_Correct
begin

text \<open>
  Every instruction, executed by the current thread in a state that satisfies the invariant of
  theory Sync_Correct, returns and keeps the invariant.
\<close>

section \<open>The current thread\<close>

definition set_cur :: "nat \<Rightarrow> instr list \<Rightarrow> bool \<Rightarrow> kernel \<Rightarrow> kernel" where
  "set_cur l c i k = upd_thread (current k) (\<lambda>t. t\<lparr>preempt_level := of_nat l, code := c\<rparr>) (k\<lparr>intr := i\<rparr>)"

lemma set_cur_simps [simp]:
  "current (set_cur l c i k) = current k" "idle (set_cur l c i k) = idle k" "intr (set_cur l c i k) = i"
  "mutexes (set_cur l c i k) = mutexes k" "condvars (set_cur l c i k) = condvars k"
  "cur_code (set_cur l c i k) = c" "thread_is_running (set_cur l c i k) t = thread_is_running k t"
  "thread_is_dead (set_cur l c i k) t = thread_is_dead k t"
  "l < 2 ^ 32 \<Longrightarrow> cur_level (set_cur l c i k) = l"
  by (simp_all add: set_cur_def upd_thread_def cur_code_def cur_level_def thread_is_running_def
      thread_is_dead_def unat_of_nat_u32)

lemma set_cur_set_cur [simp]: "set_cur l c i (set_cur l' c' i' k) = set_cur l c i k"
  by (simp add: set_cur_def upd_thread_def)

lemma pop_code_eq:
  "cur_code k = i # c \<Longrightarrow> pop_code k = set_cur (cur_level k) c (intr k) k"
  by (simp add: pop_code_def set_cur_def upd_thread_def cur_code_def cur_level_def)

lemma push_set_cur [simp]: "push is (set_cur l c i k) = set_cur l (is @ c) i k"
  by (simp add: push_def set_cur_def upd_thread_def)

lemma preempt_disable_set_cur:
  "l < 2 ^ 32 - 1 \<Longrightarrow> thread_preempt_disable (set_cur l c i k) = Some (set_cur (l + 1) c i k)"
  by (simp add: preempt_disable_eq)
    (auto simp: set_cur_def upd_thread_def add.commute fun_eq_iff intro!: kernel.equality thread.equality)

lemma level_set_cur: "preempt_level (threads (set_cur l c i k) (current k)) = of_nat l"
  by (simp add: set_cur_def upd_thread_def)

lemma intr_set_cur [simp]:
  "cpu_intr_save (set_cur l c i k) = (i, set_cur l c False k)"
  "cpu_intr_restore j (set_cur l c i k) = set_cur l c j k"
  "(set_cur l c i k)\<lparr>intr := j\<rparr> = set_cur l c j k"
  by (simp_all add: cpu_intr_save_def cpu_intr_restore_def set_cur_def upd_thread_def)

lemma kinvD:
  assumes "kinv T Hd k"
  shows "base_inv T Hd k" "thread_is_running k (current k)"
    "ok_code (cur_code k) (cur_level k) (intr k) (Hd (current k))" "runq_inv T k" "current k \<in> T"
  using assms by (simp_all add: kinv_def base_inv_def runq_inv_def)

lemma base_set_cur:
  assumes "base_inv T Hd k" and "thread_is_running k (current k)"
    and "\<And>m. Lock_loop m \<in> set (cur_code k) \<Longrightarrow> current k \<in> set (waiters (mutexes k m)) \<Longrightarrow> Lock_loop m \<in> set c"
    and "\<And>cv m. Wait_loop cv m \<in> set (cur_code k) \<Longrightarrow> current k \<in> fst ` set (condvars k cv) \<Longrightarrow>
      \<exists>m'. Wait_loop cv m' \<in> set c"
    and "current k = idle k \<Longrightarrow> idle_code c"
  shows "base_inv T Hd (set_cur l c i k)"
  by (rule base_inv_current [OF assms(1)])
    (use assms in \<open>auto simp: set_cur_def upd_thread_def cur_code_def thread_is_running_def\<close>)

lemma kinv_set_cur:
  assumes "base_inv T Hd (set_cur l c i k)" and "thread_is_running k (current k)"
    and "ok_code c l i (Hd (current k))"
  shows "kinv T Hd (set_cur l c i k)"
  using assms ok_code_level [OF assms(3)] by (simp add: kinv_def)

lemma cur_not_idle:
  assumes "base_inv T Hd k" and "cur_code k = i # c" and "i \<noteq> Cpu_idle" "\<not> is_idle i"
  shows "current k \<noteq> idle k"
  using assms by (auto simp: base_inv_def cur_code_def)

text \<open>Code made of user instructions holds no rest of a function.\<close>

lemma user_code_no_loop:
  "list_all is_user c \<Longrightarrow> Lock_loop m \<notin> set c" "list_all is_user c \<Longrightarrow> Wait_loop cv m \<notin> set c"
  by (auto simp: list_all_iff)

text \<open>Popping an instruction that is no loop and no idle instruction keeps the others' invariant.\<close>

lemma base_pop:
  assumes "base_inv T Hd k" and "thread_is_running k (current k)" and "cur_code k = i # c"
    and "\<And>m. i \<noteq> Lock_loop m" "\<And>cv m. i \<noteq> Wait_loop cv m" "i \<noteq> Cpu_idle" "set c \<subseteq> set c'"
    and "current k = idle k \<Longrightarrow> idle_code c'"
  shows "base_inv T Hd (set_cur l c' j k)"
  by (rule base_set_cur [OF assms(1,2)]) (use assms in auto)

lemma idle_pop: "base_inv T Hd k \<Longrightarrow> cur_code k = i # c \<Longrightarrow> i \<noteq> Cpu_idle \<Longrightarrow> current k = idle k \<Longrightarrow> idle_code c"
  by (auto simp: base_inv_def cur_code_def)

section \<open>Simple instructions\<close>

lemma exec_yield_ok:
  assumes inv: "kinv T Hd k" and c: "cur_code k = Thread_yield # c"
  shows "\<exists>k'. exec Thread_yield (pop_code k) = Some k' \<and> kinv T Hd k'"
proof -
  have ok: "ok_code c (cur_level k) (intr k) (Hd (current k))" using kinvD(3) [OF inv] c by auto
  have "base_inv T Hd (set_cur (cur_level k) c (intr k) k)"
    by (rule base_pop [OF kinvD(1,2) [OF inv] c]) (use idle_pop [OF kinvD(1) [OF inv] c] in auto)
  then have "kinv T Hd (pop_code k)"
    unfolding pop_code_eq [OF c] using kinv_set_cur kinvD(2) [OF inv] ok by blast
  then show ?thesis using thread_yield_kinv by (metis exec.simps(6))
qed

lemma exec_sleep_ok:
  assumes inv: "kinv T Hd k" and c: "cur_code k = Thread_sleep # c"
  shows "\<exists>k'. exec Thread_sleep (pop_code k) = Some k' \<and> kinv T Hd k'"
proof -
  have ok: "ok_code c 1 True (Hd (current k))" "cur_level k = 1" "intr k" using kinvD(3) [OF inv] c by auto
  have ni: "current k \<noteq> idle k" by (rule cur_not_idle [OF kinvD(1) [OF inv] c]) auto
  have "base_inv T Hd (set_cur 1 c True k)"
    by (rule base_pop [OF kinvD(1,2) [OF inv] c]) (use ni in auto)
  from thread_sleep_kinv [OF this] obtain k' where "thread_sleep (set_cur 1 c True k) = Some k'" "kinv T Hd k'"
    using kinvD(2) [OF inv] ok ni by (auto simp: )
  then show ?thesis using ok by (simp add: pop_code_eq [OF c])
qed

section \<open>Changing mutexes and condition variables\<close>

lemma thread_is_upd_simps [simp]:
  "thread_is_running (k\<lparr>mutexes := M\<rparr>) t = thread_is_running k t"
  "thread_is_running (k\<lparr>condvars := C\<rparr>) t = thread_is_running k t"
  "thread_is_dead (k\<lparr>mutexes := M\<rparr>) t = thread_is_dead k t"
  "thread_is_dead (k\<lparr>condvars := C\<rparr>) t = thread_is_dead k t"
  by (simp_all add: thread_is_running_def thread_is_dead_def)

lemma upd_set_cur [simp]:
  "upd_mutex m mtx (set_cur l c i k) = set_cur l c i (k\<lparr>mutexes := (mutexes k)(m := mtx)\<rparr>)"
  "upd_condvar cv ws (set_cur l c i k) = set_cur l c i (k\<lparr>condvars := (condvars k)(cv := ws)\<rparr>)"
  by (simp_all add: upd_mutex_def upd_condvar_def set_cur_def upd_thread_def)

lemma base_sync:
  assumes base: "base_inv T Hd k" and run: "thread_is_running k (current k)"
    and k': "k' = set_cur l c i (k\<lparr>mutexes := M, condvars := C\<rparr>)"
    and Hd: "\<forall>t. t \<noteq> current k \<longrightarrow> Hd' t = Hd t"
    and ok: "mutexes_ok T Hd' k'" "condvars_ok T k'" and idle: "current k = idle k \<Longrightarrow> idle_code c"
  shows "base_inv T Hd' k'"
proof -
  have th: "threads k' t = threads k t" if "t \<noteq> current k" for t
    using that by (simp add: k' set_cur_def upd_thread_def)
  have cur: "tstate (threads k' t) = tstate (threads k t)" "priority (threads k' t) = priority (threads k t)"
    "saved_intr (threads k' t) = saved_intr (threads k t)" "joiner (threads k' t) = joiner (threads k t)" for t
    by (simp_all add: k' set_cur_def upd_thread_def)
  have "runq_inv T k'"
    using base runq_inv_cong [of k' k T] cur by (simp add: base_inv_def k' set_cur_def upd_thread_def)
  moreover have "idle_code (code (threads k' (idle k')))"
    using base idle th [of "idle k"] by (cases "current k = idle k")
      (auto simp: base_inv_def k' set_cur_def upd_thread_def)
  moreover have "thread_ok Hd' k' t" if "t \<in> T" "t \<noteq> current k'" for t
  proof -
    have "t \<noteq> current k" using that by (simp add: k')
    then show ?thesis using base that th [of t] Hd
      by (simp add: base_inv_def thread_ok_def thread_is_dead_def)
  qed
  ultimately show ?thesis using base ok cur by (simp add: base_inv_def)
qed

lemma mutexes_ok_upd:
  assumes mok: "mutexes_ok T Hd k"
    and k': "k' = set_cur l c i (k\<lparr>mutexes := (mutexes k)(m := mtx), condvars := C\<rparr>)"
    and Hd: "\<forall>t. t \<noteq> current k \<longrightarrow> Hd' t = Hd t" and H: "Hd' (current k) - {m} = Hd (current k) - {m}"
    and mtx: "mutex_inv mtx" "\<forall>t. owner mtx = Some t \<longleftrightarrow> t \<in> T \<and> m \<in> Hd' t" "distinct (waiters mtx)"
      "set (waiters mtx) - {current k} \<subseteq> set (waiters (mutexes k m))"
    and cur: "\<forall>m'. current k \<in> set (waiters (mutexes k' m')) \<longrightarrow> current k \<in> T \<and> Lock_loop m' \<in> set c"
  shows "mutexes_ok T Hd' k'"
proof -
  have code: "code (threads k' t) = (if t = current k then c else code (threads k t))" for t
    by (simp add: k' set_cur_def upd_thread_def)
  have mem: "m' \<in> Hd' t \<longleftrightarrow> m' \<in> Hd t" if "m' \<noteq> m" for t m'
    using Hd H that by (cases "t = current k") auto
  have M: "mutexes k' = (mutexes k)(m := mtx)" by (simp add: k')
  show ?thesis unfolding mutexes_ok_def
  proof (intro allI conjI ballI)
    fix m' t
    show "mutex_inv (mutexes k' m')" using mok mtx(1) by (simp add: mutexes_ok_def M)
    show "owner (mutexes k' m') = Some t \<longleftrightarrow> t \<in> T \<and> m' \<in> Hd' t"
      using mok mtx(2) mem [of m' t] by (simp add: mutexes_ok_def M)
    show "distinct (waiters (mutexes k' m'))" using mok mtx(3) by (simp add: mutexes_ok_def M)
    assume t: "t \<in> set (waiters (mutexes k' m'))"
    have "t \<in> T \<and> Lock_loop m' \<in> set (code (threads k' t))"
    proof (cases "t = current k")
      case True
      then show ?thesis using cur t by (simp add: code)
    next
      case False
      then have "t \<in> set (waiters (mutexes k m'))" using t mtx(4) by (auto simp: M split: if_splits)
      then show ?thesis using mok False by (simp add: mutexes_ok_def code)
    qed
    then show "t \<in> T" "Lock_loop m' \<in> set (code (threads k' t))" by auto
  qed
qed

lemma condvars_ok_upd:
  assumes cok: "condvars_ok T k"
    and k': "k' = set_cur l c i (k\<lparr>mutexes := M, condvars := (condvars k)(cv := ws)\<rparr>)"
    and ws: "distinct (map fst ws)" "fst ` set ws - {current k} \<subseteq> fst ` set (condvars k cv)"
    and cur: "\<forall>cv'. current k \<in> fst ` set (condvars k' cv') \<longrightarrow> current k \<in> T \<and> (\<exists>m. Wait_loop cv' m \<in> set c)"
  shows "condvars_ok T k'"
proof -
  have code: "code (threads k' t) = (if t = current k then c else code (threads k t))" for t
    by (simp add: k' set_cur_def upd_thread_def)
  have C: "condvars k' = (condvars k)(cv := ws)" by (simp add: k')
  show ?thesis unfolding condvars_ok_def
  proof (intro allI conjI ballI)
    fix cv' t
    show "distinct (map fst (condvars k' cv'))" using cok ws(1) by (simp add: condvars_ok_def C)
    assume t: "t \<in> fst ` set (condvars k' cv')"
    have "t \<in> T \<and> (\<exists>m. Wait_loop cv' m \<in> set (code (threads k' t)))"
    proof (cases "t = current k")
      case True
      then show ?thesis using cur t by (simp add: code)
    next
      case False
      then have "t \<in> fst ` set (condvars k cv')" using t ws(2) by (auto simp: C split: if_splits)
      then show ?thesis using cok False unfolding condvars_ok_def code by auto
    qed
    then show "t \<in> T" "\<exists>m. Wait_loop cv' m \<in> set (code (threads k' t))" by auto
  qed
qed

lemma condvars_ok_same:
  assumes cok: "condvars_ok T k"
    and k': "k' = set_cur l c i (k\<lparr>mutexes := M, condvars := condvars k\<rparr>)"
    and cur: "\<forall>cv. current k \<in> fst ` set (condvars k cv) \<longrightarrow> (\<exists>m. Wait_loop cv m \<in> set c)"
  shows "condvars_ok T k'"
proof -
  have "current k \<in> fst ` set (condvars k' cv) \<longrightarrow> current k \<in> T \<and> (\<exists>m. Wait_loop cv m \<in> set c)" for cv
    using cok cur by (fastforce simp: k' condvars_ok_def)
  then show ?thesis
    using cok by (intro condvars_ok_upd [OF cok, where k' = k' and cv = 0 and ws = "condvars k 0"])
      (auto simp: k' condvars_ok_def)
qed

text \<open>A thread whose code holds no loop waits for nothing.\<close>

lemma not_waiting:
  assumes "base_inv T Hd k" and "\<And>m. Lock_loop m \<notin> set (code (threads k t))"
  shows "t \<notin> set (waiters (mutexes k m))"
  using assms unfolding base_inv_def mutexes_ok_def by blast

lemma not_cv_waiting:
  assumes "base_inv T Hd k" and "\<And>m. Wait_loop cv m \<notin> set (code (threads k t))"
  shows "t \<notin> fst ` set (condvars k cv)"
  using assms unfolding base_inv_def condvars_ok_def by blast

section \<open>Mutex instructions\<close>

text \<open>The end of \<^verbatim>\<open>mutex_lock\<close>: the mutex is free, and the waiter is no longer queued.\<close>

lemma lock_own_ok:
  assumes base: "base_inv T Hd k" and run: "thread_is_running k (current k)" and ni: "current k \<noteq> idle k"
    and free: "\<not> locked (mutexes k m)" and user: "list_all is_user c"
    and ok: "ok_code c 0 True (insert m (Hd (current k)))"
    and ws: "set ws = set (waiters (mutexes k m)) - {current k}" "distinct ws"
    and now: "\<forall>m'. m' \<noteq> m \<longrightarrow> current k \<notin> set (waiters (mutexes k m'))"
      "\<forall>cv. current k \<notin> fst ` set (condvars k cv)"
  defines "mtx \<equiv> (mutexes k m)\<lparr>waiters := ws\<rparr>"
  shows "\<exists>k'. mutex_lock_own m (upd_mutex m mtx (set_cur 1 c True k)) = Some k' \<and>
    kinv T (Hd(current k := insert m (Hd (current k)))) k'"
proof -
  let ?t = "current k" and ?mtx = "mtx\<lparr>owner := Some (current k), locked := True\<rparr>"
  let ?Hd = "Hd(?t := insert m (Hd ?t))"
  let ?k = "set_cur 1 c True (k\<lparr>mutexes := (mutexes k)(m := ?mtx), condvars := (condvars k)\<rparr>)"
  have mok: "mutexes_ok T Hd k" and cok: "condvars_ok T k" and T: "?t \<in> T"
    using base by (simp_all add: base_inv_def runq_inv_def)
  have none: "owner (mutexes k m) = None" using mok free by (metis mutexes_ok_def mutex_inv_def)
  then have nh: "t \<notin> T \<or> m \<notin> Hd t" for t using mok by (metis mutexes_ok_def option.distinct(1))
  have "mutexes_ok T ?Hd ?k"
    by (rule mutexes_ok_upd [OF mok refl])
      (use ws now(1) T nh in \<open>auto simp: mtx_def mutex_inv_def\<close>)
  moreover have "condvars_ok T ?k"
    by (rule condvars_ok_same [OF cok refl]) (use now(2) in blast)
  ultimately have "base_inv T ?Hd ?k" by (intro base_sync [OF base run refl]) (use ni in auto)
  then obtain k' where k': "thread_preempt_enable ?k = Some k'" "kinv T ?Hd k'"
    by (rule preempt_enable_kinv) (use run ok in auto)
  have "mutex_lock_own m (upd_mutex m mtx (set_cur 1 c True k)) = thread_preempt_enable ?k"
    using free none
    by (simp add: mutex_lock_own_def mutex_set_owner_def mtx_def thread_self_eq)
  then show ?thesis using k' by auto
qed

text \<open>A thread with user code is neither waiting for a mutex nor on a condition variable.\<close>

lemma user_not_waiting:
  assumes base: "base_inv T Hd k" and c: "cur_code k = i # c" and user: "list_all is_user c"
    and i: "\<And>m. i \<noteq> Lock_loop m" "\<And>cv m. i \<noteq> Wait_loop cv m"
  shows "current k \<notin> set (waiters (mutexes k m))" and "current k \<notin> fst ` set (condvars k cv)"
proof -
  have "Lock_loop m \<notin> set (code (threads k (current k)))" "Wait_loop cv m \<notin> set (code (threads k (current k)))"
    for m cv using c i user_code_no_loop [OF user] by (auto simp: cur_code_def)
  then show "current k \<notin> set (waiters (mutexes k m))" and "current k \<notin> fst ` set (condvars k cv)"
    using not_waiting [OF base] not_cv_waiting [OF base] by blast+
qed

lemma exec_lock_ok:
  assumes inv: "kinv T Hd k" and c: "cur_code k = Mutex_lock m # c"
  shows "\<exists>k' Hd'. exec (Mutex_lock m) (pop_code k) = Some k' \<and> kinv T Hd' k'"
proof -
  note base = kinvD(1) [OF inv] and run = kinvD(2) [OF inv]
  have ok: "cur_level k = 0" "intr k" "m \<notin> Hd (current k)" "list_all is_user c"
    "ok_code c 0 True (insert m (Hd (current k)))"
    using kinvD(3) [OF inv] c by auto
  have ni: "current k \<noteq> idle k" by (rule cur_not_idle [OF base c]) auto
  have nw: "current k \<notin> set (waiters (mutexes k m'))" "current k \<notin> fst ` set (condvars k cv)" for m' cv
    using user_not_waiting [OF base c ok(4)] by auto
  have mok: "mutexes_ok T Hd k" and cok: "condvars_ok T k" using base by (simp_all add: base_inv_def)
  have pd: "thread_preempt_disable (pop_code k) = Some (set_cur 1 c True k)"
    using preempt_disable_set_cur [of 0 c True k] ok by (simp add: pop_code_eq [OF c])
  show ?thesis
  proof (cases "locked (mutexes k m)")
    case False
    have "mutex_lock m (pop_code k) = mutex_lock_own m (upd_mutex m ((mutexes k m)\<lparr>waiters := waiters (mutexes k m)\<rparr>)
        (set_cur 1 c True k))"
      using False pd by (simp add: mutex_lock_def)
    moreover have "distinct (waiters (mutexes k m))" using mok by (simp add: mutexes_ok_def)
    ultimately show ?thesis
      using lock_own_ok [OF base run ni False ok(4,5), of "waiters (mutexes k m)"] nw by auto
  next
    case True
    let ?k = "set_cur 1 (Lock_loop m # c) True (k\<lparr>mutexes := (mutexes k)
      (m := (mutexes k m)\<lparr>waiters := waiters (mutexes k m) @ [current k]\<rparr>), condvars := condvars k\<rparr>)"
    have "mutexes_ok T Hd ?k"
      by (rule mutexes_ok_upd [OF mok refl])
        (use mok nw kinvD(5) [OF inv] in \<open>auto simp: mutexes_ok_def mutex_inv_def\<close>)
    moreover have "condvars_ok T ?k"
      by (rule condvars_ok_same [OF cok refl]) (use nw in blast)
    ultimately have "base_inv T Hd ?k" by (intro base_sync [OF base run refl]) (use ni in auto)
    then obtain k' where "thread_sleep ?k = Some k'" "kinv T Hd k'"
      by (rule thread_sleep_kinv) (use run ok ni in auto)
    moreover have "mutex_lock m (pop_code k) = thread_sleep ?k"
      using True pd by (simp add: mutex_lock_def thread_self_eq pop_code_eq [OF c] Let_def)
    ultimately show ?thesis by auto
  qed
qed

lemma exec_lock_loop_ok:
  assumes inv: "kinv T Hd k" and c: "cur_code k = Lock_loop m # c"
  shows "\<exists>k' Hd'. exec (Lock_loop m) (pop_code k) = Some k' \<and> kinv T Hd' k'"
proof -
  note base = kinvD(1) [OF inv] and run = kinvD(2) [OF inv]
  have ok: "cur_level k = 1" "intr k" "m \<notin> Hd (current k)" "list_all is_user c"
    "ok_code c 0 True (insert m (Hd (current k)))"
    using kinvD(3) [OF inv] c by auto
  have ni: "current k \<noteq> idle k" by (rule cur_not_idle [OF base c]) auto
  have pc: "pop_code k = set_cur 1 c True k" using ok by (simp add: pop_code_eq [OF c])
  show ?thesis
  proof (cases "locked (mutexes k m)")
    case False
    have nw: "current k \<notin> set (waiters (mutexes k m'))" if "m' \<noteq> m" for m'
      using base c that user_code_no_loop(1) [OF ok(4)]
      by (fastforce simp: base_inv_def mutexes_ok_def cur_code_def)
    have nc: "current k \<notin> fst ` set (condvars k cv)" for cv
      using not_cv_waiting [OF base] c user_code_no_loop(2) [OF ok(4)] by (simp add: cur_code_def)
    have "distinct (waiters (mutexes k m))" using base by (simp add: base_inv_def mutexes_ok_def)
    then show ?thesis
      using lock_own_ok [OF base run ni False ok(4,5), of "remove1 (current k) (waiters (mutexes k m))"]
        nw nc False by (auto simp: mutex_lock_loop_def pc thread_self_eq Let_def)
  next
    case True
    have "base_inv T Hd (set_cur 1 (Lock_loop m # c) True k)"
      by (rule base_set_cur [OF base run]) (use ni c in auto)
    then obtain k' where "thread_sleep (set_cur 1 (Lock_loop m # c) True k) = Some k'" "kinv T Hd k'"
      by (rule thread_sleep_kinv) (use run ok ni in auto)
    then show ?thesis using True by (auto simp: mutex_lock_loop_def pc Let_def)
  qed
qed

lemma kinv_woken: "kinv T Hd k \<Longrightarrow> woken k k' \<Longrightarrow> base_inv T Hd k' \<Longrightarrow> kinv T Hd k'"
  by (simp add: kinv_def woken_def cur_code_def cur_level_def)

text \<open>A thread that waits is alive.\<close>

lemma waiter_alive:
  assumes base: "base_inv T Hd k" and t: "t \<noteq> current k"
    and w: "t \<in> set (waiters (mutexes k m)) \<or> t \<in> fst ` set (condvars k cv)"
  shows "t \<in> T" "\<not> thread_is_dead k t"
proof -
  have "t \<in> T \<and> (\<exists>i. i \<noteq> Dead_walking \<and> i \<in> set (code (threads k t)))"
    using base w unfolding base_inv_def mutexes_ok_def condvars_ok_def by blast
  then show "t \<in> T" "\<not> thread_is_dead k t"
    using base t by (auto simp: base_inv_def thread_ok_def)
qed

lemma unlock_ok:
  assumes base: "base_inv T Hd k" and run: "thread_is_running k (current k)" and ni: "current k \<noteq> idle k"
    and l: "l \<le> 1" and m: "m \<in> Hd (current k)" and ok: "ok_code c l True (Hd (current k) - {m})"
    and nw: "\<And>m'. current k \<notin> set (waiters (mutexes k m'))" "\<And>cv. current k \<notin> fst ` set (condvars k cv)"
  shows "\<exists>k'. mutex_unlock m (set_cur l c True k) = Some k' \<and>
    kinv T (Hd(current k := Hd (current k) - {m})) k' \<and> current k' = current k \<and>
    cur_code k' = Preempt_enable # c \<and> condvars k' = condvars k \<and>
    mutexes k' = (mutexes k)(m := (mutexes k m)\<lparr>owner := None, locked := False\<rparr>) \<and>
    (waiters (mutexes k m) \<noteq> [] \<longrightarrow> thread_is_running k' (hd (waiters (mutexes k m))))"
proof -
  let ?t = "current k" and ?mtx = "(mutexes k m)\<lparr>owner := None, locked := False\<rparr>"
  let ?Hd = "Hd(?t := Hd ?t - {m})"
  let ?k = "set_cur (l + 1) (Preempt_enable # c) True (k\<lparr>mutexes := (mutexes k)(m := ?mtx), condvars := condvars k\<rparr>)"
  have mok: "mutexes_ok T Hd k" and cok: "condvars_ok T k" and T: "?t \<in> T"
    using base by (simp_all add: base_inv_def runq_inv_def)
  have own: "owner (mutexes k m) = Some ?t" and lk: "locked (mutexes k m)"
    using mok m T by (auto simp: mutexes_ok_def mutex_inv_def)
  then have nh: "t \<in> T \<and> m \<in> Hd t \<Longrightarrow> t = ?t" for t using mok by (metis mutexes_ok_def option.inject)
  have "mutexes_ok T ?Hd ?k"
    by (rule mutexes_ok_upd [OF mok refl])
      (use mok nw(1) nh in \<open>auto simp: mutexes_ok_def mutex_inv_def\<close>)
  moreover have "condvars_ok T ?k"
    by (rule condvars_ok_same [OF cok refl]) (use nw(2) in blast)
  ultimately have base': "base_inv T ?Hd ?k" by (intro base_sync [OF base run refl]) (use ni in auto)
  have inv: "kinv T ?Hd ?k" by (rule kinv_set_cur [OF base']) (use run ok l in auto)
  have e: "mutex_unlock m (set_cur l c True k) =
      (case waiters (mutexes k m) of [] \<Rightarrow> Some ?k | t # _ \<Rightarrow> thread_wakeup t ?k)"
    using l own lk by (simp add: mutex_unlock_def preempt_disable_set_cur mutex_clear_owner_def
        thread_self_eq Let_def split: list.split)
  show ?thesis
  proof (cases "waiters (mutexes k m)")
    case Nil
    then show ?thesis using e inv by simp
  next
    case (Cons t ws)
    then have "t \<noteq> current ?k" "t \<in> set (waiters (mutexes ?k m))" using nw(1) [of m] by auto
    note t = waiter_alive [OF base' this(1) disjI1, OF this(2)]
    obtain k' where "thread_wakeup t ?k = Some k'" "woken ?k k'" "base_inv T ?Hd k'"
      "t \<noteq> current ?k \<longrightarrow> thread_is_running k' t"
      by (rule wakeup_ok [OF base' _ _ t]) (use l in auto)
    moreover then have "cur_code k' = Preempt_enable # c"
      using set_cur_simps(6) [of "l + 1" "Preempt_enable # c" True "k\<lparr>mutexes := (mutexes k)(m := ?mtx), condvars := condvars k\<rparr>"]
      by (simp add: woken_def cur_code_def)
    ultimately show ?thesis
      using e Cons kinv_woken [OF inv] \<open>t \<noteq> current ?k\<close> by (auto simp: woken_def)
  qed
qed

lemma exec_unlock_ok:
  assumes inv: "kinv T Hd k" and c: "cur_code k = Mutex_unlock m # c"
  shows "\<exists>k' Hd'. exec (Mutex_unlock m) (pop_code k) = Some k' \<and> kinv T Hd' k'"
proof -
  note base = kinvD(1) [OF inv] and run = kinvD(2) [OF inv]
  have ok: "cur_level k \<le> 1" "intr k" "m \<in> Hd (current k)" "list_all is_user c"
    "ok_code c (cur_level k) True (Hd (current k) - {m})"
    using kinvD(3) [OF inv] c by auto
  have ni: "current k \<noteq> idle k" by (rule cur_not_idle [OF base c]) auto
  show ?thesis
    using unlock_ok [OF base run ni ok(1,3,5)] user_not_waiting [OF base c ok(4)] ok(2)
    by (auto simp: pop_code_eq [OF c])
qed

section \<open>Condition variables\<close>

lemma mutexes_ok_same:
  assumes mok: "mutexes_ok T Hd k"
    and k': "k' = set_cur l c i (k\<lparr>mutexes := mutexes k, condvars := C\<rparr>)"
    and cur: "\<forall>m. current k \<in> set (waiters (mutexes k m)) \<longrightarrow> Lock_loop m \<in> set c"
  shows "mutexes_ok T Hd k'"
proof -
  have "current k \<in> set (waiters (mutexes k' m)) \<longrightarrow> current k \<in> T \<and> Lock_loop m \<in> set c" for m
    using mok cur by (simp add: k' mutexes_ok_def)
  then show ?thesis
    using mok by (intro mutexes_ok_upd [OF mok, where k' = k' and m = 0 and mtx = "mutexes k 0"])
      (auto simp: k' mutexes_ok_def)
qed

lemma exec_wait_ok:
  assumes inv: "kinv T Hd k" and c: "cur_code k = Condvar_wait cv m # c"
  shows "\<exists>k' Hd'. exec (Condvar_wait cv m) (pop_code k) = Some k' \<and> kinv T Hd' k'"
proof -
  note base = kinvD(1) [OF inv] and run = kinvD(2) [OF inv]
  have ok: "cur_level k = 0" "intr k" "m \<in> Hd (current k)" "list_all is_user c"
    "ok_code c 0 True (Hd (current k))"
    using kinvD(3) [OF inv] c by auto
  have ni: "current k \<noteq> idle k" by (rule cur_not_idle [OF base c]) auto
  have "ok_code (Wait_unlocked cv m # c) 1 True (Hd (current k) - {m})"
    using ok by (simp add: insert_absorb)
  from unlock_ok [OF base run ni _ ok(3) this] user_not_waiting [OF base c ok(4)]
  show ?thesis using ok(1,2)
    by (auto simp: condvar_wait_def pop_code_eq [OF c] preempt_disable_set_cur)
qed

lemma exec_wait_unlocked_ok:
  assumes inv: "kinv T Hd k" and c: "cur_code k = Wait_unlocked cv m # c"
  shows "\<exists>k'. exec (Wait_unlocked cv m) (pop_code k) = Some k' \<and> kinv T Hd k'"
proof -
  note base = kinvD(1) [OF inv] and run = kinvD(2) [OF inv]
  have ok: "cur_level k = 1" "intr k" "m \<notin> Hd (current k)" "list_all is_user c"
    "ok_code c 0 True (insert m (Hd (current k)))"
    using kinvD(3) [OF inv] c by auto
  have ni: "current k \<noteq> idle k" by (rule cur_not_idle [OF base c]) auto
  have nw: "current k \<notin> set (waiters (mutexes k m'))" "current k \<notin> fst ` set (condvars k cv')" for m' cv'
    using user_not_waiting [OF base c ok(4)] by auto
  have mok: "mutexes_ok T Hd k" and cok: "condvars_ok T k" using base by (simp_all add: base_inv_def)
  let ?k = "set_cur 1 (Wait_loop cv m # c) True (k\<lparr>mutexes := mutexes k,
    condvars := (condvars k)(cv := condvars k cv @ [(current k, False)])\<rparr>)"
  have "mutexes_ok T Hd ?k" by (rule mutexes_ok_same [OF mok refl]) (use nw in blast)
  moreover have "distinct (map fst (condvars k cv @ [(current k, False)]))"
    using cok nw(2) by (simp add: condvars_ok_def)
  then have "condvars_ok T ?k"
    by (rule condvars_ok_upd [OF cok refl]) (use nw kinvD(5) [OF inv] in auto)
  ultimately have "base_inv T Hd ?k" by (intro base_sync [OF base run refl]) (use ni in auto)
  then obtain k' where "thread_sleep ?k = Some k'" "kinv T Hd k'"
    by (rule thread_sleep_kinv) (use run ok ni in auto)
  then show ?thesis using ok by (simp add: condvar_wait_unlocked_def pop_code_eq [OF c] thread_self_eq)
qed

lemma map_fst_remove_waiter: "map fst (remove_waiter t ws) = remove1 t (map fst ws)"
  by (induction t ws rule: remove_waiter.induct) auto

lemma map_fst_set_awaken [simp]: "map fst (set_awaken t ws) = map fst ws"
  by (induction t ws rule: set_awaken.induct) auto

lemma exec_wait_loop_ok:
  assumes inv: "kinv T Hd k" and c: "cur_code k = Wait_loop cv m # c"
  shows "\<exists>k'. exec (Wait_loop cv m) (pop_code k) = Some k' \<and> kinv T Hd k'"
proof -
  note base = kinvD(1) [OF inv] and run = kinvD(2) [OF inv]
  have ok: "cur_level k = 1" "intr k" "m \<notin> Hd (current k)" "list_all is_user c"
    "ok_code c 0 True (insert m (Hd (current k)))"
    using kinvD(3) [OF inv] c by auto
  have ni: "current k \<noteq> idle k" by (rule cur_not_idle [OF base c]) auto
  have pc: "pop_code k = set_cur 1 c True k" using ok by (simp add: pop_code_eq [OF c])
  show ?thesis
  proof (cases "(current k, True) \<in> set (condvars k cv)")
    case False
    have "base_inv T Hd (set_cur 1 (Wait_loop cv m # c) True k)"
      by (rule base_set_cur [OF base run]) (use ni c in auto)
    then obtain k' where "thread_sleep (set_cur 1 (Wait_loop cv m # c) True k) = Some k'" "kinv T Hd k'"
      by (rule thread_sleep_kinv) (use run ok ni in auto)
    then show ?thesis using False by (simp add: condvar_wait_loop_def pc thread_self_eq)
  next
    case True
    have mok: "mutexes_ok T Hd k" and cok: "condvars_ok T k" using base by (simp_all add: base_inv_def)
    let ?ws = "remove_waiter (current k) (condvars k cv)"
    let ?k = "set_cur 1 (Mutex_lock m # c) True (k\<lparr>mutexes := mutexes k, condvars := (condvars k)(cv := ?ws)\<rparr>)"
    have d: "distinct (map fst (condvars k cv))" using cok by (simp add: condvars_ok_def)
    then have ws: "distinct (map fst ?ws)" "fst ` set ?ws = fst ` set (condvars k cv) - {current k}"
      using set_remove1_eq [OF d, of "current k"] by (simp_all add: map_fst_remove_waiter flip: set_map)
    have nc: "current k \<notin> fst ` set (condvars k cv')" if "cv' \<noteq> cv" for cv'
      using not_cv_waiting [OF base, of cv' "current k"] c that user_code_no_loop(2) [OF ok(4)] by (auto simp: cur_code_def)
    have nm: "current k \<notin> set (waiters (mutexes k m'))" for m'
      using not_waiting [OF base, of "current k"] c user_code_no_loop(1) [OF ok(4)] by (auto simp: cur_code_def)
    have "mutexes_ok T Hd ?k" by (rule mutexes_ok_same [OF mok refl]) (use nm in blast)
    moreover have "condvars_ok T ?k"
      by (rule condvars_ok_upd [OF cok refl ws(1)]) (use ws(2) nc in \<open>auto split: if_splits\<close>)
    ultimately have "base_inv T Hd ?k" by (intro base_sync [OF base run refl]) (use ni in auto)
    then obtain k' where "thread_preempt_enable ?k = Some k'" "kinv T Hd k'"
      by (rule preempt_enable_kinv) (use run ok in auto)
    then show ?thesis using True by (simp add: condvar_wait_loop_def pc thread_self_eq Let_def)
  qed
qed

text \<open>Waking up waiters: the state stays that of the current thread, at its preemption level.\<close>

lemma kinv_awaken:
  assumes inv: "kinv T Hd k" and ws: "map fst ws = map fst (condvars k cv)"
  shows "kinv T Hd (upd_condvar cv ws k)"
proof -
  have "fst ` set ws = fst ` set (condvars k cv)" using ws by (metis set_map)
  then have "condvars_ok T (upd_condvar cv ws k)"
    using inv ws unfolding kinv_def base_inv_def condvars_ok_def upd_condvar_def by (simp del: ball_simps)
  moreover have "runq_inv T (upd_condvar cv ws k) \<longleftrightarrow> runq_inv T k"
    by (rule runq_inv_cong) (simp_all add: upd_condvar_def)
  ultimately show ?thesis
    using inv by (simp add: kinv_def base_inv_def mutexes_ok_def thread_ok_def upd_condvar_def
        cur_code_def cur_level_def)
qed

lemma waiter_wakeup_ok:
  assumes inv: "kinv T Hd k" and l: "0 < cur_level k" and t: "t \<in> fst ` set (condvars k cv)" "t \<noteq> current k"
  obtains k' where "condvar_waiter_wakeup cv (t, False) k = Some (True, k')" and "kinv T Hd k'"
    and "current k' = current k" and "cur_level k' = cur_level k"
    and "condvars k' = (condvars k)(cv := set_awaken t (condvars k cv))"
    and "thread_is_running k' t" and "mutexes k' = mutexes k" and "cur_code k' = cur_code k"
proof -
  note base = kinvD(1) [OF inv]
  note alive = waiter_alive [OF base t(2) disjI2, OF t(1)]
  have "cur_level k \<le> 2" by (rule ok_code_level [OF kinvD(3) [OF inv]])
  then have less: "cur_level k < 2 ^ 32 - 1" by simp
  obtain k1 where k1: "thread_wakeup t k = Some k1" "woken k k1" "base_inv T Hd k1"
    "t \<noteq> current k \<longrightarrow> thread_is_running k1 t"
    by (rule wakeup_ok [OF base l less alive])
  let ?k' = "upd_condvar cv (set_awaken t (condvars k1 cv)) k1"
  have "kinv T Hd k1" by (rule kinv_woken [OF inv k1(2,3)])
  then have "kinv T Hd ?k'" by (rule kinv_awaken) simp
  moreover have "condvar_waiter_wakeup cv (t, False) k = Some (True, ?k')"
    using k1(1) by (simp add: condvar_waiter_wakeup_def condvar_waiter_awaken_def)
  ultimately show ?thesis using that k1(2,4) t(2)
    by (simp add: woken_def upd_condvar_def cur_level_def cur_code_def thread_is_running_def)
qed

lemma signal_loop_ok:
  assumes "kinv T Hd k" and "0 < cur_level k"
    and "fst ` set ws \<subseteq> fst ` set (condvars k cv)" "current k \<notin> fst ` set ws"
  shows "\<exists>k'. condvar_signal_loop cv ws k = Some k' \<and> kinv T Hd k'"
  using assms
proof (induction ws)
  case (Cons w ws)
  obtain t awaken where w: "w = (t, awaken)" by force
  show ?case
  proof (cases awaken)
    case True
    then show ?thesis using Cons by (simp add: w condvar_waiter_wakeup_def condvar_waiter_awaken_def)
  next
    case False
    obtain k' where "condvar_waiter_wakeup cv (t, False) k = Some (True, k')" "kinv T Hd k'" "current k' = current k"
      "cur_level k' = cur_level k" "condvars k' = (condvars k)(cv := set_awaken t (condvars k cv))"
      "thread_is_running k' t" "mutexes k' = mutexes k" "cur_code k' = cur_code k"
      by (rule waiter_wakeup_ok [OF \<open>kinv T Hd k\<close> \<open>0 < cur_level k\<close>, of t cv])
        (use Cons.prems w in auto)
    then show ?thesis using False w by simp
  qed
qed simp

lemma broadcast_loop_ok:
  assumes "kinv T Hd k" and "0 < cur_level k"
    and "fst ` set ws \<subseteq> fst ` set (condvars k cv)" "current k \<notin> fst ` set ws"
  shows "\<exists>k'. condvar_broadcast_loop cv ws k = Some k' \<and> kinv T Hd k'"
  using assms
proof (induction ws arbitrary: k)
  case (Cons w ws)
  obtain t awaken where w: "w = (t, awaken)" by force
  show ?case
  proof (cases awaken)
    case True
    then show ?thesis using Cons by (simp add: w condvar_waiter_wakeup_def condvar_waiter_awaken_def)
  next
    case False
    obtain k1 where k1: "condvar_waiter_wakeup cv (t, False) k = Some (True, k1)" "kinv T Hd k1" "current k1 = current k"
      "cur_level k1 = cur_level k" "condvars k1 = (condvars k)(cv := set_awaken t (condvars k cv))"
      "thread_is_running k1 t" "mutexes k1 = mutexes k" "cur_code k1 = cur_code k"
      by (rule waiter_wakeup_ok [OF \<open>kinv T Hd k\<close> \<open>0 < cur_level k\<close>, of t cv]) (use Cons.prems w in auto)
    have "fst ` set (condvars k1 cv) = fst ` set (condvars k cv)"
      using k1(5) by (simp flip: set_map)
    then show ?thesis using Cons.IH [OF k1(2)] Cons.prems k1 False w by auto
  qed
qed simp

lemma exec_signal_ok:
  assumes inv: "kinv T Hd k" and c: "cur_code k = i # c" and i: "i = Condvar_signal cv \<or> i = Condvar_broadcast cv"
  shows "\<exists>k'. exec i (pop_code k) = Some k' \<and> kinv T Hd k'"
proof -
  note base = kinvD(1) [OF inv] and run = kinvD(2) [OF inv]
  have ok: "cur_level k \<le> 1" "intr k" "list_all is_user c" "ok_code c (cur_level k) True (Hd (current k))"
    using kinvD(3) [OF inv] c i by auto
  have nw: "current k \<notin> fst ` set (condvars k cv)"
    by (rule user_not_waiting(2) [OF base c ok(3)]) (use i in auto)
  let ?k = "set_cur (cur_level k + 1) (Preempt_enable # c) True k"
  have "base_inv T Hd ?k"
    by (rule base_pop [OF base run c]) (use i cur_not_idle [OF base c] in auto)
  then have inv': "kinv T Hd ?k" by (rule kinv_set_cur) (use run ok in auto)
  have l: "0 < cur_level ?k" using ok(1) by simp
  show ?thesis
    using i signal_loop_ok [OF inv' l, of "condvars k cv" cv] broadcast_loop_ok [OF inv' l, of "condvars k cv" cv] nw ok
    by (auto simp: condvar_signal_def condvar_broadcast_def pop_code_eq [OF c] preempt_disable_set_cur)
qed

section \<open>The other instructions\<close>

lemma exec_exit_ok:
  assumes inv: "kinv T Hd k" and c: "cur_code k = Thread_exit # c"
  shows "\<exists>k'. exec Thread_exit (pop_code k) = Some k' \<and> kinv T Hd k'"
proof -
  note base = kinvD(1) [OF inv] and run = kinvD(2) [OF inv]
  have ok: "cur_level k = 0" "intr k" "c = []" using kinvD(3) [OF inv] c by auto
  have ni: "current k \<noteq> idle k" by (rule cur_not_idle [OF base c]) auto
  have j: "joiner (threads k (current k)) = 0" using base kinvD(5) [OF inv] by (simp add: base_inv_def)
  let ?k = "upd_thread (current k) (\<lambda>t. t\<lparr>preempt_level := 1, tstate := THREAD_STATE_DEAD, code := [Dead_walking]\<rparr>)
    (k\<lparr>intr := False\<rparr>)"
  have "pop_code k = set_cur 0 [] True k" using ok by (simp add: pop_code_eq [OF c])
  then have e: "thread_exit (pop_code k) = thread_runq_schedule ?k"
    using run preempt_disable_set_cur [of 0 "[]" True k] j
    by (simp add: thread_exit_def thread_preempt_enabled_def thread_self_eq thread_lock_scheduler_def)
      (simp add: set_cur_def upd_thread_def thread_is_running_def thread_set_dead_def push_def thread_wakeup_def Let_def)
  have "base_inv T Hd ?k"
    by (rule base_inv_current [OF base]) (use ni c ok in \<open>auto simp: upd_thread_def cur_code_def\<close>)
  moreover have "thread_ok Hd ?k (current ?k)" by (simp add: thread_ok_def upd_thread_def thread_is_dead_def)
  moreover have "\<not> intr ?k" by (simp add: upd_thread_def)
  ultimately obtain k' where "thread_runq_schedule ?k = Some k'" "kinv T Hd k'"
    using schedule_kinv by metis
  then show ?thesis using e by simp
qed

lemma exec_simple_ok:
  assumes inv: "kinv T Hd k" and c: "cur_code k = i # c"
    and i: "i = Preempt_disable \<or> i = Iret \<or> i = Cpu_idle \<or> (\<exists>f. i = Sleep_done f)"
  shows "\<exists>k'. exec i (pop_code k) = Some k' \<and> kinv T Hd k'"
proof -
  note base = kinvD(1) [OF inv] and run = kinvD(2) [OF inv] and ok = kinvD(3) [OF inv]
  have pc: "pop_code k = set_cur (cur_level k) c (intr k) k" by (rule pop_code_eq [OF c])
  have keep: "kinv T Hd (set_cur l c j k)" if "i \<noteq> Cpu_idle" "ok_code c l j (Hd (current k))" for l j
    by (rule kinv_set_cur [OF base_pop [OF base run c] run])
      (use i that idle_pop [OF base c] in auto)
  have idl: "kinv T Hd (set_cur (cur_level k) (cur_code k) (intr k) k)"
    by (rule kinv_set_cur [OF base_set_cur [OF base run] run]) (use base ok in \<open>auto simp: base_inv_def cur_code_def\<close>)
  from i show ?thesis
  proof (elim disjE exE)
    assume "i = Preempt_disable"
    then show ?thesis using ok c keep [of 1 True] by (simp add: pc preempt_disable_set_cur)
  next
    assume "i = Iret"
    then show ?thesis using ok c keep [of "cur_level k" True] by (simp add: pc)
  next
    assume "i = Cpu_idle"
    then show ?thesis using idl c by (simp add: pc)
  next
    fix f assume "i = Sleep_done f"
    then show ?thesis using ok c keep [of 1 f] run
      by (simp add: pc thread_sleep_done_def thread_self_eq)
  qed
qed

lemma exec_enable_ok:
  assumes inv: "kinv T Hd k" and c: "cur_code k = i # c"
    and i: "i = Preempt_enable \<or> i = Thread_main \<or> (\<exists>f y. i = Unlock_scheduler f y)"
  shows "\<exists>k'. exec i (pop_code k) = Some k' \<and> kinv T Hd k'"
proof -
  note base = kinvD(1) [OF inv] and run = kinvD(2) [OF inv] and ok = kinvD(3) [OF inv]
  have pc: "pop_code k = set_cur (cur_level k) c (intr k) k" by (rule pop_code_eq [OF c])
  have base': "base_inv T Hd (set_cur l c j k)" for l j
    by (rule base_pop [OF base run c]) (use i idle_pop [OF base c] in auto)
  have lv: "cur_level k < 2 ^ 32" using ok_code_level [OF ok] by simp
  have en: "\<exists>k'. thread_preempt_enable (set_cur (cur_level k) c j k) = Some k' \<and> kinv T Hd k'"
    if pos: "0 < cur_level k" and ok': "ok_code c (cur_level k - 1) j (Hd (current k))" for j
  proof -
    obtain k' where "thread_preempt_enable (set_cur (cur_level k) c j k) = Some k'" "kinv T Hd k'"
      by (rule preempt_enable_kinv [OF base']) (use pos ok' run lv in auto)
    then show ?thesis by blast
  qed
  from i show ?thesis
  proof (elim disjE exE)
    assume "i = Preempt_enable"
    then show ?thesis using ok c en [of "intr k"] by (auto simp: pc)
  next
    assume "i = Thread_main"
    then show ?thesis using ok c en [of True]
      by (simp add: pc thread_main_def thread_scheduler_locked_def cpu_intr_enabled_def
          thread_preempt_enabled_def thread_self_eq level_set_cur)
  next
    fix f y assume i: "i = Unlock_scheduler f y"
    then have l: "cur_level k = 1" "ok_code c 0 f (Hd (current k))" using ok c by auto
    have "thread_preempt_enable_no_yield (set_cur 1 c f k) = Some (set_cur 0 c f k)"
      using preempt_enable_no_yield_eq [of "set_cur 1 c f k"]
      by (auto simp: set_cur_def upd_thread_def cur_level_def fun_eq_iff intro!: kernel.equality thread.equality)
    moreover have "kinv T Hd (set_cur 0 c f k)" by (rule kinv_set_cur [OF base' run l(2)])
    ultimately show ?thesis using en [of f] l i by (simp add: pc thread_unlock_scheduler_def Let_def)
  qed
qed

section \<open>Steps\<close>

theorem exec_ok:
  assumes inv: "kinv T Hd k"
  shows "\<exists>k' Hd'. run_current k = Some k' \<and> kinv T Hd' k'"
proof -
  have ok: "ok_code (cur_code k) (cur_level k) (intr k) (Hd (current k))" by (rule kinvD(3) [OF inv])
  then obtain i c where c: "cur_code k = i # c" by (cases "cur_code k") auto
  have "\<exists>k' Hd'. exec i (pop_code k) = Some k' \<and> kinv T Hd' k'"
    using ok c exec_lock_ok [OF inv] exec_unlock_ok [OF inv] exec_wait_ok [OF inv] exec_lock_loop_ok [OF inv]
      exec_signal_ok [OF inv c] exec_wait_loop_ok [OF inv] exec_wait_unlocked_ok [OF inv]
      exec_yield_ok [OF inv] exec_sleep_ok [OF inv] exec_exit_ok [OF inv] exec_simple_ok [OF inv c]
      exec_enable_ok [OF inv c]
    by (cases i) (simp_all, metis+)
  then show ?thesis using c by (simp add: run_current_def cur_code_def)
qed

text \<open>The state in which \<^verbatim>\<open>cpu_intr_main\<close> calls a handler, and the return from it.\<close>

definition intr_entry :: "kernel \<Rightarrow> kernel" where
  "intr_entry k = set_cur (cur_level k + 1) (Iret # cur_code k) False k"

lemma intr_entry_ok:
  assumes inv: "kinv T Hd k"
  shows "thread_preempt_disable (push [Iret] (k\<lparr>intr := False\<rparr>)) = Some (intr_entry k)"
    and "base_inv T Hd (intr_entry k)" and "cur_level (intr_entry k) = cur_level k + 1"
    and "cur_level (intr_entry k) < 2 ^ 32 - 1" and "\<not> intr (intr_entry k)"
proof -
  have lv: "cur_level k \<le> 2" by (rule ok_code_level [OF kinvD(3) [OF inv]])
  have "push [Iret] (k\<lparr>intr := False\<rparr>) = set_cur (cur_level k) (Iret # cur_code k) False k"
    by (simp add: push_def set_cur_def upd_thread_def cur_code_def cur_level_def)
  then show "thread_preempt_disable (push [Iret] (k\<lparr>intr := False\<rparr>)) = Some (intr_entry k)"
    using lv by (simp add: preempt_disable_set_cur intr_entry_def)
  show "base_inv T Hd (intr_entry k)" unfolding intr_entry_def
    by (rule base_set_cur [OF kinvD(1,2) [OF inv]]) (use kinvD(1) [OF inv] in \<open>auto simp: base_inv_def cur_code_def\<close>)
  show "cur_level (intr_entry k) = cur_level k + 1" "cur_level (intr_entry k) < 2 ^ 32 - 1" "\<not> intr (intr_entry k)"
    using lv by (simp_all add: intr_entry_def)
qed

lemma intr_return_ok:
  assumes inv: "kinv T Hd k" and on: "intr k" and w: "woken (intr_entry k) k1" and base: "base_inv T Hd k1"
  shows "\<exists>k'. thread_preempt_enable k1 = Some k' \<and> kinv T Hd k'"
proof -
  have lv: "cur_level k \<le> 2" by (rule ok_code_level [OF kinvD(3) [OF inv]])
  have ok: "ok_code (Iret # cur_code k) (cur_level k) False (Hd (current k))"
    using kinvD(3) [OF inv] on lv by simp
  have e: "current k1 = current k" "cur_level k1 = cur_level k + 1" "cur_code k1 = Iret # cur_code k"
    "\<not> intr k1" "thread_is_running k1 (current k)"
    using w lv kinvD(2) [OF inv] set_cur_simps(6,9) [of "cur_level k + 1" "Iret # cur_code k" False k]
    by (auto simp: woken_def cur_code_def cur_level_def intr_entry_def)
  obtain k' where "thread_preempt_enable k1 = Some k'" "kinv T Hd k'"
    by (rule preempt_enable_kinv [OF base]) (use e ok in auto)
  then show ?thesis by blast
qed

text \<open>
  The contract of an interrupt handler: called with preemption disabled, it returns, and does to
  the state no more than waking up threads does.
\<close>

locale irq_handler =
  fixes T :: "tid set" and h :: "kernel \<Rightarrow> kernel option"
  assumes handler: "base_inv T Hd k \<Longrightarrow> 0 < cur_level k \<Longrightarrow> cur_level k < 2 ^ 32 - 1 \<Longrightarrow>
    \<exists>k'. h k = Some k' \<and> woken k k' \<and> base_inv T Hd k'"
begin

lemma intr_ok:
  assumes inv: "kinv T Hd k" and on: "intr k"
  shows "\<exists>k'. cpu_intr_main h k = Some k' \<and> kinv T Hd k'"
proof -
  note en = intr_entry_ok [OF inv]
  have off: "\<not> cpu_intr_enabled (push [Iret] (k\<lparr>intr := False\<rparr>))"
    by (simp add: cpu_intr_enabled_def push_def upd_thread_def)
  obtain k1 where "h (intr_entry k) = Some k1" "woken (intr_entry k) k1" "base_inv T Hd k1"
    using handler [OF en(2) _ en(4)] en(3) by auto
  then show ?thesis using intr_return_ok [OF inv on] en(1) off by (auto simp: cpu_intr_main_def)
qed

end

text \<open>The tick of src/i8254.c's handler, as far as the thread module is concerned.\<close>

definition tick :: "kernel \<Rightarrow> kernel option" where
  "tick k = Some (thread_report_tick k)"

interpretation tick_irq: irq_handler T tick for T
proof
  fix Hd k
  assume base: "base_inv T Hd k"
  have w: "woken k (thread_report_tick k)"
    by (simp add: woken_def thread_report_tick_def thread_set_yield_def upd_thread_def thread_self_eq
        thread_is_dead_def thread_is_running_def)
  moreover have "runq_inv T (thread_report_tick k) \<longleftrightarrow> runq_inv T k"
    by (rule runq_inv_cong) (simp_all add: thread_report_tick_def thread_set_yield_def upd_thread_def thread_self_eq)
  then have "base_inv T Hd (thread_report_tick k)"
    using base_inv_woken [OF base w] base by (simp add: base_inv_def)
  ultimately show "\<exists>k'. tick k = Some k' \<and> woken k k' \<and> base_inv T Hd k'" by (simp add: tick_def)
qed

lemma kstep_ok:
  assumes "kstep {tick} k k'" and "kinv T Hd k"
  shows "\<exists>Hd'. kinv T Hd' k'"
  using assms(1)
proof cases
  case step_run
  then show ?thesis using exec_ok [OF assms(2)] by auto
next
  case (step_intr h)
  then show ?thesis using tick_irq.intr_ok [OF assms(2)] by auto
qed

lemma no_panic:
  assumes "kinv T Hd k"
  shows "\<not> kpanic {tick} k"
  using exec_ok [OF assms] tick_irq.intr_ok [OF assms] by (auto simp: kpanic_def)

end
