(* ===== verification/Sync_Boot.thy ===== *)
theory Sync_Boot
  imports Sync_Step
begin

text \<open>
  Start-up establishes the invariant of theory Sync_Correct: \<open>boot_inv\<close> holds while the dummy
  thread creates the others, and enabling the scheduler turns it into \<open>kinv\<close>.
\<close>

text \<open>The programs with which a thread may be created.\<close>

definition program_ok :: "instr list \<Rightarrow> bool" where
  "program_ok fn \<longleftrightarrow> list_all is_user fn \<and> ok_code (fn @ [Thread_exit]) 0 True {}"

definition boot_inv :: "tid \<Rightarrow> tid set \<Rightarrow> kernel \<Rightarrow> bool" where
  "boot_inv dummy T k \<longleftrightarrow>
     finite T \<and> 0 \<notin> T \<and> dummy \<notin> T \<and> current k = dummy \<and> idle k \<in> T \<and> dummy \<noteq> 0 \<and>
     \<not> intr k \<and> preempt_level (threads k dummy) = 1 \<and>
     unat (nr_threads k) = total_len (lists k) \<and> all_queued T k (lists k) \<and>
     card T = total_len (lists k) + 1 \<and> card T < 2 ^ 32 \<and>
     (\<forall>t \<in> T. thread_is_running k t \<and> unat (thread_get_priority k t) < 20 \<and> \<not> saved_intr (threads k t) \<and>
        joiner (threads k t) = 0 \<and> thread_ok (\<lambda>_. {}) k t) \<and>
     idle_code (code (threads k (idle k))) \<and>
     (\<forall>m. \<not> locked (mutexes k m) \<and> owner (mutexes k m) = None \<and> waiters (mutexes k m) = []) \<and>
     (\<forall>c. condvars k c = [])"

lemma ok_new: "program_ok fn \<Longrightarrow> ok_code (Thread_main # fn @ [Thread_exit]) 1 False {}"
  by (simp add: program_ok_def)

lemma preempt_level_2: "(1::u32) + 1 \<noteq> 0"
  by simp

text \<open>The state after the creation of a thread.\<close>

definition created :: "tid \<Rightarrow> instr list \<Rightarrow> u32 \<Rightarrow> kernel \<Rightarrow> kernel" where
  "created t fn prio k =
     (let k = thread_init t fn prio k;
          k = k\<lparr>lists := (lists k)[unat prio := lists k ! unat prio @ [t]], nr_threads := nr_threads k + 1\<rparr>
      in if priority (threads k (current k)) < prio then thread_set_yield (current k) k else k)"

lemma thread_create_eq:
  assumes inv: "boot_inv dummy T k" and t: "t \<notin> T" "t \<noteq> dummy" "t \<noteq> 0" "stack \<noteq> 0"
    and prio: "unat prio < 20" and card: "card T < 2 ^ 32 - 1"
  shows "thread_create t stack fn prio k = Some (None, created t fn prio k)"
proof -
  have cur: "current k = dummy" "\<not> intr k" "preempt_level (threads k dummy) = 1"
    using inv by (simp_all add: boot_inv_def)
  have nr: "unat (nr_threads k) < 2 ^ 32 - 1" using inv card by (simp add: boot_inv_def)
  then have nr1: "nr_threads k + 1 \<noteq> 0" using unat_level_succ [OF nr] by (metis add_eq_0_iff_both_eq_0 unat_0 one_neq_zero)
  have intr_id: "k\<lparr>intr := False\<rparr> = k" using cur(2) by (intro kernel.equality) auto
  show ?thesis
    using t cur prio nr1
    by (simp add: thread_create_def thread_lock_scheduler_def thread_preempt_disable_def thread_self_eq
        thread_init_def upd_thread_def cpu_intr_save_def thread_runq_add_def thread_scheduler_locked_def
        cpu_intr_enabled_def thread_preempt_enabled_def thread_is_running_def thread_get_priority_def
        thread_runq_get_list_def THREAD_NR_PRIORITIES_def thread_list_enqueue_def
        thread_unlock_scheduler_def cpu_intr_restore_def thread_preempt_enable_def
        thread_preempt_enable_no_yield_def thread_yield_if_needed_def thread_should_yield_def
        thread_yield_def created_def thread_set_yield_def Let_def fun_upd_twist)
      (auto simp: fun_eq_iff intro!: kernel.equality thread.equality)
qed

lemma boot_inv_created:
  assumes inv: "boot_inv dummy T k" and t: "t \<notin> T" "t \<noteq> dummy" "t \<noteq> 0"
    and prio: "unat prio < 20" and card: "card T < 2 ^ 32 - 1" and fn: "program_ok fn"
  shows "boot_inv dummy (insert t T) (created t fn prio k)"
proof -
  let ?k = "created t fn prio k"
  note I = inv [unfolded boot_inv_def]
  have ti: "t \<noteq> idle k" using t I by auto
  have other: "tstate (threads ?k u) = tstate (threads k u)" "priority (threads ?k u) = priority (threads k u)"
    "saved_intr (threads ?k u) = saved_intr (threads k u)" "joiner (threads ?k u) = joiner (threads k u)"
    "code (threads ?k u) = code (threads k u)" "preempt_level (threads ?k u) = preempt_level (threads k u)"
    if "u \<noteq> t" for u
    using that by (simp_all add: created_def thread_init_def upd_thread_def thread_set_yield_def Let_def)
  have new: "tstate (threads ?k t) = THREAD_STATE_RUNNING" "priority (threads ?k t) = prio"
    "\<not> saved_intr (threads ?k t)" "joiner (threads ?k t) = 0" "preempt_level (threads ?k t) = 1"
    "code (threads ?k t) = Thread_main # fn @ [Thread_exit]"
    using t I by (auto simp: created_def thread_init_def upd_thread_def thread_set_yield_def Let_def)
  have k: "current ?k = current k" "idle ?k = idle k" "intr ?k = intr k" "mutexes ?k = mutexes k"
    "condvars ?k = condvars k" "lists ?k = (lists k)[unat prio := lists k ! unat prio @ [t]]"
    "nr_threads ?k = nr_threads k + 1"
    by (simp_all add: created_def thread_init_def upd_thread_def thread_set_yield_def Let_def)
  have len: "length (lists k) = 20" using I by (simp add: all_queued_def)
  have tot: "total_len (lists ?k) = total_len (lists k) + 1"
    using total_update [of "unat prio" "lists k" "lists k ! unat prio @ [t]"] len prio by (simp add: k)
  have nr: "unat (nr_threads k + 1) = unat (nr_threads k) + 1"
    by (rule unat_level_succ) (use I card in simp)
  have "thread_is_running ?k u \<longleftrightarrow> u = t \<or> thread_is_running k u" for u
    using other(1) [of u] new(1) by (cases "u = t") (auto simp: thread_is_running_def)
  then have run: "runnable ?k (insert t T) = insert t (runnable k T)"
    using ti by (auto simp: runnable_def k)
  have prios: "priority (threads ?k u) = (if u = t then prio else priority (threads k u))" for u
    using other(2) new(2) by simp
  have q: "all_queued (insert t T) ?k (lists ?k)" unfolding all_queued_def
  proof (intro conjI allI impI)
    show "length (lists ?k) = 20" using len by (simp add: k)
    fix i :: nat
    assume i: "i < 20"
    have old: "distinct (lists k ! i)" "set (lists k ! i) = {u \<in> runnable k T. unat (thread_get_priority k u) = i}"
      using I i by (simp_all add: all_queued_def)
    have nt: "t \<notin> set (lists k ! i)" using old(2) t(1) by (simp add: runnable_def)
    have pr: "{u \<in> insert t (runnable k T). unat (thread_get_priority ?k u) = i} =
        (if i = unat prio then insert t (set (lists k ! i)) else set (lists k ! i))"
      using t(1) unfolding old(2) by (auto simp: thread_get_priority_def runnable_def prios)
    show "distinct (lists ?k ! i)" using old(1) nt len i by (cases "i = unat prio") (auto simp: k)
    show "set (lists ?k ! i) = {u \<in> runnable ?k (insert t T). unat (thread_get_priority ?k u) = i}"
      unfolding run pr using len i by (cases "i = unat prio") (auto simp: k)
  qed
  have th: "thread_is_running ?k u \<and> unat (thread_get_priority ?k u) < 20 \<and> \<not> saved_intr (threads ?k u) \<and>
      joiner (threads ?k u) = 0 \<and> thread_ok (\<lambda>_. {}) ?k u" if "u \<in> insert t T" for u
  proof (cases "u = t")
    case True
    then show ?thesis using new prio ok_new [OF fn]
      by (simp add: thread_is_running_def thread_get_priority_def thread_ok_def thread_is_dead_def del: ok_code.simps)
  next
    case False
    then show ?thesis using other [OF False] I that
      by (simp add: thread_is_running_def thread_get_priority_def thread_ok_def thread_is_dead_def)
  qed
  have d: "preempt_level (threads ?k dummy) = 1" "idle_code (code (threads ?k (idle ?k)))"
    using other [of dummy] other [of "idle k"] t(2) ti I by (simp_all add: k)
  show ?thesis
    unfolding boot_inv_def using I t q th d tot nr card by (simp add: k)
qed

lemma create_threads_ok:
  assumes "boot_inv dummy T k" and "distinct (map fst ps)" and "fst ` set ps \<inter> (T \<union> {dummy, 0}) = {}"
    and "\<forall>(t, stack, fn, prio) \<in> set ps. stack \<noteq> 0 \<and> program_ok fn \<and> unat prio < 20"
    and "card T + length ps < 2 ^ 32"
  shows "\<exists>k'. create_threads ps k = Some k' \<and> boot_inv dummy (T \<union> fst ` set ps) k'"
  using assms
proof (induction ps arbitrary: T k)
  case (Cons p ps)
  obtain t stack fn prio where p: "p = (t, stack, fn, prio)" by (metis prod_cases4)
  have t: "t \<notin> T" "t \<noteq> dummy" "t \<noteq> 0" "stack \<noteq> 0" and fn: "program_ok fn" and pr: "unat prio < 20"
    using Cons.prems p by auto
  have card: "card T < 2 ^ 32 - 1" using Cons.prems(5) by simp
  have fin: "finite T" using Cons.prems(1) by (simp add: boot_inv_def)
  have e: "thread_create t stack fn prio k = Some (None, created t fn prio k)"
    by (rule thread_create_eq [OF Cons.prems(1) t pr card])
  have "\<exists>k'. create_threads ps (created t fn prio k) = Some k' \<and> boot_inv dummy (insert t T \<union> fst ` set ps) k'"
    by (rule Cons.IH [OF boot_inv_created [OF Cons.prems(1) t(1-3) pr card fn]])
      (use Cons.prems p fin t(1) in auto)
  then show ?case using e p by (simp add: Un_commute)
qed simp

lemma boot_inv_setup:
  assumes "idl \<noteq> 0" "stack \<noteq> 0" "dummy \<noteq> 0" "idl \<noteq> dummy" "\<not> intr k"
    and free: "\<forall>m. \<not> locked (mutexes k m) \<and> owner (mutexes k m) = None \<and> waiters (mutexes k m) = []"
      "\<forall>c. condvars k c = []"
  shows "\<exists>k'. thread_setup idl stack (thread_bootstrap dummy k) = Some k' \<and> boot_inv dummy {idl} k'"
proof -
  let ?k = "(thread_init idl [Cpu_idle] 0 ((thread_bootstrap dummy k)
      \<lparr>nr_threads := 0, lists := replicate THREAD_NR_PRIORITIES []\<rparr>))\<lparr>idle := idl\<rparr>"
  have k: "lists ?k = replicate 20 []" "nr_threads ?k = 0" "idle ?k = idl" "current ?k = dummy" "intr ?k = intr k"
    "mutexes ?k = mutexes k" "condvars ?k = condvars k"
    by (simp_all add: thread_init_def thread_bootstrap_def thread_runq_preinit_def upd_thread_def THREAD_NR_PRIORITIES_def)
  have th: "tstate (threads ?k idl) = THREAD_STATE_RUNNING" "priority (threads ?k idl) = 0"
    "\<not> saved_intr (threads ?k idl)" "joiner (threads ?k idl) = 0" "preempt_level (threads ?k idl) = 1"
    "code (threads ?k idl) = [Thread_main, Cpu_idle, Thread_exit]" "preempt_level (threads ?k dummy) = 1"
    using assms(4) by (simp_all add: thread_init_def thread_bootstrap_def thread_runq_preinit_def upd_thread_def)
  have ok: "thread_ok (\<lambda>_. {}) ?k idl" unfolding thread_ok_def thread_is_dead_def th(1,5,6) by simp
  have "runnable ?k {idl} = {}" unfolding runnable_def k(3) by auto
  then have q: "all_queued {idl} ?k (lists ?k)" unfolding all_queued_def k(1) by simp
  have "total_len (replicate 20 [] :: tid list list) = 0" by (simp add: total_0)
  then have "boot_inv dummy {idl} ?k"
    unfolding boot_inv_def using assms(1-5) free q ok th
    unfolding k thread_is_running_def thread_get_priority_def by simp
  moreover have "thread_setup idl stack (thread_bootstrap dummy k) = Some ?k"
    using assms(1,2) by (simp add: thread_setup_def thread_runq_init_def thread_create_idle_def thread_idle_def
        THREAD_IDLE_PRIORITY_def thread_list_init_def Let_def)
  ultimately show ?thesis by blast
qed

lemma enable_scheduler_ok:
  assumes inv: "boot_inv dummy T k"
  shows "\<exists>k'. thread_enable_scheduler k = Some k' \<and> kinv T (\<lambda>_. {}) k'"
proof -
  note I = inv [unfolded boot_inv_def]
  define n where "n = next_thread (lists k) (idle k)"
  let ?k = "k\<lparr>lists := next_lists (lists k), current := n\<rparr>"
  have "\<forall>t \<in> T. unat (thread_get_priority k t) < 20" using I by blast
  note N = all_queued_next [OF _ _ this, of "lists k", folded n_def]
  have nT: "n \<in> T" and ls: "length (next_lists (lists k)) = 20"
    and q: "\<forall>i < 20. distinct (next_lists (lists k) ! i) \<and> set (next_lists (lists k) ! i) =
      {t \<in> runnable k T. t \<noteq> n \<and> unat (thread_get_priority k t) = i}"
    and tot: "total_len (lists k) = total_len (next_lists (lists k)) + (if n = idle k then 0 else 1)"
    using N I by blast+
  have g: "thread_runq_get_next k = Some (n, ?k)"
    unfolding n_def by (rule thread_runq_get_next_eq) (use I in \<open>auto simp: all_queued_def\<close>)
  have n: "thread_is_running k n" "\<not> saved_intr (threads k n)" "thread_ok (\<lambda>_. {}) k n" "n \<noteq> 0"
    using I nT by auto
  have lvl: "preempt_level (threads k n) = 1" "ok_code (code (threads k n)) 1 False {}"
    using n(1,3) thread_running_not_dead [OF n(1)] by (simp_all add: thread_ok_def)
  have "thread_enable_scheduler k = Some (?k\<lparr>intr := False\<rparr>)"
    using g n(2,4) lvl(1) by (simp add: thread_enable_scheduler_def)
  moreover have "?k\<lparr>intr := False\<rparr> = ?k" using I by (intro kernel.equality) auto
  moreover have "runq_inv T ?k"
  proof -
    have "queued ?k T i = {t \<in> runnable k T. t \<noteq> n \<and> unat (thread_get_priority k t) = i}" for i
      by (auto simp: queued_def runnable_def thread_is_running_def thread_get_priority_def)
    moreover have "thread_is_running k (idle k)" "card T < 2 ^ 32"
      using I by auto
    ultimately show ?thesis
      using I nT q tot ls unfolding runq_inv_def by (simp add: thread_is_running_def thread_get_priority_def)
  qed
  moreover have "mutexes_ok T (\<lambda>_. {}) ?k" "condvars_ok T ?k"
    using I by (simp_all add: mutexes_ok_def mutex_inv_def condvars_ok_def)
  ultimately show ?thesis
    using I n lvl by (auto simp: kinv_def base_inv_def thread_ok_def cur_code_def cur_level_def
        thread_is_running_def thread_is_dead_def)
qed

text \<open>A state of the machine before the kernel starts, for the witnesses.\<close>

definition ex_kernel :: kernel where
  "ex_kernel = \<lparr>current = 0, nr_threads = 0, lists = [], idle = 0,
     threads = (\<lambda>_. \<lparr>tstate = THREAD_STATE_DEAD, yield = False, preempt_level = 0, priority = 0, joiner = 0,
       saved_intr = False, code = []\<rparr>),
     intr = False, mutexes = (\<lambda>_. \<lparr>waiters = [], owner = None, locked = False\<rparr>), condvars = (\<lambda>_. [])\<rparr>"

end
