(* ===== verification/Sync_Props.thy ===== *)
theory Sync_Props
  imports Sync_Boot
begin

text \<open>
  The properties of threads, mutexes and condition variables, for the kernel as it is started by
  \<^const>\<open>main_threads\<close> and run by \<^const>\<open>kstep\<close>, with timer interrupts between any two
  instructions.
\<close>

section \<open>Reachable states\<close>

text \<open>What \<^verbatim>\<open>main\<close> relies on: the boot state and the parameters of the threads.\<close>

definition boot_ok :: "tid \<Rightarrow> tid \<Rightarrow> u32 \<Rightarrow> (tid \<times> u32 \<times> instr list \<times> u32) list \<Rightarrow> kernel \<Rightarrow> bool" where
  "boot_ok dummy idl stack ps k \<longleftrightarrow>
     distinct (dummy # idl # map fst ps) \<and> 0 \<notin> set (dummy # idl # map fst ps) \<and> stack \<noteq> 0 \<and>
     list_all (\<lambda>(t, stack, fn, prio). stack \<noteq> 0 \<and> program_ok fn \<and> unat prio < 20) ps \<and>
     length ps < 2 ^ 32 - 1 \<and> \<not> intr k \<and>
     (\<forall>m. \<not> locked (mutexes k m) \<and> owner (mutexes k m) = None \<and> waiters (mutexes k m) = []) \<and>
     (\<forall>c. condvars k c = [])"

lemma main_threads_ok:
  assumes ok: "boot_ok dummy idl stack ps k"
  shows "\<exists>k0. main_threads dummy idl stack ps k = Some k0 \<and> kinv (insert idl (fst ` set ps)) (\<lambda>_. {}) k0"
proof -
  have "idl \<noteq> 0" "stack \<noteq> 0" "dummy \<noteq> 0" "idl \<noteq> dummy" "\<not> intr k"
    "\<forall>m. \<not> locked (mutexes k m) \<and> owner (mutexes k m) = None \<and> waiters (mutexes k m) = []"
    "\<forall>c. condvars k c = []"
    using ok by (auto simp: boot_ok_def)
  from boot_inv_setup [OF this] obtain k1
    where k1: "thread_setup idl stack (thread_bootstrap dummy k) = Some k1" "boot_inv dummy {idl} k1" by blast
  have "\<exists>k'. create_threads ps k1 = Some k' \<and> boot_inv dummy ({idl} \<union> fst ` set ps) k'"
    by (rule create_threads_ok [OF k1(2)]) (use ok in \<open>auto simp: boot_ok_def list_all_iff\<close>)
  then obtain k2 where k2: "create_threads ps k1 = Some k2" "boot_inv dummy (insert idl (fst ` set ps)) k2"
    by auto
  show ?thesis using enable_scheduler_ok [OF k2(2)] k1 k2 by (simp add: main_threads_def)
qed

lemma kreach_kinv:
  assumes "rtranclp (kstep {tick}) k0 k" and "kinv T Hd k0"
  shows "\<exists>Hd. kinv T Hd k"
  using assms(1)
proof (induction rule: rtranclp_induct)
  case base
  then show ?case using assms(2) by blast
next
  case (step k k')
  then show ?case using kstep_ok by blast
qed

lemma main_reach_kinv:
  assumes "boot_ok dummy idl stack ps k" "main_threads dummy idl stack ps k = Some k0"
    "rtranclp (kstep {tick}) k0 k'"
  shows "\<exists>Hd. kinv (insert idl (fst ` set ps)) Hd k'"
  using main_threads_ok [OF assms(1)] assms(2,3) kreach_kinv by fastforce

section \<open>Critical sections\<close>






text \<open>
  C16: the scheduler.  Called as the code calls it, \<^verbatim>\<open>thread_runq_schedule\<close> returns, keeps the run
  queue's invariant, and the new current thread is runnable and of the highest priority among the
  runnable threads, the idle thread only if there is no other; threads of equal priority run in
  round-robin order (the oldest on the highest non-empty list is taken before the current thread
  runs again).\<close>
theorem thread_runq_schedule_spec:
  assumes inv: "runq_inv T k" and "\<not> intr k" and "preempt_level (threads k (current k)) = 1"
  shows "\<exists>k'. thread_runq_schedule k = Some k' \<and> runq_inv T k' \<and>
    threads k' = threads k \<and> thread_is_running k (current k') \<and>
    (\<forall>t \<in> T. thread_is_running k t \<and> t \<noteq> idle k \<longrightarrow>
       current k' \<noteq> idle k \<and> thread_get_priority k t \<le> thread_get_priority k (current k')) \<and>
    (\<forall>i t ts. i < 20 \<and> lists k ! i = t # ts \<and> (\<forall>j. i < j \<and> j < 20 \<longrightarrow> lists k ! j = []) \<and>
       unat (thread_get_priority k (current k)) \<le> i \<longrightarrow> current k' = t)"
proof -
  let ?n = "next_thread (offered k) (idle k)"
  obtain nr where s: "thread_runq_schedule k =
      Some (k\<lparr>nr_threads := nr, lists := next_lists (offered k), current := ?n\<rparr>)"
    and i': "runq_inv T (k\<lparr>nr_threads := nr, lists := next_lists (offered k), current := ?n\<rparr>)"
    and run: "thread_is_running k ?n"
    by (rule schedule_ok [OF assms])
  have "\<forall>t \<in> T. unat (thread_get_priority k t) < 20" using runq_invD(9) [OF inv] by blast
  note high = all_queued_next(3) [OF all_queued_offered [OF inv] runq_invD(5) [OF inv] this]
  have fifo: "?n = t"
    if i: "i < 20" and t: "lists k ! i = t # ts" and ab: "\<forall>j. i < j \<and> j < 20 \<longrightarrow> lists k ! j = []"
      and p: "unat (thread_get_priority k (current k)) \<le> i" for i t ts
  proof -
    have len: "length (lists k) = 20" by (rule runq_invD(7) [OF inv])
    have oi: "\<exists>us. offered k ! i = t # us"
      using t i len by (cases "i = unat (thread_get_priority k (current k))") (auto simp: offered_def Let_def)
    have oab: "\<forall>j. i < j \<and> j \<le> 19 \<longrightarrow> offered k ! j = []"
      using ab p by (auto simp: offered_def Let_def)
    have ex: "\<exists>i \<le> 19. offered k ! i \<noteq> []" using oi i by (intro exI [of _ i]) auto
    note S = thread_runq_scan_highest [OF ex]
    have "thread_runq_scan (offered k) 19 = i"
    proof (rule linorder_cases)
      assume "thread_runq_scan (offered k) 19 < i"
      then show ?thesis using S oi i by auto
    next
      assume "i < thread_runq_scan (offered k) 19"
      then show ?thesis using S oab by auto
    qed
    moreover have "total_len (offered k) \<noteq> 0"
    proof -
      have "length (offered k) = 20" using len by (simp add: offered_def Let_def)
      then show ?thesis using oi i by (auto simp: total_0 intro!: exI [of _ i])
    qed
    ultimately show ?thesis using oi by (auto simp: next_thread_def)
  qed
  show ?thesis
    by (rule exI, intro conjI, rule s, rule i') (use run high fifo in \<open>auto simp: runnable_def\<close>)
qed

section \<open>What the operations do\<close>

lemma run_current_eq: "cur_code k = i # c \<Longrightarrow> run_current k = exec i (pop_code k)"
  by (simp add: run_current_def cur_code_def)

text \<open>
  C18: releasing a mutex.  \<^verbatim>\<open>mutex_unlock\<close> frees the mutex, keeps the queue of its waiters and makes
  the oldest waiter runnable, so that it will find the mutex; the current thread is not switched
  before it enables preemption again.\<close>
theorem mutex_unlock_wakes:
  assumes inv: "kinv T Hd k" and c: "cur_code k = Mutex_unlock m # c"
  shows "\<exists>k'. run_current k = Some k' \<and> current k' = current k \<and> cur_code k' = Preempt_enable # c \<and>
    condvars k' = condvars k \<and>
    mutexes k' = (mutexes k)(m := (mutexes k m)\<lparr>owner := None, locked := False\<rparr>) \<and>
    (waiters (mutexes k m) \<noteq> [] \<longrightarrow> thread_is_running k' (hd (waiters (mutexes k m))))"
proof -
  note base = kinvD(1) [OF inv] and run = kinvD(2) [OF inv]
  have ok: "cur_level k \<le> 1" "intr k" "m \<in> Hd (current k)" "list_all is_user c"
    "ok_code c (cur_level k) True (Hd (current k) - {m})"
    using kinvD(3) [OF inv] c by auto
  have ni: "current k \<noteq> idle k" by (rule cur_not_idle [OF base c]) auto
  have "pop_code k = set_cur (cur_level k) c True k" using ok(2) by (simp add: pop_code_eq [OF c])
  then show ?thesis
    using unlock_ok [OF base run ni ok(1,3,5)] user_not_waiting [OF base c ok(4)]
    unfolding run_current_eq [OF c] exec.simps by auto
qed

lemma set_awaken_append: "t \<notin> fst ` set ws \<Longrightarrow> set_awaken t (ws @ (t, a) # ws') = ws @ (t, True) # ws'"
  by (induction t ws rule: set_awaken.induct) auto

lemma signal_loop_skip:
  "list_all snd ws \<Longrightarrow> condvar_signal_loop cv (ws @ ws') k = condvar_signal_loop cv ws' k"
  by (induction ws) (auto simp: condvar_waiter_wakeup_def condvar_waiter_awaken_def)

text \<open>
  C19: signalling.  \<^verbatim>\<open>condvar_signal\<close> wakes up the oldest waiter that was not woken up before,
  marks it, and leaves every other waiter as it is.\<close>
theorem condvar_signal_wakes:
  assumes inv: "kinv T Hd k" and c: "cur_code k = Condvar_signal cv # c"
    and ws: "condvars k cv = ws @ (t, False) # ws'" "list_all snd ws"
  shows "\<exists>k'. run_current k = Some k' \<and> current k' = current k \<and> cur_code k' = Preempt_enable # c \<and>
    mutexes k' = mutexes k \<and> condvars k' = (condvars k)(cv := ws @ (t, True) # ws') \<and> thread_is_running k' t"
proof -
  note base = kinvD(1) [OF inv] and run = kinvD(2) [OF inv]
  have ok: "cur_level k \<le> 1" "intr k" "list_all is_user c" "ok_code c (cur_level k) True (Hd (current k))"
    using kinvD(3) [OF inv] c by auto
  have nw: "current k \<notin> fst ` set (condvars k cv)"
    by (rule user_not_waiting(2) [OF base c ok(3)]) auto
  have "distinct (map fst (condvars k cv))" using base by (simp add: base_inv_def condvars_ok_def)
  then have d: "t \<notin> fst ` set ws" by (simp add: ws(1))
  let ?k = "set_cur (cur_level k + 1) (Preempt_enable # c) True k"
  have "base_inv T Hd ?k"
    by (rule base_pop [OF base run c]) (use cur_not_idle [OF base c] in auto)
  then have inv': "kinv T Hd ?k" by (rule kinv_set_cur) (use run ok in auto)
  have l: "0 < cur_level ?k" using ok(1) by simp
  obtain k' where k': "condvar_waiter_wakeup cv (t, False) ?k = Some (True, k')" "kinv T Hd k'" "current k' = current ?k"
    "cur_level k' = cur_level ?k" "condvars k' = (condvars ?k)(cv := set_awaken t (condvars ?k cv))"
    "thread_is_running k' t" "mutexes k' = mutexes ?k" "cur_code k' = cur_code ?k"
    by (rule waiter_wakeup_ok [OF inv' l, of t cv]) (use ws nw in auto)
  then have "run_current k = Some k'"
    using ok ws(1) signal_loop_skip [OF ws(2), of cv "(t, False) # ws'" ?k]
    by (simp add: run_current_eq [OF c] condvar_signal_def pop_code_eq [OF c] preempt_disable_set_cur)
  then show ?thesis using k' ws(1) set_awaken_append [OF d] by simp
qed

text \<open>What a switch leaves unchanged.\<close>

lemma schedule_frame:
  "thread_runq_schedule k = Some k' \<Longrightarrow>
   mutexes k' = mutexes k \<and> condvars k' = condvars k \<and> tstate (threads k' t) = tstate (threads k t)"
  by (auto simp: thread_runq_schedule_def thread_runq_put_prev_def thread_runq_remove_def thread_runq_get_next_def
      thread_list_enqueue_def thread_list_dequeue_def thread_remove_from_list_def thread_switch_context_def
      upd_thread_def Let_def split: if_splits bind_splits list.splits)

lemma preempt_enable_frame:
  "thread_preempt_enable k = Some k' \<Longrightarrow>
   mutexes k' = mutexes k \<and> condvars k' = condvars k \<and> tstate (threads k' t) = tstate (threads k t)"
  by (auto simp: thread_preempt_enable_def thread_preempt_enable_no_yield_def thread_yield_if_needed_def
      thread_yield_def thread_lock_scheduler_def thread_preempt_disable_def cpu_intr_save_def
      thread_clear_yield_def push_def upd_thread_def Let_def
      split: if_splits bind_splits dest!: schedule_frame [where t = t])

lemma sleep_frame:
  "thread_sleep k = Some k' \<Longrightarrow> mutexes k' = mutexes k \<and> condvars k' = condvars k \<and>
   tstate (threads k' (current k)) = THREAD_STATE_SLEEPING"
  by (auto simp: thread_sleep_def cpu_intr_save_def thread_set_sleeping_def thread_self_eq push_def upd_thread_def
      Let_def split: if_splits bind_splits dest!: schedule_frame [where t = "current k"])

text \<open>
  C17: taking a mutex.  \<^verbatim>\<open>mutex_lock\<close> on a free mutex makes the calling thread its owner and the
  thread stays runnable; on a locked one the thread is queued behind the other waiters and sleeps,
  and another thread runs.\<close>
theorem mutex_lock_effect:
  assumes inv: "kinv T Hd k" and c: "cur_code k = Mutex_lock m # c"
  shows "\<exists>k'. run_current k = Some k' \<and> condvars k' = condvars k \<and>
    (if locked (mutexes k m)
     then mutexes k' = (mutexes k)(m := (mutexes k m)\<lparr>waiters := waiters (mutexes k m) @ [current k]\<rparr>) \<and>
       \<not> thread_is_running k' (current k) \<and> current k' \<noteq> current k
     else mutexes k' = (mutexes k)(m := (mutexes k m)\<lparr>owner := Some (current k), locked := True\<rparr>) \<and>
       thread_is_running k' (current k))"
proof -
  note base = kinvD(1) [OF inv] and run = kinvD(2) [OF inv]
  have ok: "cur_level k = 0" "intr k" using kinvD(3) [OF inv] c by auto
  obtain k' Hd' where k': "exec (Mutex_lock m) (pop_code k) = Some k'" "kinv T Hd' k'"
    using exec_lock_ok [OF inv c] by blast
  have pd: "thread_preempt_disable (pop_code k) = Some (set_cur 1 c True k)"
    using preempt_disable_set_cur [of 0 c True k] ok by (simp add: pop_code_eq [OF c])
  have cur: "current (pop_code k) = current k" by (simp add: pop_code_eq [OF c])
  show ?thesis
  proof (cases "locked (mutexes k m)")
    case True
    then have "thread_sleep (set_cur 1 (Lock_loop m # c) True (k\<lparr>mutexes := (mutexes k)
      (m := (mutexes k m)\<lparr>waiters := waiters (mutexes k m) @ [current k]\<rparr>)\<rparr>)) = Some k'"
      using k'(1) pd cur by (simp add: mutex_lock_def thread_self_eq Let_def)
    from sleep_frame [OF this] have "\<not> thread_is_running k' (current k)"
      "mutexes k' = (mutexes k)(m := (mutexes k m)\<lparr>waiters := waiters (mutexes k m) @ [current k]\<rparr>)"
      "condvars k' = condvars k"
      by (simp_all add: thread_is_running_def)
    then show ?thesis
      using True k'(1) kinvD(2) [OF k'(2)] by (auto simp: run_current_eq [OF c])
  next
    case False
    have "owner (mutexes k m) = None"
      using base False by (metis base_inv_def mutexes_ok_def mutex_inv_def)
    then have "thread_preempt_enable (set_cur 1 c True (k\<lparr>mutexes := (mutexes k)
      (m := (mutexes k m)\<lparr>owner := Some (current k), locked := True\<rparr>)\<rparr>)) = Some k'"
      using k'(1) pd False by (simp add: mutex_lock_def mutex_lock_own_def mutex_set_owner_def thread_self_eq)
    from preempt_enable_frame [OF this, of "current k"] run False k'(1) show ?thesis
      by (simp add: run_current_eq [OF c] thread_is_running_def) (simp add: set_cur_def upd_thread_def)
  qed
qed

section \<open>Witnesses\<close>

text \<open>
  A kernel with two threads: one (priority 2) waits on a condition variable inside a critical
  section of a mutex, the other (priority 1) takes the mutex, signals and releases it.
\<close>

definition ex_threads :: "(tid \<times> u32 \<times> instr list \<times> u32) list" where
  "ex_threads =
     [(3, 1, [Mutex_lock 1, Condvar_wait 1 1, Mutex_unlock 1], 2),
      (4, 1, [Mutex_lock 1, Condvar_signal 1, Mutex_unlock 1], 1)]"

fun run_steps :: "nat \<Rightarrow> kernel \<Rightarrow> kernel option" where
  "run_steps 0 k = Some k"
| "run_steps (Suc n) k = Option.bind (run_current k) (run_steps n)"

definition ex_start :: "kernel option" where
  "ex_start = main_threads 1 2 1 ex_threads ex_kernel"

lemma ex_boot_ok: "boot_ok 1 2 1 ex_threads ex_kernel"
  by (simp add: boot_ok_def ex_threads_def ex_kernel_def program_ok_def)

lemma run_steps_reach: "run_steps n k = Some k' \<Longrightarrow> rtranclp (kstep H) k k'"
proof (induction n arbitrary: k)
  case (Suc n)
  then obtain k1 where "run_current k = Some k1" "run_steps n k1 = Some k'" by (auto split: bind_splits)
  then show ?case using Suc.IH step_run by (metis converse_rtranclp_into_rtranclp)
qed simp

definition ex_at :: "nat \<Rightarrow> kernel option" where
  "ex_at n = Option.bind ex_start (run_steps n)"

lemma ex_at_reach:
  assumes "ex_at n = Some k"
  obtains k0 where "main_threads 1 2 1 ex_threads ex_kernel = Some k0" and "rtranclp (kstep {tick}) k0 k"
  using assms run_steps_reach that by (auto simp: ex_at_def ex_start_def split: bind_splits)

lemma ex_at_kinv:
  assumes "ex_at n = Some k"
  obtains Hd where "kinv (insert 2 (fst ` set ex_threads)) Hd k"
proof -
  obtain k0 where "main_threads 1 2 1 ex_threads ex_kernel = Some k0" "rtranclp (kstep {tick}) k0 k"
    by (rule ex_at_reach [OF assms])
  then show ?thesis using main_reach_kinv [OF ex_boot_ok] that by blast
qed



theorem thread_runq_schedule_spec_witness:
  "\<exists>k k'. ex_at 0 = Some k \<and> thread_runq_schedule k = Some k' \<and>
    runq_inv (insert 2 (fst ` set ex_threads)) k' \<and> thread_is_running k (current k')"
proof -
  have "map_option (\<lambda>k. \<not> intr k \<and> preempt_level (threads k (current k)) = 1) (ex_at 0) = Some True" by code_simp
  then obtain k where k: "ex_at 0 = Some k" "\<not> intr k" "preempt_level (threads k (current k)) = 1" by auto
  obtain Hd where "kinv (insert 2 (fst ` set ex_threads)) Hd k" by (rule ex_at_kinv [OF k(1)])
  then have "runq_inv (insert 2 (fst ` set ex_threads)) k" by (rule kinvD)
  from thread_runq_schedule_spec [OF this k(2,3)] k(1) show ?thesis by blast
qed

theorem mutex_lock_effect_witness:
  "\<exists>k k'. ex_at 11 = Some k \<and> run_current k = Some k' \<and> waiters (mutexes k' 1) = [3] \<and> \<not> thread_is_running k' 3"
proof -
  have "map_option (\<lambda>k. (cur_code k, current k, locked (mutexes k 1), waiters (mutexes k 1))) (ex_at 11) =
    Some ([Mutex_lock 1, Mutex_unlock 1, Thread_exit], 3, True, [])" by code_simp
  then obtain k where k: "ex_at 11 = Some k" "cur_code k = [Mutex_lock 1, Mutex_unlock 1, Thread_exit]"
    "current k = 3" "locked (mutexes k 1)" "waiters (mutexes k 1) = []" by auto
  obtain Hd where "kinv (insert 2 (fst ` set ex_threads)) Hd k" by (rule ex_at_kinv [OF k(1)])
  from mutex_lock_effect [OF this k(2)] k show ?thesis by auto
qed

theorem condvar_signal_wakes_witness:
  "\<exists>k k'. ex_at 7 = Some k \<and> run_current k = Some k' \<and> condvars k' 1 = [(3, True)] \<and> thread_is_running k' 3"
proof -
  have "map_option (\<lambda>k. (cur_code k, condvars k 1)) (ex_at 7) =
    Some ([Condvar_signal 1, Mutex_unlock 1, Thread_exit], [(3, False)])" by code_simp
  then obtain k where k: "ex_at 7 = Some k" "cur_code k = [Condvar_signal 1, Mutex_unlock 1, Thread_exit]"
    "condvars k 1 = [] @ (3, False) # []" by auto
  obtain Hd where "kinv (insert 2 (fst ` set ex_threads)) Hd k" by (rule ex_at_kinv [OF k(1)])
  from condvar_signal_wakes [OF this k(2,3)] k(1) show ?thesis by auto
qed

theorem mutex_unlock_wakes_witness:
  "\<exists>k k'. ex_at 13 = Some k \<and> run_current k = Some k' \<and> thread_is_running k' 3"
proof -
  have "map_option (\<lambda>k. (cur_code k, waiters (mutexes k 1))) (ex_at 13) =
    Some ([Mutex_unlock 1, Thread_exit], [3])" by code_simp
  then obtain k where k: "ex_at 13 = Some k" "cur_code k = [Mutex_unlock 1, Thread_exit]"
    "waiters (mutexes k 1) = [3]" by auto
  obtain Hd where "kinv (insert 2 (fst ` set ex_threads)) Hd k" by (rule ex_at_kinv [OF k(1)])
  from mutex_unlock_wakes [OF this k(2)] k show ?thesis by auto
qed

end
