(* ===== verification/Fmt.thy ===== *)
theory Fmt
  imports Cstring
begin

text \<open>
  The sprintf half of lib/fmt.c, over the byte memory of theory Cstring.

  The state \<^verbatim>\<open>struct fmt_sprintf_state\<close> is a record, together with the memory in which
  the format, the strings and the output buffer lie.  A \<^verbatim>\<open>va_list\<close> is the list of the
  32-bit words that the caller has pushed (a \<^verbatim>\<open>long long\<close> takes two, the low one first);
  taking an argument that was not passed has no result.  \<^verbatim>\<open>width\<close> and
  \<^verbatim>\<open>precision\<close> are signed, and an overflow of them is undefined in C: they are integers
  here.  The loops that run along the format or a string need not end on a memory that lacks the
  null byte, hence the option results.
\<close>

section \<open>Constants and state\<close>

abbreviation ch :: "char \<Rightarrow> u8" where
  "ch c \<equiv> of_char c"

definition FMT_MAX_NUM_SIZE :: nat where "FMT_MAX_NUM_SIZE = 64 div 3 + 1"
definition FMT_NOLIMIT :: u32 where "FMT_NOLIMIT = - 1"

definition FMT_FORMAT_ALT_FORM :: u32 where "FMT_FORMAT_ALT_FORM = 0x0001"
definition FMT_FORMAT_ZERO_PAD :: u32 where "FMT_FORMAT_ZERO_PAD = 0x0002"
definition FMT_FORMAT_LEFT_JUSTIFY :: u32 where "FMT_FORMAT_LEFT_JUSTIFY = 0x0004"
definition FMT_FORMAT_BLANK :: u32 where "FMT_FORMAT_BLANK = 0x0008"
definition FMT_FORMAT_SIGN :: u32 where "FMT_FORMAT_SIGN = 0x0010"
definition FMT_FORMAT_LOWER :: u32 where "FMT_FORMAT_LOWER = 0x0020"
definition FMT_FORMAT_CONV_SIGNED :: u32 where "FMT_FORMAT_CONV_SIGNED = 0x0040"
definition FMT_FORMAT_DISCARD :: u32 where "FMT_FORMAT_DISCARD = 0x0080"
definition FMT_FORMAT_CHECK_WIDTH :: u32 where "FMT_FORMAT_CHECK_WIDTH = 0x0100"

datatype modifier =
    FMT_MODIFIER_NONE | FMT_MODIFIER_CHAR | FMT_MODIFIER_SHORT | FMT_MODIFIER_LONG
  | FMT_MODIFIER_LONGLONG | FMT_MODIFIER_PTR | FMT_MODIFIER_SIZE | FMT_MODIFIER_PTRDIFF

datatype specifier =
    FMT_SPECIFIER_INVALID | FMT_SPECIFIER_INT | FMT_SPECIFIER_CHAR | FMT_SPECIFIER_STR
  | FMT_SPECIFIER_NRCHARS | FMT_SPECIFIER_PERCENT

record fmt_sprintf_state =
  sp_mem :: bytes
  sp_format :: u32
  sp_ap :: "u32 list"
  sp_flags :: u32
  sp_width :: int
  sp_precision :: int
  sp_modifier :: modifier
  sp_specifier :: specifier
  sp_base :: u32
  sp_str :: u32
  sp_start :: u32
  sp_end :: u32

text \<open>A test of a flag, and its setting.\<close>

definition has_flag :: "u32 \<Rightarrow> u32 \<Rightarrow> bool" where
  "has_flag flags f \<longleftrightarrow> flags AND f \<noteq> 0"

definition sp_set_flag :: "u32 \<Rightarrow> fmt_sprintf_state \<Rightarrow> fmt_sprintf_state" where
  "sp_set_flag f st = st\<lparr>sp_flags := sp_flags st OR f\<rparr>"

definition fmt_digits :: "u8 list" where
  "fmt_digits = map ch ''0123456789ABCDEF''"

section \<open>Characters\<close>

definition fmt_consume :: "bytes \<Rightarrow> u32 \<Rightarrow> u8 \<times> u32" where
  "fmt_consume m p = (m p, p + 1)"

definition fmt_restore :: "u32 \<Rightarrow> u32" where
  "fmt_restore p = p - 1"

definition fmt_vsnprintf_produce :: "bytes \<Rightarrow> u32 \<Rightarrow> u32 \<Rightarrow> u8 \<Rightarrow> bytes \<times> u32" where
  "fmt_vsnprintf_produce m str end c = (if str < end then m(str := c) else m, str + 1)"

definition fmt_isdigit :: "u8 \<Rightarrow> bool" where
  "fmt_isdigit c \<longleftrightarrow> ch CHR ''0'' \<le> c \<and> c \<le> ch CHR ''9''"

definition fmt_isxdigit :: "u8 \<Rightarrow> bool" where
  "fmt_isxdigit c \<longleftrightarrow> fmt_isdigit c \<or> (ch CHR ''a'' \<le> c \<and> c \<le> ch CHR ''f'') \<or>
     (ch CHR ''A'' \<le> c \<and> c \<le> ch CHR ''F'')"

text \<open>\<^verbatim>\<open>va_arg\<close> for a type of 4 bytes and for one of 8.\<close>

fun va_arg32 :: "u32 list \<Rightarrow> (u32 \<times> u32 list) option" where
  "va_arg32 [] = None"
| "va_arg32 (w # ap) = Some (w, ap)"

fun va_arg64 :: "u32 list \<Rightarrow> (u64 \<times> u32 list) option" where
  "va_arg64 (lo # hi # ap) = Some (push_bit 32 (ucast hi) OR ucast lo, ap)"
| "va_arg64 _ = None"

section \<open>Reading the format\<close>

definition fmt_sprintf_state_init :: "bytes \<Rightarrow> u32 \<Rightarrow> u32 \<Rightarrow> u32 \<Rightarrow> u32 list \<Rightarrow> fmt_sprintf_state" where
  "fmt_sprintf_state_init m str sz format ap =
     \<lparr>sp_mem = m, sp_format = format, sp_ap = ap, sp_flags = 0, sp_width = 0, sp_precision = 0,
      sp_modifier = FMT_MODIFIER_NONE, sp_specifier = FMT_SPECIFIER_INVALID, sp_base = 0,
      sp_str = str, sp_start = str,
      sp_end = (if sz = 0 then 0 else if sz = FMT_NOLIMIT then - 1 else str + sz - 1)\<rparr>"

definition fmt_sprintf_state_finalize :: "fmt_sprintf_state \<Rightarrow> u32 \<times> bytes" where
  "fmt_sprintf_state_finalize st =
     (sp_str st - sp_start st,
      if sp_str st < sp_end st then (sp_mem st)(sp_str st := 0)
      else if sp_end st \<noteq> 0 then (sp_mem st)(sp_end st := 0) else sp_mem st)"

definition fmt_sprintf_state_consume_format :: "fmt_sprintf_state \<Rightarrow> u8 \<times> fmt_sprintf_state" where
  "fmt_sprintf_state_consume_format st =
     (let (c, p) = fmt_consume (sp_mem st) (sp_format st) in (c, st\<lparr>sp_format := p\<rparr>))"

definition fmt_sprintf_state_restore_format :: "fmt_sprintf_state \<Rightarrow> fmt_sprintf_state" where
  "fmt_sprintf_state_restore_format st = st\<lparr>sp_format := fmt_restore (sp_format st)\<rparr>"

partial_function (option) sp_flags_loop :: "fmt_sprintf_state \<Rightarrow> fmt_sprintf_state option" where
  "sp_flags_loop st =
     (let (c, st) = fmt_sprintf_state_consume_format st in
      if c = ch CHR ''#'' then sp_flags_loop (sp_set_flag FMT_FORMAT_ALT_FORM st)
      else if c = ch CHR ''0'' then sp_flags_loop (sp_set_flag FMT_FORMAT_ZERO_PAD st)
      else if c = ch CHR ''-'' then sp_flags_loop (sp_set_flag FMT_FORMAT_LEFT_JUSTIFY st)
      else if c = ch CHR '' '' then sp_flags_loop (sp_set_flag FMT_FORMAT_BLANK st)
      else if c = ch CHR ''+'' then sp_flags_loop (sp_set_flag FMT_FORMAT_SIGN st)
      else Some st)"

definition fmt_sprintf_state_consume_flags :: "fmt_sprintf_state \<Rightarrow> fmt_sprintf_state option" where
  "fmt_sprintf_state_consume_flags st = do {
     st \<leftarrow> sp_flags_loop (st\<lparr>sp_flags := 0\<rparr>);
     Some (fmt_sprintf_state_restore_format st)
   }"

partial_function (option) sp_width_loop :: "u8 \<Rightarrow> fmt_sprintf_state \<Rightarrow> fmt_sprintf_state option" where
  "sp_width_loop c st =
     (let st = st\<lparr>sp_width := sp_width st * 10 + (uint c - 48)\<rparr>;
          (c, st) = fmt_sprintf_state_consume_format st
      in if fmt_isdigit c then sp_width_loop c st else Some st)"

definition fmt_sprintf_state_consume_width :: "fmt_sprintf_state \<Rightarrow> fmt_sprintf_state option" where
  "fmt_sprintf_state_consume_width st =
     (let (c, st) = fmt_sprintf_state_consume_format st in
      if fmt_isdigit c then do {
        st \<leftarrow> sp_width_loop c (st\<lparr>sp_width := 0\<rparr>);
        Some (fmt_sprintf_state_restore_format st)
      }
      else if c = ch CHR ''*'' then do {
        (w, ap) \<leftarrow> va_arg32 (sp_ap st);
        let st = st\<lparr>sp_ap := ap, sp_width := sint w\<rparr>;
        Some (if sp_width st < 0
              then (sp_set_flag FMT_FORMAT_LEFT_JUSTIFY st)\<lparr>sp_width := - sp_width st\<rparr> else st)
      }
      else Some (fmt_sprintf_state_restore_format (st\<lparr>sp_width := 0\<rparr>)))"

partial_function (option) sp_precision_loop :: "u8 \<Rightarrow> fmt_sprintf_state \<Rightarrow> fmt_sprintf_state option" where
  "sp_precision_loop c st =
     (let st = st\<lparr>sp_precision := sp_precision st * 10 + (uint c - 48)\<rparr>;
          (c, st) = fmt_sprintf_state_consume_format st
      in if fmt_isdigit c then sp_precision_loop c st else Some st)"

definition fmt_sprintf_state_consume_precision :: "fmt_sprintf_state \<Rightarrow> fmt_sprintf_state option" where
  "fmt_sprintf_state_consume_precision st =
     (let (c, st) = fmt_sprintf_state_consume_format st in
      if c = ch CHR ''.'' then
        (let (c, st) = fmt_sprintf_state_consume_format st in
         if fmt_isdigit c then do {
           st \<leftarrow> sp_precision_loop c (st\<lparr>sp_precision := 0\<rparr>);
           Some (fmt_sprintf_state_restore_format st)
         }
         else if c = ch CHR ''*'' then do {
           (w, ap) \<leftarrow> va_arg32 (sp_ap st);
           let st = st\<lparr>sp_ap := ap, sp_precision := sint w\<rparr>;
           Some (if sp_precision st < 0 then st\<lparr>sp_precision := 0\<rparr> else st)
         }
         else Some (fmt_sprintf_state_restore_format (st\<lparr>sp_precision := 0\<rparr>)))
      else Some (fmt_sprintf_state_restore_format (st\<lparr>sp_precision := - 1\<rparr>)))"

definition fmt_sprintf_state_consume_modifier :: "fmt_sprintf_state \<Rightarrow> fmt_sprintf_state" where
  "fmt_sprintf_state_consume_modifier st =
     (let (c, st) = fmt_sprintf_state_consume_format st in
      if c = ch CHR ''h'' \<or> c = ch CHR ''l'' then
        (let (c2, st) = fmt_sprintf_state_consume_format st in
         if c = c2
         then st\<lparr>sp_modifier := if c = ch CHR ''h'' then FMT_MODIFIER_CHAR else FMT_MODIFIER_LONGLONG\<rparr>
         else fmt_sprintf_state_restore_format
           (st\<lparr>sp_modifier := if c = ch CHR ''h'' then FMT_MODIFIER_SHORT else FMT_MODIFIER_LONG\<rparr>))
      else if c = ch CHR ''z'' then
        (let st = st\<lparr>sp_modifier := FMT_MODIFIER_SIZE\<rparr> in st\<lparr>sp_modifier := FMT_MODIFIER_PTRDIFF\<rparr>)
      else if c = ch CHR ''t'' then st\<lparr>sp_modifier := FMT_MODIFIER_PTRDIFF\<rparr>
      else fmt_sprintf_state_restore_format (st\<lparr>sp_modifier := FMT_MODIFIER_NONE\<rparr>))"

text \<open>The cases fall through as they do in the source.\<close>

definition fmt_sprintf_state_consume_specifier :: "fmt_sprintf_state \<Rightarrow> fmt_sprintf_state" where
  "fmt_sprintf_state_consume_specifier st =
     (let (c, st) = fmt_sprintf_state_consume_format st;
          case_u = (\<lambda>st. st\<lparr>sp_base := 10, sp_specifier := FMT_SPECIFIER_INT\<rparr>);
          case_X = (\<lambda>st. st\<lparr>sp_base := 16, sp_specifier := FMT_SPECIFIER_INT\<rparr>);
          case_x = (\<lambda>st. case_X (sp_set_flag FMT_FORMAT_LOWER st))
      in
      if c = ch CHR ''d'' \<or> c = ch CHR ''i'' then case_u (sp_set_flag FMT_FORMAT_CONV_SIGNED st)
      else if c = ch CHR ''u'' then case_u st
      else if c = ch CHR ''o'' then st\<lparr>sp_base := 8, sp_specifier := FMT_SPECIFIER_INT\<rparr>
      else if c = ch CHR ''p'' then case_x ((sp_set_flag FMT_FORMAT_ALT_FORM st)\<lparr>sp_modifier := FMT_MODIFIER_PTR\<rparr>)
      else if c = ch CHR ''x'' then case_x st
      else if c = ch CHR ''X'' then case_X st
      else if c = ch CHR ''c'' then st\<lparr>sp_specifier := FMT_SPECIFIER_CHAR\<rparr>
      else if c = ch CHR ''s'' then st\<lparr>sp_specifier := FMT_SPECIFIER_STR\<rparr>
      else if c = ch CHR ''n'' then st\<lparr>sp_specifier := FMT_SPECIFIER_NRCHARS\<rparr>
      else if c = ch CHR ''%'' then st\<lparr>sp_specifier := FMT_SPECIFIER_PERCENT\<rparr>
      else fmt_sprintf_state_restore_format (st\<lparr>sp_specifier := FMT_SPECIFIER_INVALID\<rparr>))"

definition fmt_sprintf_state_produce_raw_char :: "fmt_sprintf_state \<Rightarrow> u8 \<Rightarrow> fmt_sprintf_state" where
  "fmt_sprintf_state_produce_raw_char st c =
     (let (m, str) = fmt_vsnprintf_produce (sp_mem st) (sp_str st) (sp_end st) c
      in st\<lparr>sp_mem := m, sp_str := str\<rparr>)"

text \<open>The result 0 of \<^verbatim>\<open>fmt_sprintf_state_consume\<close> is \<^term>\<open>None\<close>.\<close>

definition fmt_sprintf_state_consume :: "fmt_sprintf_state \<Rightarrow> (error option \<times> fmt_sprintf_state) option" where
  "fmt_sprintf_state_consume st =
     (let (c, p) = fmt_consume (sp_mem st) (sp_format st); st = st\<lparr>sp_format := p\<rparr> in
      if c = 0 then Some (Some ERROR_IO, st)
      else if c \<noteq> ch CHR ''%'' then Some (Some ERROR_AGAIN, fmt_sprintf_state_produce_raw_char st c)
      else do {
        st \<leftarrow> fmt_sprintf_state_consume_flags st;
        st \<leftarrow> fmt_sprintf_state_consume_width st;
        st \<leftarrow> fmt_sprintf_state_consume_precision st;
        let st = fmt_sprintf_state_consume_modifier st;
        Some (None, fmt_sprintf_state_consume_specifier st)
      })"

section \<open>Integers\<close>

text \<open>The argument, converted to \<^verbatim>\<open>unsigned long long\<close>.\<close>

definition sp_int_arg :: "fmt_sprintf_state \<Rightarrow> (u64 \<times> u32 list) option" where
  "sp_int_arg st =
     (let sig = has_flag (sp_flags st) FMT_FORMAT_CONV_SIGNED;
          arg = (\<lambda>f. map_option (\<lambda>(w, ap). (f w, ap)) (va_arg32 (sp_ap st)))
      in case sp_modifier st of
           FMT_MODIFIER_CHAR \<Rightarrow>
             arg (\<lambda>w. if sig then scast (ucast w :: u8) else ucast (ucast w :: u8))
         | FMT_MODIFIER_SHORT \<Rightarrow>
             arg (\<lambda>w. if sig then scast (ucast w :: u16) else ucast (ucast w :: u16))
         | FMT_MODIFIER_LONG \<Rightarrow> arg (\<lambda>w. if sig then scast w else ucast w)
         | FMT_MODIFIER_LONGLONG \<Rightarrow> va_arg64 (sp_ap st)
         | FMT_MODIFIER_PTR \<Rightarrow> arg ucast
         | FMT_MODIFIER_SIZE \<Rightarrow> arg (\<lambda>w. if sig then scast w else ucast w)
         | FMT_MODIFIER_PTRDIFF \<Rightarrow> arg scast
         | FMT_MODIFIER_NONE \<Rightarrow> arg (\<lambda>w. if sig then scast w else ucast w))"

text \<open>The sign or prefix: the sign character (0 for none), the number to convert, the width left.\<close>

definition sp_int_sign :: "fmt_sprintf_state \<Rightarrow> u64 \<Rightarrow> u8 \<times> u64 \<times> int" where
  "sp_int_sign st n =
     (let w = sp_width st in
      if has_flag (sp_flags st) FMT_FORMAT_ALT_FORM then
        (0, n, (let w = w - 1 in if sp_base st = 16 then w - 1 else w))
      else if has_flag (sp_flags st) FMT_FORMAT_CONV_SIGNED then
        (if sint n < 0 then (ch CHR ''-'', - n, w - 1)
         else if has_flag (sp_flags st) FMT_FORMAT_SIGN then (ch CHR ''+'', n, w - 1)
         else if has_flag (sp_flags st) FMT_FORMAT_BLANK then (ch CHR '' '', n, w - 1)
         else (0, n, w))
      else (0, n, w))"

text \<open>The loops that fill \<^verbatim>\<open>tmp\<close>, in reverse order.\<close>

function fmt_conv_dec64 :: "u64 \<Rightarrow> u8 list" where
  "fmt_conv_dec64 n =
     (let r = n mod 10; n = n div 10
      in fmt_digits ! unat r # (if n \<noteq> 0 then fmt_conv_dec64 n else []))"
  by pat_completeness auto

function fmt_conv_dec32 :: "u32 \<Rightarrow> u8 list" where
  "fmt_conv_dec32 m =
     (let r = m mod 10; m = m div 10
      in fmt_digits ! unat r # (if m \<noteq> 0 then fmt_conv_dec32 m else []))"
  by pat_completeness auto

lemma unat_div_less: "(n::'a::len word) div d \<noteq> 0 \<Longrightarrow> 1 < unat d \<Longrightarrow> unat (n div d) < unat n"
  by (cases "n = 0") (auto simp: unat_div unat_gt_0 intro!: div_less_dividend)

termination fmt_conv_dec64
  by (relation "measure unat") (auto intro!: unat_div_less)

termination fmt_conv_dec32
  by (relation "measure unat") (auto intro!: unat_div_less)

lemma drop_bit_less: "drop_bit (Suc k) (n::'a::len word) \<noteq> 0 \<Longrightarrow> unat (drop_bit (Suc k) n) < unat n"
proof -
  assume nz: "drop_bit (Suc k) n \<noteq> 0"
  then have "0 < unat n" by (auto simp: unat_gt_0)
  moreover have "unat (drop_bit (Suc k) n) = unat n div 2 ^ Suc k"
    by (simp only: unat_drop_bit_eq drop_bit_eq_div [of _ "unat n"])
  ultimately show ?thesis using one_less_power [of "2::nat" "Suc k"] by (simp del: power_Suc)
qed

text \<open>\<open>shift\<close> is 3 or 4; the source's \<^verbatim>\<open>do\<close> loop for the bases 8 and 16.\<close>

function fmt_conv_pow2 :: "u64 \<Rightarrow> u64 \<Rightarrow> nat \<Rightarrow> u8 \<Rightarrow> u8 list" where
  "fmt_conv_pow2 n msk k low =
     (let r = n AND msk; n = drop_bit (Suc k) n
      in (fmt_digits ! unat r OR low) # (if n \<noteq> 0 then fmt_conv_pow2 n msk k low else []))"
  by pat_completeness auto

termination
  by (relation "measure (\<lambda>(n, _). unat n)") (auto intro!: drop_bit_less)

definition sp_int_tmp :: "fmt_sprintf_state \<Rightarrow> u64 \<Rightarrow> u8 list" where
  "sp_int_tmp st n =
     (if n = 0 then (if sp_precision st \<noteq> 0 then [ch CHR ''0''] else [])
      else if sp_base st = 10 then
        (if sp_modifier st = FMT_MODIFIER_LONGLONG then fmt_conv_dec64 n else fmt_conv_dec32 (ucast n))
      else
        fmt_conv_pow2 n (ucast (sp_base st - 1)) ((if sp_base st = 8 then 3 else 4) - 1)
          (ucast (sp_flags st AND FMT_FORMAT_LOWER)))"

text \<open>The loops \<^verbatim>\<open>while (width > 0)\<close>, and those on the precision and on \<^verbatim>\<open>tmp\<close>.\<close>

lemma produce_width [simp]: "sp_width (fmt_sprintf_state_produce_raw_char st c) = sp_width st"
  by (simp add: fmt_sprintf_state_produce_raw_char_def split: prod.split)

lemma produce_precision [simp]: "sp_precision (fmt_sprintf_state_produce_raw_char st c) = sp_precision st"
  by (simp add: fmt_sprintf_state_produce_raw_char_def split: prod.split)

function sp_pad :: "u8 \<Rightarrow> fmt_sprintf_state \<Rightarrow> fmt_sprintf_state" where
  "sp_pad c st =
     (if 0 < sp_width st
      then sp_pad c (fmt_sprintf_state_produce_raw_char (st\<lparr>sp_width := sp_width st - 1\<rparr>) c)
      else st)"
  by pat_completeness auto

termination
  by (relation "measure (\<lambda>(c, st). nat (sp_width st))") auto

function sp_zeros :: "int \<Rightarrow> fmt_sprintf_state \<Rightarrow> fmt_sprintf_state" where
  "sp_zeros i st =
     (if i < sp_precision st
      then sp_zeros i (fmt_sprintf_state_produce_raw_char (st\<lparr>sp_precision := sp_precision st - 1\<rparr>) (ch CHR ''0''))
      else st)"
  by pat_completeness auto

termination
  by (relation "measure (\<lambda>(i, st). nat (sp_precision st - i))") auto

text \<open>\<open>sp_rev tmp\<close>: the characters of \<^verbatim>\<open>tmp\<close> from the last one down to the first.\<close>

fun sp_rev :: "u8 list \<Rightarrow> fmt_sprintf_state \<Rightarrow> fmt_sprintf_state" where
  "sp_rev [] st = st"
| "sp_rev (c # tmp) st = fmt_sprintf_state_produce_raw_char (sp_rev tmp st) c"

definition sp_int_output :: "fmt_sprintf_state \<Rightarrow> u8 \<Rightarrow> u8 list \<Rightarrow> fmt_sprintf_state" where
  "sp_int_output st sig tmp =
     (let i = int (length tmp);
          st = (if sp_precision st < i then st\<lparr>sp_precision := i\<rparr> else st);
          st = st\<lparr>sp_width := sp_width st - sp_precision st\<rparr>;
          st = (if \<not> has_flag (sp_flags st) (FMT_FORMAT_LEFT_JUSTIFY OR FMT_FORMAT_ZERO_PAD)
                then (let st = sp_pad (ch CHR '' '') st in st\<lparr>sp_width := sp_width st - 1\<rparr>) else st);
          st = (if has_flag (sp_flags st) FMT_FORMAT_ALT_FORM
                then (let st = fmt_sprintf_state_produce_raw_char st (ch CHR ''0'')
                      in if sp_base st = 16
                         then fmt_sprintf_state_produce_raw_char st
                           (ch CHR ''X'' OR ucast (sp_flags st AND FMT_FORMAT_LOWER))
                         else st)
                else if sig \<noteq> 0 then fmt_sprintf_state_produce_raw_char st sig else st);
          st = (if \<not> has_flag (sp_flags st) FMT_FORMAT_LEFT_JUSTIFY
                then (let c = (if has_flag (sp_flags st) FMT_FORMAT_ZERO_PAD then ch CHR ''0'' else ch CHR '' '');
                          st = sp_pad c st
                      in st\<lparr>sp_width := sp_width st - 1\<rparr>)
                else st);
          st = sp_zeros i st;
          st = st\<lparr>sp_precision := sp_precision st - 1\<rparr>;
          st = sp_rev tmp st;
          st = sp_pad (ch CHR '' '') st
      in st\<lparr>sp_width := sp_width st - 1\<rparr>)"

definition fmt_sprintf_state_produce_int :: "fmt_sprintf_state \<Rightarrow> fmt_sprintf_state option" where
  "fmt_sprintf_state_produce_int st = do {
     (n, ap) \<leftarrow> sp_int_arg st;
     let st = st\<lparr>sp_ap := ap\<rparr>;
     let st = (if has_flag (sp_flags st) FMT_FORMAT_LEFT_JUSTIFY \<or> 0 \<le> sp_precision st
               then st\<lparr>sp_flags := sp_flags st AND NOT FMT_FORMAT_ZERO_PAD\<rparr> else st);
     let (sig, n, w) = sp_int_sign st n;
     let st = st\<lparr>sp_width := w\<rparr>;
     Some (sp_int_output st sig (sp_int_tmp st n))
   }"

section \<open>Characters, strings, counts\<close>

text \<open>The loops \<^verbatim>\<open>for (;;)\<close> of \<^verbatim>\<open>fmt_sprintf_state_produce_char\<close>.\<close>

function sp_pad_char :: "fmt_sprintf_state \<Rightarrow> fmt_sprintf_state" where
  "sp_pad_char st =
     (let st = st\<lparr>sp_width := sp_width st - 1\<rparr> in
      if sp_width st \<le> 0 then st
      else sp_pad_char (fmt_sprintf_state_produce_raw_char st (ch CHR '' '')))"
  by pat_completeness auto

termination
  by (relation "measure (\<lambda>st. nat (sp_width st))") auto

definition fmt_sprintf_state_produce_char :: "fmt_sprintf_state \<Rightarrow> fmt_sprintf_state option" where
  "fmt_sprintf_state_produce_char st = do {
     (w, ap) \<leftarrow> va_arg32 (sp_ap st);
     let c = (ucast w :: u8);
     let st = st\<lparr>sp_ap := ap\<rparr>;
     let st = (if \<not> has_flag (sp_flags st) FMT_FORMAT_LEFT_JUSTIFY then sp_pad_char st else st);
     Some (sp_pad_char (fmt_sprintf_state_produce_raw_char st c))
   }"

partial_function (option) sp_str_len :: "bytes \<Rightarrow> u32 \<Rightarrow> int \<Rightarrow> nat \<Rightarrow> nat option" where
  "sp_str_len m s prec len =
     (if m (s + of_nat len) \<noteq> 0 then
        (if int len = prec then Some len else sp_str_len m s prec (len + 1))
      else Some len)"

function sp_pad_str :: "int \<Rightarrow> fmt_sprintf_state \<Rightarrow> fmt_sprintf_state" where
  "sp_pad_str len st =
     (if len < sp_width st
      then sp_pad_str len (fmt_sprintf_state_produce_raw_char (st\<lparr>sp_width := sp_width st - 1\<rparr>) (ch CHR '' ''))
      else st)"
  by pat_completeness auto

termination
  by (relation "measure (\<lambda>(len, st). nat (sp_width st - len))") auto

fun sp_copy_str :: "nat \<Rightarrow> u32 \<Rightarrow> fmt_sprintf_state \<Rightarrow> fmt_sprintf_state" where
  "sp_copy_str 0 s st = st"
| "sp_copy_str (Suc n) s st = sp_copy_str n (s + 1) (fmt_sprintf_state_produce_raw_char st (sp_mem st s))"

text \<open>\<open>null_str\<close> is the address of the literal \<^verbatim>\<open>"(null)"\<close>.\<close>

definition fmt_sprintf_state_produce_str :: "u32 \<Rightarrow> fmt_sprintf_state \<Rightarrow> fmt_sprintf_state option" where
  "fmt_sprintf_state_produce_str null_str st = do {
     (s, ap) \<leftarrow> va_arg32 (sp_ap st);
     let st = st\<lparr>sp_ap := ap\<rparr>;
     let s = (if s = 0 then null_str else s);
     len \<leftarrow> sp_str_len (sp_mem st) s (sp_precision st) 0;
     let st = (if \<not> has_flag (sp_flags st) FMT_FORMAT_LEFT_JUSTIFY then sp_pad_str (int len) st else st);
     let st = sp_copy_str len s st;
     Some (sp_pad_str (int len) st)
   }"

text \<open>Storing the low \<open>n\<close> bytes of a number, the lowest first.\<close>

fun store_bytes :: "nat \<Rightarrow> u32 \<Rightarrow> u64 \<Rightarrow> bytes \<Rightarrow> bytes" where
  "store_bytes 0 p v m = m"
| "store_bytes (Suc n) p v m = store_bytes n (p + 1) (drop_bit 8 v) (m(p := ucast v))"

text \<open>The size of the integer type that a modifier names, in bytes.\<close>

definition modifier_size :: "modifier \<Rightarrow> nat" where
  "modifier_size mo = (case mo of
       FMT_MODIFIER_CHAR \<Rightarrow> 1 | FMT_MODIFIER_SHORT \<Rightarrow> 2 | FMT_MODIFIER_LONGLONG \<Rightarrow> 8 | _ \<Rightarrow> 4)"

definition fmt_sprintf_state_produce_nrchars :: "fmt_sprintf_state \<Rightarrow> fmt_sprintf_state option" where
  "fmt_sprintf_state_produce_nrchars st = do {
     (p, ap) \<leftarrow> va_arg32 (sp_ap st);
     let n = (scast (sp_str st - sp_start st) :: u64);
     Some (st\<lparr>sp_ap := ap, sp_mem := store_bytes (modifier_size (sp_modifier st)) p n (sp_mem st)\<rparr>)
   }"

definition fmt_sprintf_state_produce :: "u32 \<Rightarrow> fmt_sprintf_state \<Rightarrow> fmt_sprintf_state option" where
  "fmt_sprintf_state_produce null_str st =
     (case sp_specifier st of
        FMT_SPECIFIER_INT \<Rightarrow> fmt_sprintf_state_produce_int st
      | FMT_SPECIFIER_CHAR \<Rightarrow> fmt_sprintf_state_produce_char st
      | FMT_SPECIFIER_STR \<Rightarrow> fmt_sprintf_state_produce_str null_str st
      | FMT_SPECIFIER_NRCHARS \<Rightarrow> fmt_sprintf_state_produce_nrchars st
      | _ \<Rightarrow> Some (fmt_sprintf_state_produce_raw_char st (ch CHR ''%'')))"

section \<open>The functions\<close>

partial_function (option) fmt_vsnprintf_loop :: "u32 \<Rightarrow> fmt_sprintf_state \<Rightarrow> fmt_sprintf_state option" where
  "fmt_vsnprintf_loop null_str st =
     Option.bind (fmt_sprintf_state_consume st) (\<lambda>(err, st).
       case err of
         Some ERROR_AGAIN \<Rightarrow> fmt_vsnprintf_loop null_str st
       | Some _ \<Rightarrow> Some st
       | None \<Rightarrow> Option.bind (fmt_sprintf_state_produce null_str st) (fmt_vsnprintf_loop null_str))"

definition fmt_vsnprintf :: "u32 \<Rightarrow> bytes \<Rightarrow> u32 \<Rightarrow> u32 \<Rightarrow> u32 \<Rightarrow> u32 list \<Rightarrow> (u32 \<times> bytes) option" where
  "fmt_vsnprintf null_str m str sz format ap = do {
     st \<leftarrow> fmt_vsnprintf_loop null_str (fmt_sprintf_state_init m str sz format ap);
     Some (fmt_sprintf_state_finalize st)
   }"

definition fmt_snprintf :: "u32 \<Rightarrow> bytes \<Rightarrow> u32 \<Rightarrow> u32 \<Rightarrow> u32 \<Rightarrow> u32 list \<Rightarrow> (u32 \<times> bytes) option" where
  "fmt_snprintf null_str m str sz format ap = fmt_vsnprintf null_str m str sz format ap"

definition fmt_vsprintf :: "u32 \<Rightarrow> bytes \<Rightarrow> u32 \<Rightarrow> u32 \<Rightarrow> u32 list \<Rightarrow> (u32 \<times> bytes) option" where
  "fmt_vsprintf null_str m str format ap = fmt_vsnprintf null_str m str FMT_NOLIMIT format ap"

definition fmt_sprintf :: "u32 \<Rightarrow> bytes \<Rightarrow> u32 \<Rightarrow> u32 \<Rightarrow> u32 list \<Rightarrow> (u32 \<times> bytes) option" where
  "fmt_sprintf null_str m str format ap = fmt_vsprintf null_str m str format ap"

declare sp_flags_loop.simps [code] sp_width_loop.simps [code] sp_precision_loop.simps [code]
  sp_str_len.simps [code] fmt_vsnprintf_loop.simps [code]

end
