(* ===== verification/Scan.thy ===== *)
theory Scan
  imports Fmt
begin

text \<open>
  The sscanf half of lib/fmt.c, over the byte memory of theory Cstring, with the conventions of
  theory Fmt.  \<^verbatim>\<open>char\<close> is signed, so that a comparison with \<^verbatim>\<open>EOF\<close> also holds for the byte 255.  A
  \<^verbatim>\<open>va_list\<close> holds the addresses to which the conversions are stored, little-endian.
\<close>

section \<open>State\<close>

definition EOF :: int where "EOF = - 1"

record fmt_sscanf_state =
  sc_mem :: bytes
  sc_str :: u32
  sc_start :: u32
  sc_format :: u32
  sc_ap :: "u32 list"
  sc_flags :: u32
  sc_width :: int
  sc_modifier :: modifier
  sc_specifier :: specifier
  sc_base :: u32
  sc_nr_convs :: int

definition sc_set_flag :: "u32 \<Rightarrow> fmt_sscanf_state \<Rightarrow> fmt_sscanf_state" where
  "sc_set_flag f st = st\<lparr>sc_flags := sc_flags st OR f\<rparr>"

text \<open>The assignment of a number to an object of \<open>n\<close> bytes.\<close>

fun store_le :: "bytes \<Rightarrow> u32 \<Rightarrow> nat \<Rightarrow> u64 \<Rightarrow> bytes" where
  "store_le m p 0 w = m"
| "store_le m p (Suc n) w = store_le (m(p := ucast w)) (p + 1) n (drop_bit 8 w)"

text \<open>The value that the program finds there.\<close>

fun load_le :: "bytes \<Rightarrow> u32 \<Rightarrow> nat \<Rightarrow> u64" where
  "load_le m p 0 = 0"
| "load_le m p (Suc n) = push_bit 8 (load_le m (p + 1) n) OR ucast (m p)"

section \<open>Characters\<close>

definition fmt_atoi :: "u8 \<Rightarrow> nat option" where
  "fmt_atoi c = do {
     assert (fmt_isxdigit c);
     Some (if fmt_isdigit c then unat (c - ch CHR ''0'')
           else if ch CHR ''a'' \<le> c \<and> c \<le> ch CHR ''f'' then 10 + unat (c - ch CHR ''a'')
           else 10 + unat (c - ch CHR ''A''))
   }"

definition fmt_isspace :: "u8 \<Rightarrow> bool" where
  "fmt_isspace c \<longleftrightarrow> c = ch CHR '' '' \<or> (9 \<le> c \<and> c \<le> 12)"

partial_function (option) fmt_skip :: "bytes \<Rightarrow> u32 \<Rightarrow> u32 option" where
  "fmt_skip m p = (if fmt_isspace (m p) then fmt_skip m (p + 1) else Some p)"

text \<open>The members that the initialisation does not set are set before they are read.\<close>

definition fmt_sscanf_state_init :: "bytes \<Rightarrow> u32 \<Rightarrow> u32 \<Rightarrow> u32 list \<Rightarrow> fmt_sscanf_state" where
  "fmt_sscanf_state_init m str format ap =
     \<lparr>sc_mem = m, sc_str = str, sc_start = str, sc_format = format, sc_ap = ap, sc_flags = 0, sc_width = 0,
      sc_modifier = FMT_MODIFIER_NONE, sc_specifier = FMT_SPECIFIER_INVALID, sc_base = 0, sc_nr_convs = 0\<rparr>"

definition fmt_sscanf_state_finalize :: "fmt_sscanf_state \<Rightarrow> int \<times> bytes" where
  "fmt_sscanf_state_finalize st = (sc_nr_convs st, sc_mem st)"

definition fmt_sscanf_state_report_conv :: "fmt_sscanf_state \<Rightarrow> fmt_sscanf_state" where
  "fmt_sscanf_state_report_conv st =
     (if sc_nr_convs st = EOF then st\<lparr>sc_nr_convs := 1\<rparr> else st\<lparr>sc_nr_convs := sc_nr_convs st + 1\<rparr>)"

definition fmt_sscanf_state_report_error :: "fmt_sscanf_state \<Rightarrow> fmt_sscanf_state" where
  "fmt_sscanf_state_report_error st = (if sc_nr_convs st \<noteq> 0 then st else st\<lparr>sc_nr_convs := EOF\<rparr>)"

definition fmt_sscanf_state_skip_space :: "fmt_sscanf_state \<Rightarrow> fmt_sscanf_state option" where
  "fmt_sscanf_state_skip_space st = do { p \<leftarrow> fmt_skip (sc_mem st) (sc_str st); Some (st\<lparr>sc_str := p\<rparr>) }"

definition fmt_sscanf_state_consume_string :: "fmt_sscanf_state \<Rightarrow> u8 \<times> fmt_sscanf_state" where
  "fmt_sscanf_state_consume_string st =
     (let (c, p) = fmt_consume (sc_mem st) (sc_str st); st = st\<lparr>sc_str := p\<rparr> in
      if has_flag (sc_flags st) FMT_FORMAT_CHECK_WIDTH then
        (if sc_width st = 0 then (of_int EOF, st) else (c, st\<lparr>sc_width := sc_width st - 1\<rparr>))
      else (c, st))"

definition fmt_sscanf_state_restore_string :: "fmt_sscanf_state \<Rightarrow> fmt_sscanf_state" where
  "fmt_sscanf_state_restore_string st = st\<lparr>sc_str := fmt_restore (sc_str st)\<rparr>"

definition fmt_sscanf_state_consume_format :: "fmt_sscanf_state \<Rightarrow> u8 \<times> fmt_sscanf_state" where
  "fmt_sscanf_state_consume_format st =
     (let (c, p) = fmt_consume (sc_mem st) (sc_format st) in (c, st\<lparr>sc_format := p\<rparr>))"

definition fmt_sscanf_state_restore_format :: "fmt_sscanf_state \<Rightarrow> fmt_sscanf_state" where
  "fmt_sscanf_state_restore_format st = st\<lparr>sc_format := fmt_restore (sc_format st)\<rparr>"

section \<open>Reading the format\<close>

partial_function (option) sc_flags_loop :: "fmt_sscanf_state \<Rightarrow> fmt_sscanf_state option" where
  "sc_flags_loop st =
     (let (c, st) = fmt_sscanf_state_consume_format st in
      if c = ch CHR ''*'' then sc_flags_loop (sc_set_flag FMT_FORMAT_DISCARD st) else Some st)"

definition fmt_sscanf_state_consume_flags :: "fmt_sscanf_state \<Rightarrow> fmt_sscanf_state option" where
  "fmt_sscanf_state_consume_flags st = do {
     st \<leftarrow> sc_flags_loop (st\<lparr>sc_flags := 0\<rparr>);
     Some (fmt_sscanf_state_restore_format st)
   }"

partial_function (option) sc_width_loop :: "fmt_sscanf_state \<Rightarrow> fmt_sscanf_state option" where
  "sc_width_loop st =
     (let (c, st) = fmt_sscanf_state_consume_format st in
      if \<not> fmt_isdigit c then Some st
      else sc_width_loop (st\<lparr>sc_width := sc_width st * 10 + (uint c - 48)\<rparr>))"

definition fmt_sscanf_state_consume_width :: "fmt_sscanf_state \<Rightarrow> fmt_sscanf_state option" where
  "fmt_sscanf_state_consume_width st = do {
     st \<leftarrow> sc_width_loop (st\<lparr>sc_width := 0\<rparr>);
     let st = (if sc_width st \<noteq> 0 then sc_set_flag FMT_FORMAT_CHECK_WIDTH st else st);
     Some (fmt_sscanf_state_restore_format st)
   }"

definition fmt_sscanf_state_consume_modifier :: "fmt_sscanf_state \<Rightarrow> fmt_sscanf_state" where
  "fmt_sscanf_state_consume_modifier st =
     (let (c, st) = fmt_sscanf_state_consume_format st in
      if c = ch CHR ''h'' \<or> c = ch CHR ''l'' then
        (let (c2, st) = fmt_sscanf_state_consume_format st in
         if c = c2
         then st\<lparr>sc_modifier := if c = ch CHR ''h'' then FMT_MODIFIER_CHAR else FMT_MODIFIER_LONGLONG\<rparr>
         else fmt_sscanf_state_restore_format
           (st\<lparr>sc_modifier := if c = ch CHR ''h'' then FMT_MODIFIER_SHORT else FMT_MODIFIER_LONG\<rparr>))
      else if c = ch CHR ''z'' then st\<lparr>sc_modifier := FMT_MODIFIER_SIZE\<rparr>
      else if c = ch CHR ''t'' then st\<lparr>sc_modifier := FMT_MODIFIER_PTRDIFF\<rparr>
      else fmt_sscanf_state_restore_format (st\<lparr>sc_modifier := FMT_MODIFIER_NONE\<rparr>))"

text \<open>The cases fall through as they do in the source.\<close>

definition fmt_sscanf_state_consume_specifier :: "fmt_sscanf_state \<Rightarrow> fmt_sscanf_state" where
  "fmt_sscanf_state_consume_specifier st =
     (let (c, st) = fmt_sscanf_state_consume_format st;
          case_u = (\<lambda>st. st\<lparr>sc_base := 10, sc_specifier := FMT_SPECIFIER_INT\<rparr>);
          case_x = (\<lambda>st. st\<lparr>sc_base := 16, sc_specifier := FMT_SPECIFIER_INT\<rparr>)
      in
      if c = ch CHR ''i'' then (sc_set_flag FMT_FORMAT_CONV_SIGNED (st\<lparr>sc_base := 0\<rparr>))\<lparr>sc_specifier := FMT_SPECIFIER_INT\<rparr>
      else if c = ch CHR ''d'' then case_u (sc_set_flag FMT_FORMAT_CONV_SIGNED st)
      else if c = ch CHR ''u'' then case_u st
      else if c = ch CHR ''o'' then st\<lparr>sc_base := 8, sc_specifier := FMT_SPECIFIER_INT\<rparr>
      else if c = ch CHR ''p'' then case_x (st\<lparr>sc_modifier := FMT_MODIFIER_PTR\<rparr>)
      else if c = ch CHR ''x'' \<or> c = ch CHR ''X'' then case_x st
      else if c = ch CHR ''c'' then st\<lparr>sc_specifier := FMT_SPECIFIER_CHAR\<rparr>
      else if c = ch CHR ''s'' then st\<lparr>sc_specifier := FMT_SPECIFIER_STR\<rparr>
      else if c = ch CHR ''n'' then st\<lparr>sc_specifier := FMT_SPECIFIER_NRCHARS\<rparr>
      else if c = ch CHR ''%'' then st\<lparr>sc_specifier := FMT_SPECIFIER_PERCENT\<rparr>
      else fmt_sscanf_state_restore_format (st\<lparr>sc_specifier := FMT_SPECIFIER_INVALID\<rparr>))"

definition fmt_sscanf_state_discard_char :: "fmt_sscanf_state \<Rightarrow> u8 \<Rightarrow> (error option \<times> fmt_sscanf_state) option" where
  "fmt_sscanf_state_discard_char st c =
     (if fmt_isspace c then do { st \<leftarrow> fmt_sscanf_state_skip_space st; Some (None, st) }
      else
        (let (c2, st) = fmt_sscanf_state_consume_string st in
         if c \<noteq> c2 then
           Some (Some ERROR_INVAL, if c2 = 0 \<and> sc_nr_convs st = 0 then st\<lparr>sc_nr_convs := EOF\<rparr> else st)
         else Some (None, st)))"

definition fmt_sscanf_state_consume :: "fmt_sscanf_state \<Rightarrow> (error option \<times> fmt_sscanf_state) option" where
  "fmt_sscanf_state_consume st =
     (let st = st\<lparr>sc_flags := 0\<rparr>; (c, p) = fmt_consume (sc_mem st) (sc_format st); st = st\<lparr>sc_format := p\<rparr> in
      if c = 0 then Some (Some ERROR_IO, st)
      else if c \<noteq> ch CHR ''%'' then do {
        (err, st) \<leftarrow> fmt_sscanf_state_discard_char st c;
        Some (if err \<noteq> None then err else Some ERROR_AGAIN, st)
      }
      else do {
        st \<leftarrow> fmt_sscanf_state_consume_flags st;
        st \<leftarrow> fmt_sscanf_state_consume_width st;
        let st = fmt_sscanf_state_consume_modifier st;
        Some (None, fmt_sscanf_state_consume_specifier st)
      })"

section \<open>Integers\<close>

text \<open>The sign, and the prefix that chooses the base: the character that follows, and the state.\<close>

definition sc_int_sign :: "fmt_sscanf_state \<Rightarrow> bool \<times> u8 \<times> fmt_sscanf_state" where
  "sc_int_sign st =
     (let (c, st) = fmt_sscanf_state_consume_string st in
      if c = ch CHR ''-'' then (True, fmt_sscanf_state_consume_string st) else (False, c, st))"

definition sc_int_prefix :: "u8 \<times> fmt_sscanf_state \<Rightarrow> u8 \<times> fmt_sscanf_state" where
  "sc_int_prefix = (\<lambda>(c, st).
     if c = ch CHR ''0'' then
       (let (c, st) = fmt_sscanf_state_consume_string st in
        if c = ch CHR ''x'' \<or> c = ch CHR ''X'' then
          (let st = (if sc_base st = 0 then st\<lparr>sc_base := 16\<rparr> else st) in
           if sc_base st = 16 then fmt_sscanf_state_consume_string st
           else (ch CHR ''0'', fmt_sscanf_state_restore_string st))
        else
          (let st = (if sc_base st = 0 then st\<lparr>sc_base := 8\<rparr> else st) in
           if sc_base st \<noteq> 8 then (ch CHR ''0'', fmt_sscanf_state_restore_string st) else (c, st)))
     else (c, st))"

definition sc_digit :: "u32 \<Rightarrow> u8 \<Rightarrow> bool" where
  "sc_digit base c =
     (if base = 8 then ch CHR ''0'' \<le> c \<and> c \<le> ch CHR ''7''
      else if base = 16 then fmt_isxdigit c
      else fmt_isdigit c)"

text \<open>
  The loop that collects the digits in \<^verbatim>\<open>buf\<close>, of which \<open>i\<close> is the index; the sign is set when there are
  too many of them.
\<close>

partial_function (option) sc_digits ::
  "u8 \<Rightarrow> nat \<Rightarrow> u8 list \<Rightarrow> bool \<Rightarrow> fmt_sscanf_state \<Rightarrow> (u8 \<times> nat \<times> u8 list \<times> bool \<times> fmt_sscanf_state) option" where
  "sc_digits c i buf negative st =
     (if c \<noteq> 0 \<and> sc_digit (sc_base st) c then
        (let (buf, negative) =
               (if i < FMT_MAX_NUM_SIZE - 1 then (buf[i := c], negative)
                else if i = FMT_MAX_NUM_SIZE - 1 then (buf[0 := ch CHR ''1'', 1 := 0], True)
                else (buf, negative));
             (c, st) = fmt_sscanf_state_consume_string st
         in sc_digits c (i + 1) buf negative st)
      else Some (c, i, buf, negative, st))"

text \<open>
  The loops that compute the number, from the last digit to the first; they are the same for
  \<^verbatim>\<open>unsigned long long\<close> and for \<^verbatim>\<open>unsigned long\<close>.
\<close>

fun sc_value :: "'a::len word \<Rightarrow> u8 list \<Rightarrow> 'a word \<Rightarrow> 'a word \<Rightarrow> 'a word \<Rightarrow> bool \<Rightarrow> ('a word \<times> bool) option" where
  "sc_value base [] n m tmp negative = Some (n, negative)"
| "sc_value base (d # ds) n m tmp negative = do {
     v \<leftarrow> fmt_atoi d;
     let tmp = tmp + of_nat v * m;
     if tmp < n then Some (1, True) else sc_value base ds tmp (m * base) tmp negative
   }"

definition sc_number :: "fmt_sscanf_state \<Rightarrow> u8 list \<Rightarrow> bool \<Rightarrow> (u64 \<times> bool) option" where
  "sc_number st ds negative =
     (if sc_modifier st = FMT_MODIFIER_LONGLONG then sc_value (ucast (sc_base st)) (rev ds) 0 1 0 negative
      else map_option (\<lambda>(n, negative). (ucast n, negative)) (sc_value (sc_base st) (rev ds) 0 1 0 negative))"

definition sc_size :: "modifier \<Rightarrow> nat" where
  "sc_size mo =
     (case mo of FMT_MODIFIER_CHAR \<Rightarrow> 1 | FMT_MODIFIER_SHORT \<Rightarrow> 2 | FMT_MODIFIER_LONGLONG \<Rightarrow> 8 | _ \<Rightarrow> 4)"

definition sc_store :: "fmt_sscanf_state \<Rightarrow> u64 \<Rightarrow> fmt_sscanf_state option" where
  "sc_store st n = do {
     (p, ap) \<leftarrow> va_arg32 (sc_ap st);
     Some (st\<lparr>sc_ap := ap, sc_mem := store_le (sc_mem st) p (sc_size (sc_modifier st)) n\<rparr>)
   }"

definition fmt_sscanf_state_produce_int :: "fmt_sscanf_state \<Rightarrow> (error option \<times> fmt_sscanf_state) option" where
  "fmt_sscanf_state_produce_int st = do {
     st \<leftarrow> fmt_sscanf_state_skip_space st;
     let (negative, c, st) = sc_int_sign st;
     let (c, st) = sc_int_prefix (c, st);
     (c, i, buf, negative, st) \<leftarrow> sc_digits c 0 (replicate FMT_MAX_NUM_SIZE 0) negative st;
     let st = fmt_sscanf_state_restore_string st;
     if has_flag (sc_flags st) FMT_FORMAT_DISCARD then Some (None, st)
     else if i = 0 \<and> c = 0 then Some (Some ERROR_INVAL, fmt_sscanf_state_report_error st)
     else do {
       let (i, buf) = (if i = 0 then (1, buf[0 := ch CHR ''0'']) else (i, buf));
       let ds = (if i < FMT_MAX_NUM_SIZE then take i buf else takeWhile (\<lambda>c. c \<noteq> 0) buf);
       (n, negative) \<leftarrow> sc_number st ds negative;
       st \<leftarrow> sc_store st (if negative then - n else n);
       Some (None, fmt_sscanf_state_report_conv st)
     }
   }"

section \<open>Characters, strings and counts\<close>

text \<open>A null destination, which the flag \<^verbatim>\<open>*\<close> gives, receives nothing.\<close>

definition sc_dest :: "fmt_sscanf_state \<Rightarrow> (u32 \<times> fmt_sscanf_state) option" where
  "sc_dest st =
     (if has_flag (sc_flags st) FMT_FORMAT_DISCARD then Some (0, st)
      else do { (p, ap) \<leftarrow> va_arg32 (sc_ap st); Some (p, st\<lparr>sc_ap := ap\<rparr>) })"

definition sc_put :: "u32 \<Rightarrow> u8 \<Rightarrow> fmt_sscanf_state \<Rightarrow> u32 \<times> fmt_sscanf_state" where
  "sc_put dest c st =
     (if dest \<noteq> 0 then (dest + 1, st\<lparr>sc_mem := (sc_mem st)(dest := c)\<rparr>) else (dest, st))"

function sc_chars :: "int \<Rightarrow> int \<Rightarrow> u32 \<Rightarrow> fmt_sscanf_state \<Rightarrow> int \<times> u32 \<times> fmt_sscanf_state" where
  "sc_chars i width dest st =
     (if i < width then
        (let (c, st) = fmt_sscanf_state_consume_string st in
         if c = 0 \<or> sint c = EOF then (i, dest, st)
         else (let (dest, st) = sc_put dest c st in sc_chars (i + 1) width dest st))
      else (i, dest, st))"
  by pat_completeness auto

termination
  by (relation "measure (\<lambda>(i, width, dest, st). nat (width - i))") auto

declare sc_chars.simps [simp del]

definition fmt_sscanf_state_produce_char :: "fmt_sscanf_state \<Rightarrow> (error option \<times> fmt_sscanf_state) option" where
  "fmt_sscanf_state_produce_char st = do {
     (dest, st) \<leftarrow> sc_dest st;
     let width = (if has_flag (sc_flags st) FMT_FORMAT_CHECK_WIDTH then sc_width st else 1);
     let (i, dest, st) = sc_chars 0 width dest st;
     let st = (if i < width then fmt_sscanf_state_restore_string st else st);
     Some (None, if dest \<noteq> 0 \<and> i \<noteq> 0 then fmt_sscanf_state_report_conv st else st)
   }"

partial_function (option) sc_chars_str :: "u32 \<Rightarrow> fmt_sscanf_state \<Rightarrow> (u32 \<times> fmt_sscanf_state) option" where
  "sc_chars_str dest st =
     (let (c, st) = fmt_sscanf_state_consume_string st in
      if c = 0 \<or> c = ch CHR '' '' \<or> sint c = EOF then Some (dest, st)
      else (let (dest, st) = sc_put dest c st in sc_chars_str dest st))"

definition fmt_sscanf_state_produce_str :: "fmt_sscanf_state \<Rightarrow> (error option \<times> fmt_sscanf_state) option" where
  "fmt_sscanf_state_produce_str st = do {
     let orig = sc_str st;
     st \<leftarrow> fmt_sscanf_state_skip_space st;
     (dest, st) \<leftarrow> sc_dest st;
     (dest, st) \<leftarrow> sc_chars_str dest st;
     let st = fmt_sscanf_state_restore_string st;
     if sc_str st = orig then Some (Some ERROR_INVAL, fmt_sscanf_state_report_error st)
     else if dest \<noteq> 0 then
       Some (None, fmt_sscanf_state_report_conv (st\<lparr>sc_mem := (sc_mem st)(dest := 0)\<rparr>))
     else Some (None, st)
   }"

definition fmt_sscanf_state_produce_nrchars :: "fmt_sscanf_state \<Rightarrow> (error option \<times> fmt_sscanf_state) option" where
  "fmt_sscanf_state_produce_nrchars st = do {
     (p, ap) \<leftarrow> va_arg32 (sc_ap st);
     Some (None, st\<lparr>sc_ap := ap, sc_mem := store_le (sc_mem st) p 4 (ucast (sc_str st - sc_start st))\<rparr>)
   }"

definition fmt_sscanf_state_produce :: "fmt_sscanf_state \<Rightarrow> (error option \<times> fmt_sscanf_state) option" where
  "fmt_sscanf_state_produce st =
     (case sc_specifier st of
        FMT_SPECIFIER_INT \<Rightarrow> fmt_sscanf_state_produce_int st
      | FMT_SPECIFIER_CHAR \<Rightarrow> fmt_sscanf_state_produce_char st
      | FMT_SPECIFIER_STR \<Rightarrow> fmt_sscanf_state_produce_str st
      | FMT_SPECIFIER_NRCHARS \<Rightarrow> fmt_sscanf_state_produce_nrchars st
      | FMT_SPECIFIER_PERCENT \<Rightarrow> do {
          st \<leftarrow> fmt_sscanf_state_skip_space st;
          fmt_sscanf_state_discard_char st (ch CHR ''%'')
        }
      | FMT_SPECIFIER_INVALID \<Rightarrow> Some (Some ERROR_INVAL, fmt_sscanf_state_report_error st))"

section \<open>The loop\<close>

partial_function (option) fmt_vsscanf_loop :: "fmt_sscanf_state \<Rightarrow> fmt_sscanf_state option" where
  "fmt_vsscanf_loop st =
     do {
       (err, st) \<leftarrow> fmt_sscanf_state_consume st;
       if err = Some ERROR_AGAIN then fmt_vsscanf_loop st
       else if err \<noteq> None then Some st
       else do {
         (err, st) \<leftarrow> fmt_sscanf_state_produce st;
         if err \<noteq> None then Some st else fmt_vsscanf_loop st
       }
     }"

definition fmt_vsscanf :: "bytes \<Rightarrow> u32 \<Rightarrow> u32 \<Rightarrow> u32 list \<Rightarrow> (int \<times> bytes) option" where
  "fmt_vsscanf m str format ap = do {
     st \<leftarrow> fmt_vsscanf_loop (fmt_sscanf_state_init m str format ap);
     Some (fmt_sscanf_state_finalize st)
   }"

definition fmt_sscanf :: "bytes \<Rightarrow> u32 \<Rightarrow> u32 \<Rightarrow> u32 list \<Rightarrow> (int \<times> bytes) option" where
  "fmt_sscanf m str format ap = fmt_vsscanf m str format ap"

lemmas scan_loops [code] = fmt_skip.simps sc_flags_loop.simps sc_width_loop.simps sc_digits.simps
  sc_chars_str.simps fmt_vsscanf_loop.simps

end
