(* ===== verification/Fmt_Correct.thy ===== *)
theory Fmt_Correct
  imports Fmt
begin

text \<open>
  The sprintf half of lib/fmt.c against a reference on lists: what a conversion prints is the list
  \<open>int_chars\<close>, \<open>pad_chars\<close> of its parsed parts, and the whole output is \<open>fmt_spec\<close>
  of the format's characters and the argument words.
\<close>

section \<open>Emitting characters\<close>

fun write_clip :: "bytes \<Rightarrow> u32 \<Rightarrow> u32 \<Rightarrow> u8 list \<Rightarrow> bytes" where
  "write_clip m p e [] = m"
| "write_clip m p e (c # cs) = write_clip (if p < e then m(p := c) else m) (p + 1) e cs"

definition emit :: "u8 list \<Rightarrow> fmt_sprintf_state \<Rightarrow> fmt_sprintf_state" where
  "emit cs st = st\<lparr>sp_mem := write_clip (sp_mem st) (sp_str st) (sp_end st) cs,
     sp_str := sp_str st + of_nat (length cs)\<rparr>"

lemma emit_sel [simp]:
  "sp_format (emit cs st) = sp_format st" "sp_ap (emit cs st) = sp_ap st" "sp_flags (emit cs st) = sp_flags st"
  "sp_width (emit cs st) = sp_width st" "sp_precision (emit cs st) = sp_precision st"
  "sp_modifier (emit cs st) = sp_modifier st" "sp_specifier (emit cs st) = sp_specifier st"
  "sp_base (emit cs st) = sp_base st" "sp_start (emit cs st) = sp_start st" "sp_end (emit cs st) = sp_end st"
  "sp_mem (emit cs st) = write_clip (sp_mem st) (sp_str st) (sp_end st) cs"
  "sp_str (emit cs st) = sp_str st + of_nat (length cs)"
  by (simp_all add: emit_def)

lemma emit_upd [simp]:
  "emit cs (st\<lparr>sp_width := w\<rparr>) = (emit cs st)\<lparr>sp_width := w\<rparr>"
  "emit cs (st\<lparr>sp_precision := p\<rparr>) = (emit cs st)\<lparr>sp_precision := p\<rparr>"
  "emit cs (st\<lparr>sp_flags := f\<rparr>) = (emit cs st)\<lparr>sp_flags := f\<rparr>"
  "emit cs (st\<lparr>sp_ap := ap\<rparr>) = (emit cs st)\<lparr>sp_ap := ap\<rparr>"
  by (simp_all add: emit_def)

lemma emit_Nil [simp]: "emit [] st = st"
  by (simp add: emit_def)

lemma write_clip_append:
  "write_clip m p e (cs @ ds) = write_clip (write_clip m p e cs) (p + of_nat (length cs)) e ds"
  by (induction cs arbitrary: m p) (simp_all add: algebra_simps)

lemma emit_emit [simp]: "emit ds (emit cs st) = emit (cs @ ds) st"
  by (simp add: emit_def write_clip_append algebra_simps)

lemma produce_emit [simp]: "fmt_sprintf_state_produce_raw_char st c = emit [c] st"
  by (simp add: fmt_sprintf_state_produce_raw_char_def fmt_vsnprintf_produce_def emit_def)

lemma replicate_snoc: "replicate n x @ [x] = x # replicate n x"
  by (induction n) auto

declare sp_pad.simps [simp del] sp_zeros.simps [simp del] sp_pad_char.simps [simp del] sp_pad_str.simps [simp del]
  fmt_conv_dec64.simps [simp del] fmt_conv_dec32.simps [simp del] fmt_conv_pow2.simps [simp del]

lemma nat_Suc_minus: "(0::int) < w \<Longrightarrow> nat w = Suc (nat (w - 1))"
  by simp

lemma sp_pad_eq: "sp_pad c st = (emit (replicate (nat (sp_width st)) c) st)\<lparr>sp_width := min (sp_width st) 0\<rparr>"
proof (induction c st rule: sp_pad.induct)
  case (1 c st)
  show ?case
  proof (cases "0 < sp_width st")
    case True
    then show ?thesis using 1 nat_Suc_minus [OF True]
      by (simp add: sp_pad.simps [of c st] min_def)
  next
    case False
    then show ?thesis by (simp add: sp_pad.simps [of c st])
  qed
qed

lemma sp_zeros_eq:
  "sp_zeros i st = (emit (replicate (nat (sp_precision st - i)) (ch CHR ''0'')) st)\<lparr>sp_precision := min (sp_precision st) i\<rparr>"
proof (induction i st rule: sp_zeros.induct)
  case (1 i st)
  show ?case
  proof (cases "i < sp_precision st")
    case True
    then have "nat (sp_precision st - i) = Suc (nat (sp_precision st - 1 - i))" by simp
    then show ?thesis using 1 True by (simp add: sp_zeros.simps [of i st] min_def)
  next
    case False
    then show ?thesis by (simp add: sp_zeros.simps [of i st])
  qed
qed

lemma sp_pad_str_eq:
  "sp_pad_str n st = (emit (replicate (nat (sp_width st - n)) (ch CHR '' '')) st)\<lparr>sp_width := min (sp_width st) n\<rparr>"
proof (induction n st rule: sp_pad_str.induct)
  case (1 i st)
  show ?case
  proof (cases "i < sp_width st")
    case True
    then have "nat (sp_width st - i) = Suc (nat (sp_width st - 1 - i))" by simp
    then show ?thesis using 1 True by (simp add: sp_pad_str.simps [of i st] min_def)
  next
    case False
    then show ?thesis by (simp add: sp_pad_str.simps [of i st])
  qed
qed

lemma sp_pad_char_eq:
  "sp_pad_char st = (emit (replicate (nat (sp_width st - 1)) (ch CHR '' '')) st)\<lparr>sp_width := min (sp_width st - 1) 0\<rparr>"
proof (induction st rule: sp_pad_char.induct)
  case (1 st)
  show ?case
  proof (cases "sp_width st - 1 \<le> 0")
    case False
    then have "nat (sp_width st - 1) = Suc (nat (sp_width st - 1 - 1))" by simp
    then show ?thesis using 1 False by (simp add: sp_pad_char.simps [of st] Let_def min_def)
  next
    case True
    then show ?thesis by (simp add: sp_pad_char.simps [of st] Let_def)
  qed
qed

lemma sp_rev_eq: "sp_rev tmp st = emit (rev tmp) st"
  by (induction tmp) auto

section \<open>What an integer conversion prints\<close>

definition int_prefix :: "u32 \<Rightarrow> u32 \<Rightarrow> u8 \<Rightarrow> u8 list" where
  "int_prefix flags base sig =
     (if has_flag flags FMT_FORMAT_ALT_FORM
      then ch CHR ''0'' # (if base = 16 then [ch CHR ''X'' OR ucast (flags AND FMT_FORMAT_LOWER)] else [])
      else if sig \<noteq> 0 then [sig] else [])"

definition justify :: "u32 \<Rightarrow> int \<Rightarrow> u8 list \<Rightarrow> u8 list \<Rightarrow> u8 list" where
  "justify flags width prefix body =
     (let pad = nat (width - int (length prefix + length body)) in
      if has_flag flags FMT_FORMAT_LEFT_JUSTIFY then prefix @ body @ replicate pad (ch CHR '' '')
      else if has_flag flags FMT_FORMAT_ZERO_PAD then prefix @ replicate pad (ch CHR ''0'') @ body
      else replicate pad (ch CHR '' '') @ prefix @ body)"

definition int_body :: "int \<Rightarrow> u8 list \<Rightarrow> u8 list" where
  "int_body precision tmp = replicate (nat precision - length tmp) (ch CHR ''0'') @ rev tmp"

lemma has_flag_or: "has_flag f (a OR b) \<longleftrightarrow> has_flag f a \<or> has_flag f b"
  by (simp add: has_flag_def bit.conj_disj_distrib or_eq_0_iff)

text \<open>The part of the state that outlives a conversion.\<close>

definition io :: "fmt_sprintf_state \<Rightarrow> bytes \<times> u32 \<times> u32 list \<times> u32 \<times> u32 \<times> u32" where
  "io st = (sp_mem st, sp_format st, sp_ap st, sp_str st, sp_start st, sp_end st)"

lemma io_upd [simp]:
  "io (st\<lparr>sp_width := w\<rparr>) = io st" "io (st\<lparr>sp_precision := p\<rparr>) = io st" "io (st\<lparr>sp_flags := f\<rparr>) = io st"
  by (simp_all add: io_def)

lemma sp_int_output_eq:
  assumes w: "sp_width st = width - int (length (int_prefix (sp_flags st) (sp_base st) sig))"
  shows "io (sp_int_output st sig tmp) =
    io (emit (justify (sp_flags st) width (int_prefix (sp_flags st) (sp_base st) sig)
      (int_body (sp_precision st) tmp)) st)"
proof -
  let ?F = "has_flag (sp_flags st)"
  define prec where "prec = max (sp_precision st) (int (length tmp))"
  define body where "body = replicate (nat (prec - int (length tmp))) (ch CHR ''0'') @ rev tmp"
  define W where "W = sp_width st - prec"
  let ?pre = "int_prefix (sp_flags st) (sp_base st) sig"
  have body: "int_body (sp_precision st) tmp = body"
    by (auto simp: int_body_def body_def prec_def max_def)
  have pad: "nat (width - int (length ?pre + length body)) = nat W"
    by (simp add: body_def W_def w prec_def)
  have st1: "(if sp_precision st < int (length tmp) then st\<lparr>sp_precision := int (length tmp)\<rparr> else st) =
      st\<lparr>sp_precision := prec\<rparr>"
    by (auto simp: prec_def max_def)
  have min: "min prec (int (length tmp)) = int (length tmp)" by (simp add: prec_def)
  have "io (sp_int_output st sig tmp) =
    io (emit (if ?F FMT_FORMAT_LEFT_JUSTIFY then ?pre @ body @ replicate (nat W) (ch CHR '' '')
      else if ?F FMT_FORMAT_ZERO_PAD then ?pre @ replicate (nat W) (ch CHR ''0'') @ body
      else replicate (nat W) (ch CHR '' '') @ ?pre @ body) st)"
    unfolding sp_int_output_def Let_def st1
    by (cases "?F FMT_FORMAT_LEFT_JUSTIFY"; cases "?F FMT_FORMAT_ZERO_PAD"; cases "?F FMT_FORMAT_ALT_FORM";
        cases "sig = 0"; cases "sp_base st = 16")
      (simp_all add: sp_pad_eq sp_zeros_eq sp_rev_eq has_flag_or int_prefix_def body_def min
        flip: W_def)
  then show ?thesis unfolding justify_def body pad Let_def .
qed

section \<open>Digits\<close>

function ndigits :: "nat \<Rightarrow> nat \<Rightarrow> nat list" where
  "ndigits b n = (if b < 2 \<or> n < b then [n] else ndigits b (n div b) @ [n mod b])"
  by pat_completeness auto

termination
  by (relation "measure snd") auto

declare ndigits.simps [simp del]

definition digits_value :: "nat \<Rightarrow> nat list \<Rightarrow> nat" where
  "digits_value b ds = foldl (\<lambda>a d. a * b + d) 0 ds"

lemma ndigits_value: "digits_value b (ndigits b n) = n"
proof (induction b n rule: ndigits.induct)
  case (1 b n)
  then show ?case by (simp add: ndigits.simps [of b n] digits_value_def)
qed

lemma ndigits_less: "2 \<le> b \<Longrightarrow> d \<in> set (ndigits b n) \<Longrightarrow> d < b"
proof (induction b n rule: ndigits.induct)
  case (1 b n)
  then show ?case by (auto simp: ndigits.simps [of b n] split: if_splits)
qed

lemma ndigits_hd: "2 \<le> b \<Longrightarrow> 0 < n \<Longrightarrow> hd (ndigits b n) \<noteq> 0"
proof (induction b n rule: ndigits.induct)
  case (1 b n)
  have "ndigits b m \<noteq> []" for m by (simp add: ndigits.simps [of b m])
  then show ?case using 1 by (simp add: ndigits.simps [of b n] div_greater_zero_iff)
qed

lemma ndigits_length:
  assumes "2 \<le> b"
  shows "n < b ^ k \<Longrightarrow> 0 < k \<Longrightarrow> length (ndigits b n) \<le> k"
proof (induction k arbitrary: n)
  case (Suc k)
  show ?case
  proof (cases "n < b")
    case False
    then have "n div b < b ^ k" using Suc.prems(1) assms by (simp add: less_mult_imp_div_less mult.commute)
    moreover have "0 < k" using False Suc.prems(1) by (cases k) auto
    ultimately show ?thesis using Suc.IH False assms by (simp add: ndigits.simps [of b n])
  qed (simp add: ndigits.simps [of b n])
qed simp

lemma conv_dec64: "fmt_conv_dec64 n = map ((!) fmt_digits) (rev (ndigits 10 (unat n)))"
proof (induction n rule: fmt_conv_dec64.induct)
  case (1 n)
  have z: "n div 10 = 0 \<longleftrightarrow> unat n < 10"
    by (simp add: unat_div flip: unat_eq_0) presburger
  show ?case
    using 1 z by (auto simp: fmt_conv_dec64.simps [of n] ndigits.simps [of 10 "unat n"] Let_def unat_div unat_mod)
qed

lemma conv_dec32: "fmt_conv_dec32 n = map ((!) fmt_digits) (rev (ndigits 10 (unat n)))"
proof (induction n rule: fmt_conv_dec32.induct)
  case (1 n)
  have z: "n div 10 = 0 \<longleftrightarrow> unat n < 10"
    by (simp add: unat_div flip: unat_eq_0) presburger
  show ?case
    using 1 z by (auto simp: fmt_conv_dec32.simps [of n] ndigits.simps [of 10 "unat n"] Let_def unat_div unat_mod)
qed

lemma conv_pow2:
  "k < 4 \<Longrightarrow> fmt_conv_pow2 n (2 ^ Suc k - 1) k low =
    map (\<lambda>d. fmt_digits ! d OR low) (rev (ndigits (2 ^ Suc k) (unat n)))"
proof (induction n "2 ^ Suc k - 1 :: u64" k low rule: fmt_conv_pow2.induct)
  case (1 n k low)
  let ?b = "2 ^ Suc k :: nat"
  have b: "2 \<le> ?b" by simp
  have d: "unat (drop_bit (Suc k) n) = unat n div ?b"
    by (simp only: unat_drop_bit_eq drop_bit_eq_div [of _ "unat n"])
  have m: "unat (n AND (2 ^ Suc k - 1)) = unat n mod ?b" by (rule unat_and_low)
  have z: "drop_bit (Suc k) n = 0 \<longleftrightarrow> unat n < ?b"
    using d by (simp add: div_eq_0_iff del: power_Suc flip: unat_eq_0)
  show ?case
  proof (cases "unat n < ?b")
    case True
    then show ?thesis using z m
      by (simp add: fmt_conv_pow2.simps [of n] ndigits.simps [of ?b "unat n"] Let_def del: power_Suc)
  next
    case False
    then show ?thesis using z m d b 1
      by (simp add: fmt_conv_pow2.simps [of n] ndigits.simps [of ?b "unat n"] Let_def del: power_Suc)
  qed
qed

section \<open>The reference for integers\<close>

text \<open>The value of the argument that a conversion takes.\<close>

definition arg_value :: "modifier \<Rightarrow> bool \<Rightarrow> u32 list \<Rightarrow> (int \<times> u32 list) option" where
  "arg_value mo sig ap = (case mo of
       FMT_MODIFIER_CHAR \<Rightarrow> map_option (\<lambda>(w, ap). (if sig then sint (ucast w :: u8) else uint (ucast w :: u8), ap)) (va_arg32 ap)
     | FMT_MODIFIER_SHORT \<Rightarrow> map_option (\<lambda>(w, ap). (if sig then sint (ucast w :: u16) else uint (ucast w :: u16), ap)) (va_arg32 ap)
     | FMT_MODIFIER_LONGLONG \<Rightarrow> map_option (\<lambda>(w, ap). (if sig then sint w else uint w, ap)) (va_arg64 ap)
     | FMT_MODIFIER_PTR \<Rightarrow> map_option (\<lambda>(w, ap). (uint w, ap)) (va_arg32 ap)
     | FMT_MODIFIER_PTRDIFF \<Rightarrow> map_option (\<lambda>(w, ap). (sint w, ap)) (va_arg32 ap)
     | _ \<Rightarrow> map_option (\<lambda>(w, ap). (if sig then sint w else uint w, ap)) (va_arg32 ap))"

definition int_sig :: "u32 \<Rightarrow> int \<Rightarrow> u8" where
  "int_sig flags v =
     (if has_flag flags FMT_FORMAT_ALT_FORM \<or> \<not> has_flag flags FMT_FORMAT_CONV_SIGNED then 0
      else if v < 0 then ch CHR ''-''
      else if has_flag flags FMT_FORMAT_SIGN then ch CHR ''+''
      else if has_flag flags FMT_FORMAT_BLANK then ch CHR '' '' else 0)"

text \<open>The number whose digits are printed.\<close>

definition int_mag :: "u32 \<Rightarrow> u32 \<Rightarrow> modifier \<Rightarrow> int \<Rightarrow> nat" where
  "int_mag flags base mo v =
     (if has_flag flags FMT_FORMAT_CONV_SIGNED \<and> \<not> has_flag flags FMT_FORMAT_ALT_FORM then nat \<bar>v\<bar>
      else if base = 10 \<and> mo \<noteq> FMT_MODIFIER_LONGLONG then nat (v mod 2 ^ 32)
      else nat (v mod 2 ^ 64))"

definition digit_char :: "u32 \<Rightarrow> u32 \<Rightarrow> nat \<Rightarrow> u8" where
  "digit_char flags base d =
     (if base = 10 then fmt_digits ! d else fmt_digits ! d OR ucast (flags AND FMT_FORMAT_LOWER))"

definition int_digits :: "u32 \<Rightarrow> u32 \<Rightarrow> int \<Rightarrow> nat \<Rightarrow> u8 list" where
  "int_digits flags base precision mag =
     (if mag = 0 \<and> precision = 0 then [] else map (digit_char flags base) (ndigits (unat base) mag))"

definition clear_zero_pad :: "u32 \<Rightarrow> int \<Rightarrow> u32" where
  "clear_zero_pad flags precision =
     (if has_flag flags FMT_FORMAT_LEFT_JUSTIFY \<or> 0 \<le> precision
      then flags AND NOT FMT_FORMAT_ZERO_PAD else flags)"

text \<open>What an integer conversion of the value \<open>v\<close> prints.\<close>

definition int_text :: "u32 \<Rightarrow> u32 \<Rightarrow> modifier \<Rightarrow> int \<Rightarrow> int \<Rightarrow> int \<Rightarrow> u8 list" where
  "int_text flags base mo width precision v =
     (let ds = int_digits flags base precision (int_mag flags base mo v) in
      justify (clear_zero_pad flags precision) width (int_prefix flags base (int_sig flags v))
        (replicate (nat precision - length ds) (ch CHR ''0'') @ ds))"

definition int_base :: "u32 \<Rightarrow> u32 \<Rightarrow> bool" where
  "int_base flags base \<longleftrightarrow> base \<in> {8, 10, 16} \<and> (has_flag flags FMT_FORMAT_CONV_SIGNED \<longrightarrow> base = 10)"

lemma sint_ucast_range: "- (2 ^ 31) \<le> sint (w::u32) \<and> sint w < 2 ^ 31"
  using sint_greater_eq [of w] sint_less [of w] by simp

lemma sp_int_arg_value:
  "sp_int_arg st = map_option (\<lambda>(v, ap). (word_of_int v, ap))
    (arg_value (sp_modifier st) (has_flag (sp_flags st) FMT_FORMAT_CONV_SIGNED) (sp_ap st))"
proof (cases "sp_modifier st = FMT_MODIFIER_LONGLONG")
  case True
  then show ?thesis
  proof (cases "va_arg64 (sp_ap st)")
    case (Some p)
    with True show ?thesis by (cases p) (simp add: sp_int_arg_def arg_value_def)
  qed (simp add: sp_int_arg_def arg_value_def)
next
  case False
  then show ?thesis
  proof (cases "va_arg32 (sp_ap st)")
    case None
    with False show ?thesis by (cases "sp_modifier st") (simp_all add: sp_int_arg_def arg_value_def)
  next
    case (Some p)
    with False show ?thesis
      by (cases p; cases "sp_modifier st") (simp_all add: sp_int_arg_def arg_value_def)
  qed
qed

text \<open>The range of the argument, and the number converted.\<close>

definition value_range :: "modifier \<Rightarrow> bool \<Rightarrow> int set" where
  "value_range mo sig =
     (if mo = FMT_MODIFIER_LONGLONG then (if sig then {- (2 ^ 63)..<2 ^ 63} else {0..<2 ^ 64})
      else if mo = FMT_MODIFIER_PTRDIFF then {- (2 ^ 31)..<2 ^ 31}
      else if mo = FMT_MODIFIER_PTR then {0..<2 ^ 32}
      else if sig then {- (2 ^ 31)..<2 ^ 31} else {0..<2 ^ 32})"

lemma arg_value_range:
  assumes "arg_value mo sig ap = Some (v, ap')"
  shows "v \<in> value_range mo sig"
proof -
  have "- (2 ^ 63) \<le> sint w \<and> sint w < 2 ^ 63 \<and> uint w < 2 ^ 64" for w :: u64
    using sint_greater_eq [of w] sint_less [of w] uint_bounded [of w] by simp
  moreover have "- (2 ^ 31) \<le> sint w \<and> sint w < 2 ^ 31 \<and> uint w < 2 ^ 32" for w :: u32
    using sint_greater_eq [of w] sint_less [of w] uint_bounded [of w] by simp
  moreover have "- (2 ^ 31) \<le> sint w \<and> sint w < 2 ^ 31 \<and> uint w < 2 ^ 32" for w :: u8
    using sint_greater_eq [of w] sint_less [of w] uint_bounded [of w] by simp
  moreover have "- (2 ^ 31) \<le> sint w \<and> sint w < 2 ^ 31 \<and> uint w < 2 ^ 32" for w :: u16
    using sint_greater_eq [of w] sint_less [of w] uint_bounded [of w] by simp
  ultimately show ?thesis
    using assms
    by (cases mo; cases "va_arg32 ap"; cases "va_arg64 ap")
      (auto simp: arg_value_def value_range_def split: if_splits)
qed

lemma unat_word_of_int: "unat (word_of_int v :: 'a::len word) = nat (v mod 2 ^ LENGTH('a))"
  by (simp add: unat_eq_nat_uint uint_word_of_int)

lemma unat_word_of_int64: "unat (word_of_int v :: u64) = nat (v mod 2 ^ 64)"
  using unat_word_of_int [of v, where 'a = 64] by simp

text \<open>The sign, and the number that is converted.\<close>

lemma sp_int_sign_eq:
  assumes v: "v \<in> value_range mo (has_flag (sp_flags st) FMT_FORMAT_CONV_SIGNED)"
  shows "\<exists>n. sp_int_sign st (word_of_int v) =
      (int_sig (sp_flags st) v, n,
       sp_width st - int (length (int_prefix (sp_flags st) (sp_base st) (int_sig (sp_flags st) v)))) \<and>
    unat n = (if has_flag (sp_flags st) FMT_FORMAT_CONV_SIGNED \<and> \<not> has_flag (sp_flags st) FMT_FORMAT_ALT_FORM
       then nat \<bar>v\<bar> else nat (v mod 2 ^ 64))"
proof (cases "has_flag (sp_flags st) FMT_FORMAT_CONV_SIGNED \<and> \<not> has_flag (sp_flags st) FMT_FORMAT_ALT_FORM")
  case False
  then show ?thesis
    by (auto simp: sp_int_sign_def int_sig_def int_prefix_def Let_def unat_word_of_int)
next
  case True
  then have r: "- (2 ^ 63) \<le> v" "v < 2 ^ 63" using v by (auto simp: value_range_def split: if_splits)
  have s: "sint (word_of_int v :: u64) = v" using r by (simp add: sint_sbintrunc' signed_take_bit_int_eq_self)
  have pos: "0 \<le> v \<Longrightarrow> unat (word_of_int v :: u64) = nat v" using r by (simp add: unat_word_of_int64)
  have "(- word_of_int v :: u64) = word_of_int (- v)" by simp
  moreover have "v < 0 \<Longrightarrow> - v mod 2 ^ 64 = - v" using r by (intro mod_pos_pos_trivial) auto
  ultimately have neg: "v < 0 \<Longrightarrow> unat (- word_of_int v :: u64) = nat (- v)"
    using unat_word_of_int64 [of "- v"] by metis
  show ?thesis
  proof (cases "v < 0")
    case v0: True
    show ?thesis
      using True s neg [OF v0] v0 by (simp add: sp_int_sign_def int_sig_def int_prefix_def)
  next
    case v0: False
    then have u: "unat (word_of_int v :: u64) = nat v" by (intro pos) simp
    show ?thesis
      using True s u v0
      by (cases "has_flag (sp_flags st) FMT_FORMAT_SIGN"; cases "has_flag (sp_flags st) FMT_FORMAT_BLANK")
        (simp_all add: sp_int_sign_def int_sig_def int_prefix_def)
  qed
qed

lemma ndigits_0: "ndigits b 0 = [0]"
  by (cases "b < 2") (simp_all add: ndigits.simps [of b 0])

lemma lower_cases: "f AND FMT_FORMAT_LOWER = 0 \<or> f AND FMT_FORMAT_LOWER = 32"
proof -
  have "f AND 2 ^ 5 = (if bit f 5 then 2 ^ 5 else 0)"
    unfolding bit_eq_iff by (simp only: bit_and_iff bit_exp_iff if_distrib [of bit] if_distribR) auto
  then show ?thesis by (simp add: FMT_FORMAT_LOWER_def split: if_splits)
qed

lemma digit_char_0: "digit_char flags base 0 = ch CHR ''0''"
  using lower_cases [of flags] by (auto simp: digit_char_def fmt_digits_def)

lemma unat_ucast_u32: "unat (ucast (n::u64) :: u32) = unat n mod 2 ^ 32"
  by (simp add: unsigned_ucast_eq take_bit_eq_mod)

lemma nat_mod_64_32: "nat (v mod 2 ^ 64) mod 2 ^ 32 = nat (v mod 2 ^ 32)"
proof -
  have "v mod 2 ^ 64 mod 2 ^ 32 = v mod (2::int) ^ 32" by (rule mod_mod_cancel) simp
  moreover have "nat (v mod 2 ^ 64) mod nat (2 ^ 32) = nat (v mod 2 ^ 64 mod 2 ^ 32)"
    by (rule nat_mod_distrib [symmetric]) simp_all
  ultimately show ?thesis by (simp add: nat_power_eq)
qed

lemma int_mag_low:
  assumes v: "v \<in> value_range mo (has_flag flags FMT_FORMAT_CONV_SIGNED)"
    and n: "unat (n::u64) = (if has_flag flags FMT_FORMAT_CONV_SIGNED \<and> \<not> has_flag flags FMT_FORMAT_ALT_FORM
       then nat \<bar>v\<bar> else nat (v mod 2 ^ 64))"
  shows "int_mag flags base mo v = (if base = 10 \<and> mo \<noteq> FMT_MODIFIER_LONGLONG then unat (ucast n :: u32) else unat n)"
    and "int_mag flags base mo v = 0 \<longleftrightarrow> n = 0"
proof -
  have r: "mo \<noteq> FMT_MODIFIER_LONGLONG \<Longrightarrow> - (2 ^ 31) \<le> v \<and> v < 2 ^ 32"
    and r': "- (2 ^ 63) \<le> v \<and> v < 2 ^ 64"
    using v by (auto simp: value_range_def split: if_splits)
  have abs: "mo \<noteq> FMT_MODIFIER_LONGLONG \<Longrightarrow> nat \<bar>v\<bar> mod 2 ^ 32 = nat \<bar>v\<bar>" using r by (intro mod_less) auto
  show "int_mag flags base mo v = (if base = 10 \<and> mo \<noteq> FMT_MODIFIER_LONGLONG then unat (ucast n :: u32) else unat n)"
  proof (cases "base = 10 \<and> mo \<noteq> FMT_MODIFIER_LONGLONG")
    case True
    then show ?thesis using n abs nat_mod_64_32 [of v] unfolding int_mag_def unat_ucast_u32
      by (simp del: One_nat_def)
  next
    case False
    then show ?thesis using n unfolding int_mag_def by (simp only: if_False)
  qed
  have "v mod 2 ^ 64 = 0 \<longleftrightarrow> v = 0"
  proof
    assume z: "v mod 2 ^ 64 = 0"
    show "v = 0"
    proof (cases "0 \<le> v")
      case True
      then show ?thesis using z r' by simp
    next
      case False
      then have "(v + 2 ^ 64) mod 2 ^ 64 = v + 2 ^ 64" using r' by (intro mod_pos_pos_trivial) auto
      then show ?thesis using z r' False by simp
    qed
  qed simp
  moreover have "v mod 2 ^ 32 = 0 \<longleftrightarrow> v = 0" if "mo \<noteq> FMT_MODIFIER_LONGLONG"
  proof
    assume z: "v mod 2 ^ 32 = 0"
    show "v = 0"
    proof (cases "0 \<le> v")
      case True
      then show ?thesis using z r [OF that] by simp
    next
      case False
      then have "(v + 2 ^ 32) mod 2 ^ 32 = v + 2 ^ 32" using r [OF that] by (intro mod_pos_pos_trivial) auto
      then show ?thesis using z r [OF that] False by simp
    qed
  qed simp
  moreover have "0 \<le> v mod 2 ^ 64" "0 \<le> v mod 2 ^ 32" by simp_all
  ultimately show "int_mag flags base mo v = 0 \<longleftrightarrow> n = 0"
    using n unfolding unat_eq_0 [symmetric] int_mag_def by (auto simp: nat_eq_iff2)
qed

lemma sp_int_tmp_eq:
  assumes base: "sp_base st \<in> {8, 10, 16}"
    and mag: "mag = (if sp_base st = 10 \<and> sp_modifier st \<noteq> FMT_MODIFIER_LONGLONG then unat (ucast n :: u32) else unat n)"
      "mag = 0 \<longleftrightarrow> n = 0"
  shows "rev (sp_int_tmp st n) = int_digits (sp_flags st) (sp_base st) (sp_precision st) mag"
proof (cases "n = 0")
  case True
  then show ?thesis using mag by (simp add: sp_int_tmp_def int_digits_def ndigits_0 digit_char_0)
next
  case False
  then have m0: "mag \<noteq> 0" using mag(2) by simp
  have low: "digit_char (sp_flags st) (sp_base st) =
      (\<lambda>d. fmt_digits ! d OR ucast (sp_flags st AND FMT_FORMAT_LOWER))" if "sp_base st \<noteq> 10"
    using that by (simp add: digit_char_def fun_eq_iff)
  have dec: "digit_char (sp_flags st) 10 = (!) fmt_digits" by (simp add: digit_char_def fun_eq_iff)
  from base consider "sp_base st = 8" | "sp_base st = 10" | "sp_base st = 16" by auto
  then show ?thesis
  proof cases
    case 1
    then show ?thesis using False m0 mag low conv_pow2 [of 2 n]
      by (simp add: sp_int_tmp_def int_digits_def rev_map)
  next
    case 2
    then show ?thesis using False m0 mag dec
      by (auto simp: sp_int_tmp_def int_digits_def rev_map conv_dec64 conv_dec32)
  next
    case 3
    then show ?thesis using False m0 mag low conv_pow2 [of 3 n]
      by (simp add: sp_int_tmp_def int_digits_def rev_map)
  qed
qed

lemmas fmt_flag_defs = FMT_FORMAT_ALT_FORM_def FMT_FORMAT_ZERO_PAD_def FMT_FORMAT_LEFT_JUSTIFY_def
  FMT_FORMAT_BLANK_def FMT_FORMAT_SIGN_def FMT_FORMAT_LOWER_def FMT_FORMAT_CONV_SIGNED_def

lemma and_clear_zero_pad:
  assumes "NOT FMT_FORMAT_ZERO_PAD AND x = x"
  shows "clear_zero_pad flags p AND x = flags AND x"
  using assms by (simp add: clear_zero_pad_def and.assoc)

lemma clear_zero_pad_and [simp]:
  "clear_zero_pad f p AND FMT_FORMAT_ALT_FORM = f AND FMT_FORMAT_ALT_FORM"
  "clear_zero_pad f p AND FMT_FORMAT_LEFT_JUSTIFY = f AND FMT_FORMAT_LEFT_JUSTIFY"
  "clear_zero_pad f p AND FMT_FORMAT_BLANK = f AND FMT_FORMAT_BLANK"
  "clear_zero_pad f p AND FMT_FORMAT_SIGN = f AND FMT_FORMAT_SIGN"
  "clear_zero_pad f p AND FMT_FORMAT_LOWER = f AND FMT_FORMAT_LOWER"
  "clear_zero_pad f p AND FMT_FORMAT_CONV_SIGNED = f AND FMT_FORMAT_CONV_SIGNED"
  by (rule and_clear_zero_pad; simp add: fmt_flag_defs)+

lemma clear_zero_pad_has [simp]:
  "has_flag (clear_zero_pad f p) FMT_FORMAT_ALT_FORM = has_flag f FMT_FORMAT_ALT_FORM"
  "has_flag (clear_zero_pad f p) FMT_FORMAT_BLANK = has_flag f FMT_FORMAT_BLANK"
  "has_flag (clear_zero_pad f p) FMT_FORMAT_SIGN = has_flag f FMT_FORMAT_SIGN"
  "has_flag (clear_zero_pad f p) FMT_FORMAT_CONV_SIGNED = has_flag f FMT_FORMAT_CONV_SIGNED"
  by (simp_all add: has_flag_def)

lemma clear_zero_pad_texts [simp]:
  "int_prefix (clear_zero_pad f p) base sig = int_prefix f base sig"
  "int_sig (clear_zero_pad f p) v = int_sig f v"
  "int_digits (clear_zero_pad f p) base precision mag = int_digits f base precision mag"
  by (simp_all add: int_prefix_def int_sig_def int_digits_def digit_char_def [abs_def])

lemma produce_int_eq:
  assumes base: "sp_base st \<in> {8, 10, 16}"
    and v: "arg_value (sp_modifier st) (has_flag (sp_flags st) FMT_FORMAT_CONV_SIGNED) (sp_ap st) = Some (v, ap')"
  shows "\<exists>st'. fmt_sprintf_state_produce_int st = Some st' \<and>
    io st' = io (emit (int_text (sp_flags st) (sp_base st) (sp_modifier st) (sp_width st) (sp_precision st) v)
      (st\<lparr>sp_ap := ap'\<rparr>))"
proof -
  let ?f = "clear_zero_pad (sp_flags st) (sp_precision st)"
  let ?st = "st\<lparr>sp_ap := ap', sp_flags := ?f\<rparr>"
  have r: "v \<in> value_range (sp_modifier st) (has_flag (sp_flags ?st) FMT_FORMAT_CONV_SIGNED)"
    using arg_value_range [OF v] by simp
  obtain n where sg: "sp_int_sign ?st (word_of_int v) =
      (int_sig ?f v, n, sp_width st - int (length (int_prefix ?f (sp_base st) (int_sig ?f v))))"
    and n: "unat n = (if has_flag ?f FMT_FORMAT_CONV_SIGNED \<and> \<not> has_flag ?f FMT_FORMAT_ALT_FORM
       then nat \<bar>v\<bar> else nat (v mod 2 ^ 64))"
    using sp_int_sign_eq [OF r] by auto
  let ?st2 = "?st\<lparr>sp_width := sp_width st - int (length (int_prefix ?f (sp_base st) (int_sig ?f v)))\<rparr>"
  let ?mag = "int_mag (sp_flags st) (sp_base st) (sp_modifier st) v"
  have n': "unat n = (if has_flag (sp_flags st) FMT_FORMAT_CONV_SIGNED \<and> \<not> has_flag (sp_flags st) FMT_FORMAT_ALT_FORM
       then nat \<bar>v\<bar> else nat (v mod 2 ^ 64))" using n by simp
  have "rev (sp_int_tmp ?st2 n) = int_digits ?f (sp_base st) (sp_precision st) ?mag"
    using sp_int_tmp_eq [of ?st2 ?mag n] base int_mag_low [OF arg_value_range [OF v] n'] by simp
  then have tmp: "rev (sp_int_tmp ?st2 n) = int_digits (sp_flags st) (sp_base st) (sp_precision st) ?mag" by simp
  have fl: "(if has_flag (sp_flags x) FMT_FORMAT_LEFT_JUSTIFY \<or> 0 \<le> sp_precision x
      then x\<lparr>sp_flags := sp_flags x AND NOT FMT_FORMAT_ZERO_PAD\<rparr> else x) =
      x\<lparr>sp_flags := clear_zero_pad (sp_flags x) (sp_precision x)\<rparr>" for x
    by (simp add: clear_zero_pad_def)
  have e: "fmt_sprintf_state_produce_int st = Some (sp_int_output ?st2 (int_sig ?f v) (sp_int_tmp ?st2 n))"
    unfolding fmt_sprintf_state_produce_int_def fl Let_def
    using v sg by (simp add: sp_int_arg_value)
  have "io (sp_int_output ?st2 (int_sig ?f v) (sp_int_tmp ?st2 n)) =
    io (emit (justify ?f (sp_width st) (int_prefix ?f (sp_base st) (int_sig ?f v))
      (int_body (sp_precision st) (sp_int_tmp ?st2 n))) ?st2)"
    using sp_int_output_eq [of ?st2 "sp_width st" "int_sig ?f v" "sp_int_tmp ?st2 n"] by simp
  then show ?thesis
    using e tmp by (simp add: int_text_def int_body_def Let_def flip: tmp)
qed

end
