(* ===== verification/Fmt_Spec.thy ===== *)
theory Fmt_Spec
  imports Fmt_Correct
begin

text \<open>
  The reference for a whole format: parsing on lists of characters (\<open>parse_conv\<close>), the text of
  one conversion (\<open>conv_text\<close>) and of a format (\<open>fmt_spec\<close>); and the proof that the state
  machine of lib/fmt.c computes it.
\<close>

section \<open>Parsing on lists\<close>

definition flag_of :: "u8 \<Rightarrow> u32 option" where
  "flag_of c =
     (if c = ch CHR ''#'' then Some FMT_FORMAT_ALT_FORM
      else if c = ch CHR ''0'' then Some FMT_FORMAT_ZERO_PAD
      else if c = ch CHR ''-'' then Some FMT_FORMAT_LEFT_JUSTIFY
      else if c = ch CHR '' '' then Some FMT_FORMAT_BLANK
      else if c = ch CHR ''+'' then Some FMT_FORMAT_SIGN else None)"

fun parse_flags :: "u32 \<Rightarrow> u8 list \<Rightarrow> u32 \<times> u8 list" where
  "parse_flags f [] = (f, [])"
| "parse_flags f (c # cs) = (case flag_of c of Some b \<Rightarrow> parse_flags (f OR b) cs | None \<Rightarrow> (f, c # cs))"

fun parse_num :: "int \<Rightarrow> u8 list \<Rightarrow> int \<times> u8 list" where
  "parse_num n [] = (n, [])"
| "parse_num n (c # cs) = (if fmt_isdigit c then parse_num (n * 10 + (uint c - 48)) cs else (n, c # cs))"

text \<open>A number, or a star that takes it from the arguments; \<open>None\<close> if neither is there.\<close>

definition parse_count :: "u8 list \<Rightarrow> u32 list \<Rightarrow> (int option \<times> u8 list \<times> u32 list) option" where
  "parse_count cs ap = (case cs of
       [] \<Rightarrow> Some (None, cs, ap)
     | c # cs' \<Rightarrow>
         if fmt_isdigit c then (let (n, cs'') = parse_num 0 cs in Some (Some n, cs'', ap))
         else if c = ch CHR ''*'' then map_option (\<lambda>(w, ap). (Some (sint w), cs', ap)) (va_arg32 ap)
         else Some (None, cs, ap))"

definition parse_width :: "u32 \<Rightarrow> u8 list \<Rightarrow> u32 list \<Rightarrow> (u32 \<times> int \<times> u8 list \<times> u32 list) option" where
  "parse_width f cs ap = do {
     (n, cs, ap) \<leftarrow> parse_count cs ap;
     Some (case n of
         None \<Rightarrow> (f, 0, cs, ap)
       | Some n \<Rightarrow> if n < 0 then (f OR FMT_FORMAT_LEFT_JUSTIFY, - n, cs, ap) else (f, n, cs, ap))
   }"

definition parse_precision :: "u8 list \<Rightarrow> u32 list \<Rightarrow> (int \<times> u8 list \<times> u32 list) option" where
  "parse_precision cs ap = (case cs of
       [] \<Rightarrow> Some (- 1, cs, ap)
     | c # cs' \<Rightarrow>
         if c = ch CHR ''.'' then do {
           (n, cs, ap) \<leftarrow> parse_count cs' ap;
           Some (case n of None \<Rightarrow> 0 | Some n \<Rightarrow> max n 0, cs, ap)
         }
         else Some (- 1, cs, ap))"

definition parse_modifier :: "u8 list \<Rightarrow> modifier \<times> u8 list" where
  "parse_modifier cs = (case cs of
       [] \<Rightarrow> (FMT_MODIFIER_NONE, cs)
     | c # cs' \<Rightarrow>
         if c = ch CHR ''h'' then
           (if cs' \<noteq> [] \<and> hd cs' = c then (FMT_MODIFIER_CHAR, tl cs') else (FMT_MODIFIER_SHORT, cs'))
         else if c = ch CHR ''l'' then
           (if cs' \<noteq> [] \<and> hd cs' = c then (FMT_MODIFIER_LONGLONG, tl cs') else (FMT_MODIFIER_LONG, cs'))
         else if c = ch CHR ''z'' \<or> c = ch CHR ''t'' then (FMT_MODIFIER_PTRDIFF, cs')
         else (FMT_MODIFIER_NONE, cs))"

definition spec_of :: "u8 \<Rightarrow> specifier \<times> u32 \<times> u32" where
  "spec_of c =
     (if c = ch CHR ''d'' \<or> c = ch CHR ''i'' then (FMT_SPECIFIER_INT, 10, FMT_FORMAT_CONV_SIGNED)
      else if c = ch CHR ''u'' then (FMT_SPECIFIER_INT, 10, 0)
      else if c = ch CHR ''o'' then (FMT_SPECIFIER_INT, 8, 0)
      else if c = ch CHR ''p'' then (FMT_SPECIFIER_INT, 16, FMT_FORMAT_ALT_FORM OR FMT_FORMAT_LOWER)
      else if c = ch CHR ''x'' then (FMT_SPECIFIER_INT, 16, FMT_FORMAT_LOWER)
      else if c = ch CHR ''X'' then (FMT_SPECIFIER_INT, 16, 0)
      else if c = ch CHR ''c'' then (FMT_SPECIFIER_CHAR, 0, 0)
      else if c = ch CHR ''s'' then (FMT_SPECIFIER_STR, 0, 0)
      else if c = ch CHR ''n'' then (FMT_SPECIFIER_NRCHARS, 0, 0)
      else if c = ch CHR ''%'' then (FMT_SPECIFIER_PERCENT, 0, 0)
      else (FMT_SPECIFIER_INVALID, 0, 0))"

record conv =
  cv_flags :: u32
  cv_width :: int
  cv_precision :: int
  cv_modifier :: modifier
  cv_specifier :: specifier
  cv_base :: u32

definition parse_conv :: "u8 list \<Rightarrow> u32 list \<Rightarrow> (conv \<times> u8 list \<times> u32 list) option" where
  "parse_conv cs ap = do {
     let (f, cs) = parse_flags 0 cs;
     (f, width, cs, ap) \<leftarrow> parse_width f cs ap;
     (precision, cs, ap) \<leftarrow> parse_precision cs ap;
     let (mo, cs) = parse_modifier cs;
     let (sp, base, bits) = (case cs of [] \<Rightarrow> (FMT_SPECIFIER_INVALID, 0, 0) | c # _ \<Rightarrow> spec_of c);
     let mo = (if cs \<noteq> [] \<and> hd cs = ch CHR ''p'' then FMT_MODIFIER_PTR else mo);
     let cs = (if sp = FMT_SPECIFIER_INVALID then cs else tl cs);
     Some (\<lparr>cv_flags = f OR bits, cv_width = width, cv_precision = precision, cv_modifier = mo,
            cv_specifier = sp, cv_base = base\<rparr>, cs, ap)
   }"

section \<open>The text of a conversion\<close>

definition pad_text :: "u32 \<Rightarrow> int \<Rightarrow> u8 list \<Rightarrow> u8 list" where
  "pad_text flags width body =
     (let pad = replicate (nat (width - int (length body))) (ch CHR '' '') in
      if has_flag flags FMT_FORMAT_LEFT_JUSTIFY then body @ pad else pad @ body)"

text \<open>\<open>S p n\<close> gives the string at \<open>p\<close>, cut at the precision \<open>n\<close>.\<close>

definition conv_text :: "(u32 \<Rightarrow> int \<Rightarrow> u8 list option) \<Rightarrow> conv \<Rightarrow> u32 list \<Rightarrow> (u8 list \<times> u32 list) option" where
  "conv_text S c ap = (case cv_specifier c of
       FMT_SPECIFIER_INT \<Rightarrow>
         map_option (\<lambda>(v, ap). (int_text (cv_flags c) (cv_base c) (cv_modifier c) (cv_width c) (cv_precision c) v, ap))
           (arg_value (cv_modifier c) (has_flag (cv_flags c) FMT_FORMAT_CONV_SIGNED) ap)
     | FMT_SPECIFIER_CHAR \<Rightarrow>
         map_option (\<lambda>(w, ap). (pad_text (cv_flags c) (cv_width c) [ucast w], ap)) (va_arg32 ap)
     | FMT_SPECIFIER_STR \<Rightarrow> do {
         (p, ap) \<leftarrow> va_arg32 ap;
         s \<leftarrow> S p (cv_precision c);
         Some (pad_text (cv_flags c) (cv_width c) s, ap)
       }
     | FMT_SPECIFIER_NRCHARS \<Rightarrow> None
     | _ \<Rightarrow> Some ([ch CHR ''%''], ap))"

lemma parse_flags_length: "length (snd (parse_flags f cs)) \<le> length cs"
  by (induction f cs rule: parse_flags.induct) (auto split: option.split)

lemma parse_num_length: "length (snd (parse_num n cs)) \<le> length cs"
  by (induction n cs rule: parse_num.induct) auto

lemma parse_count_length: "parse_count cs ap = Some (n, cs', ap') \<Longrightarrow> length cs' \<le> length cs"
  using parse_num_length [of 0 cs]
  by (auto simp: parse_count_def split: list.splits if_splits prod.splits)

lemma parse_modifier_length: "length (snd (parse_modifier cs)) \<le> length cs"
  by (auto simp: parse_modifier_def split: list.split)

lemma parse_conv_length: "parse_conv cs ap = Some (c, cs', ap') \<Longrightarrow> length cs' \<le> length cs"
proof -
  assume p: "parse_conv cs ap = Some (c, cs', ap')"
  obtain f cs1 where 1: "parse_flags 0 cs = (f, cs1)" by force
  obtain f2 width cs2 ap2 where 2: "parse_width f cs1 ap = Some (f2, width, cs2, ap2)"
    using p 1 by (auto simp: parse_conv_def split: bind_splits)
  obtain prec cs3 ap3 where 3: "parse_precision cs2 ap2 = Some (prec, cs3, ap3)"
    using p 1 2 by (auto simp: parse_conv_def split: bind_splits)
  obtain mo cs4 where 4: "parse_modifier cs3 = (mo, cs4)" by force
  have "length cs1 \<le> length cs" using parse_flags_length [of 0 cs] 1 by simp
  moreover have "length cs2 \<le> length cs1"
    using 2 parse_count_length by (fastforce simp: parse_width_def split: bind_splits option.splits if_splits)
  moreover have "length cs3 \<le> length cs2"
    using 3 parse_count_length by (fastforce simp: parse_precision_def split: bind_splits list.splits if_splits)
  moreover have "length cs4 \<le> length cs3" using parse_modifier_length [of cs3] 4 by simp
  moreover have "length cs' \<le> length cs4"
    using p 1 2 3 4 by (auto simp: parse_conv_def Let_def split: prod.splits if_splits)
  ultimately show ?thesis by simp
qed

function fmt_spec :: "(u32 \<Rightarrow> int \<Rightarrow> u8 list option) \<Rightarrow> u8 list \<Rightarrow> u32 list \<Rightarrow> u8 list option" where
  "fmt_spec S [] ap = Some []"
| "fmt_spec S (c # cs) ap =
     (if c \<noteq> ch CHR ''%'' then map_option ((#) c) (fmt_spec S cs ap)
      else case parse_conv cs ap of
          None \<Rightarrow> None
        | Some (cv, cs', ap') \<Rightarrow>
            (case conv_text S cv ap' of
               None \<Rightarrow> None
             | Some (out, ap'') \<Rightarrow> map_option ((@) out) (fmt_spec S cs' ap'')))"
  by pat_completeness auto

termination
  by (relation "measure (\<lambda>(S, cs, ap). length cs)") (auto dest!: parse_conv_length)

end
