(* ===== verification/Fmt_Refine.thy ===== *)
theory Fmt_Refine
  imports Fmt_Spec
begin

text \<open>The state machine of lib/fmt.c computes the reference of theory Fmt_Spec.\<close>

text \<open>Updates of different fields, in the order of the record.\<close>

lemma sp_upd_order [simp]:
  "st\<lparr>sp_ap := ap, sp_format := p\<rparr> = st\<lparr>sp_format := p, sp_ap := ap\<rparr>"
  "st\<lparr>sp_width := w, sp_format := p\<rparr> = st\<lparr>sp_format := p, sp_width := w\<rparr>"
  "st\<lparr>sp_precision := n, sp_format := p\<rparr> = st\<lparr>sp_format := p, sp_precision := n\<rparr>"
  "st\<lparr>sp_flags := f, sp_format := p\<rparr> = st\<lparr>sp_format := p, sp_flags := f\<rparr>"
  "st\<lparr>sp_modifier := mo, sp_format := p\<rparr> = st\<lparr>sp_format := p, sp_modifier := mo\<rparr>"
  "st\<lparr>sp_specifier := sp, sp_format := p\<rparr> = st\<lparr>sp_format := p, sp_specifier := sp\<rparr>"
  "st\<lparr>sp_base := b, sp_format := p\<rparr> = st\<lparr>sp_format := p, sp_base := b\<rparr>"
  "st\<lparr>sp_width := w, sp_ap := ap\<rparr> = st\<lparr>sp_ap := ap, sp_width := w\<rparr>"
  "st\<lparr>sp_precision := n, sp_ap := ap\<rparr> = st\<lparr>sp_ap := ap, sp_precision := n\<rparr>"
  "st\<lparr>sp_flags := f, sp_ap := ap\<rparr> = st\<lparr>sp_ap := ap, sp_flags := f\<rparr>"
  "st\<lparr>sp_modifier := mo, sp_ap := ap\<rparr> = st\<lparr>sp_ap := ap, sp_modifier := mo\<rparr>"
  "st\<lparr>sp_specifier := sp, sp_ap := ap\<rparr> = st\<lparr>sp_ap := ap, sp_specifier := sp\<rparr>"
  "st\<lparr>sp_base := b, sp_ap := ap\<rparr> = st\<lparr>sp_ap := ap, sp_base := b\<rparr>"
  "st\<lparr>sp_precision := n, sp_width := w\<rparr> = st\<lparr>sp_width := w, sp_precision := n\<rparr>"
  "st\<lparr>sp_flags := f, sp_width := w\<rparr> = st\<lparr>sp_width := w, sp_flags := f\<rparr>"
  "st\<lparr>sp_modifier := mo, sp_width := w\<rparr> = st\<lparr>sp_width := w, sp_modifier := mo\<rparr>"
  "st\<lparr>sp_specifier := sp, sp_width := w\<rparr> = st\<lparr>sp_width := w, sp_specifier := sp\<rparr>"
  "st\<lparr>sp_base := b, sp_width := w\<rparr> = st\<lparr>sp_width := w, sp_base := b\<rparr>"
  "st\<lparr>sp_flags := f, sp_precision := n\<rparr> = st\<lparr>sp_precision := n, sp_flags := f\<rparr>"
  "st\<lparr>sp_modifier := mo, sp_precision := n\<rparr> = st\<lparr>sp_precision := n, sp_modifier := mo\<rparr>"
  "st\<lparr>sp_specifier := sp, sp_precision := n\<rparr> = st\<lparr>sp_precision := n, sp_specifier := sp\<rparr>"
  "st\<lparr>sp_base := b, sp_precision := n\<rparr> = st\<lparr>sp_precision := n, sp_base := b\<rparr>"
  "st\<lparr>sp_modifier := mo, sp_flags := f\<rparr> = st\<lparr>sp_flags := f, sp_modifier := mo\<rparr>"
  "st\<lparr>sp_specifier := sp, sp_flags := f\<rparr> = st\<lparr>sp_flags := f, sp_specifier := sp\<rparr>"
  "st\<lparr>sp_base := b, sp_flags := f\<rparr> = st\<lparr>sp_flags := f, sp_base := b\<rparr>"
  "st\<lparr>sp_specifier := sp, sp_modifier := mo\<rparr> = st\<lparr>sp_modifier := mo, sp_specifier := sp\<rparr>"
  "st\<lparr>sp_base := b, sp_modifier := mo\<rparr> = st\<lparr>sp_modifier := mo, sp_base := b\<rparr>"
  "st\<lparr>sp_base := b, sp_specifier := sp\<rparr> = st\<lparr>sp_specifier := sp, sp_base := b\<rparr>"
  by simp_all

text \<open>A string whose bytes, with the terminator, lie at addresses that satisfy \<open>P\<close>.\<close>

fun cstr_in :: "(u32 \<Rightarrow> bool) \<Rightarrow> bytes \<Rightarrow> u32 \<Rightarrow> u8 list \<Rightarrow> bool" where
  "cstr_in P m a [] \<longleftrightarrow> m a = 0 \<and> P a"
| "cstr_in P m a (x # xs) \<longleftrightarrow> m a = x \<and> x \<noteq> 0 \<and> P a \<and> cstr_in P m (a + 1) xs"

lemma cstr_in_cong: "cstr_in P m a xs \<Longrightarrow> (\<And>a. P a \<Longrightarrow> m' a = m a) \<Longrightarrow> cstr_in P m' a xs"
  by (induction xs arbitrary: a) auto

section \<open>Reading the format\<close>

lemma consume_Cons:
  "cstr_in P (sp_mem st) (sp_format st) (c # cs) \<Longrightarrow>
   fmt_sprintf_state_consume_format st = (c, st\<lparr>sp_format := sp_format st + 1\<rparr>) \<and>
   cstr_in P (sp_mem st) (sp_format st + 1) cs"
  by (simp add: fmt_sprintf_state_consume_format_def fmt_consume_def)

lemma consume_Nil:
  "cstr_in P (sp_mem st) (sp_format st) [] \<Longrightarrow>
   fmt_sprintf_state_consume_format st = (0, st\<lparr>sp_format := sp_format st + 1\<rparr>)"
  by (simp add: fmt_sprintf_state_consume_format_def fmt_consume_def)

lemma restore_format: "fmt_sprintf_state_restore_format st = st\<lparr>sp_format := sp_format st - 1\<rparr>"
  by (simp add: fmt_sprintf_state_restore_format_def fmt_restore_def)

text \<open>The next character, null at the end.\<close>

lemma consume_peek:
  assumes "cstr_in P (sp_mem st) (sp_format st) cs"
  shows "fmt_sprintf_state_consume_format st =
    ((case cs of [] \<Rightarrow> 0 | c # _ \<Rightarrow> c), st\<lparr>sp_format := sp_format st + 1\<rparr>)"
  using assms consume_Cons consume_Nil by (cases cs) auto

lemma ch_not_0 [simp]: "flag_of 0 = None" "\<not> fmt_isdigit 0" "spec_of 0 = (FMT_SPECIFIER_INVALID, 0, 0)"
  by (simp_all add: flag_of_def fmt_isdigit_def spec_of_def word_le_nat_alt)

lemma sp_flags_loop_step:
  "sp_flags_loop st =
     (let (c, st) = fmt_sprintf_state_consume_format st in
      case flag_of c of Some b \<Rightarrow> sp_flags_loop (sp_set_flag b st) | None \<Rightarrow> Some st)"
  by (subst sp_flags_loop.simps) (simp add: flag_of_def split: prod.split)

lemma sp_flags_loop_eq:
  "cstr_in P (sp_mem st) (sp_format st) cs \<Longrightarrow> parse_flags (sp_flags st) cs = (f, cs') \<Longrightarrow>
   \<exists>p. sp_flags_loop st = Some (st\<lparr>sp_format := p + 1, sp_flags := f\<rparr>) \<and> cstr_in P (sp_mem st) p cs'"
proof (induction cs arbitrary: st)
  case Nil
  then show ?case
    by (intro exI [of _ "sp_format st"]) (simp add: sp_flags_loop_step [of st] consume_Nil)
next
  case (Cons c cs)
  note c = consume_Cons [OF Cons.prems(1)]
  show ?case
  proof (cases "flag_of c")
    case None
    then show ?thesis using Cons.prems c
      by (intro exI [of _ "sp_format st"]) (auto simp: sp_flags_loop_step [of st])
  next
    case (Some b)
    let ?st = "sp_set_flag b (st\<lparr>sp_format := sp_format st + 1\<rparr>)"
    have "\<exists>p. sp_flags_loop ?st = Some (?st\<lparr>sp_format := p + 1, sp_flags := f\<rparr>) \<and> cstr_in P (sp_mem ?st) p cs'"
      by (rule Cons.IH) (use Cons.prems c Some in \<open>auto simp: sp_set_flag_def\<close>)
    then show ?thesis using Some c by (auto simp: sp_flags_loop_step [of st] sp_set_flag_def)
  qed
qed

lemma consume_flags_eq:
  assumes "cstr_in P (sp_mem st) (sp_format st) cs" and "parse_flags 0 cs = (f, cs')"
  shows "\<exists>p. fmt_sprintf_state_consume_flags st = Some (st\<lparr>sp_format := p, sp_flags := f\<rparr>) \<and> cstr_in P (sp_mem st) p cs'"
  using sp_flags_loop_eq [of P "st\<lparr>sp_flags := 0\<rparr>" cs f cs'] assms
  by (auto simp: fmt_sprintf_state_consume_flags_def restore_format)

lemma sp_width_loop_eq:
  "cstr_in P (sp_mem st) (sp_format st) cs \<Longrightarrow> parse_num (sp_width st * 10 + (uint c - 48)) cs = (n, cs') \<Longrightarrow>
   \<exists>p. sp_width_loop c st = Some (st\<lparr>sp_format := p + 1, sp_width := n\<rparr>) \<and> cstr_in P (sp_mem st) p cs'"
proof (induction cs arbitrary: st c)
  case Nil
  then show ?case using consume_Nil [of P "st\<lparr>sp_width := sp_width st * 10 + (uint c - 48)\<rparr>"]
    by (intro exI [of _ "sp_format st"]) (simp add: sp_width_loop.simps [of c st] Let_def)
next
  case (Cons d cs)
  let ?st = "st\<lparr>sp_width := sp_width st * 10 + (uint c - 48)\<rparr>"
  have c: "fmt_sprintf_state_consume_format ?st = (d, ?st\<lparr>sp_format := sp_format st + 1\<rparr>)"
    "cstr_in P (sp_mem st) (sp_format st + 1) cs"
    using consume_Cons [of P ?st d cs] Cons.prems(1) by auto
  show ?case
  proof (cases "fmt_isdigit d")
    case True
    let ?st2 = "?st\<lparr>sp_format := sp_format st + 1\<rparr>"
    have "\<exists>p. sp_width_loop d ?st2 = Some (?st2\<lparr>sp_format := p + 1, sp_width := n\<rparr>) \<and> cstr_in P (sp_mem ?st2) p cs'"
      by (rule Cons.IH) (use Cons.prems c True in auto)
    then show ?thesis using c True by (simp add: sp_width_loop.simps [of c st] Let_def)
  next
    case False
    then show ?thesis using Cons.prems c
      by (intro exI [of _ "sp_format st"]) (auto simp: sp_width_loop.simps [of c st] Let_def)
  qed
qed

lemma sp_precision_loop_eq:
  "cstr_in P (sp_mem st) (sp_format st) cs \<Longrightarrow> parse_num (sp_precision st * 10 + (uint c - 48)) cs = (n, cs') \<Longrightarrow>
   \<exists>p. sp_precision_loop c st = Some (st\<lparr>sp_format := p + 1, sp_precision := n\<rparr>) \<and> cstr_in P (sp_mem st) p cs'"
proof (induction cs arbitrary: st c)
  case Nil
  then show ?case using consume_Nil [of P "st\<lparr>sp_precision := sp_precision st * 10 + (uint c - 48)\<rparr>"]
    by (intro exI [of _ "sp_format st"]) (simp add: sp_precision_loop.simps [of c st] Let_def)
next
  case (Cons d cs)
  let ?st = "st\<lparr>sp_precision := sp_precision st * 10 + (uint c - 48)\<rparr>"
  have c: "fmt_sprintf_state_consume_format ?st = (d, ?st\<lparr>sp_format := sp_format st + 1\<rparr>)"
    "cstr_in P (sp_mem st) (sp_format st + 1) cs"
    using consume_Cons [of P ?st d cs] Cons.prems(1) by auto
  show ?case
  proof (cases "fmt_isdigit d")
    case True
    let ?st2 = "?st\<lparr>sp_format := sp_format st + 1\<rparr>"
    have "\<exists>p. sp_precision_loop d ?st2 = Some (?st2\<lparr>sp_format := p + 1, sp_precision := n\<rparr>) \<and> cstr_in P (sp_mem ?st2) p cs'"
      by (rule Cons.IH) (use Cons.prems c True in auto)
    then show ?thesis using c True by (simp add: sp_precision_loop.simps [of c st] Let_def)
  next
    case False
    then show ?thesis using Cons.prems c
      by (intro exI [of _ "sp_format st"]) (auto simp: sp_precision_loop.simps [of c st] Let_def)
  qed
qed

lemma isdigit_uint: "fmt_isdigit c \<Longrightarrow> 48 \<le> uint c"
  by (simp add: fmt_isdigit_def word_le_def)

lemma parse_num_nonneg: "parse_num k cs = (n, cs') \<Longrightarrow> 0 \<le> k \<Longrightarrow> 0 \<le> n"
proof (induction k cs rule: parse_num.induct)
  case (2 k c cs)
  then show ?case using isdigit_uint [of c] by (auto split: if_splits)
qed simp

lemma isdigit_not: "fmt_isdigit c \<Longrightarrow> c \<noteq> ch CHR ''*''"
  by (auto simp: fmt_isdigit_def word_le_nat_alt)

lemma consume_width_eq:
  assumes at: "cstr_in P (sp_mem st) (sp_format st) cs"
    and p: "parse_width (sp_flags st) cs (sp_ap st) = Some (f, w, cs', ap')"
  shows "\<exists>p. fmt_sprintf_state_consume_width st =
      Some (st\<lparr>sp_format := p, sp_ap := ap', sp_width := w, sp_flags := f\<rparr>) \<and> cstr_in P (sp_mem st) p cs'"
proof (cases cs)
  case Nil
  then show ?thesis
    using assms consume_Nil [of P st]
    by (intro exI [of _ "sp_format st"])
      (auto simp: fmt_sprintf_state_consume_width_def parse_width_def parse_count_def restore_format)
next
  case (Cons c cs1)
  note c = consume_Cons [OF at [unfolded Cons]]
  show ?thesis
  proof (cases "fmt_isdigit c")
    case True
    obtain n cs2 where n: "parse_num 0 cs = (n, cs2)" by force
    let ?st = "st\<lparr>sp_format := sp_format st + 1, sp_width := 0\<rparr>"
    have "parse_num (0 * 10 + (uint c - 48)) cs1 = (n, cs2)" using n Cons True by simp
    then obtain q where q: "sp_width_loop c ?st = Some (?st\<lparr>sp_format := q + 1, sp_width := n\<rparr>)"
        "cstr_in P (sp_mem st) q cs2"
      using sp_width_loop_eq [of P ?st cs1 c n cs2] c by auto
    have "0 \<le> n" by (rule parse_num_nonneg [OF n]) simp
    then show ?thesis
      using p n q c True Cons
      by (intro exI [of _ q])
        (auto simp: fmt_sprintf_state_consume_width_def parse_width_def parse_count_def restore_format)
  next
    case False
    then show ?thesis
      using p c Cons at
      by (intro exI [of _ "if c = ch CHR ''*'' then sp_format st + 1 else sp_format st"];
          cases "c = ch CHR ''*''"; cases "va_arg32 (sp_ap st)")
        (auto simp: fmt_sprintf_state_consume_width_def parse_width_def parse_count_def restore_format
          sp_set_flag_def Let_def split: if_splits)
  qed
qed

lemma consume_precision_eq:
  assumes at: "cstr_in P (sp_mem st) (sp_format st) cs"
    and p: "parse_precision cs (sp_ap st) = Some (n, cs', ap')"
  shows "\<exists>p. fmt_sprintf_state_consume_precision st =
      Some (st\<lparr>sp_format := p, sp_ap := ap', sp_precision := n\<rparr>) \<and> cstr_in P (sp_mem st) p cs'"
proof (cases "cs \<noteq> [] \<and> hd cs = ch CHR ''.''")
  case False
  then show ?thesis
    using assms consume_peek [OF at]
    by (intro exI [of _ "sp_format st"])
      (auto simp: fmt_sprintf_state_consume_precision_def parse_precision_def restore_format split: list.splits)
next
  case True
  then obtain cs1 where cs: "cs = ch CHR ''.'' # cs1" by (cases cs) auto
  let ?st = "st\<lparr>sp_format := sp_format st + 1\<rparr>"
  have c: "fmt_sprintf_state_consume_format st = (ch CHR ''.'', ?st)" "cstr_in P (sp_mem ?st) (sp_format ?st) cs1"
    using consume_Cons [OF at [unfolded cs]] by auto
  note pk = consume_peek [OF c(2)]
  obtain k where k: "parse_count cs1 (sp_ap st) = Some (k, cs', ap')"
    and n: "n = (case k of None \<Rightarrow> 0 | Some n \<Rightarrow> max n 0)"
    using p by (auto simp: parse_precision_def cs split: bind_splits)
  show ?thesis
  proof (cases "cs1 \<noteq> [] \<and> fmt_isdigit (hd cs1)")
    case True
    then obtain d cs2 where cs1: "cs1 = d # cs2" "fmt_isdigit d" by (cases cs1) auto
    obtain j cs3 where j: "parse_num 0 cs1 = (j, cs3)" by force
    let ?st2 = "st\<lparr>sp_format := sp_format st + 1 + 1, sp_precision := 0\<rparr>"
    have "parse_num (0 * 10 + (uint d - 48)) cs2 = (j, cs3)" using j cs1 by simp
    then obtain q where q: "sp_precision_loop d ?st2 = Some (?st2\<lparr>sp_format := q + 1, sp_precision := j\<rparr>)"
        "cstr_in P (sp_mem st) q cs3"
      using sp_precision_loop_eq [of P ?st2 cs2 d j cs3] c(2) cs1 by auto
    have "0 \<le> j" by (rule parse_num_nonneg [OF j]) simp
    then show ?thesis
      using k n q j pk c(1) cs1
      by (intro exI [of _ q])
        (auto simp: fmt_sprintf_state_consume_precision_def parse_count_def restore_format max_def)
  next
    case False
    show ?thesis
    proof (cases "cs1 \<noteq> [] \<and> hd cs1 = ch CHR ''*''")
      case True
      then obtain cs2 where cs1: "cs1 = ch CHR ''*'' # cs2" by (cases cs1) auto
      then show ?thesis
        using k n pk c False
        by (intro exI [of _ "sp_format st + 1 + 1"])
          (auto simp: fmt_sprintf_state_consume_precision_def parse_count_def max_def Let_def)
    next
      case ns: False
      then show ?thesis
        using k n pk c False
        by (intro exI [of _ "sp_format st + 1"])
          (auto simp: fmt_sprintf_state_consume_precision_def parse_count_def restore_format split: list.splits if_splits)
    qed
  qed
qed

lemma consume_modifier_eq:
  assumes at: "cstr_in P (sp_mem st) (sp_format st) cs" and p: "parse_modifier cs = (mo, cs')"
  shows "\<exists>p. fmt_sprintf_state_consume_modifier st = st\<lparr>sp_format := p, sp_modifier := mo\<rparr> \<and> cstr_in P (sp_mem st) p cs'"
proof (cases cs)
  case Nil
  then show ?thesis
    using assms consume_Nil [of P st]
    by (intro exI [of _ "sp_format st"])
      (auto simp: fmt_sprintf_state_consume_modifier_def parse_modifier_def restore_format)
next
  case (Cons c cs1)
  let ?st = "st\<lparr>sp_format := sp_format st + 1\<rparr>"
  have c: "fmt_sprintf_state_consume_format st = (c, ?st)" "cstr_in P (sp_mem ?st) (sp_format ?st) cs1"
    using consume_Cons [OF at [unfolded Cons]] by auto
  note pk = consume_peek [OF c(2)]
  have nz: "c \<noteq> 0" using at Cons by simp
  show ?thesis
  proof (cases "c = ch CHR ''h'' \<or> c = ch CHR ''l''")
    case True
    then show ?thesis
    proof (cases "cs1 \<noteq> [] \<and> hd cs1 = c")
      case tw: True
      then obtain cs2 where "cs1 = c # cs2" by (cases cs1) auto
      then show ?thesis using True tw p Cons c pk
        by (intro exI [of _ "sp_format st + 1 + 1"])
          (auto simp: fmt_sprintf_state_consume_modifier_def parse_modifier_def)
    next
      case False
      then have "(case cs1 of [] \<Rightarrow> 0 | d # _ \<Rightarrow> d) \<noteq> c" using nz by (cases cs1) auto
      then show ?thesis using True False p Cons c pk
        by (intro exI [of _ "sp_format st + 1"])
          (auto simp: fmt_sprintf_state_consume_modifier_def parse_modifier_def restore_format)
    qed
  next
    case False
    then show ?thesis using p Cons c at
      by (intro exI [of _ "if c = ch CHR ''z'' \<or> c = ch CHR ''t'' then sp_format st + 1 else sp_format st"])
        (auto simp: fmt_sprintf_state_consume_modifier_def parse_modifier_def restore_format Let_def split: if_splits)
  qed
qed

lemma consume_specifier_step:
  "fmt_sprintf_state_consume_specifier st =
     (let (c, st) = fmt_sprintf_state_consume_format st; (sp, b, bits) = spec_of c in
      if sp = FMT_SPECIFIER_INVALID then fmt_sprintf_state_restore_format (st\<lparr>sp_specifier := sp\<rparr>)
      else st\<lparr>sp_flags := sp_flags st OR bits,
        sp_modifier := (if c = ch CHR ''p'' then FMT_MODIFIER_PTR else sp_modifier st),
        sp_specifier := sp, sp_base := if sp = FMT_SPECIFIER_INT then b else sp_base st\<rparr>)"
proof -
  obtain c st1 where c: "fmt_sprintf_state_consume_format st = (c, st1)" by force
  show ?thesis
  proof (cases "c \<in> set (map ch ''diuopxXcsn%'')")
    case False
    then show ?thesis unfolding fmt_sprintf_state_consume_specifier_def c
      by (simp add: spec_of_def)
  next
    case True
    then have "c = 100 \<or> c = 105 \<or> c = 117 \<or> c = 111 \<or> c = 112 \<or> c = 120 \<or> c = 88 \<or> c = 99 \<or> c = 115 \<or>
        c = 110 \<or> c = 37" by simp
    then show ?thesis unfolding fmt_sprintf_state_consume_specifier_def c
      by (elim disjE) (simp_all add: spec_of_def sp_set_flag_def or.assoc)
  qed
qed

text \<open>The specifier of the next character: 0 stands for the end of the format.\<close>

lemma consume_specifier_eq:
  assumes at: "cstr_in P (sp_mem st) (sp_format st) cs"
    and sp: "(case cs of [] \<Rightarrow> (FMT_SPECIFIER_INVALID, 0, 0) | c # _ \<Rightarrow> spec_of c) = (sp, b, bits)"
  shows "\<exists>p b'. fmt_sprintf_state_consume_specifier st =
      st\<lparr>sp_format := p, sp_flags := sp_flags st OR bits,
         sp_modifier := (if cs \<noteq> [] \<and> hd cs = ch CHR ''p'' then FMT_MODIFIER_PTR else sp_modifier st),
         sp_specifier := sp, sp_base := b'\<rparr> \<and>
    (sp = FMT_SPECIFIER_INT \<longrightarrow> b' = b) \<and>
    cstr_in P (sp_mem st) p (if sp = FMT_SPECIFIER_INVALID then cs else tl cs)"
proof -
  let ?c = "case cs of [] \<Rightarrow> 0 | c # _ \<Rightarrow> c"
  note pk = consume_peek [OF at]
  have c: "spec_of ?c = (sp, b, bits)" using sp by (cases cs) auto
  have hd: "?c \<noteq> 0 \<Longrightarrow> cs \<noteq> [] \<and> ?c = hd cs \<and> cstr_in P (sp_mem st) (sp_format st + 1) (tl cs)"
    using at by (cases cs) auto
  have p: "(cs \<noteq> [] \<and> hd cs = ch CHR ''p'') = (?c = ch CHR ''p'')" by (cases cs) auto
  show ?thesis
  proof (cases "sp = FMT_SPECIFIER_INVALID")
    case True
    have "bits = 0" "?c \<noteq> ch CHR ''p''" using c True by (auto simp: spec_of_def split: if_splits)
    then show ?thesis
      using True c at unfolding p consume_specifier_step pk
      by (intro exI [of _ "sp_format st"] exI [of _ "sp_base st"]) (simp add: restore_format)
  next
    case False
    then have "?c \<noteq> 0" using c by auto
    note h = hd [OF this]
    have at': "cstr_in P (sp_mem st) (sp_format st + 1) (tl cs)" using h by blast
    show ?thesis
      using False c at' unfolding p consume_specifier_step pk
      by (intro exI [of _ "sp_format st + 1"]
          exI [of _ "if sp = FMT_SPECIFIER_INT then b else sp_base st"]) simp
  qed
qed

lemma consume_conv_eq:
  assumes at: "cstr_in P (sp_mem st) (sp_format st) (ch CHR ''%'' # cs)"
    and p: "parse_conv cs (sp_ap st) = Some (cv, cs', ap')"
  shows "\<exists>st'. fmt_sprintf_state_consume st = Some (None, st') \<and> cstr_in P (sp_mem st) (sp_format st') cs' \<and>
    sp_mem st' = sp_mem st \<and> sp_ap st' = ap' \<and> sp_str st' = sp_str st \<and> sp_start st' = sp_start st \<and>
    sp_end st' = sp_end st \<and> sp_flags st' = cv_flags cv \<and> sp_width st' = cv_width cv \<and>
    sp_precision st' = cv_precision cv \<and> sp_modifier st' = cv_modifier cv \<and> sp_specifier st' = cv_specifier cv \<and>
    (cv_specifier cv = FMT_SPECIFIER_INT \<longrightarrow> sp_base st' = cv_base cv)"
proof -
  let ?st0 = "st\<lparr>sp_format := sp_format st + 1\<rparr>"
  obtain f1 cs1 where 1: "parse_flags 0 cs = (f1, cs1)" by force
  obtain f2 w cs2 ap2 where 2: "parse_width f1 cs1 (sp_ap st) = Some (f2, w, cs2, ap2)"
    using p 1 by (auto simp: parse_conv_def split: bind_splits)
  obtain n cs3 where 3: "parse_precision cs2 ap2 = Some (n, cs3, ap')"
    using p 1 2 by (auto simp: parse_conv_def Let_def split: bind_splits prod.splits)
  obtain mo cs4 where 4: "parse_modifier cs3 = (mo, cs4)" by force
  obtain sp b bits where 5: "(case cs4 of [] \<Rightarrow> (FMT_SPECIFIER_INVALID, 0, 0) | c # _ \<Rightarrow> spec_of c) = (sp, b, bits)"
    by (metis prod_cases3)
  have cv: "cv = \<lparr>cv_flags = f2 OR bits, cv_width = w, cv_precision = n,
      cv_modifier = (if cs4 \<noteq> [] \<and> hd cs4 = ch CHR ''p'' then FMT_MODIFIER_PTR else mo),
      cv_specifier = sp, cv_base = b\<rparr>" "cs' = (if sp = FMT_SPECIFIER_INVALID then cs4 else tl cs4)"
    using p 1 2 3 4 5 by (simp_all add: parse_conv_def Let_def)
  have c0: "cstr_in P (sp_mem ?st0) (sp_format ?st0) cs" using at by simp
  obtain p1 where s1: "fmt_sprintf_state_consume_flags ?st0 = Some (st\<lparr>sp_format := p1, sp_flags := f1\<rparr>)"
    (is "_ = Some ?st1") "cstr_in P (sp_mem st) p1 cs1"
    using consume_flags_eq [OF c0 1] by auto
  have "parse_width (sp_flags ?st1) cs1 (sp_ap ?st1) = Some (f2, w, cs2, ap2)" using 2 by simp
  from consume_width_eq [OF _ this] obtain p2 where
    s2: "fmt_sprintf_state_consume_width ?st1 = Some (st\<lparr>sp_format := p2, sp_ap := ap2, sp_width := w, sp_flags := f2\<rparr>)"
    (is "_ = Some ?st2") "cstr_in P (sp_mem st) p2 cs2"
    using s1(2) by auto
  have "parse_precision cs2 (sp_ap ?st2) = Some (n, cs3, ap')" using 3 by simp
  from consume_precision_eq [OF _ this] obtain p3 where
    s3: "fmt_sprintf_state_consume_precision ?st2 =
      Some (st\<lparr>sp_format := p3, sp_ap := ap', sp_width := w, sp_precision := n, sp_flags := f2\<rparr>)"
    (is "_ = Some ?st3") "cstr_in P (sp_mem st) p3 cs3"
    using s2(2) by auto
  from consume_modifier_eq [OF _ 4, of P ?st3] obtain p4 where
    s4: "fmt_sprintf_state_consume_modifier ?st3 =
      st\<lparr>sp_format := p4, sp_ap := ap', sp_width := w, sp_precision := n, sp_flags := f2, sp_modifier := mo\<rparr>"
    (is "_ = ?st4") "cstr_in P (sp_mem st) p4 cs4"
    using s3(2) by auto
  from consume_specifier_eq [OF _ 5, of P ?st4] obtain p5 b' where
    s5: "fmt_sprintf_state_consume_specifier ?st4 = ?st4\<lparr>sp_format := p5, sp_flags := sp_flags ?st4 OR bits,
         sp_modifier := (if cs4 \<noteq> [] \<and> hd cs4 = ch CHR ''p'' then FMT_MODIFIER_PTR else sp_modifier ?st4),
         sp_specifier := sp, sp_base := b'\<rparr>"
      "sp = FMT_SPECIFIER_INT \<longrightarrow> b' = b"
      "cstr_in P (sp_mem ?st4) p5 (if sp = FMT_SPECIFIER_INVALID then cs4 else tl cs4)"
    using s4(2) by auto
  have "fmt_sprintf_state_consume st = Some (None, fmt_sprintf_state_consume_specifier ?st4)"
    using at s1(1) s2(1) s3(1) s4(1)
    by (simp add: fmt_sprintf_state_consume_def fmt_consume_def Let_def)
  then show ?thesis using s5 cv by simp
qed

section \<open>Producing\<close>

lemma write_clip_apply:
  "unat p + length cs < 2 ^ 32 \<Longrightarrow> write_clip m p e cs a =
    (if p \<le> a \<and> a < e \<and> unat a < unat p + length cs then cs ! (unat a - unat p) else m a)"
proof (induction cs arbitrary: m p)
  case (Cons c cs)
  have u: "unat (p + 1) = unat p + 1" using Cons.prems by (simp add: unat_add_no_wrap)
  have "p + 1 \<le> a \<longleftrightarrow> p \<le> a \<and> a \<noteq> p"
    using u by (auto simp: word_le_nat_alt word_unat_eq_iff)
  then show ?case
    using Cons.IH [of "p + 1"] Cons.prems u
    by (auto simp: word_le_nat_alt word_less_nat_alt nth_Cons' word_unat_eq_iff)
qed (auto simp: word_le_nat_alt)

definition outside :: "u32 \<Rightarrow> u32 \<Rightarrow> u32 \<Rightarrow> bool" where
  "outside lo hi a \<longleftrightarrow> \<not> (lo \<le> a \<and> a < hi)"

lemma write_clip_outside:
  "unat p + length cs < 2 ^ 32 \<Longrightarrow> lo \<le> p \<Longrightarrow> outside lo e a \<Longrightarrow> write_clip m p e cs a = m a"
  by (auto simp: write_clip_apply outside_def)

lemma bytes_at_Suc: "bytes_at m s (Suc n) = m s # bytes_at m (s + 1) n"
  by (simp add: bytes_at_def upt_conv_Cons map_Suc_upt [symmetric] o_def add.assoc del: upt_Suc)

lemma bytes_at_cong: "(\<And>i. i < n \<Longrightarrow> m' (s + of_nat i) = m (s + of_nat i)) \<Longrightarrow> bytes_at m' s n = bytes_at m s n"
  by (simp add: bytes_at_def)

lemma sp_copy_str_eq:
  "(\<And>i. i < n \<Longrightarrow> outside lo (sp_end st) (s + of_nat i)) \<Longrightarrow> lo \<le> sp_str st \<Longrightarrow>
   unat (sp_str st) + n < 2 ^ 32 \<Longrightarrow> sp_copy_str n s st = emit (bytes_at (sp_mem st) s n) st"
proof (induction n arbitrary: s st)
  case 0
  then show ?case by (simp add: bytes_at_def)
next
  case (Suc n)
  let ?st = "emit [sp_mem st s] st"
  have u: "unat (sp_str st + 1) = unat (sp_str st) + 1" using Suc.prems(3) by (simp add: unat_add_no_wrap)
  have o: "outside lo (sp_end st) (s + 1 + of_nat i)" if "i < n" for i
    using Suc.prems(1) [of "Suc i"] that by (simp add: add.assoc)
  have "sp_copy_str n (s + 1) ?st = emit (bytes_at (sp_mem ?st) (s + 1) n) ?st"
    by (rule Suc.IH) (use o Suc.prems u in \<open>auto simp: word_le_nat_alt\<close>)
  moreover have "bytes_at (sp_mem ?st) (s + 1) n = bytes_at (sp_mem st) (s + 1) n"
  proof (rule bytes_at_cong)
    fix i assume "i < n"
    then show "sp_mem ?st (s + 1 + of_nat i) = sp_mem st (s + 1 + of_nat i)"
      using write_clip_outside [of "sp_str st" "[sp_mem st s]" lo "sp_end st"] o Suc.prems by simp
  qed
  ultimately show ?case by (simp add: bytes_at_Suc)
qed

lemma sp_str_len_agree:
  assumes len: "sp_str_len m s prec k = Some n"
    and m': "\<forall>i. k \<le> i \<and> i \<le> n \<longrightarrow> m' (s + of_nat i) = m (s + of_nat i)"
  shows "sp_str_len m' s prec k = Some n \<and> k \<le> n"
proof -
  have "\<forall>m'. (\<forall>i. k \<le> i \<and> i \<le> n \<longrightarrow> m' (s + of_nat i) = m (s + of_nat i)) \<longrightarrow>
      sp_str_len m' s prec k = Some n \<and> k \<le> n"
  proof (rule sp_str_len.raw_induct [OF _ len], intro allI impI)
    fix f m s prec k n and m' :: bytes
    assume IH: "\<And>m s prec k n. f m s prec k = Some n \<Longrightarrow>
        \<forall>m'. (\<forall>i. k \<le> i \<and> i \<le> n \<longrightarrow> m' (s + of_nat i) = m (s + of_nat i)) \<longrightarrow>
          sp_str_len m' s prec k = Some n \<and> k \<le> n"
      and f: "(if m (s + of_nat k) \<noteq> 0 then if int k = prec then Some k else f m s prec (k + 1) else Some k) = Some n"
      and ag: "\<forall>i. k \<le> i \<and> i \<le> n \<longrightarrow> m' (s + of_nat i) = m (s + of_nat i)"
    have m: "k \<le> n \<Longrightarrow> m' (s + of_nat k) = m (s + of_nat k)" using ag by simp
    show "sp_str_len m' s prec k = Some n \<and> k \<le> n"
    proof (cases "m (s + of_nat k) \<noteq> 0 \<and> int k \<noteq> prec")
      case True
      then have "f m s prec (k + 1) = Some n" using f by simp
      from IH [OF this, THEN spec, of m'] ag have "sp_str_len m' s prec (k + 1) = Some n \<and> k + 1 \<le> n" by simp
      then show ?thesis using True m by (subst sp_str_len.simps) simp
    next
      case False
      then have "n = k" using f by (auto split: if_splits)
      then show ?thesis using False m by (subst sp_str_len.simps) auto
    qed
  qed
  then show ?thesis using m' by blast
qed

text \<open>The string at \<open>p\<close>, cut at the precision, if it does not meet the buffer.\<close>

definition str_at :: "bytes \<Rightarrow> u32 \<Rightarrow> u32 \<Rightarrow> u32 \<Rightarrow> u32 \<Rightarrow> int \<Rightarrow> u8 list option" where
  "str_at m null_str lo hi p prec = do {
     let s = (if p = 0 then null_str else p);
     n \<leftarrow> sp_str_len m s prec 0;
     if list_all (\<lambda>i. outside lo hi (s + of_nat i)) [0..<Suc n] then Some (bytes_at m s n) else None
   }"

definition agree :: "u32 \<Rightarrow> u32 \<Rightarrow> bytes \<Rightarrow> bytes \<Rightarrow> bool" where
  "agree lo hi m m' \<longleftrightarrow> (\<forall>a. outside lo hi a \<longrightarrow> m' a = m a)"

lemma produce_str_eq:
  assumes ap: "sp_ap st = p # ap'" and s: "str_at m null_str lo (sp_end st) p (sp_precision st) = Some bs"
    and ag: "agree lo (sp_end st) m (sp_mem st)" and lo: "lo \<le> sp_str st"
    and len: "unat (sp_str st) + length (pad_text (sp_flags st) (sp_width st) bs) < 2 ^ 32"
  shows "\<exists>st'. fmt_sprintf_state_produce_str null_str st = Some st' \<and>
    io st' = io (emit (pad_text (sp_flags st) (sp_width st) bs) (st\<lparr>sp_ap := ap'\<rparr>))"
proof -
  define q where "q = (if p = 0 then null_str else p)"
  obtain n where n: "sp_str_len m q (sp_precision st) 0 = Some n" and bs: "bs = bytes_at m q n"
    and out: "\<forall>i \<le> n. outside lo (sp_end st) (q + of_nat i)"
    using s by (auto simp: str_at_def q_def Let_def list_all_iff less_Suc_eq_le
        simp del: upt_Suc split: bind_splits if_splits)
  have n': "sp_str_len (sp_mem st) q (sp_precision st) 0 = Some n"
    using sp_str_len_agree [OF n, of "sp_mem st"] ag out by (simp add: agree_def)
  let ?pad = "replicate (nat (sp_width st - int n)) (ch CHR '' '')"
  have copy: "sp_copy_str n q x = emit bs x"
    if x: "sp_end x = sp_end st" "lo \<le> sp_str x" "unat (sp_str x) + n < 2 ^ 32" "agree lo (sp_end st) m (sp_mem x)" for x
  proof -
    have "bytes_at (sp_mem x) q n = bs" unfolding bs
      by (rule bytes_at_cong) (use out x(4) in \<open>auto simp: agree_def\<close>)
    then show ?thesis using sp_copy_str_eq [of n lo x q] out x by auto
  qed
  show ?thesis
  proof (cases "has_flag (sp_flags st) FMT_FORMAT_LEFT_JUSTIFY")
    case True
    have "sp_copy_str n q (st\<lparr>sp_ap := ap'\<rparr>) = emit bs (st\<lparr>sp_ap := ap'\<rparr>)"
      by (rule copy) (use lo len ag True bs in \<open>auto simp: pad_text_def\<close>)
    then show ?thesis
      using True ap n' bs by (simp add: fmt_sprintf_state_produce_str_def q_def Let_def sp_pad_str_eq pad_text_def)
  next
    case False
    let ?x = "(emit ?pad (st\<lparr>sp_ap := ap'\<rparr>))\<lparr>sp_width := min (sp_width st) (int n)\<rparr>"
    have u: "unat (sp_str st + of_nat (length ?pad)) = unat (sp_str st) + length ?pad"
      using len False bs by (intro unat_add_of_nat) (simp add: pad_text_def)
    have "sp_copy_str n q ?x = emit bs ?x"
    proof (rule copy)
      show "agree lo (sp_end st) m (sp_mem ?x)"
        using ag lo len False bs write_clip_outside [of "sp_str st" ?pad lo "sp_end st"]
        by (auto simp: agree_def pad_text_def)
      show "lo \<le> sp_str ?x" "unat (sp_str ?x) + n < 2 ^ 32"
        using u lo len False bs by (simp_all add: word_le_nat_alt pad_text_def)
    qed simp
    then show ?thesis
      using False ap n' bs by (simp add: fmt_sprintf_state_produce_str_def q_def Let_def sp_pad_str_eq pad_text_def)
  qed
qed

lemma produce_char_eq:
  assumes "sp_ap st = w # ap'"
  shows "\<exists>st'. fmt_sprintf_state_produce_char st = Some st' \<and>
    io st' = io (emit (pad_text (sp_flags st) (sp_width st) [ucast w]) (st\<lparr>sp_ap := ap'\<rparr>))"
  using assms by (simp add: fmt_sprintf_state_produce_char_def pad_text_def sp_pad_char_eq Let_def)

lemma spec_of_base: "spec_of c = (FMT_SPECIFIER_INT, b, bits) \<Longrightarrow> b \<in> {8, 10, 16}"
  by (auto simp: spec_of_def split: if_splits)

lemma parse_conv_base:
  assumes "parse_conv cs ap = Some (cv, cs', ap')" and "cv_specifier cv = FMT_SPECIFIER_INT"
  shows "cv_base cv \<in> {8, 10, 16}"
proof -
  have "\<exists>c bits. spec_of c = (FMT_SPECIFIER_INT, cv_base cv, bits)"
    using assms by (auto simp: parse_conv_def Let_def split: bind_splits prod.splits list.splits) blast
  then show ?thesis using spec_of_base by blast
qed

text \<open>One conversion produces its reference text.\<close>

lemma va_arg32_Some: "va_arg32 ap = Some (w, ap') \<longleftrightarrow> ap = w # ap'"
  by (cases ap) auto

lemma produce_eq:
  assumes conv: "conv_text (str_at m null_str lo (sp_end st)) cv (sp_ap st) = Some (out, ap')"
    and st: "sp_flags st = cv_flags cv" "sp_width st = cv_width cv" "sp_precision st = cv_precision cv"
      "sp_modifier st = cv_modifier cv" "sp_specifier st = cv_specifier cv"
      "cv_specifier cv = FMT_SPECIFIER_INT \<longrightarrow> sp_base st = cv_base cv \<and> cv_base cv \<in> {8, 10, 16}"
    and ag: "agree lo (sp_end st) m (sp_mem st)" and lo: "lo \<le> sp_str st"
    and len: "unat (sp_str st) + length out < 2 ^ 32"
  shows "\<exists>st'. fmt_sprintf_state_produce null_str st = Some st' \<and> io st' = io (emit out (st\<lparr>sp_ap := ap'\<rparr>))"
proof (cases "cv_specifier cv")
  case FMT_SPECIFIER_INT
  then obtain v where v: "arg_value (sp_modifier st) (has_flag (sp_flags st) FMT_FORMAT_CONV_SIGNED) (sp_ap st) = Some (v, ap')"
    "out = int_text (sp_flags st) (sp_base st) (sp_modifier st) (sp_width st) (sp_precision st) v"
    using conv st by (auto simp: conv_text_def)
  show ?thesis
    using produce_int_eq [OF _ v(1)] v(2) st FMT_SPECIFIER_INT by (simp add: fmt_sprintf_state_produce_def)
next
  case FMT_SPECIFIER_CHAR
  then obtain w where w: "sp_ap st = w # ap'" "out = pad_text (sp_flags st) (sp_width st) [ucast w]"
    using conv st by (auto simp: conv_text_def va_arg32_Some)
  show ?thesis
    using produce_char_eq [OF w(1)] w(2) st FMT_SPECIFIER_CHAR by (simp add: fmt_sprintf_state_produce_def)
next
  case FMT_SPECIFIER_STR
  then obtain q bs where q: "sp_ap st = q # ap'" "str_at m null_str lo (sp_end st) q (sp_precision st) = Some bs"
    "out = pad_text (sp_flags st) (sp_width st) bs"
    using conv st by (auto simp: conv_text_def va_arg32_Some split: bind_splits)
  show ?thesis
    using produce_str_eq [OF q(1,2) ag lo] q(3) len st FMT_SPECIFIER_STR by (simp add: fmt_sprintf_state_produce_def)
next
  case FMT_SPECIFIER_NRCHARS
  then show ?thesis using conv by (simp add: conv_text_def)
qed (use conv st in \<open>auto simp: conv_text_def fmt_sprintf_state_produce_def io_def\<close>)

lemma emit_agree:
  assumes "agree lo e m (sp_mem st)" and "e = sp_end st" and "lo \<le> sp_str st"
    and "unat (sp_str st) + length out < 2 ^ 32"
  shows "agree lo e m (write_clip (sp_mem st) (sp_str st) e out)"
  using assms write_clip_outside by (auto simp: agree_def)

lemma vsnprintf_loop_eq:
  "fmt_spec (str_at m null_str lo hi) cs ap = Some out \<Longrightarrow>
   cstr_in (outside lo hi) (sp_mem st) (sp_format st) cs \<Longrightarrow> sp_ap st = ap \<Longrightarrow> sp_end st = hi \<Longrightarrow>
   agree lo hi m (sp_mem st) \<Longrightarrow> lo \<le> sp_str st \<Longrightarrow> unat (sp_str st) + length out < 2 ^ 32 \<Longrightarrow>
   \<exists>st'. fmt_vsnprintf_loop null_str st = Some st' \<and> sp_mem st' = write_clip (sp_mem st) (sp_str st) hi out \<and>
     sp_str st' = sp_str st + of_nat (length out) \<and> sp_start st' = sp_start st \<and> sp_end st' = hi"
proof (induction "length cs" arbitrary: cs ap out st rule: less_induct)
  case less
  have after: "\<exists>st2. fmt_vsnprintf_loop null_str st1 = Some st2 \<and>
      sp_mem st2 = write_clip (sp_mem st) (sp_str st) hi (out1 @ out2) \<and>
      sp_str st2 = sp_str st + of_nat (length (out1 @ out2)) \<and> sp_start st2 = sp_start st \<and> sp_end st2 = hi"
    if st1: "sp_mem st1 = write_clip (sp_mem st) (sp_str st) hi out1" "sp_str st1 = sp_str st + of_nat (length out1)"
        "sp_start st1 = sp_start st" "sp_end st1 = hi" "sp_ap st1 = ap1"
      and cs1: "cstr_in (outside lo hi) (sp_mem st) (sp_format st1) cs1" "length cs1 < length cs"
      and out2: "fmt_spec (str_at m null_str lo hi) cs1 ap1 = Some out2"
      and len: "unat (sp_str st) + length (out1 @ out2) < 2 ^ 32" for st1 out1 out2 cs1 ap1
  proof -
    have u: "unat (sp_str st1) = unat (sp_str st) + length out1"
      unfolding st1(2) using len by (intro unat_add_of_nat) simp
    have l1: "unat (sp_str st) + length out1 < 2 ^ 32" using len by simp
    have lo1: "lo \<le> sp_str st1" using less.prems(6) u by (simp add: word_le_nat_alt)
    have "cstr_in (outside lo hi) (sp_mem st1) (sp_format st1) cs1"
      by (rule cstr_in_cong [OF cs1(1)])
        (use st1(1) l1 less.prems(6) in \<open>simp add: write_clip_outside\<close>)
    moreover have "agree lo hi m (sp_mem st1)"
      unfolding st1(1) by (rule emit_agree [OF less.prems(5) less.prems(4) [symmetric] less.prems(6) l1])
    moreover have "unat (sp_str st1) + length out2 < 2 ^ 32" using u len by simp
    ultimately obtain st2 where "fmt_vsnprintf_loop null_str st1 = Some st2"
      "sp_mem st2 = write_clip (sp_mem st1) (sp_str st1) hi out2" "sp_str st2 = sp_str st1 + of_nat (length out2)"
      "sp_start st2 = sp_start st1" "sp_end st2 = hi"
      using less.hyps [OF cs1(2) out2, of st1] st1(4,5) lo1 by blast
    then show ?thesis
      using st1 by (intro exI [of _ st2]) (simp add: write_clip_append add.assoc)
  qed
  show ?case
  proof (cases cs)
    case Nil
    have "fmt_vsnprintf_loop null_str st = Some (st\<lparr>sp_format := sp_format st + 1\<rparr>)"
      using less.prems(2) Nil
      by (subst fmt_vsnprintf_loop.simps) (simp add: fmt_sprintf_state_consume_def fmt_consume_def)
    then show ?thesis using less.prems Nil by simp
  next
    case (Cons c cs')
    note at = less.prems(2) [unfolded Cons]
    show ?thesis
    proof (cases "c = ch CHR ''%''")
      case False
      let ?st = "emit [c] (st\<lparr>sp_format := sp_format st + 1\<rparr>)"
      obtain out2 where o: "fmt_spec (str_at m null_str lo hi) cs' ap = Some out2" "out = [c] @ out2"
        using less.prems(1) Cons False by auto
      have e: "fmt_vsnprintf_loop null_str st = fmt_vsnprintf_loop null_str ?st"
        using at False
        by (subst fmt_vsnprintf_loop.simps) (simp add: fmt_sprintf_state_consume_def fmt_consume_def)
      show ?thesis unfolding e o(2)
        by (rule after [of ?st _ ap cs']) (use at o less.prems Cons in auto)
    next
      case True
      obtain cv cs1 ap1 where p: "parse_conv cs' ap = Some (cv, cs1, ap1)"
        using less.prems(1) Cons True by (auto split: option.splits)
      obtain out1 ap2 where t: "conv_text (str_at m null_str lo hi) cv ap1 = Some (out1, ap2)"
        using less.prems(1) Cons True p by (auto split: option.splits)
      obtain out2 where o: "fmt_spec (str_at m null_str lo hi) cs1 ap2 = Some out2" "out = out1 @ out2"
        using less.prems(1) Cons True p t by auto
      have at': "cstr_in (outside lo hi) (sp_mem st) (sp_format st) (ch CHR ''%'' # cs')" using at True by simp
      obtain st1 where s1: "fmt_sprintf_state_consume st = Some (None, st1)"
        "cstr_in (outside lo hi) (sp_mem st) (sp_format st1) cs1" "sp_mem st1 = sp_mem st" "sp_ap st1 = ap1"
        "sp_str st1 = sp_str st" "sp_start st1 = sp_start st" "sp_end st1 = hi" "sp_flags st1 = cv_flags cv"
        "sp_width st1 = cv_width cv" "sp_precision st1 = cv_precision cv" "sp_modifier st1 = cv_modifier cv"
        "sp_specifier st1 = cv_specifier cv" "cv_specifier cv = FMT_SPECIFIER_INT \<longrightarrow> sp_base st1 = cv_base cv"
        using consume_conv_eq [OF at', of cv cs1 ap1] p less.prems(3,4) by auto
      have "\<exists>st2. fmt_sprintf_state_produce null_str st1 = Some st2 \<and> io st2 = io (emit out1 (st1\<lparr>sp_ap := ap2\<rparr>))"
        by (rule produce_eq [where m = m and lo = lo and cv = cv])
          (use s1 t parse_conv_base [OF p] less.prems o in auto)
      then obtain st2 where s2: "fmt_sprintf_state_produce null_str st1 = Some st2"
        "io st2 = io (emit out1 (st1\<lparr>sp_ap := ap2\<rparr>))" by blast
      have e: "fmt_vsnprintf_loop null_str st = fmt_vsnprintf_loop null_str st2"
        using s1(1) s2(1) by (subst fmt_vsnprintf_loop.simps) simp
      show ?thesis unfolding e o(2)
        by (rule after [of st2 _ ap2 cs1])
          (use s1 s2(2) o less.prems parse_conv_length [OF p] Cons in \<open>auto simp: io_def\<close>)
    qed
  qed
qed

end
