(* ===== verification/Scan_Correct.thy ===== *)
theory Scan_Correct
  imports Scan Fmt_Refine "HOL-Library.Sublist"
begin

text \<open>
  The sscanf half of lib/fmt.c on terminated strings: the reading position never leaves the string
  and the format, every loop ends, and what is stored goes to the destinations only.
\<close>

section \<open>Positions\<close>

definition first_char :: "u8 list \<Rightarrow> u8" where
  "first_char s = (case s of [] \<Rightarrow> 0 | x # _ \<Rightarrow> x)"

lemma first_char_simps [simp]: "first_char [] = 0" "first_char (x # s) = x"
  by (simp_all add: first_char_def)

lemma cstr_in_first: "cstr_in A m p s \<Longrightarrow> m p = first_char s"
  by (cases s) simp_all

lemma cstr_in_neq0: "cstr_in A m p s \<Longrightarrow> first_char s \<noteq> 0 \<Longrightarrow> s = first_char s # tl s \<and> cstr_in A m (p + 1) (tl s)"
  by (cases s) simp_all

lemma fmt_isspace_0 [simp]: "\<not> fmt_isspace 0"
  by (simp add: fmt_isspace_def)

lemma fmt_skip_eq: "cstr_in A m p s \<Longrightarrow> \<exists>q. fmt_skip m p = Some q \<and> cstr_in A m q (dropWhile fmt_isspace s)"
  by (induction s arbitrary: p) (auto simp: fmt_skip.simps [of m])

lemma skip_space_eq:
  assumes "cstr_in A (sc_mem st) (sc_str st) s"
  shows "\<exists>q. fmt_sscanf_state_skip_space st = Some (st\<lparr>sc_str := q\<rparr>) \<and> cstr_in A (sc_mem st) q (dropWhile fmt_isspace s)"
  using fmt_skip_eq [OF assms] by (auto simp: fmt_sscanf_state_skip_space_def)

text \<open>
  A character has been read: the position is one behind the place \<open>t\<close>, a suffix of \<open>s\<close>, and the
  character is the first of \<open>t\<close>, or \<open>EOF\<close> when the width is exhausted.
\<close>

definition ahead :: "(u32 \<Rightarrow> bool) \<Rightarrow> fmt_sscanf_state \<Rightarrow> u8 list \<Rightarrow> u8 \<Rightarrow> fmt_sscanf_state \<Rightarrow> bool" where
  "ahead A st s c st' \<longleftrightarrow> (\<exists>q t w b. st' = st\<lparr>sc_str := q + 1, sc_width := w, sc_base := b\<rparr> \<and>
     cstr_in A (sc_mem st) q t \<and> suffix t s \<and> (c = 255 \<or> c = first_char t))"

lemma aheadI:
  "st' = st\<lparr>sc_str := q + 1, sc_width := w, sc_base := b\<rparr> \<Longrightarrow> cstr_in A (sc_mem st) q t \<Longrightarrow> suffix t s \<Longrightarrow>
   c = 255 \<or> c = first_char t \<Longrightarrow> ahead A st s c st'"
  by (auto simp: ahead_def)

lemma consume_string_eq:
  "\<exists>c w. fmt_sscanf_state_consume_string st = (c, st\<lparr>sc_str := sc_str st + 1, sc_width := w\<rparr>) \<and>
     (c = 255 \<and> has_flag (sc_flags st) FMT_FORMAT_CHECK_WIDTH \<or> c = sc_mem st (sc_str st))"
proof (cases "has_flag (sc_flags st) FMT_FORMAT_CHECK_WIDTH \<and> sc_width st \<noteq> 0")
  case False
  then show ?thesis
    by (intro exI [of _ "fst (fmt_sscanf_state_consume_string st)"] exI [of _ "sc_width st"])
      (auto simp: fmt_sscanf_state_consume_string_def fmt_consume_def EOF_def Let_def)
next
  case True
  then show ?thesis
    by (intro exI [of _ "sc_mem st (sc_str st)"] exI [of _ "sc_width st - 1"])
      (simp add: fmt_sscanf_state_consume_string_def fmt_consume_def)
qed

lemma consume_string_ahead:
  assumes "cstr_in A (sc_mem st) (sc_str st) t" and "suffix t s"
  shows "case_prod (ahead A st s) (fmt_sscanf_state_consume_string st)"
proof -
  obtain c w where c: "fmt_sscanf_state_consume_string st = (c, st\<lparr>sc_str := sc_str st + 1, sc_width := w\<rparr>)"
    "c = 255 \<or> c = sc_mem st (sc_str st)" using consume_string_eq [of st] by blast
  have "ahead A st s c (st\<lparr>sc_str := sc_str st + 1, sc_width := w\<rparr>)"
    by (rule aheadI [where w = w and b = "sc_base st", OF _ assms]) (use c(2) cstr_in_first [OF assms(1)] in auto)
  with c(1) show ?thesis by simp
qed

lemma ahead_base: "ahead A st s c st' \<Longrightarrow> ahead A st s c (st'\<lparr>sc_base := b\<rparr>)"
  by (fastforce simp: ahead_def)

lemma ahead_next:
  assumes "ahead A st s c st'" and c: "c \<noteq> 0" "c \<noteq> 255"
  shows "case_prod (ahead A st s) (fmt_sscanf_state_consume_string st')"
proof -
  obtain q t w b where st': "st' = st\<lparr>sc_str := q + 1, sc_width := w, sc_base := b\<rparr>" and t: "cstr_in A (sc_mem st) q t"
    "suffix t s" "c = first_char t" using assms by (auto simp: ahead_def)
  from cstr_in_neq0 [OF t(1)] t(3) c(1) have tl: "cstr_in A (sc_mem st) (q + 1) (tl t)" by simp
  have "suffix (tl t) s" using t(2) suffix_order.trans [OF suffix_tl] by blast
  with consume_string_ahead [of A st' "tl t" s] tl
  obtain d st2 where d: "fmt_sscanf_state_consume_string st' = (d, st2)" "ahead A st' s d st2"
    by (cases "fmt_sscanf_state_consume_string st'") (auto simp: st')
  have "ahead A st s d st2" using d(2) by (fastforce simp: ahead_def st')
  with d(1) show ?thesis by simp
qed

text \<open>One step back, to read the character again.\<close>

lemma ahead_back:
  assumes "ahead A st s c st'" and "c \<noteq> 0" "c \<noteq> 255" and "fmt_sscanf_state_consume_string st' = (d, st2)"
  shows "ahead A st s c (fmt_sscanf_state_restore_string (st2\<lparr>sc_base := b\<rparr>))"
proof -
  have "\<exists>w. st2 = st'\<lparr>sc_str := sc_str st' + 1, sc_width := w\<rparr>"
    using assms(4) consume_string_eq [of st'] by auto
  then show ?thesis using assms(1) by (fastforce simp: ahead_def fmt_sscanf_state_restore_string_def fmt_restore_def)
qed

lemma ahead_restore:
  "ahead A st s c st' \<Longrightarrow> \<exists>q t w b. fmt_sscanf_state_restore_string st' = st\<lparr>sc_str := q, sc_width := w, sc_base := b\<rparr> \<and>
     cstr_in A (sc_mem st) q t \<and> suffix t s \<and> (c = 255 \<or> c = first_char t)"
proof -
  assume "ahead A st s c st'"
  then obtain q t w b where "st' = st\<lparr>sc_str := q + 1, sc_width := w, sc_base := b\<rparr>"
    "cstr_in A (sc_mem st) q t \<and> suffix t s \<and> (c = 255 \<or> c = first_char t)" by (auto simp: ahead_def)
  then show ?thesis
    by (intro exI [of _ q] exI [of _ t] exI [of _ w] exI [of _ b])
      (simp add: fmt_sscanf_state_restore_string_def fmt_restore_def)
qed

section \<open>Integers\<close>

lemma sc_int_sign_ahead:
  assumes "cstr_in A (sc_mem st) (sc_str st) s"
  shows "case sc_int_sign st of (neg, c, st') \<Rightarrow> ahead A st s c st'"
proof -
  obtain c st1 where c: "fmt_sscanf_state_consume_string st = (c, st1)" "ahead A st s c st1"
    using consume_string_ahead [OF assms suffix_order.refl] by (cases "fmt_sscanf_state_consume_string st") simp
  show ?thesis
    using c ahead_next [OF c(2)] by (auto simp: sc_int_sign_def split: prod.splits)
qed

lemma sc_int_prefix_ahead:
  assumes a: "ahead A st s c st1"
  shows "case_prod (ahead A st s) (sc_int_prefix (c, st1))"
proof (cases "c = ch CHR ''0''")
  case True
  then have nz: "c \<noteq> 0" "c \<noteq> 255" by simp_all
  obtain d st2 where d: "fmt_sscanf_state_consume_string st1 = (d, st2)" "ahead A st s d st2"
    using ahead_next [OF a nz] by (cases "fmt_sscanf_state_consume_string st1") simp
  have b: "ahead A st s d (st2\<lparr>sc_base := v\<rparr>)" for v using d(2) by (rule ahead_base)
  have bk: "ahead A st s 48 (fmt_sscanf_state_restore_string st2)"
    "\<And>v. ahead A st s 48 (fmt_sscanf_state_restore_string (st2\<lparr>sc_base := v\<rparr>))"
    using ahead_back [OF a nz d(1), of "sc_base st2"] ahead_back [OF a nz d(1)] True by simp_all
  show ?thesis
  proof (cases "d = ch CHR ''x'' \<or> d = ch CHR ''X''")
    case x: True
    then have "d \<noteq> 0" "d \<noteq> 255" by auto
    from ahead_next [OF d(2) this] ahead_next [OF b this] x show ?thesis
      using True d(1) bk by (auto simp: sc_int_prefix_def Let_def)
  next
    case False
    then show ?thesis using True d bk b by (auto simp: sc_int_prefix_def Let_def)
  qed
qed (use a in \<open>simp add: sc_int_prefix_def\<close>)

lemma sc_digit_xdigit: "sc_digit b c \<Longrightarrow> fmt_isxdigit c \<and> c \<noteq> 0 \<and> c \<noteq> 255"
  by (auto simp: sc_digit_def fmt_isxdigit_def fmt_isdigit_def word_le_nat_alt split: if_splits)

text \<open>What the buffer of the digits holds.\<close>

definition digits_buf :: "nat \<Rightarrow> u8 list \<Rightarrow> bool" where
  "digits_buf i buf \<longleftrightarrow> length buf = FMT_MAX_NUM_SIZE \<and>
     (if i < FMT_MAX_NUM_SIZE then list_all fmt_isxdigit (take i buf) else buf ! 0 = ch CHR ''1'' \<and> buf ! 1 = 0)"

lemma digits_buf_put:
  "digits_buf i buf \<Longrightarrow> fmt_isxdigit c \<Longrightarrow> i < FMT_MAX_NUM_SIZE - 1 \<Longrightarrow> digits_buf (i + 1) (buf[i := c])"
  "digits_buf i buf \<Longrightarrow> i = FMT_MAX_NUM_SIZE - 1 \<Longrightarrow> digits_buf (i + 1) (buf[0 := ch CHR ''1'', 1 := 0])"
  "digits_buf i buf \<Longrightarrow> \<not> i < FMT_MAX_NUM_SIZE - 1 \<Longrightarrow> i \<noteq> FMT_MAX_NUM_SIZE - 1 \<Longrightarrow> digits_buf (i + 1) buf"
  by (simp_all add: digits_buf_def FMT_MAX_NUM_SIZE_def take_Suc_conv_app_nth nth_list_update split: if_splits)

lemma ahead_mono: "ahead A st s c st' \<Longrightarrow> suffix s s' \<Longrightarrow> ahead A st s' c st'"
  unfolding ahead_def using suffix_order.trans by blast

text \<open>Each digit shortens the string in which the position lies.\<close>

lemma ahead_next_shorter:
  assumes a: "ahead A st s c st'" and c: "c \<noteq> 0" "c \<noteq> 255" and d: "fmt_sscanf_state_consume_string st' = (d, st2)"
  shows "\<exists>t. suffix t s \<and> length t < length s \<and> ahead A st t d st2"
proof -
  obtain q t w b where st': "st' = st\<lparr>sc_str := q + 1, sc_width := w, sc_base := b\<rparr>" and t: "cstr_in A (sc_mem st) q t"
    "suffix t s" "c = first_char t" using assms by (auto simp: ahead_def)
  note tl = cstr_in_neq0 [OF t(1)]
  have "case_prod (ahead A st' (tl t)) (fmt_sscanf_state_consume_string st')"
    by (rule consume_string_ahead [of _ _ "tl t"]) (use tl t(3) c(1) st' in simp_all)
  then have "ahead A st (tl t) d st2" using d by (fastforce simp: ahead_def st')
  moreover have "length (tl t) < length s" using tl t c(1) suffix_length_le [OF t(2)] by (cases t) auto
  moreover have "suffix (tl t) s" using t(2) suffix_order.trans [OF suffix_tl] by blast
  ultimately show ?thesis by blast
qed

lemma sc_digits_ahead:
  assumes "ahead A st s c st1" and "digits_buf i buf"
  shows "\<exists>c' i' buf' neg' st2. sc_digits c i buf neg st1 = Some (c', i', buf', neg', st2) \<and>
    ahead A st s c' st2 \<and> digits_buf i' buf'"
  using assms
proof (induction "length s" arbitrary: s c st1 i buf neg rule: less_induct)
  case less
  show ?case
  proof (cases "c \<noteq> 0 \<and> sc_digit (sc_base st1) c")
    case True
    then have c: "c \<noteq> 0" "c \<noteq> 255" and x: "fmt_isxdigit c" using sc_digit_xdigit by blast+
    define bn where "bn = (if i < FMT_MAX_NUM_SIZE - 1 then (buf[i := c], neg)
      else if i = FMT_MAX_NUM_SIZE - 1 then (buf[0 := ch CHR ''1'', 1 := 0], True) else (buf, neg))"
    obtain buf' neg' d st2 where bn': "bn = (buf', neg')" and d: "fmt_sscanf_state_consume_string st1 = (d, st2)"
      by (cases bn, cases "fmt_sscanf_state_consume_string st1") simp
    have "digits_buf (i + 1) buf'"
      using digits_buf_put [OF less.prems(2)] x bn' unfolding bn_def by (auto split: if_splits)
    moreover obtain t where t: "suffix t s" "length t < length s" "ahead A st t d st2"
      using ahead_next_shorter [OF less.prems(1) c d] by blast
    moreover have "sc_digits c i buf neg st1 = sc_digits d (i + 1) buf' neg' st2"
      using True bn' d unfolding bn_def by (simp add: sc_digits.simps [of c])
    ultimately show ?thesis using less.hyps [OF t(2,3), of "i + 1" buf' neg'] ahead_mono by metis
  next
    case False
    then have "sc_digits c i buf neg st1 = Some (c, i, buf, neg, st1)" by (subst sc_digits.simps) (rule if_not_P)
    then show ?thesis using less.prems by blast
  qed
qed

lemma sc_value_returns: "list_all fmt_isxdigit ds \<Longrightarrow> \<exists>r. sc_value b ds n m tmp neg = Some r"
  by (induction ds arbitrary: n m tmp) (auto simp: fmt_atoi_def Let_def)

lemma sc_number_returns: "list_all fmt_isxdigit ds \<Longrightarrow> \<exists>r. sc_number st ds neg = Some r"
proof -
  assume "list_all fmt_isxdigit ds"
  then have "list_all fmt_isxdigit (rev ds)" by simp
  from sc_value_returns [OF this, of "ucast (sc_base st)" 0 1 0 neg] sc_value_returns [OF this, of "sc_base st" 0 1 0 neg]
  show ?thesis by (auto simp: sc_number_def)
qed

lemma digits_buf_list:
  assumes "digits_buf i buf"
  shows "list_all fmt_isxdigit (if i < FMT_MAX_NUM_SIZE then take i buf else takeWhile (\<lambda>c. c \<noteq> 0) buf)"
proof (cases "i < FMT_MAX_NUM_SIZE")
  case False
  then have l: "length buf = 22" "buf ! 0 = 49" "buf ! 1 = 0" using assms by (simp_all add: digits_buf_def FMT_MAX_NUM_SIZE_def)
  then obtain x y r where "buf = x # y # r" by (cases buf; cases "tl buf") auto
  then show ?thesis using False l by (simp add: fmt_isxdigit_def fmt_isdigit_def)
qed (use assms in \<open>simp add: digits_buf_def\<close>)

section \<open>What a conversion does\<close>

lemma store_le_apply: "(\<And>k. k < n \<Longrightarrow> a \<noteq> p + of_nat k) \<Longrightarrow> store_le m p n w a = m a"
proof (induction n arbitrary: m p w)
  case (Suc n)
  have "a \<noteq> p + 1 + of_nat k" if "k < n" for k using Suc.prems [of "Suc k"] that by (simp add: add.assoc)
  then show ?case using Suc.IH Suc.prems [of 0] by simp
qed simp

definition dests_clear :: "(u32 \<Rightarrow> bool) \<Rightarrow> nat \<Rightarrow> u32 list \<Rightarrow> bool" where
  "dests_clear A n ap \<longleftrightarrow> (\<forall>p\<in>set ap. \<forall>k<n + 8. \<not> A (p + of_nat k))"

text \<open>
  The outcome of a conversion: the protected bytes are unchanged, an argument is taken for each
  number that is counted, and unless there is an error the position is still in the string.
\<close>

definition sc_post :: "(u32 \<Rightarrow> bool) \<Rightarrow> nat \<Rightarrow> fmt_sscanf_state \<Rightarrow> error option \<times> fmt_sscanf_state \<Rightarrow> bool" where
  "sc_post A n st = (\<lambda>(err, st').
     (\<forall>a. A a \<longrightarrow> sc_mem st' a = sc_mem st a) \<and> sc_format st' = sc_format st \<and>
     suffix (sc_ap st') (sc_ap st) \<and> length (sc_ap st) \<le> length (sc_ap st') + 1 \<and>
     EOF \<le> sc_nr_convs st' \<and>
     sc_nr_convs st' + int (length (sc_ap st')) \<le> max 0 (sc_nr_convs st) + int (length (sc_ap st)) \<and>
     (err = None \<longrightarrow> (\<exists>t. cstr_in A (sc_mem st') (sc_str st') t \<and> length t \<le> n)))"

lemma sc_postI:
  assumes "\<And>a. A a \<Longrightarrow> sc_mem st' a = sc_mem st a" and "sc_format st' = sc_format st"
    and "sc_ap st' = sc_ap st \<and> sc_nr_convs st' \<le> max 0 (sc_nr_convs st) \<or>
      sc_ap st' = tl (sc_ap st) \<and> sc_ap st \<noteq> [] \<and> sc_nr_convs st' \<le> max 0 (sc_nr_convs st) + 1"
    and "EOF \<le> sc_nr_convs st'" and "err = None \<Longrightarrow> cstr_in A (sc_mem st') (sc_str st') t \<and> length t \<le> n"
  shows "sc_post A n st (err, st')"
  using assms by (cases "sc_ap st") (auto simp: sc_post_def suffix_def)

lemma va_arg32_hd: "ap \<noteq> [] \<Longrightarrow> va_arg32 ap = Some (hd ap, tl ap)"
  by (cases ap) simp_all

lemma sc_size_le: "sc_size mo \<le> 8"
  by (cases mo) (simp_all add: sc_size_def)

lemma sc_store_post:
  assumes "dests_clear A n (sc_ap st)" and "sc_ap st \<noteq> []"
  shows "\<exists>m'. sc_store st v = Some (st\<lparr>sc_ap := tl (sc_ap st), sc_mem := m'\<rparr>) \<and> (\<forall>a. A a \<longrightarrow> m' a = sc_mem st a)"
proof -
  have "store_le (sc_mem st) (hd (sc_ap st)) (sc_size (sc_modifier st)) v a = sc_mem st a" if "A a" for a
  proof (rule store_le_apply)
    fix k assume "k < sc_size (sc_modifier st)"
    then have "k < n + 8" using sc_size_le [of "sc_modifier st"] by simp
    then show "a \<noteq> hd (sc_ap st) + of_nat k" using assms that by (auto simp: dests_clear_def)
  qed
  then show ?thesis
    by (intro exI [of _ "store_le (sc_mem st) (hd (sc_ap st)) (sc_size (sc_modifier st)) v"])
      (simp add: sc_store_def va_arg32_hd [OF assms(2)])
qed

lemma report_conv_simps [simp]:
  "fmt_sscanf_state_report_conv st = st\<lparr>sc_nr_convs := (if sc_nr_convs st = EOF then 1 else sc_nr_convs st + 1)\<rparr>"
  by (simp add: fmt_sscanf_state_report_conv_def)

lemma report_error_simps [simp]:
  "fmt_sscanf_state_report_error st = st\<lparr>sc_nr_convs := (if sc_nr_convs st = 0 then EOF else sc_nr_convs st)\<rparr>"
  by (simp add: fmt_sscanf_state_report_error_def)

lemma digits_buf_init: "digits_buf 0 (replicate FMT_MAX_NUM_SIZE 0)"
  by (simp add: digits_buf_def FMT_MAX_NUM_SIZE_def)

lemma digits_buf_zero: "digits_buf 0 buf \<Longrightarrow> digits_buf 1 (buf[0 := ch CHR ''0''])"
  using digits_buf_put(1) [of 0 buf "ch CHR ''0''"] by (simp add: FMT_MAX_NUM_SIZE_def fmt_isxdigit_def fmt_isdigit_def)

lemma produce_int_post:
  assumes s: "cstr_in A (sc_mem st) (sc_str st) s" "length s \<le> n" and ap: "dests_clear A n (sc_ap st)" "sc_ap st \<noteq> []"
    and nr: "EOF \<le> sc_nr_convs st"
  shows "\<exists>r. fmt_sscanf_state_produce_int st = Some r \<and> sc_post A n st r"
proof -
  let ?s = "dropWhile fmt_isspace s"
  obtain q where q: "fmt_sscanf_state_skip_space st = Some (st\<lparr>sc_str := q\<rparr>)" "cstr_in A (sc_mem st) q ?s"
    using skip_space_eq [OF s(1)] by blast
  let ?st = "st\<lparr>sc_str := q\<rparr>"
  obtain neg c st1 where sg: "sc_int_sign ?st = (neg, c, st1)" "ahead A ?st ?s c st1"
    using sc_int_sign_ahead [of A ?st ?s] q(2) by (cases "sc_int_sign ?st") auto
  obtain c2 st2 where pf: "sc_int_prefix (c, st1) = (c2, st2)" "ahead A ?st ?s c2 st2"
    using sc_int_prefix_ahead [OF sg(2)] by (cases "sc_int_prefix (c, st1)") auto
  obtain c3 i buf neg' st3 where dg: "sc_digits c2 0 (replicate FMT_MAX_NUM_SIZE 0) neg st2 = Some (c3, i, buf, neg', st3)"
    "ahead A ?st ?s c3 st3" "digits_buf i buf"
    using sc_digits_ahead [OF pf(2) digits_buf_init] by blast
  obtain q' t w b where rs: "fmt_sscanf_state_restore_string st3 = ?st\<lparr>sc_str := q', sc_width := w, sc_base := b\<rparr>"
    "cstr_in A (sc_mem st) q' t" "suffix t ?s" using ahead_restore [OF dg(2)] by auto
  have t: "length t \<le> n" using suffix_length_le [OF rs(3)] length_dropWhile_le [of fmt_isspace s] s(2) by simp
  define i' buf' where "i' = (if i = 0 then 1 else i)" and "buf' = (if i = 0 then buf[0 := ch CHR ''0''] else buf)"
  have ib: "(if i = 0 then (1, buf[0 := ch CHR ''0'']) else (i, buf)) = (i', buf')" by (simp add: i'_def buf'_def)
  have "digits_buf i' buf'" using dg(3) digits_buf_zero [of buf] by (auto simp: i'_def buf'_def)
  from sc_number_returns [OF digits_buf_list [OF this]]
  obtain v neg2 where v: "sc_number (st\<lparr>sc_str := q', sc_width := w, sc_base := b\<rparr>)
    (if i' < FMT_MAX_NUM_SIZE then take i' buf' else takeWhile (\<lambda>c. c \<noteq> 0) buf') neg' = Some (v, neg2)" by fastforce
  obtain m' where m': "sc_store (st\<lparr>sc_str := q', sc_width := w, sc_base := b\<rparr>) (if neg2 then - v else v) =
      Some (st\<lparr>sc_str := q', sc_width := w, sc_base := b, sc_ap := tl (sc_ap st), sc_mem := m'\<rparr>)"
    "\<forall>a. A a \<longrightarrow> m' a = sc_mem st a"
    using sc_store_post [of A n "st\<lparr>sc_str := q', sc_width := w, sc_base := b\<rparr>"] ap by auto
  have t': "cstr_in A m' q' t" using cstr_in_cong [OF rs(2)] m'(2) by blast
  let ?st4 = "st\<lparr>sc_str := q', sc_width := w, sc_base := b\<rparr>"
  define r where "r = (if has_flag (sc_flags st) FMT_FORMAT_DISCARD then (None, ?st4)
    else if i = 0 \<and> c3 = 0 then (Some ERROR_INVAL, fmt_sscanf_state_report_error ?st4)
    else (None, fmt_sscanf_state_report_conv (?st4\<lparr>sc_ap := tl (sc_ap st), sc_mem := m'\<rparr>)))"
  have "fmt_sscanf_state_produce_int st = Some r"
    unfolding fmt_sscanf_state_produce_int_def Let_def
    by (simp add: q(1) sg(1) pf(1) dg(1) rs(1) ib v m'(1) r_def del: report_conv_simps report_error_simps)
  moreover have "sc_post A n st r"
    unfolding r_def using m'(2) rs(2) t t' nr ap(2) by (auto intro!: sc_postI [of _ _ _ _ t] simp: EOF_def)
  ultimately show ?thesis by blast
qed

text \<open>The loops that copy characters: the position moves on in the string, and the destination with it.\<close>

definition dest_clear :: "(u32 \<Rightarrow> bool) \<Rightarrow> nat \<Rightarrow> u32 \<Rightarrow> bool" where
  "dest_clear A n dest \<longleftrightarrow> dest = 0 \<or> (\<forall>k\<le>n. \<not> A (dest + of_nat k))"

lemma dest_clear_next: "dest_clear A (Suc n) dest \<Longrightarrow> dest \<noteq> 0 \<Longrightarrow> dest_clear A n (dest + 1)"
proof -
  assume c: "dest_clear A (Suc n) dest" and "dest \<noteq> 0"
  then have "\<not> A (dest + of_nat (Suc k))" if "k \<le> n" for k using that unfolding dest_clear_def by (metis Suc_le_mono)
  then show ?thesis by (simp add: dest_clear_def add.assoc)
qed

lemma sc_put_eq:
  assumes "dest_clear A (Suc n) dest"
  shows "\<exists>dest' m'. sc_put dest c st = (dest', st\<lparr>sc_mem := m'\<rparr>) \<and> (\<forall>a. A a \<longrightarrow> m' a = sc_mem st a) \<and>
    dest_clear A n dest' \<and> (dest = 0 \<longrightarrow> dest' = 0)"
proof (cases "dest = 0")
  case False
  have "\<not> A dest" using assms False by (force simp: dest_clear_def dest: spec [of _ 0])
  with False show ?thesis
    by (intro exI [of _ "dest + 1"] exI [of _ "(sc_mem st)(dest := c)"])
      (auto simp: sc_put_def dest_clear_next [OF assms])
qed (auto simp: sc_put_def dest_clear_def intro: exI [of _ "sc_mem st"])

definition copied :: "(u32 \<Rightarrow> bool) \<Rightarrow> u8 list \<Rightarrow> u32 \<Rightarrow> fmt_sscanf_state \<Rightarrow> u32 \<Rightarrow> fmt_sscanf_state \<Rightarrow> bool \<Rightarrow> bool" where
  "copied A s dest st dest' st' over \<longleftrightarrow> (\<exists>m' q w t. st' = st\<lparr>sc_mem := m', sc_str := q, sc_width := w\<rparr> \<and>
     (\<forall>a. A a \<longrightarrow> m' a = sc_mem st a) \<and> cstr_in A m' (if over then q - 1 else q) t \<and> suffix t s \<and>
     dest_clear A (length t) dest' \<and> (dest = 0 \<longrightarrow> dest' = 0))"

lemma copied_step:
  assumes s: "cstr_in A (sc_mem st) (sc_str st) s" and d: "dest_clear A (length s) dest"
    and c: "fmt_sscanf_state_consume_string st = (c, st1)"
  shows "copied A s dest st dest st1 True"
    and "c \<noteq> 0 \<Longrightarrow> c \<noteq> 255 \<Longrightarrow> sc_put dest c st1 = (dest2, st2) \<Longrightarrow>
      s \<noteq> [] \<and> cstr_in A (sc_mem st2) (sc_str st2) (tl s) \<and> dest_clear A (length (tl s)) dest2 \<and>
      (copied A (tl s) dest2 st2 dest' st' ov \<longrightarrow> copied A s dest st dest' st' ov)"
proof -
  obtain w where st1: "st1 = st\<lparr>sc_str := sc_str st + 1, sc_width := w\<rparr>" and cc: "c = 255 \<or> c = first_char s"
    using consume_string_eq [of st] c cstr_in_first [OF s] by auto
  show "copied A s dest st dest st1 True"
    unfolding copied_def
    by (intro exI [of _ "sc_mem st"] exI [of _ "sc_str st + 1"] exI [of _ w] exI [of _ s]) (use s d st1 in simp)
  assume nz: "c \<noteq> 0" "c \<noteq> 255" and p: "sc_put dest c st1 = (dest2, st2)"
  then have cf: "first_char s \<noteq> 0" using cc by simp
  note tl = cstr_in_neq0 [OF s cf]
  then have ls: "s \<noteq> []" "length s = Suc (length (tl s))" by (cases s; simp)+
  obtain m' where m': "st2 = st1\<lparr>sc_mem := m'\<rparr>" "\<forall>a. A a \<longrightarrow> m' a = sc_mem st a" "dest_clear A (length (tl s)) dest2"
    "dest = 0 \<longrightarrow> dest2 = 0"
    using sc_put_eq [OF d [unfolded ls(2)], of c st1] p by (auto simp: st1)
  have at: "cstr_in A m' (sc_str st + 1) (tl s)" using cstr_in_cong [of A "sc_mem st" _ _ m'] tl m'(2) by blast
  have "copied A s dest st dest' st' ov" if "copied A (tl s) dest2 st2 dest' st' ov"
  proof -
    from that obtain m2 q w2 t where x: "st' = st2\<lparr>sc_mem := m2, sc_str := q, sc_width := w2\<rparr>"
      "\<forall>a. A a \<longrightarrow> m2 a = sc_mem st2 a" "cstr_in A m2 (if ov then q - 1 else q) t" "suffix t (tl s)"
      "dest_clear A (length t) dest'" "dest2 = 0 \<longrightarrow> dest' = 0" by (auto simp: copied_def)
    have "suffix t s" using x(4) suffix_order.trans [OF _ suffix_tl] by blast
    then show ?thesis
      unfolding copied_def
      by (intro exI [of _ m2] exI [of _ q] exI [of _ w2] exI [of _ t]) (use x m' st1 in simp)
  qed
  with ls(1) at m' show "s \<noteq> [] \<and> cstr_in A (sc_mem st2) (sc_str st2) (tl s) \<and> dest_clear A (length (tl s)) dest2 \<and>
      (copied A (tl s) dest2 st2 dest' st' ov \<longrightarrow> copied A s dest st dest' st' ov)"
    by (simp add: st1)
qed

lemma copied_refl: "cstr_in A (sc_mem st) (sc_str st) s \<Longrightarrow> dest_clear A (length s) dest \<Longrightarrow> copied A s dest st dest st False"
  unfolding copied_def
  by (intro exI [of _ "sc_mem st"] exI [of _ "sc_str st"] exI [of _ "sc_width st"] exI [of _ s]) simp

lemma sint_EOF: "sint (c :: u8) = EOF \<longleftrightarrow> c = 255"
proof -
  have "sint (255 :: u8) = EOF" by (simp add: EOF_def)
  then show ?thesis by (metis signed_word_eqI)
qed

lemma sc_chars_copied:
  assumes "cstr_in A (sc_mem st) (sc_str st) s" and "dest_clear A (length s) dest"
  shows "case sc_chars i width dest st of (i', dest', st') \<Rightarrow> i \<le> i' \<and> copied A s dest st dest' st' (i' < width)"
  using assms
proof (induction s arbitrary: i dest st)
  case Nil
  show ?case
  proof (cases "i < width")
    case True
    obtain c st1 where c: "fmt_sscanf_state_consume_string st = (c, st1)" by fastforce
    have "c = 0 \<or> c = 255" using consume_string_eq [of st] c Nil(1) by auto
    then show ?thesis using True c copied_step(1) [OF Nil c] by (auto simp: sc_chars.simps [of i] sint_EOF)
  qed (use copied_refl [OF Nil] in \<open>simp add: sc_chars.simps [of i]\<close>)
next
  case (Cons x s)
  show ?case
  proof (cases "i < width")
    case True
    obtain c st1 dest2 st2 where c: "fmt_sscanf_state_consume_string st = (c, st1)" and p: "sc_put dest c st1 = (dest2, st2)"
      by (metis surj_pair)
    note step = copied_step [OF Cons.prems c]
    show ?thesis
    proof (cases "c = 0 \<or> c = 255")
      case True
      then show ?thesis using \<open>i < width\<close> c step(1) by (auto simp: sc_chars.simps [of i] sint_EOF)
    next
      case False
      then have e: "sc_chars i width dest st = sc_chars (i + 1) width dest2 st2"
        using \<open>i < width\<close> c p by (simp add: sc_chars.simps [of i] sint_EOF)
      from step(2) [OF _ _ p] False
      have n: "cstr_in A (sc_mem st2) (sc_str st2) s" "dest_clear A (length s) dest2"
        "\<And>dest' st' ov. copied A s dest2 st2 dest' st' ov \<Longrightarrow> copied A (x # s) dest st dest' st' ov" by simp_all
      from Cons.IH [OF n(1,2), of "i + 1"] n(3) show ?thesis unfolding e by (auto split: prod.splits)
    qed
  qed (use copied_refl [OF Cons.prems] in \<open>simp add: sc_chars.simps [of i]\<close>)
qed

lemma sc_chars_str_copied:
  assumes "cstr_in A (sc_mem st) (sc_str st) s" and "dest_clear A (length s) dest"
  shows "\<exists>dest' st'. sc_chars_str dest st = Some (dest', st') \<and> copied A s dest st dest' st' True"
  using assms
proof (induction s arbitrary: dest st)
  case Nil
  obtain c st1 where c: "fmt_sscanf_state_consume_string st = (c, st1)" by fastforce
  have "c = 0 \<or> c = 255" using consume_string_eq [of st] c Nil(1) by auto
  then show ?case using c copied_step(1) [OF Nil c] by (auto simp: sc_chars_str.simps [of dest] sint_EOF)
next
  case (Cons x s)
  obtain c st1 dest2 st2 where c: "fmt_sscanf_state_consume_string st = (c, st1)" and p: "sc_put dest c st1 = (dest2, st2)"
    by (metis surj_pair)
  note step = copied_step [OF Cons.prems c]
  show ?case
  proof (cases "c = 0 \<or> c = ch CHR '' '' \<or> c = 255")
    case True
    then show ?thesis using c step(1) by (auto simp: sc_chars_str.simps [of dest] sint_EOF)
  next
    case False
    then have e: "sc_chars_str dest st = sc_chars_str dest2 st2"
      using c p by (simp add: sc_chars_str.simps [of dest] sint_EOF)
    from step(2) [OF _ _ p] False
    have n: "cstr_in A (sc_mem st2) (sc_str st2) s" "dest_clear A (length s) dest2"
      "\<And>dest' st' ov. copied A s dest2 st2 dest' st' ov \<Longrightarrow> copied A (x # s) dest st dest' st' ov" by simp_all
    from Cons.IH [OF n(1,2)] n(3) show ?thesis unfolding e by blast
  qed
qed

lemma sc_dest_eq:
  assumes "dests_clear A n (sc_ap st)" and "sc_ap st \<noteq> []"
  shows "\<exists>dest ap. sc_dest st = Some (dest, st\<lparr>sc_ap := ap\<rparr>) \<and> dest_clear A n dest \<and>
    (ap = tl (sc_ap st) \<or> ap = sc_ap st \<and> dest = 0)"
proof (cases "has_flag (sc_flags st) FMT_FORMAT_DISCARD")
  case True
  then show ?thesis by (intro exI [of _ 0] exI [of _ "sc_ap st"]) (simp add: sc_dest_def dest_clear_def)
next
  case False
  have "dest_clear A n (hd (sc_ap st))" using assms by (auto simp: dests_clear_def dest_clear_def)
  with False show ?thesis
    by (intro exI [of _ "hd (sc_ap st)"] exI [of _ "tl (sc_ap st)"]) (simp add: sc_dest_def va_arg32_hd [OF assms(2)])
qed

lemma dest_clear_mono: "dest_clear A n dest \<Longrightarrow> k \<le> n \<Longrightarrow> dest_clear A k dest"
  by (auto simp: dest_clear_def)

lemma restore_string_simps [simp]: "fmt_sscanf_state_restore_string st = st\<lparr>sc_str := sc_str st - 1\<rparr>"
  by (simp add: fmt_sscanf_state_restore_string_def fmt_restore_def)

lemma produce_char_post:
  assumes s: "cstr_in A (sc_mem st) (sc_str st) s" "length s \<le> n" and ap: "dests_clear A n (sc_ap st)" "sc_ap st \<noteq> []"
    and nr: "EOF \<le> sc_nr_convs st"
  shows "\<exists>r. fmt_sscanf_state_produce_char st = Some r \<and> sc_post A n st r"
proof -
  obtain dest ap where d: "sc_dest st = Some (dest, st\<lparr>sc_ap := ap\<rparr>)" "dest_clear A n dest"
    "ap = tl (sc_ap st) \<or> ap = sc_ap st \<and> dest = 0" using sc_dest_eq [OF ap] by blast
  define width where "width = (if has_flag (sc_flags st) FMT_FORMAT_CHECK_WIDTH then sc_width st else 1)"
  obtain i dest' st' where c: "sc_chars 0 width dest (st\<lparr>sc_ap := ap\<rparr>) = (i, dest', st')" by (metis surj_pair)
  have "copied A s dest (st\<lparr>sc_ap := ap\<rparr>) dest' st' (i < width)"
    using sc_chars_copied [of A "st\<lparr>sc_ap := ap\<rparr>" s dest 0 width] s(1) dest_clear_mono [OF d(2) s(2)] c by simp
  then obtain m' q w t where x: "st' = st\<lparr>sc_ap := ap, sc_mem := m', sc_str := q, sc_width := w\<rparr>"
    "\<forall>a. A a \<longrightarrow> m' a = sc_mem st a" "cstr_in A m' (if i < width then q - 1 else q) t" "suffix t s" "dest = 0 \<longrightarrow> dest' = 0"
    by (auto simp: copied_def)
  have t: "length t \<le> n" using suffix_length_le [OF x(4)] s(2) by simp
  define r where "r = (None :: error option, let st2 = (if i < width then fmt_sscanf_state_restore_string st' else st') in
    if dest' \<noteq> 0 \<and> i \<noteq> 0 then fmt_sscanf_state_report_conv st2 else st2)"
  have "fmt_sscanf_state_produce_char st = Some r"
    using d(1) c unfolding r_def width_def
    by (cases "has_flag (sc_flags st) FMT_FORMAT_CHECK_WIDTH") (simp_all add: fmt_sscanf_state_produce_char_def Let_def)
  moreover have "sc_post A n st r"
    unfolding r_def using x(2,3,5) d(3) t nr ap(2) by (auto intro!: sc_postI [of _ _ _ _ t] simp: EOF_def x(1) Let_def)
  ultimately show ?thesis by blast
qed

lemma produce_str_post:
  assumes s: "cstr_in A (sc_mem st) (sc_str st) s" "length s \<le> n" and ap: "dests_clear A n (sc_ap st)" "sc_ap st \<noteq> []"
    and nr: "EOF \<le> sc_nr_convs st"
  shows "\<exists>r. fmt_sscanf_state_produce_str st = Some r \<and> sc_post A n st r"
proof -
  obtain p where p: "fmt_sscanf_state_skip_space st = Some (st\<lparr>sc_str := p\<rparr>)"
    "cstr_in A (sc_mem st) p (dropWhile fmt_isspace s)" using skip_space_eq [OF s(1)] by blast
  have n: "length (dropWhile fmt_isspace s) \<le> n" using s(2) length_dropWhile_le [of fmt_isspace s] by simp
  obtain dest ap where d: "sc_dest (st\<lparr>sc_str := p\<rparr>) = Some (dest, st\<lparr>sc_str := p, sc_ap := ap\<rparr>)" "dest_clear A n dest"
    "ap = tl (sc_ap st) \<or> ap = sc_ap st \<and> dest = 0" using sc_dest_eq [of A n "st\<lparr>sc_str := p\<rparr>"] ap by auto
  let ?st = "st\<lparr>sc_str := p, sc_ap := ap\<rparr>"
  obtain dest' st' where c: "sc_chars_str dest ?st = Some (dest', st')" "copied A (dropWhile fmt_isspace s) dest ?st dest' st' True"
    using sc_chars_str_copied [of A ?st "dropWhile fmt_isspace s" dest] p(2) dest_clear_mono [OF d(2) n] by auto
  then obtain m' q w t where x: "st' = st\<lparr>sc_ap := ap, sc_mem := m', sc_str := q, sc_width := w\<rparr>"
    "\<forall>a. A a \<longrightarrow> m' a = sc_mem st a" "cstr_in A m' (q - 1) t" "suffix t (dropWhile fmt_isspace s)"
    "dest_clear A (length t) dest'" "dest = 0 \<longrightarrow> dest' = 0"
    by (auto simp: copied_def)
  have t: "length t \<le> n" using suffix_length_le [OF x(4)] n by simp
  have nd: "\<not> A dest'" if "dest' \<noteq> 0" using x(5) that by (force simp: dest_clear_def dest: spec [of _ 0])
  have t': "cstr_in A (m'(dest' := 0)) (q - 1) t" if "dest' \<noteq> 0"
    by (rule cstr_in_cong [OF x(3)]) (use nd [OF that] in auto)
  define st2 where "st2 = fmt_sscanf_state_restore_string st'"
  define r where "r = (if sc_str st2 = sc_str st then (Some ERROR_INVAL, fmt_sscanf_state_report_error st2)
    else if dest' \<noteq> 0 then (None, fmt_sscanf_state_report_conv (st2\<lparr>sc_mem := (sc_mem st2)(dest' := 0)\<rparr>)) else (None, st2))"
  have "fmt_sscanf_state_produce_str st = Some r"
    unfolding fmt_sscanf_state_produce_str_def Let_def
    by (simp add: p(1) d(1) c(1) st2_def r_def del: report_conv_simps report_error_simps)
  moreover have "sc_post A n st r"
    unfolding r_def st2_def using x(2,3,6) d(3) t nr ap(2) nd t'
    by (auto intro!: sc_postI [of _ _ _ _ t] simp: EOF_def x(1))
  ultimately show ?thesis by blast
qed

lemma produce_nrchars_post:
  assumes s: "cstr_in A (sc_mem st) (sc_str st) s" "length s \<le> n" and ap: "dests_clear A n (sc_ap st)" "sc_ap st \<noteq> []"
    and nr: "EOF \<le> sc_nr_convs st"
  shows "\<exists>r. fmt_sscanf_state_produce_nrchars st = Some r \<and> sc_post A n st r"
proof -
  let ?m = "store_le (sc_mem st) (hd (sc_ap st)) 4 (ucast (sc_str st - sc_start st))"
  have m: "?m a = sc_mem st a" if "A a" for a
    by (rule store_le_apply) (use ap that in \<open>auto simp: dests_clear_def\<close>)
  have "cstr_in A ?m (sc_str st) s" using cstr_in_cong [OF s(1)] m by blast
  then have "sc_post A n st (None, st\<lparr>sc_ap := tl (sc_ap st), sc_mem := ?m\<rparr>)"
    using m s(2) nr ap(2) by (intro sc_postI [of _ _ _ _ s]) (auto simp: EOF_def)
  then show ?thesis by (simp add: fmt_sscanf_state_produce_nrchars_def va_arg32_hd [OF ap(2)])
qed

lemma discard_char_post:
  assumes s: "cstr_in A (sc_mem st) (sc_str st) s" "length s \<le> n" and nr: "EOF \<le> sc_nr_convs st" and c: "c \<noteq> 0"
    and fl: "c \<noteq> 255 \<or> \<not> has_flag (sc_flags st) FMT_FORMAT_CHECK_WIDTH"
  shows "\<exists>err st'. fmt_sscanf_state_discard_char st c = Some (err, st') \<and> sc_post A n st (err, st') \<and>
    err \<in> {None, Some ERROR_INVAL} \<and> sc_ap st' = sc_ap st"
proof (cases "fmt_isspace c")
  case True
  obtain p where p: "fmt_sscanf_state_skip_space st = Some (st\<lparr>sc_str := p\<rparr>)"
    "cstr_in A (sc_mem st) p (dropWhile fmt_isspace s)" using skip_space_eq [OF s(1)] by blast
  have "sc_post A n st (None, st\<lparr>sc_str := p\<rparr>)"
    by (rule sc_postI [of _ _ _ _ "dropWhile fmt_isspace s"])
      (use p(2) s(2) length_dropWhile_le [of fmt_isspace s] nr in auto)
  then show ?thesis using True p by (simp add: fmt_sscanf_state_discard_char_def)
next
  case False
  obtain d w where d: "fmt_sscanf_state_consume_string st = (d, st\<lparr>sc_str := sc_str st + 1, sc_width := w\<rparr>)"
    "d = 255 \<and> has_flag (sc_flags st) FMT_FORMAT_CHECK_WIDTH \<or> d = first_char s"
    using consume_string_eq [of st] cstr_in_first [OF s(1)] by auto
  let ?st = "st\<lparr>sc_str := sc_str st + 1, sc_width := w\<rparr>"
  define r where "r = (if c \<noteq> d then (Some ERROR_INVAL, if d = 0 \<and> sc_nr_convs ?st = 0 then ?st\<lparr>sc_nr_convs := EOF\<rparr> else ?st)
    else (None, ?st))"
  have "fmt_sscanf_state_discard_char st c = Some r"
    using False d(1) by (simp add: fmt_sscanf_state_discard_char_def r_def)
  moreover have "cstr_in A (sc_mem st) (sc_str st + 1) (tl s)" if "c = d"
    using cstr_in_neq0 [OF s(1)] c fl d(2) that by auto
  then have "sc_post A n st r"
    unfolding r_def using nr s(2) by (auto intro!: sc_postI [of _ _ _ _ "tl s"] simp: EOF_def)
  moreover have "fst r \<in> {None, Some ERROR_INVAL} \<and> sc_ap (snd r) = sc_ap st" by (simp add: r_def)
  ultimately show ?thesis by (cases r) auto
qed

lemma produce_post:
  assumes s: "cstr_in A (sc_mem st) (sc_str st) s" "length s \<le> n" and ap: "dests_clear A n (sc_ap st)" "sc_ap st \<noteq> []"
    and nr: "EOF \<le> sc_nr_convs st"
  shows "\<exists>r. fmt_sscanf_state_produce st = Some r \<and> sc_post A n st r"
proof (cases "sc_specifier st")
  case FMT_SPECIFIER_PERCENT
  obtain p where p: "fmt_sscanf_state_skip_space st = Some (st\<lparr>sc_str := p\<rparr>)"
    "cstr_in A (sc_mem st) p (dropWhile fmt_isspace s)" using skip_space_eq [OF s(1)] by blast
  have "length (dropWhile fmt_isspace s) \<le> n" using s(2) length_dropWhile_le [of fmt_isspace s] by simp
  then obtain r where "fmt_sscanf_state_discard_char (st\<lparr>sc_str := p\<rparr>) (ch CHR ''%'') = Some r" "sc_post A n (st\<lparr>sc_str := p\<rparr>) r"
    using discard_char_post [of A "st\<lparr>sc_str := p\<rparr>" "dropWhile fmt_isspace s" n "ch CHR ''%''"] p(2) nr by auto
  then show ?thesis using FMT_SPECIFIER_PERCENT p(1) by (simp add: fmt_sscanf_state_produce_def sc_post_def)
next
  case FMT_SPECIFIER_INVALID
  then show ?thesis
    using nr by (auto simp: fmt_sscanf_state_produce_def EOF_def intro!: sc_postI)
qed (use produce_int_post [OF assms] produce_char_post [OF assms] produce_str_post [OF assms] produce_nrchars_post [OF assms]
  in \<open>auto simp: fmt_sscanf_state_produce_def\<close>)

section \<open>The format\<close>

text \<open>Reading the format moves the position in it and sets the members that describe the conversion.\<close>

definition fmt_pos :: "(u32 \<Rightarrow> bool) \<Rightarrow> bytes \<Rightarrow> u32 \<Rightarrow> u8 list \<Rightarrow> bool" where
  "fmt_pos A m p f \<longleftrightarrow> (\<exists>t. cstr_in A m p t \<and> suffix t f)"

lemma fmt_pos_here: "cstr_in A m p f \<Longrightarrow> fmt_pos A m p f"
  by (auto simp: fmt_pos_def)

lemma fmt_pos_Cons: "fmt_pos A m p f \<Longrightarrow> fmt_pos A m p (x # f)"
  by (auto simp: fmt_pos_def intro: suffix_ConsI)

lemma fmt_pos_cases:
  "m p = 0 \<Longrightarrow> A p \<Longrightarrow> fmt_pos A m p []"
  "m p \<noteq> 0 \<Longrightarrow> A p \<Longrightarrow> cstr_in A m (p + 1) f \<Longrightarrow> fmt_pos A m p (m p # f)"
  by (auto intro: fmt_pos_here)

lemmas fmt_pos_intros = fmt_pos_cases fmt_pos_Cons fmt_pos_here

definition fmt_at :: "(u32 \<Rightarrow> bool) \<Rightarrow> fmt_sscanf_state \<Rightarrow> u8 list \<Rightarrow> fmt_sscanf_state \<Rightarrow> bool" where
  "fmt_at A st f st' \<longleftrightarrow> sc_mem st' = sc_mem st \<and> sc_str st' = sc_str st \<and> sc_ap st' = sc_ap st \<and>
     sc_nr_convs st' = sc_nr_convs st \<and> fmt_pos A (sc_mem st) (sc_format st') f"

lemma fmt_at_refl: "cstr_in A (sc_mem st) (sc_format st) f \<Longrightarrow> fmt_at A st f st"
  by (simp add: fmt_at_def fmt_pos_here)

lemma fmt_at_trans:
  "fmt_at A st f st1 \<Longrightarrow> (\<And>t. cstr_in A (sc_mem st1) (sc_format st1) t \<Longrightarrow> fmt_at A st1 t st2) \<Longrightarrow> fmt_at A st f st2"
  unfolding fmt_at_def fmt_pos_def using suffix_order.trans by metis

lemma consume_format_eq [simp]:
  "fmt_sscanf_state_consume_format st = (sc_mem st (sc_format st), st\<lparr>sc_format := sc_format st + 1\<rparr>)"
  by (simp add: fmt_sscanf_state_consume_format_def fmt_consume_def)

lemma restore_format_eq [simp]: "fmt_sscanf_state_restore_format st = st\<lparr>sc_format := sc_format st - 1\<rparr>"
  by (simp add: fmt_sscanf_state_restore_format_def fmt_restore_def)

lemma sc_flags_loop_at:
  "cstr_in A (sc_mem st) (sc_format st) f \<Longrightarrow>
   \<exists>st'. sc_flags_loop st = Some st' \<and> fmt_at A st f (st'\<lparr>sc_format := sc_format st' - 1\<rparr>)"
proof (induction f arbitrary: st)
  case (Cons x f)
  let ?st = "sc_set_flag FMT_FORMAT_DISCARD (st\<lparr>sc_format := sc_format st + 1\<rparr>)"
  have "\<exists>st'. sc_flags_loop ?st = Some st' \<and> fmt_at A ?st f (st'\<lparr>sc_format := sc_format st' - 1\<rparr>)"
    by (rule Cons.IH) (use Cons.prems in \<open>simp add: sc_set_flag_def\<close>)
  then show ?case
    using Cons.prems
    by (cases "x = ch CHR ''*''") (auto simp: sc_flags_loop.simps [of st] fmt_at_def sc_set_flag_def intro: fmt_pos_intros)
qed (auto simp: sc_flags_loop.simps fmt_at_def intro: fmt_pos_intros)

lemma consume_flags_at:
  "cstr_in A (sc_mem st) (sc_format st) f \<Longrightarrow> \<exists>st'. fmt_sscanf_state_consume_flags st = Some st' \<and> fmt_at A st f st'"
  using sc_flags_loop_at [of A "st\<lparr>sc_flags := 0\<rparr>" f]
  by (auto simp: fmt_sscanf_state_consume_flags_def fmt_at_def)

lemma sc_width_loop_at:
  "cstr_in A (sc_mem st) (sc_format st) f \<Longrightarrow>
   \<exists>st'. sc_width_loop st = Some st' \<and> fmt_at A st f (st'\<lparr>sc_format := sc_format st' - 1\<rparr>)"
proof (induction f arbitrary: st)
  case (Cons x f)
  let ?st = "st\<lparr>sc_format := sc_format st + 1, sc_width := sc_width st * 10 + (uint x - 48)\<rparr>"
  have "\<exists>st'. sc_width_loop ?st = Some st' \<and> fmt_at A ?st f (st'\<lparr>sc_format := sc_format st' - 1\<rparr>)"
    by (rule Cons.IH) (use Cons.prems in simp)
  then show ?case
    using Cons.prems
    by (cases "fmt_isdigit x") (auto simp: sc_width_loop.simps [of st] fmt_at_def intro: fmt_pos_intros)
qed (auto simp: sc_width_loop.simps fmt_at_def fmt_isdigit_def intro: fmt_pos_intros)

lemma consume_width_at:
  "cstr_in A (sc_mem st) (sc_format st) f \<Longrightarrow> \<exists>st'. fmt_sscanf_state_consume_width st = Some st' \<and> fmt_at A st f st'"
  using sc_width_loop_at [of A "st\<lparr>sc_width := 0\<rparr>" f]
  by (auto simp: fmt_sscanf_state_consume_width_def fmt_at_def sc_set_flag_def)

lemma consume_modifier_at:
  "cstr_in A (sc_mem st) (sc_format st) f \<Longrightarrow> fmt_at A st f (fmt_sscanf_state_consume_modifier st)"
proof -
  assume f: "cstr_in A (sc_mem st) (sc_format st) f"
  let ?m = "sc_mem st" and ?p = "sc_format st"
  have "fmt_pos A ?m ?p f" using f by (rule fmt_pos_here)
  moreover have "?m ?p \<noteq> 0 \<Longrightarrow> fmt_pos A ?m (?p + 1) f" using f by (cases f) (auto intro: fmt_pos_intros)
  moreover have "?m ?p \<noteq> 0 \<Longrightarrow> ?m (?p + 1) \<noteq> 0 \<Longrightarrow> fmt_pos A ?m (?p + 1 + 1) f"
    using f by (cases f; cases "tl f") (auto intro: fmt_pos_intros)
  ultimately show ?thesis
    by (auto simp: fmt_sscanf_state_consume_modifier_def fmt_at_def Let_def add.assoc add.commute [of 1 "sc_format st"])
qed

lemma consume_specifier_at:
  "cstr_in A (sc_mem st) (sc_format st) f \<Longrightarrow> fmt_at A st f (fmt_sscanf_state_consume_specifier st)"
  by (cases f) (auto simp: fmt_sscanf_state_consume_specifier_def fmt_at_def sc_set_flag_def Let_def intro: fmt_pos_intros)

text \<open>
  One turn of the loop: the end of the format, a plain character, or a conversion that is about to be
  produced, with the rest of the format shorter by its percent sign.
\<close>

definition conv_count :: "u8 list \<Rightarrow> nat" where
  "conv_count f = length (filter (\<lambda>c. c = ch CHR ''%'') f)"

lemma conv_count_simps [simp]:
  "conv_count [] = 0" "conv_count (x # f) = (if x = ch CHR ''%'' then Suc (conv_count f) else conv_count f)"
  by (simp_all add: conv_count_def)

lemma suffix_conv_count: "suffix t f \<Longrightarrow> length t \<le> length f \<and> conv_count t \<le> conv_count f"
  by (auto simp: suffix_def conv_count_def)

lemma fmt_at_conv:
  assumes "cstr_in A (sc_mem st) (sc_format st) f"
  shows "\<exists>st'. (do {
        st \<leftarrow> fmt_sscanf_state_consume_flags st;
        st \<leftarrow> fmt_sscanf_state_consume_width st;
        let st = fmt_sscanf_state_consume_modifier st;
        Some (None :: error option, fmt_sscanf_state_consume_specifier st)
      }) = Some (None, st') \<and> fmt_at A st f st'"
proof -
  obtain st1 where 1: "fmt_sscanf_state_consume_flags st = Some st1" "fmt_at A st f st1" using consume_flags_at [OF assms] by blast
  obtain t where t: "cstr_in A (sc_mem st1) (sc_format st1) t" using 1(2) by (auto simp: fmt_at_def fmt_pos_def)
  obtain st2 where 2: "fmt_sscanf_state_consume_width st1 = Some st2" using consume_width_at [OF t] by blast
  have "fmt_at A st f st2" using fmt_at_trans [OF 1(2)] consume_width_at 2 by (metis option.inject)
  then have "fmt_at A st f (fmt_sscanf_state_consume_modifier st2)" using fmt_at_trans consume_modifier_at by blast
  then have "fmt_at A st f (fmt_sscanf_state_consume_specifier (fmt_sscanf_state_consume_modifier st2))"
    using fmt_at_trans consume_specifier_at by blast
  with 1(1) 2 show ?thesis by simp
qed

text \<open>The state in which the loop reads the format: \<open>f\<close> is left, and \<open>k\<close> bounds the number of conversions.\<close>

definition sc_inv :: "(u32 \<Rightarrow> bool) \<Rightarrow> nat \<Rightarrow> int \<Rightarrow> u8 list \<Rightarrow> fmt_sscanf_state \<Rightarrow> bool" where
  "sc_inv A n k f st \<longleftrightarrow> cstr_in A (sc_mem st) (sc_format st) f \<and> conv_count f \<le> length (sc_ap st) \<and>
     dests_clear A n (sc_ap st) \<and> EOF \<le> sc_nr_convs st \<and> max 0 (sc_nr_convs st) + int (length (sc_ap st)) \<le> k \<and>
     (\<exists>t. cstr_in A (sc_mem st) (sc_str st) t \<and> length t \<le> n)"

definition sc_done :: "(u32 \<Rightarrow> bool) \<Rightarrow> int \<Rightarrow> fmt_sscanf_state \<Rightarrow> fmt_sscanf_state \<Rightarrow> bool" where
  "sc_done A k st st' \<longleftrightarrow> EOF \<le> sc_nr_convs st' \<and> sc_nr_convs st' \<le> k \<and> (\<forall>a. A a \<longrightarrow> sc_mem st' a = sc_mem st a)"

lemma sc_post_inv:
  assumes p: "sc_post A n st (err, st')" and f: "cstr_in A (sc_mem st) (sc_format st) f" "conv_count f < length (sc_ap st) \<or>
      conv_count f = length (sc_ap st) \<and> sc_ap st' = sc_ap st"
    and i: "dests_clear A n (sc_ap st)" "max 0 (sc_nr_convs st) + int (length (sc_ap st)) \<le> k"
  shows "sc_done A k st st'" and "err = None \<Longrightarrow> sc_inv A n k f st'"
proof -
  note q = p [unfolded sc_post_def, simplified]
  have l: "length (sc_ap st') \<le> length (sc_ap st)" using q suffix_length_le by blast
  show "sc_done A k st st'" using q i(2) by (simp add: sc_done_def)
  have "cstr_in A (sc_mem st') (sc_format st') f" using cstr_in_cong [OF f(1)] q by simp
  moreover have "conv_count f \<le> length (sc_ap st')" using f(2) q by auto
  moreover have "dests_clear A n (sc_ap st')" using i(1) q set_mono_suffix by (fastforce simp: dests_clear_def)
  moreover have "max 0 (sc_nr_convs st') + int (length (sc_ap st')) \<le> k" using q i(2) l by auto
  ultimately show "err = None \<Longrightarrow> sc_inv A n k f st'" using q by (simp add: sc_inv_def)
qed

lemma sc_done_trans:
  "sc_done A k st1 st' \<Longrightarrow> (\<And>a. A a \<Longrightarrow> sc_mem st1 a = sc_mem st a) \<Longrightarrow> sc_done A k st st'"
  by (simp add: sc_done_def)

lemma no_flags [simp]: "\<not> has_flag 0 f"
  by (simp add: has_flag_def)

lemma consume_plain:
  assumes i: "sc_inv A n k (x # f) st" and x: "x \<noteq> ch CHR ''%''"
  shows "\<exists>err st'. fmt_sscanf_state_consume st = Some (Some err, st') \<and> sc_done A k st st' \<and>
    (err = ERROR_AGAIN \<longrightarrow> sc_inv A n k f st')"
proof -
  let ?st = "st\<lparr>sc_flags := 0, sc_format := sc_format st + 1\<rparr>"
  obtain t where t: "cstr_in A (sc_mem ?st) (sc_str ?st) t" "length t \<le> n" using i by (auto simp: sc_inv_def)
  have c: "sc_mem st (sc_format st) = x" "x \<noteq> 0" "cstr_in A (sc_mem ?st) (sc_format ?st) f" using i by (auto simp: sc_inv_def)
  obtain err st' where d: "fmt_sscanf_state_discard_char ?st x = Some (err, st')" "sc_post A n ?st (err, st')"
    "err \<in> {None, Some ERROR_INVAL}" "sc_ap st' = sc_ap st"
    using discard_char_post [OF t, of x] c(2) i by (auto simp: sc_inv_def)
  have l: "conv_count f < length (sc_ap ?st) \<or> conv_count f = length (sc_ap ?st) \<and> sc_ap st' = sc_ap ?st"
    using i x d(4) by (auto simp: sc_inv_def)
  have p: "sc_done A k ?st st'" "err = None \<Longrightarrow> sc_inv A n k f st'"
    using sc_post_inv [OF d(2) c(3) l, of k] i by (simp_all add: sc_inv_def)
  have "sc_done A k st st'" using p(1) by (rule sc_done_trans) simp
  moreover have "fmt_sscanf_state_consume st = Some (if err \<noteq> None then err else Some ERROR_AGAIN, st')"
    using c x d(1) by (simp add: fmt_sscanf_state_consume_def fmt_consume_def)
  ultimately show ?thesis using d(3) p(2) by auto
qed

lemma consume_conv:
  assumes i: "sc_inv A n k (ch CHR ''%'' # f) st"
  shows "\<exists>st1 err st' t. fmt_sscanf_state_consume st = Some (None, st1) \<and> fmt_sscanf_state_produce st1 = Some (err, st') \<and>
    sc_done A k st st' \<and> suffix t f \<and> (err = None \<longrightarrow> sc_inv A n k t st')"
proof -
  let ?st = "st\<lparr>sc_flags := 0, sc_format := sc_format st + 1\<rparr>"
  have c: "sc_mem st (sc_format st) = ch CHR ''%''" "cstr_in A (sc_mem ?st) (sc_format ?st) f" using i by (auto simp: sc_inv_def)
  obtain st1 where 1: "fmt_sscanf_state_consume st = Some (None, st1)" "fmt_at A ?st f st1"
    using fmt_at_conv [OF c(2)] c(1) by (auto simp: fmt_sscanf_state_consume_def fmt_consume_def Let_def)
  obtain t where t: "cstr_in A (sc_mem st1) (sc_format st1) t" "suffix t f" using 1(2) by (auto simp: fmt_at_def fmt_pos_def)
  have e: "sc_mem st1 = sc_mem st" "sc_str st1 = sc_str st" "sc_ap st1 = sc_ap st" "sc_nr_convs st1 = sc_nr_convs st"
    using 1(2) by (auto simp: fmt_at_def)
  obtain s where s: "cstr_in A (sc_mem st1) (sc_str st1) s" "length s \<le> n" using i by (auto simp: sc_inv_def e)
  have l: "conv_count t < length (sc_ap st1)" using suffix_conv_count [OF t(2)] i by (simp add: sc_inv_def e)
  then have "sc_ap st1 \<noteq> []" by auto
  then obtain err st' where p: "fmt_sscanf_state_produce st1 = Some (err, st')" "sc_post A n st1 (err, st')"
    using produce_post [OF s] i by (auto simp: sc_inv_def e)
  have "sc_done A k st1 st'" "err = None \<Longrightarrow> sc_inv A n k t st'"
    using sc_post_inv [OF p(2) t(1), of k] l i by (auto simp: sc_inv_def e)
  moreover from this(1) have "sc_done A k st st'" by (rule sc_done_trans) (simp add: e)
  ultimately show ?thesis using 1(1) p(1) t(2) by blast
qed

lemma vsscanf_loop_done:
  "sc_inv A n k f st \<Longrightarrow> \<exists>st'. fmt_vsscanf_loop st = Some st' \<and> sc_done A k st st'"
proof (induction "length f" arbitrary: f st rule: less_induct)
  case less
  have later: "\<exists>st2. fmt_vsscanf_loop st' = Some st2 \<and> sc_done A k st st2"
    if "sc_inv A n k t st'" "length t < length f" "sc_done A k st st'" for t st'
  proof -
    from less.hyps [OF that(2,1)] obtain st2 where st2: "fmt_vsscanf_loop st' = Some st2" "sc_done A k st' st2" by blast
    from st2(2) have "sc_done A k st st2" by (rule sc_done_trans) (use that(3) in \<open>simp add: sc_done_def\<close>)
    with st2(1) show ?thesis by blast
  qed
  show ?case
  proof (cases f)
    case Nil
    then show ?thesis
      using less.prems
      by (subst fmt_vsscanf_loop.simps) (auto simp: fmt_sscanf_state_consume_def fmt_consume_def sc_inv_def sc_done_def)
  next
    case (Cons x g)
    show ?thesis
    proof (cases "x = ch CHR ''%''")
      case True
      then obtain st1 err st' t where c: "fmt_sscanf_state_consume st = Some (None, st1)" "fmt_sscanf_state_produce st1 = Some (err, st')"
        "sc_done A k st st'" "suffix t g" "err = None \<longrightarrow> sc_inv A n k t st'"
        using consume_conv [of A n k g st] less.prems Cons by blast
      have "length t < length f" using suffix_length_le [OF c(4)] Cons by simp
      then show ?thesis using later [of t st'] c by (subst fmt_vsscanf_loop.simps) auto
    next
      case False
      obtain err st' where c: "fmt_sscanf_state_consume st = Some (Some err, st')" "sc_done A k st st'"
        "err = ERROR_AGAIN \<longrightarrow> sc_inv A n k g st'"
        using consume_plain [of A n k x g st] less.prems Cons False by blast
      then show ?thesis using later [of g st'] Cons by (subst fmt_vsscanf_loop.simps) auto
    qed
  qed
qed

end
