(* ===== verification/Fmt_Props.thy ===== *)
theory Fmt_Props
  imports Fmt_Refine
begin

text \<open>
  The properties of the sprintf half of lib/fmt.c: the output is the reference text of theory
  Fmt_Spec, clipped to the buffer; decimal numbers read back; the buffer for digits is large
  enough; and the effect of the missing \<^verbatim>\<open>break\<close> behind the modifier \<^verbatim>\<open>z\<close>.
\<close>

definition buf_end :: "u32 \<Rightarrow> u32 \<Rightarrow> u32" where
  "buf_end str sz = (if sz = 0 then 0 else if sz = FMT_NOLIMIT then - 1 else str + sz - 1)"

text \<open>The number of characters that a buffer of the given size receives, without the terminator.\<close>

definition clip_len :: "u32 \<Rightarrow> nat \<Rightarrow> nat" where
  "clip_len sz n = (if sz = FMT_NOLIMIT then n else min n (unat sz - 1))"

lemma buf_end_le:
  assumes "sz \<noteq> 0" and "sz = FMT_NOLIMIT \<or> unat str + unat sz < 2 ^ 32"
  shows "unat (buf_end str sz) = (if sz = FMT_NOLIMIT then 2 ^ 32 - 1 else unat str + unat sz - 1)"
proof (cases "sz = FMT_NOLIMIT")
  case True
  then show ?thesis using assms(1) by (simp add: buf_end_def)
next
  case False
  have "1 \<le> unat sz" using assms(1) by (simp add: Suc_le_eq unat_gt_0)
  moreover have "unat (str + sz) = unat str + unat sz" using False assms(2) by (intro unat_add_no_wrap) simp
  moreover from calculation have "unat (str + sz - 1) = unat (str + sz) - 1"
    using unat_sub_no_wrap [of 1 "str + sz"] by simp
  ultimately show ?thesis using False assms(1) by (simp add: buf_end_def)
qed

lemma in_range_iff:
  assumes "unat d + n < 2 ^ 32"
  shows "in_range d (Suc n) a \<longleftrightarrow> d \<le> a \<and> unat a \<le> unat d + n"
proof (cases "d \<le> a")
  case True
  then show ?thesis using unat_sub_no_wrap [of d a] by (auto simp: in_range_def word_le_nat_alt)
next
  case False
  then have "unat (a - d) = 2 ^ 32 + unat a - unat d"
    by (simp add: unat_sub_if' word_le_nat_alt)
  then show ?thesis using False assms by (auto simp: in_range_def)
qed

text \<open>What finalizing leaves in the buffer.\<close>

lemma finalize_clip:
  assumes sz: "sz \<noteq> 0" "sz = FMT_NOLIMIT \<or> unat str + unat sz < 2 ^ 32"
    and len: "unat str + length out < 2 ^ 32 - 1"
    and m1: "m1 = write_clip m str (buf_end str sz) out"
    and m2: "m2 = (if str + of_nat (length out) < buf_end str sz then m1(str + of_nat (length out) := 0)
       else m1(buf_end str sz := 0))"
  defines "n \<equiv> clip_len sz (length out)"
  shows "bytes_at m2 str n = take n out \<and> m2 (str + of_nat n) = 0 \<and> (\<forall>a. \<not> in_range str (Suc n) a \<longrightarrow> m2 a = m a)"
proof -
  let ?e = "buf_end str sz"
  note e = buf_end_le [OF sz]
  have u: "unat (str + of_nat i) = unat str + i" if "i \<le> length out" for i
    using that len by (intro unat_add_of_nat) simp
  have ul: "unat (str + of_nat (length out)) = unat str + length out" by (rule u) simp
  have sz1: "1 \<le> unat sz" using sz(1) by (simp add: Suc_le_eq unat_gt_0)
  have n: "n \<le> length out" "unat str + n < 2 ^ 32" using len by (auto simp: n_def clip_len_def)
  have trm: "m2 = m1(str + of_nat n := 0)"
  proof (cases "str + of_nat (length out) < ?e")
    case True
    then have "n = length out" using e ul sz1 by (auto simp: n_def clip_len_def word_less_nat_alt split: if_splits)
    then show ?thesis using True m2 by simp
  next
    case False
    then have nl: "sz \<noteq> FMT_NOLIMIT" "unat sz - 1 \<le> length out"
      using e ul len sz1 by (auto simp: word_less_nat_alt split: if_splits)
    then have "n = unat sz - 1" by (simp add: n_def clip_len_def)
    then have "str + of_nat n = ?e" using nl e u [OF n(1)] sz1 by (simp add: word_unat_eq_iff)
    then show ?thesis using False m2 by simp
  qed
  have m1a: "m1 a = (if str \<le> a \<and> unat a < unat str + n then out ! (unat a - unat str) else m a)" for a
    using write_clip_apply [of str out m ?e a] len e sz1 unfolding m1
    by (auto simp: n_def clip_len_def word_less_nat_alt split: if_splits)
  have le: "str \<le> str + of_nat i" if "i \<le> n" for i using u [of i] that n(1) by (simp add: word_le_nat_alt)
  have "bytes_at m2 str n = take n out"
  proof (rule nth_equalityI)
    fix i assume "i < length (bytes_at m2 str n)"
    then have i: "i < n" by simp
    have "str + of_nat i \<noteq> str + of_nat n" using u [of i] u [of n] i n(1) by (metis less_imp_le_nat less_le_trans nat_add_left_cancel_less nat_less_le)
    then show "bytes_at m2 str n ! i = take n out ! i"
      using m1a [of "str + of_nat i"] u [of i] le [of i] i n(1) by (simp add: nth_bytes_at trm)
  qed (use n in simp)
  moreover have "m2 a = m a" if "\<not> in_range str (Suc n) a" for a
    using m1a [of a] that u [OF n(1)] le [of n] in_range_iff [OF n(2), of a] by (auto simp: trm)
  ultimately show ?thesis by (simp add: trm)
qed

section \<open>Properties\<close>

lemma vsnprintf_text:
  assumes fmt: "cstr_in (outside str (buf_end str sz)) m format cs"
    and spec: "fmt_spec (str_at m null_str str (buf_end str sz)) cs ap = Some out"
    and sz: "sz = FMT_NOLIMIT \<or> unat str + unat sz < 2 ^ 32" and len: "unat str + length out < 2 ^ 32 - 1"
    and null: "sz = 0 \<or> str \<noteq> 0"
  shows "\<exists>m'. fmt_vsnprintf null_str m str sz format ap = Some (of_nat (length out), m') \<and>
    (if sz = 0 then m' = m
     else (let n = clip_len sz (length out) in
       bytes_at m' str n = take n out \<and> m' (str + of_nat n) = 0 \<and>
       (\<forall>a. \<not> in_range str (Suc n) a \<longrightarrow> m' a = m a)))"
proof -
  let ?st = "fmt_sprintf_state_init m str sz format ap"
  have i: "sp_mem ?st = m" "sp_format ?st = format" "sp_ap ?st = ap" "sp_str ?st = str" "sp_start ?st = str"
    "sp_end ?st = buf_end str sz"
    by (simp_all add: fmt_sprintf_state_init_def buf_end_def)
  obtain st where st: "fmt_vsnprintf_loop null_str ?st = Some st"
    "sp_mem st = write_clip m str (buf_end str sz) out" "sp_str st = str + of_nat (length out)"
    "sp_start st = str" "sp_end st = buf_end str sz"
    using vsnprintf_loop_eq [OF spec, of ?st] fmt len i by (auto simp: agree_def)
  let ?m = "snd (fmt_sprintf_state_finalize st)"
  have r: "fmt_vsnprintf null_str m str sz format ap = Some (of_nat (length out), ?m)"
    using st by (simp add: fmt_vsnprintf_def fmt_sprintf_state_finalize_def)
  show ?thesis
  proof (cases "sz = 0")
    case True
    then have "buf_end str sz = 0" by (simp add: buf_end_def)
    moreover have "write_clip m p 0 cs = m" for p cs by (induction cs arbitrary: p) auto
    ultimately show ?thesis using r True st by (simp add: fmt_sprintf_state_finalize_def)
  next
    case False
    have "unat sz \<noteq> 0" "unat str \<noteq> 0" using False null by (simp_all add: unat_eq_0)
    then have "unat (buf_end str sz) \<noteq> 0" using buf_end_le [OF False sz] by simp
    then have "buf_end str sz \<noteq> 0" by auto
    then have "?m = (if str + of_nat (length out) < buf_end str sz
        then (write_clip m str (buf_end str sz) out)(str + of_nat (length out) := 0)
        else (write_clip m str (buf_end str sz) out)(buf_end str sz := 0))"
      using st by (simp add: fmt_sprintf_state_finalize_def)
    from finalize_clip [OF False sz len refl this] r False show ?thesis by (simp add: Let_def)
  qed
qed


text \<open>
  The digits of a number never overflow the temporary buffer of
  \<^verbatim>\<open>FMT_MAX_NUM_SIZE\<close> bytes, and the buffer is as small as it can be: the largest number needs all of it in octal.\<close>
theorem fmt_tmp_bound:
  "(sp_base st \<in> {8, 10, 16} \<longrightarrow> length (sp_int_tmp st n) \<le> FMT_MAX_NUM_SIZE) \<and>
   (sp_base st = 8 \<longrightarrow> length (sp_int_tmp st (- 1)) = FMT_MAX_NUM_SIZE)"
proof -
  have d: "length (ndigits b k) \<le> FMT_MAX_NUM_SIZE" if "b \<in> {8, 10, 16}" "k < 2 ^ 64" for b k :: nat
  proof -
    have "k < b ^ 22" using that by auto
    then show ?thesis using ndigits_length [of b k 22] that(1) by (auto simp: FMT_MAX_NUM_SIZE_def)
  qed
  have l: "length (sp_int_tmp st n) = (if n = 0 then (if sp_precision st \<noteq> 0 then 1 else 0)
      else length (ndigits (unat (sp_base st))
        (if sp_base st = 10 \<and> sp_modifier st \<noteq> FMT_MODIFIER_LONGLONG then unat (ucast n :: u32) else unat n)))"
    if "sp_base st \<in> {8, 10, 16}" for n
  proof -
    from that consider "sp_base st = 8" | "sp_base st = 10" | "sp_base st = 16" by auto
    then show ?thesis
      using conv_pow2 [of 2 n] conv_pow2 [of 3 n]
      by cases (simp_all add: sp_int_tmp_def conv_dec64 conv_dec32)
  qed
  have u: "unat n < 2 ^ 64" "unat (ucast n :: u32) < 2 ^ 64"
    using unsigned_less [of n, where 'a = nat] unat_u32_less [of "ucast n"] by simp_all
  have "length (sp_int_tmp st n) \<le> FMT_MAX_NUM_SIZE" if b: "sp_base st \<in> {8, 10, 16}"
    using b d [of "unat (sp_base st)"] u unfolding l [OF b] by (auto simp: FMT_MAX_NUM_SIZE_def)
  moreover have "length (sp_int_tmp st (- 1)) = FMT_MAX_NUM_SIZE" if b: "sp_base st = 8"
  proof -
    have "length (ndigits 8 18446744073709551615) = 22" by (simp add: ndigits.simps)
    moreover have "unat (- 1 :: u64) = 18446744073709551615"
      by (simp add: unsigned_minus_1_eq_mask mask_eq_exp_minus_1)
    ultimately show ?thesis using l [of "- 1"] b by (simp add: FMT_MAX_NUM_SIZE_def)
  qed
  ultimately show ?thesis by blast
qed

section \<open>Numbers\<close>

lemmas fmt_parse_defs = parse_conv_def parse_width_def parse_count_def parse_precision_def parse_modifier_def
  spec_of_def flag_of_def fmt_isdigit_def conv_text_def arg_value_def

lemma fmt_spec_d:
  "fmt_spec S (map ch ''%d'') [w] =
     Some (int_text FMT_FORMAT_CONV_SIGNED 10 FMT_MODIFIER_NONE 0 (- 1) (sint w))"
  by (simp add: fmt_parse_defs word_le_nat_alt has_flag_def fmt_flag_defs)

lemma fmt_spec_zx:
  "fmt_spec S (map ch ''%zx'') [w] =
     Some (int_text FMT_FORMAT_LOWER 16 FMT_MODIFIER_PTRDIFF 0 (- 1) (sint w))"
  by (simp add: fmt_parse_defs word_le_nat_alt has_flag_def fmt_flag_defs)

lemma int_text_d:
  "int_text FMT_FORMAT_CONV_SIGNED 10 FMT_MODIFIER_NONE 0 (- 1) v =
     (if v < 0 then [ch CHR ''-''] else []) @ map ((!) fmt_digits) (ndigits 10 (nat \<bar>v\<bar>))"
  by (simp add: int_text_def int_digits_def digit_char_def [abs_def] int_mag_def int_sig_def int_prefix_def
      justify_def clear_zero_pad_def has_flag_def fmt_flag_defs)

lemma int_text_zx:
  "int_text FMT_FORMAT_LOWER 16 FMT_MODIFIER_PTRDIFF 0 (- 1) v =
     map (\<lambda>d. fmt_digits ! d OR 0x20) (ndigits 16 (nat (v mod 2 ^ 64)))"
  by (simp add: int_text_def int_digits_def digit_char_def [abs_def] int_mag_def int_sig_def int_prefix_def
      justify_def clear_zero_pad_def has_flag_def fmt_flag_defs)

lemma fmt_digits_dec: "d < 10 \<Longrightarrow> unat (fmt_digits ! d) = d + 48"
proof -
  assume "d < 10"
  then have "d \<in> {0, 1, 2, 3, 4, 5, 6, 7, 8, 9}" by auto
  then show ?thesis by (auto simp: fmt_digits_def)
qed

lemma fmt_isdigit_unat: "fmt_isdigit c \<longleftrightarrow> 48 \<le> unat c \<and> unat c \<le> 57"
  by (simp add: fmt_isdigit_def word_le_nat_alt)

lemma sint_abs_less: "nat \<bar>sint (w::u32)\<bar> < 10 ^ 10"
  using sint_ucast_range [of w] by auto

text \<open>
  The text of a decimal conversion.  For every argument, \<^verbatim>\<open>fmt_snprintf\<close> with the format
  \<^verbatim>\<open>%d\<close> and a buffer of at least 12 bytes writes an optional minus sign and digits, the
  decimal representation of the argument without leading zeros, and the terminator.\<close>

lemma snprintf_decimal:
  assumes fmt: "cstr_in (outside str (str + sz - 1)) m format (map ch ''%d'')"
    and sz: "12 \<le> unat sz" "unat str + unat sz < 2 ^ 32 - 1" "str \<noteq> 0"
  shows "\<exists>m' ds. fmt_snprintf null_str m str sz format [w] =
      Some (of_nat (length ((if sint w < 0 then [ch CHR ''-''] else []) @ ds)), m') \<and>
    bytes_at m' str (length ((if sint w < 0 then [ch CHR ''-''] else []) @ ds)) =
      (if sint w < 0 then [ch CHR ''-''] else []) @ ds \<and>
    m' (str + of_nat (length ((if sint w < 0 then [ch CHR ''-''] else []) @ ds))) = 0 \<and>
    list_all fmt_isdigit ds \<and> digits_value 10 (map (\<lambda>c. unat c - 48) ds) = nat \<bar>sint w\<bar> \<and>
    ds \<noteq> [] \<and> length ds \<le> 10 \<and> (\<forall>a. outside str (str + sz) a \<longrightarrow> m' a = m a)"
proof -
  define ns where "ns = ndigits 10 (nat \<bar>sint w\<bar>)"
  define ds where "ds = map ((!) fmt_digits) ns"
  define tx where "tx = (if sint w < 0 then [ch CHR ''-''] else []) @ ds"
  have lt: "n < 10" if "n \<in> set ns" for n using ndigits_less [of 10 n] that by (simp add: ns_def)
  have "length ns \<le> 10" using ndigits_length [of 10 "nat \<bar>sint w\<bar>" 10] sint_abs_less [of w] by (simp add: ns_def)
  then have len: "length tx \<le> 11" and nl: "length ds \<le> 10" by (simp_all add: tx_def ds_def)
  have nz: "sz \<noteq> 0" "sz \<noteq> FMT_NOLIMIT" using sz by (auto simp: FMT_NOLIMIT_def)
  have be: "buf_end str sz = str + sz - 1" using nz by (simp add: buf_end_def)
  have spec: "fmt_spec (str_at m null_str str (buf_end str sz)) (map ch ''%d'') [w] = Some tx"
    by (simp only: fmt_spec_d int_text_d tx_def ds_def ns_def)
  obtain m' where m': "fmt_vsnprintf null_str m str sz format [w] = Some (of_nat (length tx), m')"
    "bytes_at m' str (length tx) = tx" "m' (str + of_nat (length tx)) = 0"
    and frame: "\<And>a. \<not> in_range str (Suc (length tx)) a \<Longrightarrow> m' a = m a"
    using vsnprintf_text [OF fmt [folded be] spec] sz nz len by (auto simp: clip_len_def Let_def)
  have "map (\<lambda>c. unat c - 48) ds = ns"
    unfolding ds_def map_map by (rule map_idI) (simp add: fmt_digits_dec lt)
  then have val: "digits_value 10 (map (\<lambda>c. unat c - 48) ds) = nat \<bar>sint w\<bar>"
    by (simp add: ns_def ndigits_value)
  have dig: "list_all fmt_isdigit ds"
    using lt by (fastforce simp: list_all_iff ds_def fmt_isdigit_unat fmt_digits_dec)
  have ne: "ds \<noteq> []" by (simp add: ds_def ns_def ndigits.simps [of 10])
  have fr: "m' a = m a" if "outside str (str + sz) a" for a
  proof (rule frame)
    have "unat (str + sz) = unat str + unat sz" using sz(2) by (intro unat_add_no_wrap) simp
    then show "\<not> in_range str (Suc (length tx)) a"
      using that len sz in_range_iff [of str "length tx" a] by (auto simp: outside_def word_less_nat_alt word_le_nat_alt)
  qed
  show ?thesis
    by (rule exI [of _ m'], rule exI [of _ ds]) (use m' val dig ne fr nl in \<open>simp add: fmt_snprintf_def flip: tx_def\<close>)
qed

lemma ndigits_length_ge:
  assumes "2 \<le> b"
  shows "b ^ k \<le> n \<Longrightarrow> k < length (ndigits b n)"
proof (induction k arbitrary: n)
  case 0
  then show ?case by (simp add: ndigits.simps [of b n])
next
  case (Suc k)
  have "b ^ k \<le> n div b" using Suc.prems assms by (simp add: less_eq_div_iff_mult_less_eq mult.commute)
  moreover have "\<not> n < b" using Suc.prems assms by (metis calculation div_less leD power_not_zero le_zero_eq not_less numeral_eq_Suc zero_le_numeral Suc_neq_Zero le_0_eq)
  ultimately show ?case using Suc.IH assms by (simp add: ndigits.simps [of b n])
qed

text \<open>
  the modifier \<^verbatim>\<open>z\<close> is treated as \<^verbatim>\<open>t\<close> because a \<^verbatim>\<open>break\<close> is missing: an
  argument of type \<^verbatim>\<open>size_t\<close> from \<open>2\<^sup>3\<^sup>1\<close> on is sign-extended, and
  \<^verbatim>\<open>%zx\<close> prints 16 digits for it.\<close>
theorem fmt_size_modifier_extends:
  assumes fmt: "cstr_in (outside str (str + sz - 1)) m format (map ch ''%zx'')" and w: "2 ^ 31 \<le> unat w"
    and sz: "17 \<le> unat sz" "unat str + unat sz < 2 ^ 32 - 1" "str \<noteq> 0"
  shows "\<exists>m'. fmt_snprintf null_str m str sz format [w] = Some (16, m')"
proof -
  let ?v = "sint w mod 2 ^ 64"
  have neg: "sint w = int (unat w) - 2 ^ 32"
proof -
    have "sint w = (uint w + 2 ^ 31) mod 2 ^ 32 - 2 ^ 31" using int_word_sint [of "uint w", where 'a = 32] by simp
    moreover have "(uint w + 2 ^ 31) mod 2 ^ 32 = (uint w + 2 ^ 31 - 2 ^ 32) mod 2 ^ 32"
      by (rule minus_mod_self2 [symmetric])
    moreover have "(uint w + 2 ^ 31 - 2 ^ 32) mod 2 ^ 32 = uint w + 2 ^ 31 - 2 ^ 32"
    proof (rule mod_pos_pos_trivial)
      have "uint w = int (unat w)" by simp
      moreover have "int (2 ^ 31) \<le> int (unat w)" "int (unat w) < int 4294967296"
        using w unat_u32_less [of w] by (simp_all only: of_nat_le_iff of_nat_less_iff)
      ultimately show "0 \<le> uint w + 2 ^ 31 - 2 ^ 32" "uint w + 2 ^ 31 - 2 ^ 32 < 2 ^ 32" by simp_all
    qed
    ultimately show ?thesis by simp
  qed
  have v: "nat ?v = unat w + (2 ^ 64 - 2 ^ 32)"
  proof -
    have "?v = (sint w + 2 ^ 64) mod 2 ^ 64" by simp
    also have "\<dots> = sint w + 2 ^ 64" using neg uint_bounded [of w] by (intro mod_pos_pos_trivial) auto
    finally have "?v = int (unat w + (2 ^ 64 - 2 ^ 32))" using neg by simp
    then show ?thesis by (simp only: nat_int)
  qed
  have hi: "16 ^ 15 \<le> nat ?v" "nat ?v < 16 ^ 16" unfolding v using unat_u32_less [of w] by simp_all
  have len: "length (ndigits 16 (nat ?v)) = 16"
    using ndigits_length [of 16 "nat ?v" 16] ndigits_length_ge [of 16 15 "nat ?v"] hi by simp
  define tx where "tx = map (\<lambda>d. fmt_digits ! d OR 0x20) (ndigits 16 (nat ?v))"
  have nz: "sz \<noteq> 0" "sz \<noteq> FMT_NOLIMIT" using sz by (auto simp: FMT_NOLIMIT_def)
  have be: "buf_end str sz = str + sz - 1" using nz by (simp add: buf_end_def)
  have spec: "fmt_spec (str_at m null_str str (buf_end str sz)) (map ch ''%zx'') [w] = Some tx"
    by (simp only: fmt_spec_zx int_text_zx tx_def)
  have "length tx = 16" using len by (simp add: tx_def)
  then show ?thesis
    using vsnprintf_text [OF fmt [folded be] spec] sz nz by (auto simp: fmt_snprintf_def)
qed

section \<open>Witnesses\<close>

definition ex_mem :: "u8 list \<Rightarrow> bytes" where
  "ex_mem cs a = (if 16 \<le> a \<and> unat a < 16 + length cs then cs ! (unat a - 16) else 0)"


theorem fmt_tmp_bound_witness:
  "length (sp_int_tmp (fmt_sprintf_state_init (\<lambda>_. 0) 1 1 1 []\<lparr>sp_base := 8\<rparr>) (- 1)) = FMT_MAX_NUM_SIZE"
  using fmt_tmp_bound [of "fmt_sprintf_state_init (\<lambda>_. 0) 1 1 1 []\<lparr>sp_base := 8\<rparr>"] by simp

theorem fmt_size_modifier_extends_witness:
  "\<exists>m'. fmt_snprintf 0 (ex_mem (map ch ''%zx'')) 64 32 16 [0x80000000] = Some (16, m')"
proof -
  have f: "cstr_in (outside 64 (64 + 32 - 1)) (ex_mem (map ch ''%zx'')) 16 (map ch ''%zx'')"
    by (simp add: ex_mem_def outside_def)
  show ?thesis by (rule fmt_size_modifier_extends [OF f]) simp_all
qed

end
