(* ===== verification/Scan_Number.thy ===== *)
theory Scan_Number
  imports Scan_Correct Fmt_Props
begin

text \<open>
  The conversion of decimal numbers by the sscanf half of lib/fmt.c: what is stored, and that it is
  found there.
\<close>

section \<open>Storing\<close>

lemma store_le_at_start: "n < 2 ^ 32 \<Longrightarrow> store_le m (p + 1) n w p = m p"
proof (rule store_le_apply)
  fix k assume "n < 2 ^ 32" "k < n"
  then have "unat (of_nat (Suc k) :: u32) = Suc k" by (intro unat_of_nat_u32) simp
  then have "of_nat (Suc k) \<noteq> (0 :: u32)" by (metis unsigned_0 nat.distinct(1))
  then show "p \<noteq> p + 1 + of_nat k" by (simp add: add.assoc)
qed

lemma load_store_le: "n \<le> 8 \<Longrightarrow> load_le (store_le m p n w) p n = take_bit (8 * n) w"
proof (induction n arbitrary: m p w)
  case (Suc n)
  have b: "store_le (m(p := ucast w)) (p + 1) n (drop_bit 8 w) p = ucast w"
    using store_le_at_start [of n "m(p := ucast w)" p] Suc.prems by simp
  show ?case
    using Suc by (simp add: b) (rule bit_word_eqI, auto simp: bit_simps bit_or_iff)
qed simp

section \<open>The value of the digits\<close>

lemma digits_value_snoc: "digits_value b (ds @ [d]) = digits_value b ds * b + d"
  by (simp add: digits_value_def)

lemma fmt_atoi_digit: "fmt_isdigit c \<Longrightarrow> fmt_atoi c = Some (unat c - 48)"
  using unat_sub_no_wrap [of "48 :: u8" c] by (simp add: fmt_atoi_def fmt_isxdigit_def fmt_isdigit_unat)

text \<open>
  The loop from the last digit to the first computes the value of the digits as long as that fits;
  \<open>ds\<close> are the digits that are left.
\<close>

lemma sc_value_digits:
  fixes base :: "'a::len word"
  assumes "list_all fmt_isdigit ds" and "N + M * digits_value b (map (\<lambda>c. unat c - 48) ds) < 2 ^ LENGTH('a)" and "base = of_nat b"
  shows "sc_value base (rev ds) (of_nat N) (of_nat M) (of_nat N) neg =
    Some (of_nat (N + M * digits_value b (map (\<lambda>c. unat c - 48) ds)) :: 'a word, neg)"
  using assms
proof (induction ds arbitrary: N M rule: rev_induct)
  case (snoc d ds)
  let ?v = "unat d - 48" and ?V = "digits_value b (map (\<lambda>c. unat c - 48) ds)"
  have e: "N + M * (?V * b + ?v) = (N + ?v * M) + (M * b) * ?V" by (simp add: algebra_simps)
  have l: "N + M * (?V * b + ?v) < 2 ^ LENGTH('a)" using snoc.prems(2) by (simp add: digits_value_snoc)
  then have b: "N + ?v * M < 2 ^ LENGTH('a)" "N < 2 ^ LENGTH('a)" unfolding e by simp_all
  have "\<not> of_nat N + of_nat ?v * of_nat M < (of_nat N :: 'a word)"
    using b by (simp add: word_less_nat_alt unat_of_nat flip: of_nat_mult of_nat_add)
  moreover have "sc_value base (rev ds) (of_nat (N + ?v * M)) (of_nat (M * b)) (of_nat (N + ?v * M)) neg =
      Some (of_nat ((N + ?v * M) + (M * b) * ?V) :: 'a word, neg)"
    by (rule snoc.IH) (use snoc.prems l e in simp_all)
  ultimately show ?case
    using snoc.prems(1,3) fmt_atoi_digit [of d]
    by (simp add: digits_value_snoc e del: of_nat_add of_nat_mult) (simp add: mult.commute)
qed (simp add: digits_value_def)

section \<open>Reading the digits\<close>

lemma consume_string_no_width [simp]:
  "\<not> has_flag (sc_flags st) FMT_FORMAT_CHECK_WIDTH \<Longrightarrow>
   fmt_sscanf_state_consume_string st = (sc_mem st (sc_str st), st\<lparr>sc_str := sc_str st + 1\<rparr>)"
  by (simp add: fmt_sscanf_state_consume_string_def fmt_consume_def)

lemma cstr_in_append: "cstr_in A m p (xs @ ys) \<Longrightarrow> cstr_in A m (p + of_nat (length xs)) ys"
  by (induction xs arbitrary: p) (auto simp flip: add.assoc)

lemma sc_digits_eq:
  assumes "\<not> has_flag (sc_flags st) FMT_FORMAT_CHECK_WIDTH" and "cstr_in A (sc_mem st) (sc_str st - 1) (ds @ rest)"
    and "list_all (sc_digit (sc_base st)) ds" and "\<not> sc_digit (sc_base st) (first_char rest)"
    and "i + length ds < FMT_MAX_NUM_SIZE" and "length buf = FMT_MAX_NUM_SIZE"
  shows "\<exists>buf'. sc_digits (first_char (ds @ rest)) i buf neg st =
      Some (first_char rest, i + length ds, buf', neg, st\<lparr>sc_str := sc_str st + of_nat (length ds)\<rparr>) \<and>
    take (i + length ds) buf' = take i buf @ ds \<and> length buf' = FMT_MAX_NUM_SIZE"
  using assms
proof (induction ds arbitrary: i buf st)
  case Nil
  have "sc_digits (first_char rest) i buf neg st = Some (first_char rest, i, buf, neg, st)"
    using Nil.prems(4) by (subst sc_digits.simps) (auto intro: if_not_P)
  then show ?case using Nil.prems by simp
next
  case (Cons d ds)
  let ?st = "st\<lparr>sc_str := sc_str st + 1\<rparr>"
  have c: "cstr_in A (sc_mem st) (sc_str st) (ds @ rest)" "d \<noteq> 0" using Cons.prems(2) by auto
  have i: "i < FMT_MAX_NUM_SIZE - 1" using Cons.prems(5) by simp
  have m: "sc_mem st (sc_str st) = first_char (ds @ rest)" by (rule cstr_in_first [OF c(1)])
  have "\<exists>buf'. sc_digits (first_char (ds @ rest)) (i + 1) (buf[i := d]) neg ?st =
      Some (first_char rest, (i + 1) + length ds, buf', neg, ?st\<lparr>sc_str := sc_str ?st + of_nat (length ds)\<rparr>) \<and>
    take ((i + 1) + length ds) buf' = take (i + 1) (buf[i := d]) @ ds \<and> length buf' = FMT_MAX_NUM_SIZE"
    by (rule Cons.IH) (use Cons.prems c in simp_all)
  moreover have "take (i + 1) (buf[i := d]) = take i buf @ [d]"
    using Cons.prems(5,6) by (simp add: take_Suc_conv_app_nth)
  moreover have "sc_digits d i buf neg st = sc_digits (first_char (ds @ rest)) (i + 1) (buf[i := d]) neg ?st"
    using Cons.prems c(2) m i by (subst sc_digits.simps) simp
  ultimately show ?case by (auto simp: add.assoc)
qed

section \<open>A number\<close>

lemma fmt_isspace_digit: "fmt_isdigit c \<Longrightarrow> \<not> fmt_isspace c"
  by (auto simp: fmt_isspace_def fmt_isdigit_def word_le_nat_alt)

lemma sc_digit_dec: "b \<in> {0, 10} \<Longrightarrow> sc_digit b = fmt_isdigit"
  by (auto simp: sc_digit_def fun_eq_iff)

text \<open>
  The parts of the text of a number: blanks, a sign, the digits and what follows them.  The conversion
  \<^verbatim>\<open>i\<close> takes a number that begins with a zero for an octal or hexadecimal one.
\<close>

definition number_text :: "u32 \<Rightarrow> u8 list \<Rightarrow> u8 list \<Rightarrow> u8 list \<Rightarrow> u8 list \<Rightarrow> bool" where
  "number_text base sp sg ds rest \<longleftrightarrow> list_all fmt_isspace sp \<and> (sg = [] \<or> sg = [ch CHR ''-'']) \<and>
     ds \<noteq> [] \<and> list_all fmt_isdigit ds \<and> length ds < FMT_MAX_NUM_SIZE \<and> \<not> fmt_isdigit (first_char rest) \<and>
     (base = 10 \<or> base = 0 \<and> hd ds \<noteq> ch CHR ''0'')"

lemma dropWhile_number:
  assumes "number_text base sp sg ds rest"
  shows "dropWhile fmt_isspace (sp @ sg @ ds @ rest) = sg @ ds @ rest"
proof -
  obtain d ds' where d: "ds = d # ds'" "fmt_isdigit d" using assms by (cases ds) (auto simp: number_text_def)
  have "dropWhile fmt_isspace (sg @ ds @ rest) = sg @ ds @ rest"
    using assms d fmt_isspace_digit [of d] by (auto simp: number_text_def fmt_isspace_def)
  then show ?thesis using assms by (simp add: number_text_def dropWhile_append2 list_all_iff)
qed

lemma sc_int_sign_number:
  assumes "number_text base sp sg ds rest" and "cstr_in A (sc_mem st) (sc_str st) (sg @ ds @ rest)"
    and "\<not> has_flag (sc_flags st) FMT_FORMAT_CHECK_WIDTH"
  shows "sc_int_sign st = (sg \<noteq> [], hd ds, st\<lparr>sc_str := sc_str st + of_nat (length sg) + 1\<rparr>)"
proof -
  obtain d ds' where d: "ds = d # ds'" "fmt_isdigit d" using assms(1) by (cases ds) (auto simp: number_text_def)
  from d(2) have "d \<noteq> ch CHR ''-''" by (auto simp: fmt_isdigit_def)
  with d show ?thesis using assms by (auto simp: number_text_def sc_int_sign_def)
qed

lemma sc_int_prefix_number:
  assumes "number_text (sc_base st) sp sg ds rest" and "cstr_in A (sc_mem st) (sc_str st - 1) (ds @ rest)"
    and "\<not> has_flag (sc_flags st) FMT_FORMAT_CHECK_WIDTH"
  shows "sc_int_prefix (hd ds, st) = (hd ds, st)"
  using assms by (auto simp: number_text_def sc_int_prefix_def Let_def)

lemma sc_number_dec:
  assumes ds: "list_all fmt_isdigit ds" and v: "digits_value b (map (\<lambda>c. unat c - 48) ds) < 2 ^ 32"
    and st: "sc_base st = of_nat b" "sc_modifier st \<noteq> FMT_MODIFIER_LONGLONG"
  shows "sc_number st ds neg = Some (of_nat (digits_value b (map (\<lambda>c. unat c - 48) ds)), neg)"
proof -
  let ?v = "digits_value b (map (\<lambda>c. unat c - 48) ds)"
  have "sc_value (sc_base st) (rev ds) 0 1 0 neg = Some (of_nat ?v, neg)"
    using sc_value_digits [OF ds, of 0 1 b "sc_base st" neg] v st(1) by simp
  moreover have "(ucast (of_nat ?v :: u32) :: u64) = of_nat ?v"
    using v by (simp add: word_unat_eq_iff unat_of_nat unsigned_ucast_eq take_bit_nat_eq_self)
  ultimately show ?thesis using st(2) by (simp add: sc_number_def)
qed

lemma produce_int_number:
  assumes n: "number_text (of_nat b) sp sg ds rest" and s: "cstr_in A (sc_mem st) (sc_str st) (sp @ sg @ ds @ rest)"
    and fl: "\<not> has_flag (sc_flags st) FMT_FORMAT_CHECK_WIDTH" "\<not> has_flag (sc_flags st) FMT_FORMAT_DISCARD"
    and st: "sc_base st = of_nat b" "sc_modifier st \<noteq> FMT_MODIFIER_LONGLONG" "sc_ap st = p # ap" "sc_nr_convs st = 0"
    and v: "digits_value b (map (\<lambda>c. unat c - 48) ds) < 2 ^ 32"
  defines "w \<equiv> of_nat (digits_value b (map (\<lambda>c. unat c - 48) ds)) :: u64"
  shows "\<exists>q. fmt_sscanf_state_produce_int st = Some (None, st\<lparr>sc_str := q, sc_ap := ap,
    sc_mem := store_le (sc_mem st) p (sc_size (sc_modifier st)) (if sg \<noteq> [] then - w else w), sc_nr_convs := 1\<rparr>)"
proof -
  obtain q where q: "fmt_sscanf_state_skip_space st = Some (st\<lparr>sc_str := q\<rparr>)" "cstr_in A (sc_mem st) q (sg @ ds @ rest)"
    using skip_space_eq [OF s] dropWhile_number [OF n] by auto
  let ?q = "q + of_nat (length sg) + 1"
  have at: "cstr_in A (sc_mem st) (?q - 1) (ds @ rest)" using cstr_in_append [OF q(2)] by simp
  have sg: "sc_int_sign (st\<lparr>sc_str := q\<rparr>) = (sg \<noteq> [], hd ds, st\<lparr>sc_str := ?q\<rparr>)"
    using sc_int_sign_number [OF n, of A "st\<lparr>sc_str := q\<rparr>"] q(2) fl(1) by simp
  have pf: "sc_int_prefix (hd ds, st\<lparr>sc_str := ?q\<rparr>) = (hd ds, st\<lparr>sc_str := ?q\<rparr>)"
    by (rule sc_int_prefix_number [of _ sp sg ds rest A]) (use n at fl(1) st(1) in simp_all)
  have base: "(of_nat b :: u32) \<in> {0, 10}" and ne: "ds \<noteq> []" "list_all fmt_isdigit ds" "length ds < FMT_MAX_NUM_SIZE"
    using n by (auto simp: number_text_def)
  have "first_char (ds @ rest) = hd ds" using ne(1) by (cases ds) simp_all
  then obtain buf where dg: "sc_digits (hd ds) 0 (replicate FMT_MAX_NUM_SIZE 0) (sg \<noteq> []) (st\<lparr>sc_str := ?q\<rparr>) =
      Some (first_char rest, length ds, buf, sg \<noteq> [], st\<lparr>sc_str := ?q + of_nat (length ds)\<rparr>)" "take (length ds) buf = ds"
    using sc_digits_eq [of "st\<lparr>sc_str := ?q\<rparr>" A ds rest 0 "replicate FMT_MAX_NUM_SIZE 0" "sg \<noteq> []"]
      n at fl(1) st(1) sc_digit_dec [OF base] by (auto simp: number_text_def)
  have nb: "sc_number (st\<lparr>sc_str := r\<rparr>) ds neg = Some (w, neg)" for r neg
    unfolding w_def by (rule sc_number_dec [OF ne(2) v]) (use st in simp_all)
  show ?thesis
    using ne(1,3) fl(2) st(3,4)
    by (intro exI [of _ "?q + of_nat (length ds) - 1"])
      (simp add: fmt_sscanf_state_produce_int_def q(1) sg pf dg nb sc_store_def EOF_def)
qed

section \<open>A format with one number\<close>

definition number_formats :: "string set" where
  "number_formats = {''%d'', ''%u'', ''%lu'', ''%i''}"

definition number_base :: "string \<Rightarrow> nat" where
  "number_base f = (if f = ''%i'' then 0 else 10)"

lemma sc_flags_loop_stop:
  "sc_mem st (sc_format st) \<noteq> ch CHR ''*'' \<Longrightarrow> sc_flags_loop st = Some (st\<lparr>sc_format := sc_format st + 1\<rparr>)"
  by (subst sc_flags_loop.simps) simp

lemma sc_width_loop_stop:
  "\<not> fmt_isdigit (sc_mem st (sc_format st)) \<Longrightarrow> sc_width_loop st = Some (st\<lparr>sc_format := sc_format st + 1\<rparr>)"
  by (subst sc_width_loop.simps) simp

lemma consume_number_format:
  assumes "cstr_in A (sc_mem st) (sc_format st) (map ch f)" and "f \<in> number_formats"
  shows "\<exists>q fl mo. fmt_sscanf_state_consume st = Some (None, st\<lparr>sc_format := q, sc_flags := fl, sc_width := 0,
      sc_modifier := mo, sc_specifier := FMT_SPECIFIER_INT, sc_base := of_nat (number_base f)\<rparr>) \<and>
    cstr_in A (sc_mem st) q [] \<and> \<not> has_flag fl FMT_FORMAT_CHECK_WIDTH \<and> \<not> has_flag fl FMT_FORMAT_DISCARD \<and>
    mo \<noteq> FMT_MODIFIER_LONGLONG \<and> sc_size mo = 4"
proof -
  note defs = fmt_sscanf_state_consume_def fmt_consume_def fmt_sscanf_state_consume_flags_def sc_flags_loop_stop
    fmt_sscanf_state_consume_width_def sc_width_loop_stop fmt_isdigit_def fmt_sscanf_state_consume_modifier_def
    fmt_sscanf_state_consume_specifier_def sc_set_flag_def sc_size_def fmt_flag_defs FMT_FORMAT_CHECK_WIDTH_def FMT_FORMAT_DISCARD_def has_flag_def
    number_base_def Let_def
    add.assoc add.commute [of 1 "sc_format st"] add.commute [of 2 "sc_format st"] add.commute [of 3 "sc_format st"]
  let ?q = "sc_format st + of_nat (length f)"
  let ?fl = "if f = ''%u'' \<or> f = ''%lu'' then 0 else FMT_FORMAT_CONV_SIGNED"
  let ?mo = "if f = ''%lu'' then FMT_MODIFIER_LONG else FMT_MODIFIER_NONE"
  have "f = ''%d'' \<or> f = ''%u'' \<or> f = ''%lu'' \<or> f = ''%i''" using assms(2) by (simp add: number_formats_def)
  with assms(1) show ?thesis
    by - (rule exI [of _ ?q], rule exI [of _ ?fl], rule exI [of _ ?mo], elim disjE; simp add: defs)
qed

lemma sscanf_number:
  assumes fmt: "cstr_in A m format (map ch f)" "f \<in> number_formats"
    and str: "cstr_in A m str (sp @ sg @ ds @ rest)" "number_text (of_nat (number_base f)) sp sg ds rest"
    and v: "digits_value (number_base f) (map (\<lambda>c. unat c - 48) ds) < 2 ^ 32"
    and p: "\<And>k. k < 4 \<Longrightarrow> \<not> A (p + of_nat k)"
  defines "w \<equiv> of_nat (digits_value (number_base f) (map (\<lambda>c. unat c - 48) ds)) :: u64"
  shows "fmt_sscanf m str format [p] = Some (1, store_le m p 4 (if sg \<noteq> [] then - w else w))"
proof -
  let ?st = "fmt_sscanf_state_init m str format [p]" and ?w = "if sg \<noteq> [] then - w else w"
  have i: "sc_mem ?st = m" "sc_str ?st = str" "sc_format ?st = format" "sc_ap ?st = [p]" "sc_nr_convs ?st = 0"
    by (simp_all add: fmt_sscanf_state_init_def)
  obtain q fl mo where c: "fmt_sscanf_state_consume ?st = Some (None, ?st\<lparr>sc_format := q, sc_flags := fl, sc_width := 0,
      sc_modifier := mo, sc_specifier := FMT_SPECIFIER_INT, sc_base := of_nat (number_base f)\<rparr>)" (is "_ = Some (None, ?st1)")
    and q: "cstr_in A m q []" and fl: "\<not> has_flag fl FMT_FORMAT_CHECK_WIDTH" "\<not> has_flag fl FMT_FORMAT_DISCARD"
    and mo: "mo \<noteq> FMT_MODIFIER_LONGLONG" "sc_size mo = 4"
    using consume_number_format [of A ?st f] fmt i by auto
  let ?m = "store_le m p 4 ?w"
  obtain r where r: "fmt_sscanf_state_produce_int ?st1 = Some (None, ?st1\<lparr>sc_str := r, sc_ap := [], sc_mem := ?m, sc_nr_convs := 1\<rparr>)"
    using produce_int_number [OF str(2), of A ?st1 p "[]"] str(1) fl mo i v unfolding w_def by auto
  have "?m q = 0" using store_le_apply [of 4 q p m] p q by fastforce
  then have "fmt_vsscanf_loop (?st1\<lparr>sc_str := r, sc_ap := [], sc_mem := ?m, sc_nr_convs := 1\<rparr>) =
      Some (?st1\<lparr>sc_str := r, sc_ap := [], sc_mem := ?m, sc_nr_convs := 1, sc_flags := 0, sc_format := q + 1\<rparr>)"
    by (subst fmt_vsscanf_loop.simps) (simp add: fmt_sscanf_state_consume_def fmt_consume_def)
  then have "fmt_vsscanf_loop ?st =
      Some (?st1\<lparr>sc_str := r, sc_ap := [], sc_mem := ?m, sc_nr_convs := 1, sc_flags := 0, sc_format := q + 1\<rparr>)"
    using c r by (subst fmt_vsscanf_loop.simps) (simp add: fmt_sscanf_state_produce_def)
  then show ?thesis by (simp add: fmt_sscanf_def fmt_vsscanf_def fmt_sscanf_state_finalize_def)
qed

end
