(* ===== verification/Scan_Props.thy ===== *)
theory Scan_Props
  imports Scan_Number
begin

text \<open>
  The properties of the sscanf half of lib/fmt.c: it returns and writes nothing but its destinations,
  numbers are read with their value, and what sprintf prints is read back.
\<close>

text \<open>The bytes that are not among the first \<open>n + 8\<close> of a destination.\<close>

definition apart :: "u32 list \<Rightarrow> nat \<Rightarrow> u32 \<Rightarrow> bool" where
  "apart ap n a \<longleftrightarrow> \<not> (\<exists>p \<in> set ap. in_range p (n + 8) a)"

lemma apart_dests:
  assumes "n + 8 < 2 ^ 32"
  shows "dests_clear (apart ap n) n ap"
proof -
  have "in_range p (n + 8) (p + of_nat k)" if "k < n + 8" for p k
    using that assms unat_of_nat_u32 [of k] by (simp add: in_range_def)
  then show ?thesis by (auto simp: dests_clear_def apart_def)
qed

text \<open>Strings under weaker conditions and from their bytes.\<close>

lemma cstr_in_mono: "cstr_in P m p s \<Longrightarrow> (\<And>a. P a \<Longrightarrow> Q a) \<Longrightarrow> cstr_in Q m p s"
  by (induction s arbitrary: p) auto

lemma cstr_in_bytes:
  "bytes_at m p (length s) = s \<Longrightarrow> m (p + of_nat (length s)) = 0 \<Longrightarrow> 0 \<notin> set s \<Longrightarrow>
   (\<And>k. k \<le> length s \<Longrightarrow> P (p + of_nat k)) \<Longrightarrow> cstr_in P m p s"
proof (induction s arbitrary: p)
  case Nil
  then show ?case using Nil(4) [of 0] by simp
next
  case (Cons x s)
  have "P (p + 1 + of_nat k)" if "k \<le> length s" for k using Cons.prems(4) [of "Suc k"] that by (simp add: add.assoc)
  moreover have "m p = x" "bytes_at m (p + 1) (length s) = s" using Cons.prems(1) by (simp_all add: bytes_at_Suc)
  ultimately show ?case using Cons.IH [of "p + 1"] Cons.prems(2,3) Cons.prems(4) [of 0] by (simp add: add.assoc)
qed

lemma outside_last:
  assumes "12 \<le> unat sz" "unat str + unat sz < 2 ^ 32 - 1" "outside str (str + sz) a"
  shows "outside str (str + sz - 1) a"
proof -
  have "unat (str + sz) = unat str + unat sz" using assms(2) by (intro unat_add_no_wrap) simp
  moreover from this have "unat (str + sz - 1) = unat str + unat sz - 1" using assms(1) unat_sub_no_wrap [of 1 "str + sz"] by simp
  ultimately show ?thesis using assms by (auto simp: outside_def word_less_nat_alt)
qed

lemma in_buffer:
  assumes "unat str + unat sz < 2 ^ 32 - 1" "k < unat sz"
  shows "\<not> outside str (str + sz) (str + of_nat k)"
proof -
  have "unat (str + sz) = unat str + unat sz" using assms(1) by (intro unat_add_no_wrap) simp
  moreover have "unat (str + of_nat k) = unat str + k" using assms by (intro unat_add_of_nat) simp
  ultimately show ?thesis using assms(2) by (simp add: outside_def word_less_nat_alt word_le_nat_alt)
qed

lemma in_range_start: "k < 4 \<Longrightarrow> in_range p 4 (p + of_nat k)"
  using unat_of_nat_u32 [of k] by (simp add: in_range_def)

section \<open>Properties\<close>

text \<open>
  C29: \<^verbatim>\<open>fmt_vsscanf\<close> returns, for every terminated format and string (with widths, discarded and
  invalid conversions, and numbers of any length) and as many destinations as the format has percent
  signs.  The result is between \<^verbatim>\<open>EOF\<close> and the number of
  the destinations, and every byte that is not in a destination is unchanged, where a destination
  has at most the length of the string and 8 bytes more.\<close>
theorem fmt_vsscanf_returns:
  assumes "cstr_in (apart ap (length s)) m str s" and "cstr_in (apart ap (length s)) m format f"
    and "conv_count f \<le> length ap" and "length s + 8 < 2 ^ 32"
  shows "\<exists>n m'. fmt_vsscanf m str format ap = Some (n, m') \<and> EOF \<le> n \<and> n \<le> int (length ap) \<and>
    (\<forall>a. apart ap (length s) a \<longrightarrow> m' a = m a)"
proof -
  let ?st = "fmt_sscanf_state_init m str format ap"
  have "sc_inv (apart ap (length s)) (length s) (int (length ap)) f ?st"
    using assms apart_dests [of "length s" ap] by (auto simp: sc_inv_def fmt_sscanf_state_init_def EOF_def)
  from vsscanf_loop_done [OF this] obtain st where
    "fmt_vsscanf_loop ?st = Some st" "sc_done (apart ap (length s)) (int (length ap)) ?st st" by blast
  then show ?thesis
    by (auto simp: fmt_vsscanf_def sc_done_def fmt_sscanf_state_finalize_def fmt_sscanf_state_init_def)
qed

lemma load_number:
  "(ucast (load_le (store_le m p 4 w) p 4) :: u32) = ucast w"
proof -
  have "(ucast (take_bit 32 w) :: u32) = ucast w" by (rule bit_word_eqI) (simp add: bit_simps)
  then show ?thesis using load_store_le [of 4 m p w] by simp
qed

lemma ucast_of_int_u32: "(ucast (of_int k :: u64) :: u32) = of_int k"
  by transfer simp

lemma ucast_of_nat_u32: "(ucast (of_nat n :: u64) :: u32) = of_nat n" "(ucast (- of_nat n :: u64) :: u32) = - of_nat n"
  using ucast_of_int_u32 [of "int n"] ucast_of_int_u32 [of "- int n"] by simp_all

lemma scast_ucast_u32: "(ucast (scast w :: u64) :: u32) = w" "(scast w :: u32) = w"
  by (rule bit_word_eqI, simp add: bit_simps)+

lemma store_le_in_range:
  assumes "\<not> in_range p n a" "n < 2 ^ 32"
  shows "store_le m p n w a = m a"
proof (rule store_le_apply)
  fix k assume "k < n"
  then show "a \<noteq> p + of_nat k" using assms unat_of_nat_u32 [of k] by (auto simp: in_range_def)
qed

text \<open>
  C30: a decimal number is read with its value.  In a text of blanks, an optional minus sign, at most 21
  digits that denote a number below \<open>2\<^sup>3\<^sup>2\<close> and anything that is not a digit, the conversions
  \<^verbatim>\<open>%d\<close>, \<^verbatim>\<open>%u\<close> and \<^verbatim>\<open>%lu\<close> store the number, or its negation, in the four bytes of the
  destination and return 1.  With \<^verbatim>\<open>%i\<close>, which chooses the base from the text, only the last digit
  of a decimal number is stored, since no base is chosen for it and the weights of the other digits are 0.\<close>
theorem fmt_sscanf_number:
  assumes fmt: "cstr_in (\<lambda>a. \<not> in_range p 4 a) m format (map ch f)" "f \<in> number_formats"
    and str: "cstr_in (\<lambda>a. \<not> in_range p 4 a) m str (sp @ sg @ ds @ rest)"
      "number_text (of_nat (number_base f)) sp sg ds rest" "digits_value 10 (map (\<lambda>c. unat c - 48) ds) < 2 ^ 32"
  shows "\<exists>m'. fmt_sscanf m str format [p] = Some (1, m') \<and>
    ucast (load_le m' p 4) = (if f = ''%i'' then (if sg = [] then of_nat (unat (last ds) - 48) else - of_nat (unat (last ds) - 48))
      else (if sg = [] then of_nat (digits_value 10 (map (\<lambda>c. unat c - 48) ds))
            else - of_nat (digits_value 10 (map (\<lambda>c. unat c - 48) ds))) :: u32) \<and>
    (\<forall>a. \<not> in_range p 4 a \<longrightarrow> m' a = m a)"
proof -
  let ?v = "digits_value (number_base f) (map (\<lambda>c. unat c - 48) ds)"
  have l: "ds \<noteq> []" "list_all fmt_isdigit ds" using str(2) by (simp_all add: number_text_def)
  then obtain ds' d where ds: "ds = ds' @ [d]" by (cases ds rule: rev_cases) auto
  have z: "digits_value 0 (map (\<lambda>c. unat c - 48) ds) = unat (last ds) - 48" by (simp add: ds digits_value_snoc)
  have "unat (last ds) - 48 < 2 ^ 32" using unsigned_less [of "last ds", where 'a = nat] by (simp add: less_imp_diff_less)
  then have v: "?v < 2 ^ 32" using str(3) z by (simp add: number_base_def)
  define w where "w = (if sg \<noteq> [] then - of_nat ?v else of_nat ?v :: u64)"
  have "fmt_sscanf m str format [p] = Some (1, store_le m p 4 w)"
    using sscanf_number [OF fmt str(1,2) v, of p] in_range_start by (simp add: w_def)
  moreover have "(ucast w :: u32) = (if sg = [] then of_nat ?v else - of_nat ?v)"
    by (simp add: w_def ucast_of_nat_u32)
  ultimately show ?thesis
    using load_number [of m p w] store_le_in_range [of p 4] z by (auto simp: number_base_def)
qed

text \<open>
  C28: what is printed is read back: the text that \<^verbatim>\<open>fmt_snprintf\<close> writes for an argument with the format
  \<^verbatim>\<open>%d\<close>, in a buffer of at least 12 bytes, is converted by \<^verbatim>\<open>fmt_sscanf\<close> with the same format
  to the argument, for every 32-bit argument.\<close>
theorem fmt_scan_roundtrip:
  assumes fmt: "cstr_in (\<lambda>a. outside str (str + sz) a \<and> \<not> in_range p 4 a) m format (map ch ''%d'')"
    and sz: "12 \<le> unat sz" "unat str + unat sz < 2 ^ 32 - 1" "str \<noteq> 0"
    and p: "\<And>a. in_range p 4 a \<Longrightarrow> outside str (str + sz) a"
  shows "\<exists>n m1 m2. fmt_snprintf null_str m str sz format [w] = Some (n, m1) \<and>
    fmt_sscanf m1 str format [p] = Some (1, m2) \<and> ucast (load_le m2 p 4) = w"
proof -
  let ?A = "\<lambda>a. \<not> in_range p 4 a"
  have fmt': "cstr_in (outside str (str + sz - 1)) m format (map ch ''%d'')"
    by (rule cstr_in_mono [OF fmt]) (use outside_last sz in blast)
  obtain m1 ds where m1: "fmt_snprintf null_str m str sz format [w] =
      Some (of_nat (length ((if sint w < 0 then [ch CHR ''-''] else []) @ ds)), m1)"
    and tx: "bytes_at m1 str (length ((if sint w < 0 then [ch CHR ''-''] else []) @ ds)) = (if sint w < 0 then [ch CHR ''-''] else []) @ ds"
      "m1 (str + of_nat (length ((if sint w < 0 then [ch CHR ''-''] else []) @ ds))) = 0"
    and ds: "list_all fmt_isdigit ds" "digits_value 10 (map (\<lambda>c. unat c - 48) ds) = nat \<bar>sint w\<bar>" "ds \<noteq> []" "length ds \<le> 10"
    and fr: "\<forall>a. outside str (str + sz) a \<longrightarrow> m1 a = m a"
    using snprintf_decimal [OF fmt' sz, of null_str w] by blast
  let ?sg = "if sint w < 0 then [ch CHR ''-''] else [] :: u8 list"
  have f: "cstr_in ?A m1 format (map ch ''%d'')"
    by (rule cstr_in_mono [OF cstr_in_cong [OF fmt]]) (use fr in auto)
  have "0 \<notin> set ds" using ds(1) by (auto simp: list_all_iff fmt_isdigit_def)
  moreover have "\<not> in_range p 4 (str + of_nat k)" if "k \<le> length (?sg @ ds)" for k
  proof -
    have "k < unat sz" using that ds(4) sz(1) by (simp split: if_splits)
    then show ?thesis using in_buffer [OF sz(2)] p by blast
  qed
  ultimately have "cstr_in ?A m1 str (?sg @ ds)" using tx by (intro cstr_in_bytes) auto
  then have t: "cstr_in ?A m1 str ([] @ ?sg @ ds @ [])" by simp
  have n: "number_text (of_nat (number_base ''%d'')) [] ?sg ds []"
    using ds by (simp add: number_text_def number_base_def FMT_MAX_NUM_SIZE_def fmt_isdigit_def)
  have v: "digits_value (number_base ''%d'') (map (\<lambda>c. unat c - 48) ds) < 2 ^ 32"
    using ds(2) sint_ucast_range [of w] by (auto simp: number_base_def)
  have r: "fmt_sscanf m1 str format [p] = Some (1, store_le m1 p 4
      (if ?sg \<noteq> [] then - of_nat (nat \<bar>sint w\<bar>) else of_nat (nat \<bar>sint w\<bar>)))"
    using sscanf_number [OF f _ t n v, of p] in_range_start ds(2) by (simp add: number_formats_def number_base_def)
  have "(ucast (if ?sg \<noteq> [] then - of_nat (nat \<bar>sint w\<bar>) else of_nat (nat \<bar>sint w\<bar>) :: u64) :: u32) = w"
    by (simp add: ucast_of_nat_u32 scast_ucast_u32)
  with m1 r show ?thesis using load_number [of m1 p] by auto
qed

section \<open>Witnesses\<close>

text \<open>The format at the address 16 and the string at 64.\<close>

definition ex_scan :: "string \<Rightarrow> string \<Rightarrow> bytes" where
  "ex_scan f s a = (if 16 \<le> a \<and> unat a < 16 + length f then map ch f ! (unat a - 16)
     else if 64 \<le> a \<and> unat a < 64 + length s then map ch s ! (unat a - 64) else 0)"

theorem fmt_vsscanf_returns_witness:
  "\<exists>n m'. fmt_vsscanf (ex_scan ''%2s,%d'' ''ab,-7'') 64 16 [256, 512] = Some (n, m') \<and> EOF \<le> n \<and> n \<le> 2 \<and> m' 64 = 97"
proof -
  let ?m = "ex_scan ''%2s,%d'' ''ab,-7''"
  have a: "apart [256, 512] n a" if "unat a < 256" "n < 2 ^ 16" for n a
  proof -
    have "unat (a - 256) = unat a + 2 ^ 32 - 256" "unat (a - 512) = unat a + 2 ^ 32 - 512"
      using that unat_sub_if' [of a 256] unat_sub_if' [of a 512] by (simp_all add: word_le_nat_alt)
    then show ?thesis using that(2) by (simp add: apart_def in_range_def)
  qed
  have s: "cstr_in (apart [256, 512] (length (map ch ''ab,-7''))) ?m 64 (map ch ''ab,-7'')"
    by (simp add: ex_scan_def a)
  have f: "cstr_in (apart [256, 512] (length (map ch ''ab,-7''))) ?m 16 (map ch ''%2s,%d'')"
    by (simp add: ex_scan_def a)
  have k: "conv_count (map ch ''%2s,%d'') \<le> length [256, 512 :: u32]" "length (map ch ''ab,-7'') + 8 < 2 ^ 32" by simp_all
  have v: "apart [256, 512] (length (map ch ''ab,-7'')) 64" "?m 64 = 97" by (simp_all add: a ex_scan_def)
  obtain n m' where "fmt_vsscanf ?m 64 16 [256, 512] = Some (n, m')" "EOF \<le> n" "n \<le> int (length [256, 512 :: u32])"
    "m' 64 = ?m 64" using fmt_vsscanf_returns [OF s f k] v(1) by blast
  with v(2) show ?thesis by (intro exI [of _ n] exI [of _ m']) simp
qed

theorem fmt_sscanf_number_witness:
  "(\<exists>m'. fmt_sscanf (ex_scan ''%lu'' '' 0128x'') 64 16 [256] = Some (1, m') \<and> (ucast (load_le m' 256 4) :: u32) = 128) \<and>
   (\<exists>m'. fmt_sscanf (ex_scan ''%i'' ''123'') 64 16 [256] = Some (1, m') \<and> (ucast (load_le m' 256 4) :: u32) = 3)"
proof -
  have a: "\<not> in_range 256 4 a" if "unat a < 256" for a :: u32
    using that unat_sub_if' [of a 256] by (simp add: word_le_nat_alt in_range_def)
  note defs = ex_scan_def a number_formats_def number_base_def number_text_def digits_value_def FMT_MAX_NUM_SIZE_def
    fmt_isdigit_def fmt_isspace_def word_le_nat_alt
  let ?m = "ex_scan ''%lu'' '' 0128x''" and ?n = "ex_scan ''%i'' ''123''"
  have 1: "cstr_in (\<lambda>a. \<not> in_range 256 4 a) ?m 16 (map ch ''%lu'')" "''%lu'' \<in> number_formats"
    "cstr_in (\<lambda>a. \<not> in_range 256 4 a) ?m 64 (map ch '' '' @ [] @ map ch ''0128'' @ map ch ''x'')"
    "number_text (of_nat (number_base ''%lu'')) (map ch '' '') [] (map ch ''0128'') (map ch ''x'')"
    "digits_value 10 (map (\<lambda>c. unat c - 48) (map ch ''0128'')) = 128" by (simp_all add: defs)
  have 2: "cstr_in (\<lambda>a. \<not> in_range 256 4 a) ?n 16 (map ch ''%i'')" "''%i'' \<in> number_formats"
    "cstr_in (\<lambda>a. \<not> in_range 256 4 a) ?n 64 ([] @ [] @ map ch ''123'' @ [])"
    "number_text (of_nat (number_base ''%i'')) [] [] (map ch ''123'') []"
    "digits_value 10 (map (\<lambda>c. unat c - 48) (map ch ''123'')) = 123" by (simp_all add: defs)
  show ?thesis using fmt_sscanf_number [OF 1(1-4)] fmt_sscanf_number [OF 2(1-4)] unfolding 1(5) 2(5) by auto
qed

theorem fmt_scan_roundtrip_witness:
  "\<exists>n m1 m2. fmt_snprintf 0 (ex_scan ''%d'' '''') 64 32 16 [- 7] = Some (n, m1) \<and>
    fmt_sscanf m1 64 16 [256] = Some (1, m2) \<and> ucast (load_le m2 256 4) = (- 7 :: u32)"
proof (rule fmt_scan_roundtrip)
  have "\<not> in_range 256 4 a" if "unat a < 256" for a :: u32
    using that unat_sub_if' [of a 256] by (simp add: word_le_nat_alt in_range_def)
  then show "cstr_in (\<lambda>a. outside 64 (64 + 32) a \<and> \<not> in_range 256 4 a) (ex_scan ''%d'' '''') 16 (map ch ''%d'')"
    by (simp add: ex_scan_def outside_def)
  fix a :: u32
  assume "in_range 256 4 a"
  then show "outside 64 (64 + 32) a"
    using unat_sub_if' [of a 256] by (auto simp: in_range_def outside_def word_le_nat_alt word_less_nat_alt split: if_splits)
qed simp_all

end
