(* ===== verification/Timer.thy ===== *)
theory Timer
  imports Sync
begin

text \<open>
  The software timers of src/timer.c.  Time is a 32-bit number of ticks that wraps around, and a
  deadline is compared with the current time by the sign of their difference.  The linked list of
  timers is the sequence of their addresses (theory Linked), and \<open>timer_objs\<close> gives the object at
  an address.  The timer mutex is held where the source holds it: its two calls are represented by
  the changes of its owner, as in theory Mem.

  A timer's function is client code: a parameter \<open>call\<close> of the definitions that run it, given the
  function pointer and its argument.  It acts on the timers (it may schedule some) and on the rest of
  the system, of an arbitrary type \<open>'w\<close>.  While the mutex is released for the call other threads
  may run too; \<open>call\<close> stands for everything that happens in between.
\<close>

record timer =
  ticks :: u32
  fn :: u32
  arg :: u32

record timers =
  timer_ticks :: u32
  timer_list_empty :: bool
  timer_wakeup_ticks :: u32
  timer_list :: "u32 list"
  timer_mutex :: mutex
  timer_thread :: tid
  timer_objs :: "u32 \<Rightarrow> timer"

definition TIMER_THRESHOLD :: u32 where "TIMER_THRESHOLD = (- 1) div 2"

definition THREAD_MAX_PRIORITY :: u32 where "THREAD_MAX_PRIORITY = of_nat (THREAD_NR_PRIORITIES - 1)"

section \<open>Comparing times\<close>

definition timer_ticks_expired :: "u32 \<Rightarrow> u32 \<Rightarrow> bool" where
  "timer_ticks_expired t ref \<longleftrightarrow> t - ref > TIMER_THRESHOLD"

definition timer_ticks_occurred :: "u32 \<Rightarrow> u32 \<Rightarrow> bool" where
  "timer_ticks_occurred t ref \<longleftrightarrow> t = ref \<or> timer_ticks_expired t ref"

definition timer_expired :: "timer \<Rightarrow> u32 \<Rightarrow> bool" where
  "timer_expired tm ref = timer_ticks_expired (ticks tm) ref"

definition timer_occurred :: "timer \<Rightarrow> u32 \<Rightarrow> bool" where
  "timer_occurred tm ref = timer_ticks_occurred (ticks tm) ref"

definition timer_work_pending :: "timers \<Rightarrow> kernel \<Rightarrow> bool option" where
  "timer_work_pending ts k = do {
     assert (\<not> cpu_intr_enabled k);
     Some (\<not> timer_list_empty ts \<and> timer_ticks_occurred (timer_wakeup_ticks ts) (timer_ticks ts))
   }"

section \<open>Running timers\<close>

definition timer_process ::
  "(u32 \<Rightarrow> u32 \<Rightarrow> timers \<times> 'w \<Rightarrow> (timers \<times> 'w) option) \<Rightarrow> u32 \<Rightarrow> timers \<times> 'w \<Rightarrow> (timers \<times> 'w) option" where
  "timer_process call t s = call (fn (timer_objs (fst s) t)) (arg (timer_objs (fst s) t)) s"

text \<open>
  The loop of \<^verbatim>\<open>timer_process_list\<close>, entered and left with the mutex held by \<open>self\<close>, the
  timer thread.
\<close>

partial_function (option) timer_process_loop ::
  "(u32 \<Rightarrow> u32 \<Rightarrow> timers \<times> 'w \<Rightarrow> (timers \<times> 'w) option) \<Rightarrow> tid \<Rightarrow> u32 \<Rightarrow> timers \<times> 'w \<Rightarrow>
   (timers \<times> 'w) option" where
  "timer_process_loop call self now s =
     (case timer_list (fst s) of
        [] \<Rightarrow> Some s
      | t # l \<Rightarrow>
          if \<not> timer_occurred (timer_objs (fst s) t) now then Some s
          else do {
            mtx \<leftarrow> mutex_clear_owner (timer_mutex (fst s)) self;
            s \<leftarrow> timer_process call t ((fst s)\<lparr>timer_list := l, timer_mutex := mtx\<rparr>, snd s);
            mtx \<leftarrow> mutex_set_owner (timer_mutex (fst s)) self;
            timer_process_loop call self now ((fst s)\<lparr>timer_mutex := mtx\<rparr>, snd s)
          })"

definition timer_update_wakeup :: "timers \<Rightarrow> timers" where
  "timer_update_wakeup ts =
     (let ts = ts\<lparr>timer_list_empty := timer_list ts = []\<rparr> in
      case timer_list ts of
        [] \<Rightarrow> ts
      | t # _ \<Rightarrow> ts\<lparr>timer_wakeup_ticks := ticks (timer_objs ts t)\<rparr>)"

definition timer_process_list ::
  "(u32 \<Rightarrow> u32 \<Rightarrow> timers \<times> 'w \<Rightarrow> (timers \<times> 'w) option) \<Rightarrow> tid \<Rightarrow> u32 \<Rightarrow> timers \<times> 'w \<Rightarrow>
   (timers \<times> 'w) option" where
  "timer_process_list call self now s = do {
     mtx \<leftarrow> mutex_set_owner (timer_mutex (fst s)) self;
     (ts, w) \<leftarrow> timer_process_loop call self now ((fst s)\<lparr>timer_mutex := mtx\<rparr>, snd s);
     let ts = timer_update_wakeup ts;
     mtx \<leftarrow> mutex_clear_owner (timer_mutex ts) self;
     Some (ts\<lparr>timer_mutex := mtx\<rparr>, w)
   }"

text \<open>
  The timer thread.  \<open>timer_run\<close> is one turn of its outer loop up to the inner loop, and
  \<open>timer_run_check\<close> one turn of the inner loop: the result is the time with which
  \<^verbatim>\<open>timer_process_list\<close> is called next, or \<^term>\<open>None\<close> when the thread has gone to sleep and
  will check again.
\<close>

definition timer_run_check :: "bool \<Rightarrow> timers \<Rightarrow> kernel \<Rightarrow> (u32 option \<times> kernel) option" where
  "timer_run_check eflags ts k = do {
     let now = timer_ticks ts;
     pending \<leftarrow> timer_work_pending ts k;
     if pending then do {
       k \<leftarrow> thread_preempt_enable (cpu_intr_restore eflags k);
       Some (Some now, k)
     } else do {
       k \<leftarrow> thread_sleep k;
       Some (None, k)
     }
   }"

definition timer_run :: "timers \<Rightarrow> kernel \<Rightarrow> (u32 option \<times> kernel) option" where
  "timer_run ts k = do {
     k \<leftarrow> thread_preempt_disable k;
     let (eflags, k) = cpu_intr_save k;
     timer_run_check eflags ts k
   }"

section \<open>Interface\<close>

text \<open>
  \<open>t\<close> and \<open>stack\<close> are the memory that \<^verbatim>\<open>thread_create\<close> obtains, \<open>prog\<close> the code of the
  timer thread.
\<close>

definition timer_setup :: "tid \<Rightarrow> u32 \<Rightarrow> instr list \<Rightarrow> timers \<Rightarrow> kernel \<Rightarrow> (timers \<times> kernel) option" where
  "timer_setup t stack prog ts k = do {
     let ts = ts\<lparr>timer_ticks := 0, timer_list_empty := True\<rparr>;
     let ts = ts\<lparr>timer_list := [], timer_mutex := mutex_init (timer_mutex ts)\<rparr>;
     (err, k) \<leftarrow> thread_create t stack prog THREAD_MAX_PRIORITY k;
     assert (err = None);
     Some (ts\<lparr>timer_thread := t\<rparr>, k)
   }"

definition timer_now :: "timers \<Rightarrow> kernel \<Rightarrow> u32 \<times> kernel" where
  "timer_now ts k =
     (let (eflags, k) = cpu_intr_save k; t = timer_ticks ts in (t, cpu_intr_restore eflags k))"

definition upd_timer :: "u32 \<Rightarrow> (timer \<Rightarrow> timer) \<Rightarrow> timers \<Rightarrow> timers" where
  "upd_timer t f ts = ts\<lparr>timer_objs := (timer_objs ts)(t := f (timer_objs ts t))\<rparr>"

definition timer_init :: "u32 \<Rightarrow> u32 \<Rightarrow> u32 \<Rightarrow> timers \<Rightarrow> timers" where
  "timer_init t f a = upd_timer t (\<lambda>tm. tm\<lparr>fn := f, arg := a\<rparr>)"

definition timer_get_time :: "tid \<Rightarrow> u32 \<Rightarrow> timers \<Rightarrow> (u32 \<times> timers) option" where
  "timer_get_time self t ts = do {
     mtx \<leftarrow> mutex_set_owner (timer_mutex ts) self;
     let n = ticks (timer_objs ts t);
     mtx \<leftarrow> mutex_clear_owner mtx self;
     Some (n, ts\<lparr>timer_mutex := mtx\<rparr>)
   }"

text \<open>
  The loop of \<^verbatim>\<open>timer_schedule\<close> and the insertion: in front of the first timer that does not
  expire before \<open>n\<close>, at the end when there is none.
\<close>

fun timer_list_insert :: "(u32 \<Rightarrow> timer) \<Rightarrow> u32 \<Rightarrow> u32 \<Rightarrow> u32 list \<Rightarrow> u32 list" where
  "timer_list_insert objs t n [] = [t]"
| "timer_list_insert objs t n (tmp # l) =
     (if \<not> timer_expired (objs tmp) n then t # tmp # l else tmp # timer_list_insert objs t n l)"

text \<open>The timer must not be in the list already: the code does not check it.\<close>

definition timer_schedule :: "tid \<Rightarrow> u32 \<Rightarrow> u32 \<Rightarrow> timers \<Rightarrow> timers option" where
  "timer_schedule self t n ts = do {
     mtx \<leftarrow> mutex_set_owner (timer_mutex ts) self;
     let ts = upd_timer t (\<lambda>tm. tm\<lparr>ticks := n\<rparr>) (ts\<lparr>timer_mutex := mtx\<rparr>);
     let ts = ts\<lparr>timer_list := timer_list_insert (timer_objs ts) t n (timer_list ts)\<rparr>;
     let t = hd (timer_list ts);
     let ts = ts\<lparr>timer_list_empty := False, timer_wakeup_ticks := ticks (timer_objs ts t)\<rparr>;
     mtx \<leftarrow> mutex_clear_owner (timer_mutex ts) self;
     Some (ts\<lparr>timer_mutex := mtx\<rparr>)
   }"

definition timer_report_tick :: "timers \<Rightarrow> kernel \<Rightarrow> (timers \<times> kernel) option" where
  "timer_report_tick ts k = do {
     let ts = ts\<lparr>timer_ticks := timer_ticks ts + 1\<rparr>;
     pending \<leftarrow> timer_work_pending ts k;
     k \<leftarrow> (if pending then thread_wakeup (timer_thread ts) k else Some k);
     Some (ts, k)
   }"

text \<open>The whole of \<^verbatim>\<open>thread_report_tick\<close>.\<close>

definition thread_report_tick_timers :: "timers \<Rightarrow> kernel \<Rightarrow> (timers \<times> kernel) option" where
  "thread_report_tick_timers ts k = timer_report_tick ts (thread_report_tick k)"

section \<open>Signed distances\<close>

lemma sint_u32: "sint (x::u32) = (uint x + 2 ^ 31) mod 2 ^ 32 - 2 ^ 31"
  using int_word_sint [of "uint x", where 'a = 32] by simp

lemma sint_neg_iff: "sint (x::u32) < 0 \<longleftrightarrow> 2 ^ 31 \<le> uint x"
proof -
  have b: "0 \<le> uint x" "uint x < 2 ^ 32" using uint_bounded [of x] by auto
  show ?thesis
  proof (cases "uint x < 2 ^ 31")
    case True
    then have "(uint x + 2 ^ 31) mod 2 ^ 32 = uint x + 2 ^ 31"
      using b by (intro mod_pos_pos_trivial) auto
    then show ?thesis using True b by (simp add: sint_u32)
  next
    case False
    then have "(uint x + 2 ^ 31) mod 2 ^ 32 = uint x - 2 ^ 31"
      using b mod_add_self2 [of "uint x - 2 ^ 31" "2 ^ 32"] mod_pos_pos_trivial [of "uint x - 2 ^ 31" "2 ^ 32"] by (simp add: add.commute)
    then show ?thesis using False b by (simp add: sint_u32)
  qed
qed

text \<open>
  A time is \<open>near\<close> a reference when it is less than a quarter of the range away from it (124 days
  at 100 ticks per second).  Times near the same reference are ordered by their signed distance to
  it, and the comparisons of the module are this order.
\<close>

definition dist :: "u32 \<Rightarrow> u32 \<Rightarrow> int" where
  "dist b x = sint (x - b)"

definition near :: "u32 \<Rightarrow> u32 \<Rightarrow> bool" where
  "near b x \<longleftrightarrow> - (2 ^ 30) \<le> dist b x \<and> dist b x < 2 ^ 30"

lemma sint_minus_near:
  assumes "near b x" "near b y"
  shows "sint (x - y) = dist b x - dist b y"
proof -
  have "x - y = word_of_int (dist b x - dist b y)" by (simp add: dist_def)
  moreover have "(dist b x - dist b y + 2 ^ 31) mod 2 ^ 32 = dist b x - dist b y + 2 ^ 31"
    using assms by (intro mod_pos_pos_trivial) (auto simp: near_def)
  ultimately show ?thesis using int_word_sint [of "dist b x - dist b y", where 'a = 32] by simp
qed

lemma threshold: "uint TIMER_THRESHOLD = 2 ^ 31 - 1"
  unfolding TIMER_THRESHOLD_def by code_simp

lemma expired_sint: "timer_ticks_expired x y \<longleftrightarrow> sint (x - y) < 0"
  by (auto simp: timer_ticks_expired_def sint_neg_iff word_less_def threshold)

lemma occurred_sint: "timer_ticks_occurred x y \<longleftrightarrow> sint (x - y) \<le> 0"
proof -
  have "x = y \<longleftrightarrow> sint (x - y) = 0" by (metis signed_0 signed_eq_0_iff right_minus_eq)
  then show ?thesis unfolding timer_ticks_occurred_def expired_sint by linarith
qed

lemma expired_near: "near b x \<Longrightarrow> near b y \<Longrightarrow> timer_ticks_expired x y \<longleftrightarrow> dist b x < dist b y"
  by (simp add: expired_sint sint_minus_near)

lemma occurred_near: "near b x \<Longrightarrow> near b y \<Longrightarrow> timer_ticks_occurred x y \<longleftrightarrow> dist b x \<le> dist b y"
  by (simp add: occurred_sint sint_minus_near)

end
