(* ===== verification/Timer_Correct.thy ===== *)
theory Timer_Correct
  imports Timer
begin

text \<open>
  The invariant of the timer module, that scheduling keeps it, and the contract under which the
  list of timers is processed: the locale \<open>timer_functions\<close> states what a timer's function may
  do, and shows that processing ends with every due timer run.
\<close>

section \<open>The invariant\<close>

definition deadline :: "timers \<Rightarrow> u32 \<Rightarrow> u32" where
  "deadline ts t = ticks (timer_objs ts t)"

text \<open>The list is in the order of the deadlines, all near \<open>b\<close>.\<close>

definition timers_order :: "u32 \<Rightarrow> timers \<Rightarrow> bool" where
  "timers_order b ts \<longleftrightarrow>
     distinct (timer_list ts) \<and> (\<forall>t \<in> set (timer_list ts). near b (deadline ts t)) \<and>
     sorted (map (\<lambda>t. dist b (deadline ts t)) (timer_list ts)) \<and> mutex_free (timer_mutex ts)"

text \<open>The copies that the tick handler reads agree with the list.\<close>

definition wakeup_ok :: "timers \<Rightarrow> bool" where
  "wakeup_ok ts \<longleftrightarrow> (timer_list_empty ts \<longleftrightarrow> timer_list ts = []) \<and>
     (timer_list ts \<noteq> [] \<longrightarrow> timer_wakeup_ticks ts = deadline ts (hd (timer_list ts)))"

definition timers_inv :: "u32 \<Rightarrow> timers \<Rightarrow> bool" where
  "timers_inv b ts \<longleftrightarrow> timers_order b ts \<and> wakeup_ok ts"

definition due :: "u32 \<Rightarrow> timers \<Rightarrow> u32 list" where
  "due now ts = filter (\<lambda>t. timer_occurred (timer_objs ts t) now) (timer_list ts)"

section \<open>Scheduling\<close>

lemma insert_split:
  "timer_list_insert objs t n l =
     takeWhile (\<lambda>u. timer_expired (objs u) n) l @ t # dropWhile (\<lambda>u. timer_expired (objs u) n) l"
  by (induction l) auto

lemma insert_not_nil: "timer_list_insert objs t n l \<noteq> []"
  by (simp add: insert_split)

lemma insert_set: "set (timer_list_insert objs t n l) = insert t (set l)"
  by (induction l) auto

lemma insert_distinct: "t \<notin> set l \<Longrightarrow> distinct l \<Longrightarrow> distinct (timer_list_insert objs t n l)"
  by (induction l) (auto simp: insert_set)

lemma insert_remove: "t \<notin> set l \<Longrightarrow> remove1 t (timer_list_insert objs t n l) = l"
  by (induction l) auto

lemma insert_sorted:
  assumes "sorted (map f l)" and "\<And>u. u \<in> set l \<Longrightarrow> timer_expired (objs u) n \<longleftrightarrow> f u < f t"
  shows "sorted (map f (timer_list_insert objs t n l))"
  using assms by (induction l) (auto simp: insert_set le_less_linear)

lemma timer_schedule_eq:
  assumes ord: "timers_order b ts" and t: "t \<notin> set (timer_list ts)" and n: "near b n"
  defines "ts' \<equiv> (upd_timer t (\<lambda>tm. tm\<lparr>ticks := n\<rparr>) ts)
    \<lparr>timer_list := timer_list_insert (timer_objs ts) t n (timer_list ts), timer_list_empty := False\<rparr>"
  shows "timer_schedule self t n ts = Some (ts'\<lparr>timer_wakeup_ticks := deadline ts' (hd (timer_list ts'))\<rparr>)"
    and "timers_inv b (ts'\<lparr>timer_wakeup_ticks := deadline ts' (hd (timer_list ts'))\<rparr>)"
proof -
  have cong: "timer_list_insert (objs(t := x)) t n l = timer_list_insert objs t n l" if "t \<notin> set l" for objs x l
    using that by (induction l) auto
  have free: "mutex_free (timer_mutex ts)" using ord by (simp add: timers_order_def)
  show "timer_schedule self t n ts = Some (ts'\<lparr>timer_wakeup_ticks := deadline ts' (hd (timer_list ts'))\<rparr>)"
    using free_set_clear [OF free, of self]
    by (simp add: timer_schedule_def upd_timer_def cong [OF t] ts'_def deadline_def)
  let ?f = "\<lambda>u. dist b (deadline ts' u)"
  have d: "deadline ts' u = (if u = t then n else deadline ts u)" for u
    by (simp add: ts'_def deadline_def upd_timer_def)
  have same: "map ?f (timer_list ts) = map (\<lambda>u. dist b (deadline ts u)) (timer_list ts)" using t d by auto
  have "sorted (map ?f (timer_list_insert (timer_objs ts) t n (timer_list ts)))"
  proof (rule insert_sorted)
    show "sorted (map ?f (timer_list ts))" unfolding same using ord by (simp add: timers_order_def)
    fix u
    assume u: "u \<in> set (timer_list ts)"
    then have "near b (deadline ts u)" using ord by (simp add: timers_order_def)
    then show "timer_expired (timer_objs ts u) n \<longleftrightarrow> ?f u < ?f t"
      using expired_near [OF _ n, of "deadline ts u"] u t d [of u] d [of t]
      by (auto simp: timer_expired_def) (simp_all add: deadline_def)
  qed
  then show "timers_inv b (ts'\<lparr>timer_wakeup_ticks := deadline ts' (hd (timer_list ts'))\<rparr>)"
    using ord t n d
    by (auto simp: timers_inv_def timers_order_def wakeup_ok_def ts'_def upd_timer_def insert_set
        insert_distinct insert_not_nil deadline_def)
qed

section \<open>Processing\<close>

lemma wakeup_updated: "wakeup_ok (timer_update_wakeup ts)"
  by (auto simp: wakeup_ok_def timer_update_wakeup_def deadline_def Let_def split: list.split)

lemma update_simps [simp]:
  "timer_list (timer_update_wakeup ts) = timer_list ts" "timer_mutex (timer_update_wakeup ts) = timer_mutex ts"
  "timer_objs (timer_update_wakeup ts) = timer_objs ts" "timer_ticks (timer_update_wakeup ts) = timer_ticks ts"
  "timer_thread (timer_update_wakeup ts) = timer_thread ts"
  by (simp_all add: timer_update_wakeup_def Let_def split: list.split)

lemma due_sorted:
  assumes ord: "timers_order b ts" and now: "near b now"
  shows "due now ts = takeWhile (\<lambda>t. timer_occurred (timer_objs ts t) now) (timer_list ts)"
proof -
  have occ: "timer_occurred (timer_objs ts t) now \<longleftrightarrow> dist b (deadline ts t) \<le> dist b now"
    if "t \<in> set (timer_list ts)" for t
    using occurred_near [OF _ now, of "deadline ts t"] ord that
    by (simp add: timer_occurred_def timers_order_def deadline_def)
  have "sorted (map f l) \<Longrightarrow> filter (\<lambda>t. f t \<le> x) l = takeWhile (\<lambda>t. f t \<le> x) l" for f :: "u32 \<Rightarrow> int" and x l
  proof (induction l)
    case (Cons a l)
    show ?case
    proof (cases "f a \<le> x")
      case True
      then show ?thesis using Cons by simp
    next
      case False
      then have "\<not> f u \<le> x" if "u \<in> set l" for u using Cons.prems that by fastforce
      then show ?thesis using False by (simp add: filter_empty_conv)
    qed
  qed simp
  from this [of "\<lambda>t. dist b (deadline ts t)" "timer_list ts" "dist b now"]
  show ?thesis
    using ord occ unfolding due_def timers_order_def
    by (metis (no_types, lifting) filter_cong takeWhile_cong)
qed

text \<open>
  How late the due timers of a list are in total, in ticks.  A function that schedules its own
  timer again, later than it was, makes this number smaller.
\<close>

definition lag :: "u32 \<Rightarrow> u32 \<Rightarrow> timers \<Rightarrow> nat" where
  "lag b now ts = sum_list (map (\<lambda>t. nat (dist b now - dist b (deadline ts t) + 1)) (timer_list ts))"

text \<open>
  What the timers' functions may do.  \<open>I\<close> is an invariant of the system while the timer mutex is
  free, and includes the order of the list; running the function of a due timer that has been taken
  off the list returns, keeps it, and reduces the lag.
\<close>

locale timer_functions =
  fixes call :: "u32 \<Rightarrow> u32 \<Rightarrow> timers \<times> 'w \<Rightarrow> (timers \<times> 'w) option"
    and I :: "timers \<times> 'w \<Rightarrow> bool" and b now :: u32
  assumes I_order: "I (ts, w) \<Longrightarrow> timers_order b ts" and I_now: "I (ts, w) \<Longrightarrow> near b now"
    and I_run: "I (ts, w) \<Longrightarrow> timer_list ts = t # l \<Longrightarrow> timer_occurred (timer_objs ts t) now \<Longrightarrow>
      \<exists>ts' w'. timer_process call t (ts\<lparr>timer_list := l\<rparr>, w) = Some (ts', w') \<and> I (ts', w') \<and>
        lag b now ts' < lag b now ts"
begin

definition hold :: "tid \<Rightarrow> timers \<Rightarrow> timers" where
  "hold self ts = ts\<lparr>timer_mutex := (timer_mutex ts)\<lparr>owner := Some self, locked := True\<rparr>\<rparr>"

lemma loop_ok:
  "I (ts, w) \<Longrightarrow> \<exists>ts' w'. timer_process_loop call self now (hold self ts, w) = Some (hold self ts', w') \<and>
     I (ts', w') \<and> due now ts' = []"
proof (induction "lag b now ts" arbitrary: ts w rule: less_induct)
  case less
  note ord = I_order [OF less.prems]
  have free: "mutex_free (timer_mutex ts)" using ord by (simp add: timers_order_def)
  show ?case
  proof (cases "due now ts")
    case Nil
    then have "timer_process_loop call self now (hold self ts, w) = Some (hold self ts, w)"
      by (subst timer_process_loop.simps) (auto simp: hold_def due_def split: list.split)
    then show ?thesis using less.prems Nil by blast
  next
    case (Cons t r)
    then obtain l where l: "timer_list ts = t # l" and occ: "timer_occurred (timer_objs ts t) now"
      using due_sorted [OF ord I_now [OF less.prems]] by (cases "timer_list ts") (auto split: if_splits)
    obtain ts1 w1 where run: "timer_process call t (ts\<lparr>timer_list := l\<rparr>, w) = Some (ts1, w1)" "I (ts1, w1)"
      "lag b now ts1 < lag b now ts"
      using I_run [OF less.prems l occ] by blast
    have free1: "mutex_free (timer_mutex ts1)" using I_order [OF run(2)] by (simp add: timers_order_def)
    have "timer_process_loop call self now (hold self ts, w) = timer_process_loop call self now (hold self ts1, w1)"
      using l occ run(1) free_set_clear [OF free, of self] free_set_clear [OF free1, of self]
      by (subst timer_process_loop.simps) (simp add: hold_def)
    then show ?thesis using less.hyps [OF run(3,2)] by simp
  qed
qed

lemma process_list_ok:
  assumes "I (ts, w)"
  shows "\<exists>ts' w'. timer_process_list call self now (ts, w) = Some (timer_update_wakeup ts', w') \<and>
    I (ts', w') \<and> due now ts' = [] \<and> timers_inv b (timer_update_wakeup ts')"
proof -
  obtain ts' w' where l: "timer_process_loop call self now (hold self ts, w) = Some (hold self ts', w')"
    "I (ts', w')" "due now ts' = []"
    using loop_ok [OF assms, of self] by blast
  have free: "mutex_free (timer_mutex ts)" "mutex_free (timer_mutex ts')"
    using I_order [OF assms] I_order [OF l(2)] by (simp_all add: timers_order_def)
  have "timer_update_wakeup (hold self ts')\<lparr>timer_mutex := timer_mutex ts'\<rparr> = timer_update_wakeup ts'"
    by (simp add: timer_update_wakeup_def hold_def Let_def split: list.split)
  then have "timer_process_list call self now (ts, w) = Some (timer_update_wakeup ts', w')"
    using l(1) free_set_clear [OF free(1), of self] free_set_clear [OF free(2), of self]
    by (simp add: timer_process_list_def flip: hold_def) (simp add: hold_def)
  moreover have "timers_inv b (timer_update_wakeup ts')"
    using I_order [OF l(2)] wakeup_updated by (simp add: timers_inv_def timers_order_def deadline_def)
  ultimately show ?thesis using l by blast
qed

end

text \<open>
  A function that leaves the timers alone and acts only on the rest of the system: the due timers
  are run once each, in the order of the list.
\<close>

definition inert :: "(u32 \<Rightarrow> u32 \<Rightarrow> 'w \<Rightarrow> 'w) \<Rightarrow> u32 \<Rightarrow> u32 \<Rightarrow> timers \<times> 'w \<Rightarrow> (timers \<times> 'w) option" where
  "inert act f a s = Some (fst s, act f a (snd s))"

definition run_timer :: "(u32 \<Rightarrow> u32 \<Rightarrow> 'w \<Rightarrow> 'w) \<Rightarrow> timers \<Rightarrow> u32 \<Rightarrow> 'w \<Rightarrow> 'w" where
  "run_timer act ts t w = act (fn (timer_objs ts t)) (arg (timer_objs ts t)) w"

lemma inert_loop:
  assumes "mutex_free mtx"
  shows "timer_process_loop (inert act) self now
      (ts\<lparr>timer_list := l, timer_mutex := mtx\<lparr>owner := Some self, locked := True\<rparr>\<rparr>, w) =
    Some (ts\<lparr>timer_list := dropWhile (\<lambda>t. timer_occurred (timer_objs ts t) now) l,
        timer_mutex := mtx\<lparr>owner := Some self, locked := True\<rparr>\<rparr>,
      fold (run_timer act ts) (takeWhile (\<lambda>t. timer_occurred (timer_objs ts t) now) l) w)"
proof (induction l arbitrary: w)
  case Nil
  show ?case by (subst timer_process_loop.simps) simp
next
  case (Cons t l)
  show ?case
    using free_set_clear [OF assms, of self]
    by (subst timer_process_loop.simps) (simp add: Cons timer_process_def inert_def run_timer_def [of act ts t w])
qed

section \<open>Ticks\<close>

lemma report_tick_eq:
  assumes "timers_inv b ts" and "near b (timer_ticks ts + 1)" and "\<not> cpu_intr_enabled k"
  shows "timer_report_tick ts k =
    (if due (timer_ticks ts + 1) ts = [] then Some (ts\<lparr>timer_ticks := timer_ticks ts + 1\<rparr>, k)
     else map_option (Pair (ts\<lparr>timer_ticks := timer_ticks ts + 1\<rparr>)) (thread_wakeup (timer_thread ts) k))"
proof -
  have "timers_order b ts" using assms(1) by (simp add: timers_inv_def)
  from due_sorted [OF this assms(2)]
  have "due (timer_ticks ts + 1) ts \<noteq> [] \<longleftrightarrow>
    \<not> timer_list_empty ts \<and> timer_ticks_occurred (timer_wakeup_ticks ts) (timer_ticks ts + 1)"
    using assms(1)
    by (cases "timer_list ts") (auto simp: timers_inv_def wakeup_ok_def deadline_def timer_occurred_def)
  then show ?thesis
    using assms(3) by (cases "thread_wakeup (timer_thread ts) k")
      (auto simp: timer_report_tick_def timer_work_pending_def Let_def)
qed

end
