(* ===== verification/Sw.thy ===== *)
theory Sw
  imports Timer_Correct Scan
begin

text \<open>
  The stopwatch of src/sw.c: a timer that schedules itself again at every tick, and the shell
  commands that control it.  \<open>sw_calls\<close> records, in order, the calls of
  \<^verbatim>\<open>printf\<close> with their argument (theory Fmt models the conversion) and of
  \<^verbatim>\<open>condvar_signal\<close> (theory Sync).  The stopwatch's mutex is held where the source holds it.
  \<^verbatim>\<open>sw_setup\<close>, which also registers the commands, is in theory Startup.
\<close>

datatype sw_call = Print u32 | Print_disabled | Print_invalid | Signal

record sw =
  sw_mutex :: mutex
  sw_ticks :: u32
  sw_timer_scheduled :: bool
  sw_shell_waiting :: bool
  sw_wait_ticks :: u32
  sw_calls :: "sw_call list"

definition THREAD_SCHED_FREQ :: u32 where "THREAD_SCHED_FREQ = 100"
definition SW_DISPLAY_INTERVAL :: u32 where "SW_DISPLAY_INTERVAL = 5"
definition SW_MAX_WAIT :: u32 where "SW_MAX_WAIT = 30"

text \<open>The address of \<^verbatim>\<open>sw_timer\<close> is a parameter \<open>tm\<close>.\<close>

definition sw_call_out :: "sw_call \<Rightarrow> sw \<Rightarrow> sw" where
  "sw_call_out c s = s\<lparr>sw_calls := sw_calls s @ [c]\<rparr>"

definition sw_lock :: "tid \<Rightarrow> sw \<Rightarrow> sw option" where
  "sw_lock self s = do { mtx \<leftarrow> mutex_set_owner (sw_mutex s) self; Some (s\<lparr>sw_mutex := mtx\<rparr>) }"

definition sw_unlock :: "tid \<Rightarrow> sw \<Rightarrow> sw option" where
  "sw_unlock self s = do { mtx \<leftarrow> mutex_clear_owner (sw_mutex s) self; Some (s\<lparr>sw_mutex := mtx\<rparr>) }"

text \<open>The part of \<^verbatim>\<open>sw_timer_run\<close> that counts, prints and ends a wait.\<close>

definition sw_timer_count :: "sw \<Rightarrow> sw" where
  "sw_timer_count s =
     (let s = s\<lparr>sw_ticks := sw_ticks s + 1\<rparr>;
          s = (if sw_ticks s mod (THREAD_SCHED_FREQ * SW_DISPLAY_INTERVAL) = 0
               then sw_call_out (Print (sw_ticks s)) s else s)
      in if sw_shell_waiting s \<and> timer_ticks_occurred (sw_wait_ticks s) (sw_ticks s)
         then sw_call_out Signal (s\<lparr>sw_shell_waiting := False\<rparr>) else s)"

definition sw_timer_run :: "tid \<Rightarrow> u32 \<Rightarrow> timers \<times> sw \<Rightarrow> (timers \<times> sw) option" where
  "sw_timer_run self tm p = do {
     let ts = fst p;
     s \<leftarrow> sw_lock self (snd p);
     (ts, s) \<leftarrow>
       (if \<not> sw_timer_scheduled s then Some (ts, s)
        else do {
          let s = sw_timer_count s;
          (n, ts) \<leftarrow> timer_get_time self tm ts;
          ts \<leftarrow> timer_schedule self tm (n + 1) ts;
          Some (ts, s)
        });
     s \<leftarrow> sw_unlock self s;
     Some (ts, s)
   }"

definition sw_shell_start :: "tid \<Rightarrow> u32 \<Rightarrow> timers \<times> sw \<Rightarrow> (timers \<times> sw) option" where
  "sw_shell_start self tm p = do {
     let ts = fst p;
     s \<leftarrow> sw_lock self (snd p);
     (ts, s) \<leftarrow>
       (if sw_timer_scheduled s then Some (ts, s)
        else do {
          let s = s\<lparr>sw_ticks := 0, sw_timer_scheduled := True\<rparr>;
          ts \<leftarrow> timer_schedule self tm (timer_ticks ts + 1) ts;
          Some (ts, s)
        });
     s \<leftarrow> sw_unlock self s;
     Some (ts, s)
   }"

definition sw_shell_stop :: "tid \<Rightarrow> timers \<times> sw \<Rightarrow> (timers \<times> sw) option" where
  "sw_shell_stop self p = do {
     s \<leftarrow> sw_lock self (snd p);
     s \<leftarrow> sw_unlock self (s\<lparr>sw_timer_scheduled := False\<rparr>);
     Some (fst p, s)
   }"

definition sw_shell_resume :: "tid \<Rightarrow> u32 \<Rightarrow> timers \<times> sw \<Rightarrow> (timers \<times> sw) option" where
  "sw_shell_resume self tm p = do {
     let ts = fst p;
     s \<leftarrow> sw_lock self (snd p);
     let s = s\<lparr>sw_timer_scheduled := True\<rparr>;
     ts \<leftarrow> timer_schedule self tm (timer_ticks ts + 1) ts;
     s \<leftarrow> sw_unlock self s;
     Some (ts, s)
   }"

definition sw_shell_read :: "tid \<Rightarrow> timers \<times> sw \<Rightarrow> (timers \<times> sw) option" where
  "sw_shell_read self p = do {
     s \<leftarrow> sw_lock self (snd p);
     s \<leftarrow> sw_unlock self (sw_call_out (Print (sw_ticks s)) s);
     Some (fst p, s)
   }"

text \<open>
  \<open>sw_shell_wait\<close> up to its call of \<^verbatim>\<open>condvar_wait\<close>, for \<open>argc\<close> arguments of which the second is the
  string at \<open>argv1\<close>, with the format at \<open>fmt\<close> and the variable \<^verbatim>\<open>seconds\<close> at \<open>p\<close>.  The first component of
  the result tells whether the thread waits; the mutex is then released by \<^verbatim>\<open>condvar_wait\<close>, and
  \<open>sw_shell_wait_check\<close> is the loop condition and the end, with the mutex held again.
\<close>

definition sw_shell_wait :: "tid \<Rightarrow> bytes \<Rightarrow> u32 \<Rightarrow> u32 \<Rightarrow> int \<Rightarrow> u32 \<Rightarrow> sw \<Rightarrow> (bool \<times> sw) option" where
  "sw_shell_wait self m fmt p argc argv1 s =
     (if argc \<noteq> 2 then Some (False, sw_call_out Print_invalid s)
      else do {
        (ret, m) \<leftarrow> fmt_sscanf m argv1 fmt [p];
        let seconds = (ucast (load_le m p 4) :: u32);
        if ret \<noteq> 1 \<or> seconds > SW_MAX_WAIT then Some (False, sw_call_out Print_invalid s)
        else do {
          s \<leftarrow> sw_lock self s;
          if \<not> sw_timer_scheduled s then do {
            s \<leftarrow> sw_unlock self (sw_call_out Print_disabled s);
            Some (False, s)
          } else do {
            let s = s\<lparr>sw_shell_waiting := True\<rparr>;
            let s = s\<lparr>sw_wait_ticks := sw_ticks s + seconds * THREAD_SCHED_FREQ\<rparr>;
            s \<leftarrow> sw_unlock self s;
            Some (True, s)
          }
        }
      })"

definition sw_shell_wait_check :: "tid \<Rightarrow> sw \<Rightarrow> (bool \<times> sw) option" where
  "sw_shell_wait_check self s = do {
     s \<leftarrow> sw_lock self s;
     let waits = sw_shell_waiting s;
     s \<leftarrow> sw_unlock self s;
     Some (waits, s)
   }"

section \<open>The stopwatch as a timer function\<close>

lemma dist_succ: "near b x \<Longrightarrow> near b y \<Longrightarrow> dist b x \<le> dist b y \<Longrightarrow> dist b y + 1 < 2 ^ 30 \<Longrightarrow>
  dist b (x + 1) = dist b x + 1"
  using int_word_sint [of "dist b x + 1", where 'a = 32]
  by (simp add: dist_def near_def mod_pos_pos_trivial add_diff_eq diff_add_eq flip: diff_add_eq)

text \<open>
  The running stopwatch while the timers are processed for the time \<open>now\<close>: its timer is the
  one in the list, due at most one tick after \<open>now\<close>, and \<open>c\<close>, the difference of the count and the
  deadline, does not change.
\<close>

definition sw_running :: "u32 \<Rightarrow> u32 \<Rightarrow> u32 \<Rightarrow> u32 \<Rightarrow> timers \<times> sw \<Rightarrow> bool" where
  "sw_running b now tm c p \<longleftrightarrow>
     timers_order b (fst p) \<and> near b now \<and> dist b now + 1 < 2 ^ 30 \<and> timer_list (fst p) = [tm] \<and>
     dist b (deadline (fst p) tm) \<le> dist b now + 1 \<and> mutex_free (sw_mutex (snd p)) \<and>
     sw_timer_scheduled (snd p) \<and> sw_ticks (snd p) - deadline (fst p) tm = c"

lemma sw_timer_count_mutex [simp]:
  "sw_timer_count (s\<lparr>sw_mutex := m\<rparr>) = (sw_timer_count s)\<lparr>sw_mutex := m\<rparr>"
  by (simp add: sw_timer_count_def sw_call_out_def Let_def)

lemma sw_timer_count_simps [simp]:
  "sw_mutex (sw_timer_count s) = sw_mutex s" "sw_ticks (sw_timer_count s) = sw_ticks s + 1"
  "sw_timer_scheduled (sw_timer_count s) = sw_timer_scheduled s"
  by (auto simp: sw_timer_count_def sw_call_out_def Let_def)

lemma sw_mutex_id [simp]: "sw_mutex s = m \<Longrightarrow> s\<lparr>sw_mutex := m\<rparr> = s"
  by auto

lemma sw_timer_run_eq:
  assumes I: "sw_running b now tm c (ts, s)" and occ: "timer_occurred (timer_objs ts tm) now"
  shows "\<exists>ts' s'. sw_timer_run self tm (ts\<lparr>timer_list := []\<rparr>, s) = Some (ts', s') \<and>
    sw_running b now tm c (ts', s') \<and> deadline ts' tm = deadline ts tm + 1"
proof -
  have free: "mutex_free (timer_mutex ts)" "mutex_free (sw_mutex s)"
    using I by (simp_all add: sw_running_def timers_order_def)
  let ?d = "deadline ts tm"
  have nr: "near b now" "near b ?d" "dist b now + 1 < 2 ^ 30"
    using I by (auto simp: sw_running_def timers_order_def)
  have le: "dist b ?d \<le> dist b now"
    using occ occurred_near [OF nr(2,1)] by (simp add: timer_occurred_def deadline_def)
  have d1: "dist b (?d + 1) = dist b ?d + 1" by (rule dist_succ [OF nr(2,1) le nr(3)])
  then have n1: "near b (?d + 1)" using nr le by (simp add: near_def)
  have ord: "timers_order b (ts\<lparr>timer_list := []\<rparr>)" using free by (simp add: timers_order_def)
  have g: "timer_get_time self tm (ts\<lparr>timer_list := []\<rparr>) = Some (?d, ts\<lparr>timer_list := []\<rparr>)"
    using free_set_clear [OF free(1), of self] by (simp add: timer_get_time_def deadline_def)
  obtain ts' where ts': "timer_schedule self tm (?d + 1) (ts\<lparr>timer_list := []\<rparr>) = Some ts'"
    "timers_inv b ts'" "timer_list ts' = [tm]" "deadline ts' tm = ?d + 1"
    using timer_schedule_eq(1) [OF ord _ n1, of tm self] timer_schedule_eq(2) [OF ord _ n1, of tm] by (auto simp: upd_timer_def deadline_def)
  have "sw_timer_run self tm (ts\<lparr>timer_list := []\<rparr>, s) = Some (ts', sw_timer_count s)"
    using I free_set_clear [OF free(2), of self] g ts'(1)
    by (simp add: sw_timer_run_def sw_lock_def sw_unlock_def sw_running_def)
  moreover have "sw_running b now tm c (ts', sw_timer_count s)"
    using I ts' d1 le nr by (simp add: sw_running_def timers_inv_def free(2))
  ultimately show ?thesis using ts'(4) by blast
qed

interpretation sw_fn: timer_functions "\<lambda>f a. sw_timer_run self tm" "sw_running b now tm c" b now
  for self tm b now c
proof
  fix ts :: timers and s :: sw and t l
  assume I: "sw_running b now tm c (ts, s)"
  then show "timers_order b ts" and "near b now" by (simp_all add: sw_running_def)
  assume l: "timer_list ts = t # l" and occ: "timer_occurred (timer_objs ts t) now"
  then have t: "t = tm" "l = []" using I by (simp_all add: sw_running_def)
  obtain ts' s' where r: "sw_timer_run self tm (ts\<lparr>timer_list := []\<rparr>, s) = Some (ts', s')"
    "sw_running b now tm c (ts', s')" "deadline ts' tm = deadline ts tm + 1"
    using sw_timer_run_eq [OF I] occ t by blast
  have nr: "near b now" "near b (deadline ts tm)" "dist b now + 1 < 2 ^ 30"
    using I by (auto simp: sw_running_def timers_order_def)
  have le: "dist b (deadline ts tm) \<le> dist b now"
    using occ t occurred_near [OF nr(2,1)] by (simp add: timer_occurred_def deadline_def)
  have "lag b now ts' < lag b now ts"
    using le dist_succ [OF nr(2,1) le nr(3)] r(2,3) l t by (simp add: lag_def sw_running_def)
  then show "\<exists>ts' w'. timer_process (\<lambda>f a. sw_timer_run self tm) t (ts\<lparr>timer_list := l\<rparr>, s) = Some (ts', w') \<and>
      sw_running b now tm c (ts', w') \<and> lag b now ts' < lag b now ts"
    using r(1,2) t by (simp add: timer_process_def)
qed

end
