(* ===== verification/Timer_Props.thy ===== *)
theory Timer_Props
  imports Sw
begin

text \<open>
  The properties of the software timers and of the stopwatch.  The witnesses use deadlines on both
  sides of the wrap-around of the tick counter.
\<close>

text \<open>
  C33: the invariant of the timer module.  Scheduling a timer that is not in the list, at any time
  less than a quarter of the tick range away from \<open>b\<close>, returns; the list stays in the order of the
  deadlines across the wrap-around of the counter, without duplicates, the copies read by the tick
  handler describe its first timer, only this timer is added and only its deadline changes.\<close>
theorem timer_schedule_inv:
  assumes "timers_inv b ts" and "t \<notin> set (timer_list ts)" and "near b n"
  shows "\<exists>ts'. timer_schedule self t n ts = Some ts' \<and> timers_inv b ts' \<and>
    remove1 t (timer_list ts') = timer_list ts \<and> t \<in> set (timer_list ts') \<and>
    timer_objs ts' = (timer_objs ts)(t := (timer_objs ts t)\<lparr>ticks := n\<rparr>) \<and>
    timer_ticks ts' = timer_ticks ts \<and> timer_thread ts' = timer_thread ts"
proof -
  have ord: "timers_order b ts" using assms(1) by (simp add: timers_inv_def)
  show ?thesis
    by (rule exI, intro conjI, rule timer_schedule_eq(1) [OF ord assms(2,3)], rule timer_schedule_eq(2) [OF ord assms(2,3)])
      (use assms(2) in \<open>simp_all add: upd_timer_def insert_set insert_remove\<close>)
qed


text \<open>
  the tick handler.  With interrupts disabled, a tick advances the time by one, and wakes up the
  timer thread exactly if a timer of the list is due at the new time: no deadline is missed and no
  tick wakes up the thread in vain.\<close>
theorem timer_report_tick_wakes:
  assumes "timers_inv b ts" and "near b (timer_ticks ts + 1)" and "\<not> cpu_intr_enabled k"
  shows "timer_report_tick ts k =
    (if due (timer_ticks ts + 1) ts = [] then Some (ts\<lparr>timer_ticks := timer_ticks ts + 1\<rparr>, k)
     else map_option (Pair (ts\<lparr>timer_ticks := timer_ticks ts + 1\<rparr>)) (thread_wakeup (timer_thread ts) k))"
  using assms by (rule report_tick_eq)

text \<open>
  C36: the stopwatch does not drift.  When the timer thread processes its list at the time \<open>now\<close> while
  the stopwatch runs, however late, it returns: the stopwatch has counted every tick up to and
  including \<open>now\<close>, and its timer is set for the next one.\<close>
theorem sw_no_drift:
  assumes inv: "timers_inv b ts" "timer_list ts = [tm]" and now: "near b now" "dist b now + 1 < 2 ^ 30"
    and sw: "mutex_free (sw_mutex s)" "sw_timer_scheduled s" and late: "dist b (deadline ts tm) \<le> dist b now + 1"
  shows "\<exists>ts' s'. timer_process_list (\<lambda>f a. sw_timer_run self tm) self now (ts, s) = Some (ts', s') \<and>
    timers_inv b ts' \<and> timer_list ts' = [tm] \<and> deadline ts' tm = now + 1 \<and> sw_timer_scheduled s' \<and>
    sw_ticks s' = sw_ticks s + (now + 1 - deadline ts tm)"
proof -
  have I: "sw_running b now tm (sw_ticks s - deadline ts tm) (ts, s)"
    using assms by (simp add: sw_running_def timers_inv_def)
  obtain ts' s' where r: "timer_process_list (\<lambda>f a. sw_timer_run self tm) self now (ts, s) =
      Some (timer_update_wakeup ts', s')"
    "sw_running b now tm (sw_ticks s - deadline ts tm) (ts', s')" "due now ts' = []"
    "timers_inv b (timer_update_wakeup ts')"
    using sw_fn.process_list_ok [OF I] by blast
  have nr: "near b (deadline ts' tm)" and l: "timer_list ts' = [tm]"
    and le: "dist b (deadline ts' tm) \<le> dist b now + 1" and c: "sw_ticks s' - deadline ts' tm = sw_ticks s - deadline ts tm"
    using r(2) by (auto simp: sw_running_def timers_order_def)
  have "\<not> timer_ticks_occurred (deadline ts' tm) now"
    using r(3) l by (simp add: due_def timer_occurred_def deadline_def split: if_splits)
  then have "dist b (deadline ts' tm) = dist b now + 1" using occurred_near [OF nr now(1)] le by linarith
  then have "dist b (deadline ts' tm) = dist b (now + 1)"
    using dist_succ [OF now(1,1) order_refl now(2)] by simp
  then have d: "deadline ts' tm = now + 1" unfolding dist_def by (metis diff_add_cancel signed_word_eqI)
  have "sw_ticks s' = sw_ticks s + (now + 1 - deadline ts tm)"
    using c d by (simp add: algebra_simps)
  then show ?thesis
    using r l d by (auto simp: sw_running_def deadline_def)
qed

section \<open>Witnesses\<close>

definition ex_timers :: timers where
  "ex_timers = \<lparr>timer_ticks = 0xFFFFFFFE, timer_list_empty = False, timer_wakeup_ticks = 0xFFFFFFFF,
     timer_list = [16, 32], timer_mutex = \<lparr>waiters = [], owner = None, locked = False\<rparr>, timer_thread = 64,
     timer_objs = (\<lambda>t. \<lparr>ticks = (if t = 16 then 0xFFFFFFFF else 2), fn = 0, arg = t\<rparr>)\<rparr>"

lemma ex_timers_near: "near 0 0xFFFFFFFF" "near 0 1" "near 0 2"
  by (code_simp, code_simp, code_simp)

lemma ex_timers_inv: "timers_inv 0 ex_timers"
  by code_simp

theorem timer_schedule_inv_witness:
  "\<exists>ts'. timer_schedule 64 48 1 ex_timers = Some ts' \<and> timers_inv 0 ts' \<and> remove1 48 (timer_list ts') = [16, 32]"
  using timer_schedule_inv [OF ex_timers_inv, of 48 1 64] ex_timers_near by (auto simp: ex_timers_def)


definition ex_irq :: kernel where
  "ex_irq =
     (let thr = \<lparr>tstate = THREAD_STATE_RUNNING, yield = False, preempt_level = 1, priority = 1, joiner = 0,
        saved_intr = False, code = []\<rparr>
      in \<lparr>current = 1, nr_threads = 1, lists = replicate 20 [], idle = 2,
        threads = (\<lambda>t. if t = 64 then thr\<lparr>tstate := THREAD_STATE_SLEEPING, priority := 19\<rparr> else thr),
        intr = False, mutexes = (\<lambda>_. \<lparr>waiters = [], owner = None, locked = False\<rparr>), condvars = (\<lambda>_. [])\<rparr>)"

theorem timer_report_tick_wakes_witness:
  "\<exists>k'. timer_report_tick ex_timers ex_irq = Some (ex_timers\<lparr>timer_ticks := 0xFFFFFFFF\<rparr>, k') \<and>
     thread_is_running k' 64"
proof -
  have d: "due 0xFFFFFFFF ex_timers = [16]" and i: "\<not> cpu_intr_enabled ex_irq" and t: "timer_ticks ex_timers + 1 = 0xFFFFFFFF"
    and w: "case thread_wakeup (timer_thread ex_timers) ex_irq of None \<Rightarrow> False | Some k \<Rightarrow> thread_is_running k 64"
    by (code_simp, code_simp, code_simp, code_simp)
  have "timer_report_tick ex_timers ex_irq = map_option (Pair (ex_timers\<lparr>timer_ticks := 0xFFFFFFFF\<rparr>))
    (thread_wakeup (timer_thread ex_timers) ex_irq)"
    using timer_report_tick_wakes [OF ex_timers_inv _ i] ex_timers_near(1) by (simp only: t d) simp
  then show ?thesis using w by (auto split: option.splits)
qed

definition ex_sw :: sw where
  "ex_sw = \<lparr>sw_mutex = \<lparr>waiters = [], owner = None, locked = False\<rparr>, sw_ticks = 7, sw_timer_scheduled = True,
     sw_shell_waiting = False, sw_wait_ticks = 0, sw_calls = []\<rparr>"

theorem sw_no_drift_witness:
  "\<exists>ts' s'. timer_process_list (\<lambda>f a. sw_timer_run 64 16) 64 2 (ex_timers\<lparr>timer_list := [16]\<rparr>, ex_sw) = Some (ts', s') \<and>
     deadline ts' 16 = 3 \<and> sw_ticks s' = 11"
proof -
  have inv: "timers_inv 0 (ex_timers\<lparr>timer_list := [16]\<rparr>)" by code_simp
  have d: "deadline (ex_timers\<lparr>timer_list := [16]\<rparr>) 16 = 0xFFFFFFFF" by code_simp
  have n: "dist 0 2 + 1 < 2 ^ 30" "dist 0 0xFFFFFFFF \<le> dist 0 2 + 1" by (code_simp, code_simp)
  have s: "mutex_free (sw_mutex ex_sw)" "sw_timer_scheduled ex_sw" "sw_ticks ex_sw = 7"
    by (code_simp, code_simp, code_simp)
  have w: "(- 4294967285 :: u32) = 11" by simp
  from sw_no_drift [OF inv _ ex_timers_near(3) n(1) s(1,2), of 16 64]
  show ?thesis using n(2) s(3) by (simp add: d w) blast
qed

end
