(* ===== verification/I8259.thy ===== *)
theory I8259
  imports Thread
begin

text \<open>
  The interrupt controllers: src/i8259.c, and the port writes of src/io.h.  The hardware is
  represented by what the drivers write to it: \<open>io_writes\<close> is the sequence of all port writes,
  oldest first.  The records of the drivers extend each other, so that an operation of one driver
  applies to the state of the whole machine.

  The invariant \<open>i8259_inv\<close> is that the cached mask of a controller is the last byte that was
  written to its data port, hence, after the initialisation sequence, the mask in the device.
\<close>

section \<open>Port I/O\<close>

record io =
  io_writes :: "(u16 \<times> u8) list"

definition io_write :: "u16 \<Rightarrow> u8 \<Rightarrow> 'a io_scheme \<Rightarrow> 'a io_scheme" where
  "io_write port byte s = s\<lparr>io_writes := io_writes s @ [(port, byte)]\<rparr>"

section \<open>Controllers\<close>

record i8259_pic =
  cmd_port :: u16
  data_port :: u16
  imr :: u8
  master :: bool

record i8259 = io +
  i8259_pics :: "i8259_pic list"

definition I8259_IRQ_CASCADE :: nat where "I8259_IRQ_CASCADE = 2"
definition I8259_NR_IRQS :: nat where "I8259_NR_IRQS = 8"
definition I8259_ICW1_ICW4 :: u8 where "I8259_ICW1_ICW4 = 0x01"
definition I8259_ICW1_INIT :: u8 where "I8259_ICW1_INIT = 0x10"
definition I8259_ICW4_8086 :: u8 where "I8259_ICW4_8086 = 0x01"
definition I8259_OCW2_EOI :: u8 where "I8259_OCW2_EOI = 0x20"
definition I8259_PIC_ID_MASTER :: nat where "I8259_PIC_ID_MASTER = 0"
definition I8259_PIC_ID_SLAVE :: nat where "I8259_PIC_ID_SLAVE = 1"
definition I8259_NR_PICS :: nat where "I8259_NR_PICS = 2"
definition CPU_IDT_VECT_PIC_MASTER :: nat where "CPU_IDT_VECT_PIC_MASTER = 32"
definition CPU_IDT_VECT_PIC_SLAVE :: nat where "CPU_IDT_VECT_PIC_SLAVE = CPU_IDT_VECT_PIC_MASTER + 8"

lemmas i8259_consts = I8259_IRQ_CASCADE_def I8259_NR_IRQS_def I8259_ICW1_ICW4_def I8259_ICW1_INIT_def
  I8259_ICW4_8086_def I8259_OCW2_EOI_def I8259_PIC_ID_MASTER_def I8259_PIC_ID_SLAVE_def I8259_NR_PICS_def
  CPU_IDT_VECT_PIC_MASTER_def CPU_IDT_VECT_PIC_SLAVE_def

text \<open>The static instances, in the order of their identifiers.\<close>

definition i8259_pics_initial :: "i8259_pic list" where
  "i8259_pics_initial =
     [\<lparr>cmd_port = 0x20, data_port = 0x21, imr = 0xff, master = True\<rparr>,
      \<lparr>cmd_port = 0xa0, data_port = 0xa1, imr = 0xff, master = False\<rparr>]"

text \<open>A pointer to a controller is its index in the array.\<close>

definition i8259_get_pic :: "nat \<Rightarrow> 'a i8259_scheme \<Rightarrow> nat option" where
  "i8259_get_pic i s = do {
     assert (i < length (i8259_pics s));
     Some i
   }"

text \<open>
  \<open>local_irq\<close> tells whether the caller passes a non-null pointer for the local number; storing
  through a null pointer has no result.  The result is the error, or the controller and the local
  number.
\<close>

definition i8259_convert_global_irq ::
  "nat \<Rightarrow> bool \<Rightarrow> 'a i8259_scheme \<Rightarrow> (error + nat \<times> nat option) option" where
  "i8259_convert_global_irq irq local_irq s =
     (if irq < I8259_NR_IRQS then do {
        pic \<leftarrow> i8259_get_pic I8259_PIC_ID_MASTER s;
        Some (Inr (pic, if local_irq then Some irq else None))
      } else if irq < I8259_NR_IRQS * I8259_NR_PICS then do {
        pic \<leftarrow> i8259_get_pic I8259_PIC_ID_SLAVE s;
        Some (Inr (pic, if local_irq then Some (irq - I8259_NR_IRQS) else None))
      } else if local_irq then Some (Inl ERROR_INVAL)
      else None)"

definition i8259_pic_write_cmd :: "nat \<Rightarrow> u8 \<Rightarrow> 'a i8259_scheme \<Rightarrow> 'a i8259_scheme" where
  "i8259_pic_write_cmd pic byte s = io_write (cmd_port (i8259_pics s ! pic)) byte s"

definition i8259_pic_write_data :: "nat \<Rightarrow> u8 \<Rightarrow> 'a i8259_scheme \<Rightarrow> 'a i8259_scheme" where
  "i8259_pic_write_data pic byte s = io_write (data_port (i8259_pics s ! pic)) byte s"

definition i8259_pic_apply_imr :: "nat \<Rightarrow> 'a i8259_scheme \<Rightarrow> 'a i8259_scheme" where
  "i8259_pic_apply_imr pic s = io_write (data_port (i8259_pics s ! pic)) (imr (i8259_pics s ! pic)) s"

definition i8259_set_imr :: "nat \<Rightarrow> (u8 \<Rightarrow> u8) \<Rightarrow> 'a i8259_scheme \<Rightarrow> 'a i8259_scheme" where
  "i8259_set_imr pic f s =
     s\<lparr>i8259_pics := (i8259_pics s)[pic := (i8259_pics s ! pic)\<lparr>imr := f (imr (i8259_pics s ! pic))\<rparr>]\<rparr>"

definition i8259_pic_enable_irq :: "nat \<Rightarrow> nat \<Rightarrow> 'a i8259_scheme \<Rightarrow> 'a i8259_scheme option" where
  "i8259_pic_enable_irq pic irq s = do {
     assert (irq < I8259_NR_IRQS);
     Some (i8259_pic_apply_imr pic (i8259_set_imr pic (\<lambda>x. x AND NOT (push_bit irq 1)) s))
   }"

definition i8259_pic_disable_irq :: "nat \<Rightarrow> nat \<Rightarrow> 'a i8259_scheme \<Rightarrow> 'a i8259_scheme option" where
  "i8259_pic_disable_irq pic irq s = do {
     assert (irq < I8259_NR_IRQS);
     Some (i8259_pic_apply_imr pic (i8259_set_imr pic (\<lambda>x. x OR push_bit irq 1) s))
   }"

definition i8259_pic_eoi :: "nat \<Rightarrow> 'a i8259_scheme \<Rightarrow> 'a i8259_scheme" where
  "i8259_pic_eoi pic s = io_write (cmd_port (i8259_pics s ! pic)) I8259_OCW2_EOI s"

definition i8259_setup :: "'a i8259_scheme \<Rightarrow> 'a i8259_scheme option" where
  "i8259_setup s = do {
     m \<leftarrow> i8259_get_pic I8259_PIC_ID_MASTER s;
     sl \<leftarrow> i8259_get_pic I8259_PIC_ID_SLAVE s;
     let s = i8259_pic_write_cmd m (I8259_ICW1_INIT OR I8259_ICW1_ICW4) s;
     let s = i8259_pic_write_cmd sl (I8259_ICW1_INIT OR I8259_ICW1_ICW4) s;
     let s = i8259_pic_write_data m (of_nat CPU_IDT_VECT_PIC_MASTER) s;
     let s = i8259_pic_write_data sl (of_nat CPU_IDT_VECT_PIC_SLAVE) s;
     let s = i8259_pic_write_data m (push_bit I8259_IRQ_CASCADE 1) s;
     let s = i8259_pic_write_data sl (of_nat I8259_IRQ_CASCADE) s;
     let s = i8259_pic_write_data m I8259_ICW4_8086 s;
     let s = i8259_pic_write_data sl I8259_ICW4_8086 s;
     s \<leftarrow> i8259_pic_enable_irq m I8259_IRQ_CASCADE s;
     let s = i8259_pic_apply_imr m s;
     let s = i8259_pic_apply_imr sl s;
     Some s
   }"

text \<open>The assertion that the conversion has succeeded.\<close>

fun i8259_converted :: "error + 'a \<Rightarrow> 'a option" where
  "i8259_converted (Inl e) = None"
| "i8259_converted (Inr x) = Some x"

definition i8259_irq_enable :: "nat \<Rightarrow> 'a i8259_scheme \<Rightarrow> 'a i8259_scheme option" where
  "i8259_irq_enable irq s = do {
     r \<leftarrow> i8259_convert_global_irq irq True s;
     (pic, local_irq) \<leftarrow> i8259_converted r;
     i8259_pic_enable_irq pic (the local_irq) s
   }"

definition i8259_irq_disable :: "nat \<Rightarrow> 'a i8259_scheme \<Rightarrow> 'a i8259_scheme option" where
  "i8259_irq_disable irq s = do {
     r \<leftarrow> i8259_convert_global_irq irq True s;
     (pic, local_irq) \<leftarrow> i8259_converted r;
     i8259_pic_disable_irq pic (the local_irq) s
   }"

definition i8259_irq_eoi :: "nat \<Rightarrow> kernel \<Rightarrow> 'a i8259_scheme \<Rightarrow> 'a i8259_scheme option" where
  "i8259_irq_eoi irq k s = do {
     assert (\<not> cpu_intr_enabled k);
     r \<leftarrow> i8259_convert_global_irq irq False s;
     (pic, _) \<leftarrow> i8259_converted r;
     s \<leftarrow> (if \<not> master (i8259_pics s ! pic) then do {
             m \<leftarrow> i8259_get_pic I8259_PIC_ID_MASTER s;
             Some (i8259_pic_eoi m s)
           } else Some s);
     Some (i8259_pic_eoi pic s)
   }"

section \<open>The invariant\<close>

text \<open>The last byte written to a port.\<close>

definition last_write :: "'a io_scheme \<Rightarrow> u16 \<Rightarrow> u8 option" where
  "last_write s port = map_of (rev (io_writes s)) port"

lemma last_write_io_write [simp]:
  "last_write (io_write p b s) port = (if port = p then Some b else last_write s port)"
  by (simp add: last_write_def io_write_def)

lemma io_write_simps [simp]:
  "i8259_pics (io_write p b s) = i8259_pics s" "io_writes (io_write p b s) = io_writes s @ [(p, b)]"
  by (simp_all add: io_write_def)

text \<open>The controllers apart from the masks.\<close>

definition i8259_wf :: "'a i8259_scheme \<Rightarrow> bool" where
  "i8259_wf s \<longleftrightarrow> map (\<lambda>p. (cmd_port p, data_port p, master p)) (i8259_pics s) =
     [(0x20, 0x21, True), (0xa0, 0xa1, False)]"

definition i8259_inv :: "'a i8259_scheme \<Rightarrow> bool" where
  "i8259_inv s \<longleftrightarrow> i8259_wf s \<and>
     (\<forall>p \<in> set (i8259_pics s). last_write s (data_port p) = Some (imr p))"

text \<open>The mask bit of a global interrupt number.\<close>

definition irq_masked :: "'a i8259_scheme \<Rightarrow> nat \<Rightarrow> bool" where
  "irq_masked s irq \<longleftrightarrow> bit (imr (i8259_pics s ! (irq div 8))) (irq mod 8)"

lemma i8259_wfE:
  assumes "i8259_wf s"
  obtains i j where "i8259_pics s = [\<lparr>cmd_port = 0x20, data_port = 0x21, imr = i, master = True\<rparr>,
    \<lparr>cmd_port = 0xa0, data_port = 0xa1, imr = j, master = False\<rparr>]"
proof -
  obtain p q where pq: "i8259_pics s = [p, q]" and f: "cmd_port p = 0x20" "data_port p = 0x21" "master p"
    "cmd_port q = 0xa0" "data_port q = 0xa1" "\<not> master q"
    using assms by (auto simp: i8259_wf_def map_eq_Cons_conv)
  have "p = \<lparr>cmd_port = 0x20, data_port = 0x21, imr = imr p, master = True\<rparr>"
    "q = \<lparr>cmd_port = 0xa0, data_port = 0xa1, imr = imr q, master = False\<rparr>" using f by simp_all
  with pq show ?thesis using that by simp
qed

lemma byte_bit_range: "bit (x::u8) n \<Longrightarrow> n < 8"
  using bit_imp_le_length [of x n] by simp

lemmas i8259_pic_defs = i8259_pic_write_cmd_def i8259_pic_write_data_def i8259_pic_apply_imr_def
  i8259_set_imr_def i8259_pic_eoi_def

lemma bit_clear: "m < 8 \<Longrightarrow> bit ((x::u8) AND NOT (push_bit n 1)) m \<longleftrightarrow> bit x m \<and> m \<noteq> n"
  by (auto simp: bit_simps dest: byte_bit_range)

lemma bit_set: "m < 8 \<Longrightarrow> bit ((x::u8) OR push_bit n 1) m \<longleftrightarrow> bit x m \<or> m = n"
  by (auto simp: bit_simps)

text \<open>Changing the mask of the controller of an interrupt.\<close>

lemma set_imr_ok:
  fixes f :: "u8 \<Rightarrow> u8"
  assumes inv: "i8259_inv s" and irq: "irq < 16"
  defines "s' \<equiv> i8259_pic_apply_imr (irq div 8) (i8259_set_imr (irq div 8) f s)"
  shows "i8259_inv s'"
    and "j < 16 \<Longrightarrow> irq_masked s' j \<longleftrightarrow>
      (if j div 8 = irq div 8 then bit (f (imr (i8259_pics s ! (irq div 8)))) (j mod 8) else irq_masked s j)"
proof -
  have wf: "i8259_wf s" using inv by (simp add: i8259_inv_def)
  obtain x y where s: "i8259_pics s = [\<lparr>cmd_port = 0x20, data_port = 0x21, imr = x, master = True\<rparr>,
    \<lparr>cmd_port = 0xa0, data_port = 0xa1, imr = y, master = False\<rparr>]" by (rule i8259_wfE [OF wf])
  have c: "irq div 8 = 0 \<or> irq div 8 = 1" using irq by linarith
  show "i8259_inv s'"
    using c inv s by (auto simp: i8259_inv_def i8259_wf_def s'_def i8259_pic_defs last_write_def io_write_def)
  assume "j < 16"
  then have "j div 8 = 0 \<or> j div 8 = 1" by linarith
  then show "irq_masked s' j \<longleftrightarrow>
      (if j div 8 = irq div 8 then bit (f (imr (i8259_pics s ! (irq div 8)))) (j mod 8) else irq_masked s j)"
    using c s by (auto simp: irq_masked_def s'_def i8259_pic_defs)
qed

lemma convert_global_irq_eq:
  assumes "i8259_wf s"
  shows "i8259_convert_global_irq irq b s =
    (if irq < 16 then Some (Inr (irq div 8, if b then Some (irq mod 8) else None))
     else if b then Some (Inl ERROR_INVAL) else None)"
proof -
  obtain x y where s: "i8259_pics s = [\<lparr>cmd_port = 0x20, data_port = 0x21, imr = x, master = True\<rparr>,
    \<lparr>cmd_port = 0xa0, data_port = 0xa1, imr = y, master = False\<rparr>]" by (rule i8259_wfE [OF assms])
  consider "irq < 8" | "8 \<le> irq" "irq < 16" | "16 \<le> irq" by linarith
  then show ?thesis
  proof cases
    case 2
    then have "irq div 8 = 1" "irq mod 8 = irq - 8" by (simp_all add: div_nat_eqI le_mod_geq)
    then show ?thesis using 2 s by (simp add: i8259_convert_global_irq_def i8259_get_pic_def i8259_consts)
  qed (use s in \<open>simp_all add: i8259_convert_global_irq_def i8259_get_pic_def i8259_consts\<close>)
qed

lemma same_irq: "j < 16 \<Longrightarrow> j = irq \<longleftrightarrow> j div 8 = irq div 8 \<and> j mod 8 = irq mod (8::nat)"
  by (metis div_mult_mod_eq)

lemma irq_mask_ok:
  assumes inv: "i8259_inv s"
  shows "if irq < 16 then
      (\<exists>s'. i8259_irq_enable irq s = Some s' \<and> i8259_inv s' \<and>
         (\<forall>j<16. irq_masked s' j \<longleftrightarrow> irq_masked s j \<and> j \<noteq> irq)) \<and>
      (\<exists>s'. i8259_irq_disable irq s = Some s' \<and> i8259_inv s' \<and>
         (\<forall>j<16. irq_masked s' j \<longleftrightarrow> irq_masked s j \<or> j = irq))
    else i8259_irq_enable irq s = None \<and> i8259_irq_disable irq s = None"
proof (cases "irq < 16")
  case True
  have wf: "i8259_wf s" using inv by (simp add: i8259_inv_def)
  let ?e = "\<lambda>x::u8. x AND NOT (push_bit (irq mod 8) 1)" and ?d = "\<lambda>x::u8. x OR push_bit (irq mod 8) 1"
  note eq = set_imr_ok [OF inv True]
  have m: "i8259_irq_enable irq s = Some (i8259_pic_apply_imr (irq div 8) (i8259_set_imr (irq div 8) ?e s))"
    "i8259_irq_disable irq s = Some (i8259_pic_apply_imr (irq div 8) (i8259_set_imr (irq div 8) ?d s))"
    using True by (simp_all add: i8259_irq_enable_def i8259_irq_disable_def convert_global_irq_eq [OF wf]
        i8259_pic_enable_irq_def i8259_pic_disable_irq_def i8259_consts)
  have b: "j mod 8 < 8" "irq_masked s j \<longleftrightarrow> bit (imr (i8259_pics s ! (j div 8))) (j mod 8)" for j
    by (simp_all add: irq_masked_def)
  have "irq_masked (i8259_pic_apply_imr (irq div 8) (i8259_set_imr (irq div 8) ?e s)) j \<longleftrightarrow> irq_masked s j \<and> j \<noteq> irq"
    "irq_masked (i8259_pic_apply_imr (irq div 8) (i8259_set_imr (irq div 8) ?d s)) j \<longleftrightarrow> irq_masked s j \<or> j = irq"
    if "j < 16" for j
    unfolding eq(2) [OF that] bit_clear [OF b(1)] bit_set [OF b(1)] using same_irq [OF that, of irq] b(2) [of j]
    by auto
  then show ?thesis using True eq(1) [of ?e] eq(1) [of ?d] unfolding m by auto
next
  case False
  have "i8259_wf s" using inv by (simp add: i8259_inv_def)
  then show ?thesis
    using False by (simp add: i8259_irq_enable_def i8259_irq_disable_def convert_global_irq_eq)
qed

text \<open>
  C39: the interrupt masks.  Enabling or disabling an interrupt number below 16 returns and changes the
  mask bit of exactly this interrupt, on the right controller, and the cached masks stay equal to what
  was last written to the data ports of the two devices; a number of 16 or more fails the assertion.\<close>
theorem i8259_irq_mask:
  assumes inv: "i8259_inv s"
  shows "if irq < 16 then
      (\<exists>s'. i8259_irq_enable irq s = Some s' \<and> i8259_inv s' \<and>
         (\<forall>j<16. irq_masked s' j \<longleftrightarrow> irq_masked s j \<and> j \<noteq> irq)) \<and>
      (\<exists>s'. i8259_irq_disable irq s = Some s' \<and> i8259_inv s' \<and>
         (\<forall>j<16. irq_masked s' j \<longleftrightarrow> irq_masked s j \<or> j = irq))
    else i8259_irq_enable irq s = None \<and> i8259_irq_disable irq s = None"
  using assms by (rule irq_mask_ok)

definition ex_i8259 :: i8259 where
  "ex_i8259 = \<lparr>io_writes = [], i8259_pics = i8259_pics_initial\<rparr>"

theorem i8259_irq_mask_witness:
  "\<exists>s s'. i8259_setup ex_i8259 = Some s \<and> i8259_irq_enable 4 s = Some s' \<and>
     \<not> irq_masked s' 4 \<and> irq_masked s' 0 \<and> \<not> irq_masked s' 2"
proof -
  have "case i8259_setup ex_i8259 of None \<Rightarrow> False | Some s \<Rightarrow>
      i8259_inv s \<and> irq_masked s 0 \<and> irq_masked s 4 \<and> \<not> irq_masked s 2"
    by code_simp
  then obtain s where s: "i8259_setup ex_i8259 = Some s" "i8259_inv s" "irq_masked s 0" "\<not> irq_masked s 2"
    by (auto split: option.splits)
  show ?thesis using i8259_irq_mask [OF s(2), of 4] s by auto
qed

end
