(* ===== verification/Console.thy ===== *)
theory Console
  imports I8259 Fmt_Props Sync_Correct
begin

text \<open>
  Output on the serial line: \<^verbatim>\<open>uart_write\<close> of src/uart.c and src/printf.c.  Whatever is
  printed is formatted into \<^verbatim>\<open>printf_buffer\<close> and then written, byte by byte, with preemption
  and interrupts disabled.
\<close>

definition UART_COM1_PORT :: u16 where "UART_COM1_PORT = 0x3F8"
definition UART_REG_DAT :: u16 where "UART_REG_DAT = 0"
definition PRINTF_BUFFER_SIZE :: u32 where "PRINTF_BUFFER_SIZE = 1024"

definition uart_write :: "u8 \<Rightarrow> 'a io_scheme \<Rightarrow> 'a io_scheme" where
  "uart_write byte s = io_write (UART_COM1_PORT + UART_REG_DAT) byte s"

text \<open>The loop that writes the buffer.\<close>

partial_function (option) vprintf_loop :: "bytes \<Rightarrow> u32 \<Rightarrow> 'a io_scheme \<Rightarrow> 'a io_scheme option" where
  "vprintf_loop m ptr s = (if m ptr \<noteq> 0 then vprintf_loop m (ptr + 1) (uart_write (m ptr) s) else Some s)"

text \<open>
  \<open>pbuf\<close> is the address of \<^verbatim>\<open>printf_buffer\<close>, \<open>null_str\<close> that of the string that is printed
  for a null pointer (theory Fmt).
\<close>

definition vprintf ::
  "u32 \<Rightarrow> u32 \<Rightarrow> u32 \<Rightarrow> u32 list \<Rightarrow> bytes \<times> 'a io_scheme \<times> kernel \<Rightarrow> (u32 \<times> bytes \<times> 'a io_scheme \<times> kernel) option" where
  "vprintf null_str pbuf format ap = (\<lambda>(m, s, k). do {
     k \<leftarrow> thread_preempt_disable k;
     let (eflags, k) = cpu_intr_save k;
     (len, m) \<leftarrow> fmt_vsnprintf null_str m pbuf PRINTF_BUFFER_SIZE format ap;
     s \<leftarrow> vprintf_loop m pbuf s;
     let k = cpu_intr_restore eflags k;
     k \<leftarrow> thread_preempt_enable k;
     Some (len, m, s, k)
   })"

definition printf ::
  "u32 \<Rightarrow> u32 \<Rightarrow> u32 \<Rightarrow> u32 list \<Rightarrow> bytes \<times> 'a io_scheme \<times> kernel \<Rightarrow> (u32 \<times> bytes \<times> 'a io_scheme \<times> kernel) option" where
  "printf null_str pbuf format ap = vprintf null_str pbuf format ap"

text \<open>
  What a message of the drivers does to the line, once it is formatted; theorem
  \<open>printf_writes\<close> shows it of \<^verbatim>\<open>printf\<close>.
\<close>

definition put_text :: "u8 list \<Rightarrow> 'a io_scheme \<Rightarrow> 'a io_scheme" where
  "put_text cs s = s\<lparr>io_writes := io_writes s @ map (Pair (UART_COM1_PORT + UART_REG_DAT)) cs\<rparr>"

section \<open>Correctness\<close>

lemma put_text_Nil [simp]: "put_text [] s = s"
  by (simp add: put_text_def)

lemma put_text_Cons: "put_text (c # cs) s = put_text cs (uart_write c s)"
  by (simp add: put_text_def uart_write_def io_write_def)

lemma vprintf_loop_cstr: "cstr m p cs \<Longrightarrow> vprintf_loop m p s = Some (put_text cs s)"
proof (induction cs arbitrary: p s)
  case Nil
  then show ?case by (simp add: vprintf_loop.simps)
next
  case (Cons c cs)
  then show ?case by (simp add: vprintf_loop.simps [of m p] put_text_Cons)
qed

lemma cstr_bytes_at: "bytes_at m p (length cs) = cs \<Longrightarrow> m (p + of_nat (length cs)) = 0 \<Longrightarrow> 0 \<notin> set cs \<Longrightarrow> cstr m p cs"
proof (induction cs arbitrary: p)
  case (Cons c cs)
  have "bytes_at m p (Suc (length cs)) = m p # bytes_at m (p + 1) (length cs)"
    by (rule nth_equalityI) (auto simp: nth_bytes_at nth_Cons' algebra_simps)
  then show ?case using Cons by (simp add: algebra_simps)
qed (simp add: bytes_at_def)

lemma printf_text:
  assumes fmt: "cstr_in (outside pbuf (pbuf + 1023)) m format cs"
    and spec: "fmt_spec (str_at m null_str pbuf (pbuf + 1023)) cs ap = Some out"
    and buf: "pbuf \<noteq> 0" "unat pbuf + 1024 < 2 ^ 32" "unat pbuf + length out < 2 ^ 32 - 1" and nul: "0 \<notin> set out"
    and lvl: "cur_level k < 2 ^ 32 - 1"
  shows "\<exists>m'. printf null_str pbuf format ap (m, s, k) =
      map_option (\<lambda>k'. (of_nat (length out), m', put_text (take 1023 out) s, k'))
        (thread_preempt_enable (upd_thread (current k) (\<lambda>t. t\<lparr>preempt_level := preempt_level t + 1\<rparr>) k)) \<and>
    (\<forall>a. \<not> in_range pbuf 1024 a \<longrightarrow> m' a = m a)"
proof -
  have e: "buf_end pbuf PRINTF_BUFFER_SIZE = pbuf + 1023"
    by (simp add: buf_end_def PRINTF_BUFFER_SIZE_def FMT_NOLIMIT_def)
  have c: "clip_len PRINTF_BUFFER_SIZE (length out) = min (length out) 1023"
    by (simp add: clip_len_def PRINTF_BUFFER_SIZE_def FMT_NOLIMIT_def)
  let ?n = "min (length out) 1023"
  have tk: "take ?n out = take 1023 out" by (simp add: min_def)
  obtain m' where m': "fmt_vsnprintf null_str m pbuf PRINTF_BUFFER_SIZE format ap = Some (of_nat (length out), m')"
    "bytes_at m' pbuf ?n = take 1023 out" "m' (pbuf + of_nat ?n) = 0"
    "\<And>a. \<not> in_range pbuf (Suc ?n) a \<Longrightarrow> m' a = m a"
    using vsnprintf_text [of pbuf PRINTF_BUFFER_SIZE m format cs null_str ap out] fmt spec buf
    unfolding e c by (auto simp: PRINTF_BUFFER_SIZE_def Let_def tk)
  have "cstr m' pbuf (take 1023 out)"
    by (rule cstr_bytes_at) (use m'(2,3) nul in_set_takeD in \<open>fastforce simp: min.commute\<close>)+
  note loop = vprintf_loop_cstr [OF this, of s]
  let ?k = "upd_thread (current k) (\<lambda>t. t\<lparr>preempt_level := preempt_level t + 1\<rparr>) k"
  have "(?k\<lparr>intr := False\<rparr>)\<lparr>intr := intr ?k\<rparr> = ?k" by simp
  then have "printf null_str pbuf format ap (m, s, k) =
      map_option (\<lambda>k'. (of_nat (length out), m', put_text (take 1023 out) s, k')) (thread_preempt_enable ?k)"
    using preempt_disable_eq [OF lvl] m'(1) loop
    by (cases "thread_preempt_enable ?k")
      (simp_all add: printf_def vprintf_def cpu_intr_save_def cpu_intr_restore_def)
  moreover have "m' a = m a" if "\<not> in_range pbuf 1024 a" for a
    using that m'(4) [of a] by (auto simp: in_range_def)
  ultimately show ?thesis by blast
qed

text \<open>
  C40: \<^verbatim>\<open>printf\<close> writes on the serial line exactly the text that its format and arguments stand for, cut
  to 1023 characters, in order and nothing else; it returns the length of the whole text, changes no
  memory outside of its buffer, and leaves the interrupt flag and the preemption level as they were
  (up to a reschedule that was pending).\<close>
theorem printf_writes:
  assumes fmt: "cstr_in (outside pbuf (pbuf + 1023)) m format cs"
    and spec: "fmt_spec (str_at m null_str pbuf (pbuf + 1023)) cs ap = Some out"
    and buf: "pbuf \<noteq> 0" "unat pbuf + 1024 < 2 ^ 32" "unat pbuf + length out < 2 ^ 32 - 1" and nul: "0 \<notin> set out"
    and lvl: "cur_level k < 2 ^ 32 - 1"
  shows "\<exists>m'. printf null_str pbuf format ap (m, s, k) =
      map_option (\<lambda>k'. (of_nat (length out), m', put_text (take 1023 out) s, k'))
        (thread_preempt_enable (upd_thread (current k) (\<lambda>t. t\<lparr>preempt_level := preempt_level t + 1\<rparr>) k)) \<and>
    (\<forall>a. \<not> in_range pbuf 1024 a \<longrightarrow> m' a = m a)"
  using assms by (rule printf_text)

definition ex_io :: io where "ex_io = \<lparr>io_writes = []\<rparr>"

definition ex_locked :: kernel where
  "ex_locked = \<lparr>current = 1, nr_threads = 1, lists = replicate 20 [], idle = 2,
     threads = (\<lambda>t. \<lparr>tstate = THREAD_STATE_RUNNING, yield = False, preempt_level = 1, priority = 1, joiner = 0,
       saved_intr = False, code = []\<rparr>),
     intr = False, mutexes = (\<lambda>_. \<lparr>waiters = [], owner = None, locked = False\<rparr>), condvars = (\<lambda>_. [])\<rparr>"

theorem printf_writes_witness:
  "\<exists>m' k'. printf 0 64 16 [65] (ex_mem (map ch ''%c%%''), ex_io, ex_locked) =
     Some (2, m', \<lparr>io_writes = [(0x3F8, 65), (0x3F8, 37)]\<rparr>, k')"
proof -
  let ?m = "ex_mem (map ch ''%c%%'')"
  have f: "cstr_in (outside 64 (64 + 1023)) ?m 16 (map ch ''%c%%'')"
    by (simp add: ex_mem_def outside_def)
  have s: "fmt_spec (str_at ?m 0 64 (64 + 1023)) (map ch ''%c%%'') [65] = Some [65, 37]"
    by (simp add: fmt_parse_defs pad_text_def word_le_nat_alt has_flag_def fmt_flag_defs)
  have l: "cur_level ex_locked < 2 ^ 32 - 1" by (simp add: cur_level_def ex_locked_def)
  have k: "thread_preempt_enable (upd_thread (current ex_locked) (\<lambda>t. t\<lparr>preempt_level := preempt_level t + 1\<rparr>) ex_locked)
      \<noteq> None"
    by (simp add: thread_preempt_enable_def thread_preempt_enable_no_yield_def thread_yield_if_needed_def
        thread_should_yield_def thread_self_eq upd_thread_def ex_locked_def)
  show ?thesis
    using printf_writes [OF f s _ _ _ _ l, of ex_io] k
    by (auto simp: put_text_def ex_io_def UART_COM1_PORT_def UART_REG_DAT_def)
qed

end
