(* ===== verification/Cpu.thy ===== *)
theory Cpu
  imports Console
begin

text \<open>
  src/cpu.c: the segment and interrupt descriptor tables, the table of interrupt handlers, and the
  entry of interrupts.  The addresses of the low level service routines of cpu_asm.S, and that of the
  default handler, are parameters: \<open>isr v\<close> is \<^verbatim>\<open>cpu_isr_general_protection\<close> for 13 and
  \<^verbatim>\<open>cpu_isr_<v>\<close> for the vectors 32 to 47.  The functions that read and change the interrupt
  flag are in theory Thread, and the entry of an interrupt as the thread module sees it is
  \<open>cpu_intr_main\<close> of theory Sync: theory Drivers connects it with \<open>cpu_intr_dispatch\<close>, the code between its
  changes of the preemption level.
\<close>

section \<open>State\<close>

record cpu_seg_desc =
  low :: u32
  high :: u32

record cpu_pseudo_desc =
  limit :: u16
  base :: u32

record cpu_irq_handler =
  h_fn :: u32
  h_arg :: u32

text \<open>
  The fields \<open>gdtr\<close> and \<open>idtr\<close> are the operands of the last \<^verbatim>\<open>lgdt\<close> and \<^verbatim>\<open>lidt\<close>.
\<close>

record cpu = i8259 +
  cpu_gdt :: "cpu_seg_desc list"
  cpu_idt :: "cpu_seg_desc list"
  cpu_irq_handlers :: "cpu_irq_handler list"
  gdtr :: cpu_pseudo_desc
  idtr :: cpu_pseudo_desc

definition CPU_SEG_DATA_RW :: u32 where "CPU_SEG_DATA_RW = 0x00000200"
definition CPU_SEG_CODE_RX :: u32 where "CPU_SEG_CODE_RX = 0x00000900"
definition CPU_SEG_S :: u32 where "CPU_SEG_S = 0x00001000"
definition CPU_SEG_P :: u32 where "CPU_SEG_P = 0x00008000"
definition CPU_SEG_DB :: u32 where "CPU_SEG_DB = 0x00400000"
definition CPU_SEG_G :: u32 where "CPU_SEG_G = 0x00800000"
definition CPU_IDT_SIZE :: nat where "CPU_IDT_SIZE = 256"
definition CPU_GDT_SEL_NULL :: u32 where "CPU_GDT_SEL_NULL = 0x00"
definition CPU_GDT_SEL_CODE :: u32 where "CPU_GDT_SEL_CODE = 0x08"
definition CPU_GDT_SEL_DATA :: u32 where "CPU_GDT_SEL_DATA = 0x10"
definition CPU_GDT_SIZE :: nat where "CPU_GDT_SIZE = 3"
definition CPU_IDT_VECT_GP :: nat where "CPU_IDT_VECT_GP = 13"
definition CPU_NR_IRQ_HANDLERS :: nat where "CPU_NR_IRQ_HANDLERS = 16"

lemmas cpu_consts = CPU_SEG_DATA_RW_def CPU_SEG_CODE_RX_def CPU_SEG_S_def CPU_SEG_P_def CPU_SEG_DB_def
  CPU_SEG_G_def CPU_IDT_SIZE_def CPU_GDT_SEL_NULL_def CPU_GDT_SEL_CODE_def CPU_GDT_SEL_DATA_def
  CPU_GDT_SIZE_def CPU_IDT_VECT_GP_def CPU_NR_IRQ_HANDLERS_def

section \<open>Descriptors\<close>

definition cpu_seg_desc_init_null :: cpu_seg_desc where
  "cpu_seg_desc_init_null = \<lparr>low = 0, high = 0\<rparr>"

definition cpu_seg_desc_init_code :: cpu_seg_desc where
  "cpu_seg_desc_init_code = \<lparr>low = 0xffff,
     high = CPU_SEG_G OR CPU_SEG_DB OR push_bit 16 0xf OR CPU_SEG_P OR CPU_SEG_S OR CPU_SEG_CODE_RX\<rparr>"

definition cpu_seg_desc_init_data :: cpu_seg_desc where
  "cpu_seg_desc_init_data = \<lparr>low = 0xffff,
     high = CPU_SEG_G OR CPU_SEG_DB OR push_bit 16 0xf OR CPU_SEG_P OR CPU_SEG_S OR CPU_SEG_DATA_RW\<rparr>"

definition cpu_seg_desc_init_intr_gate :: "u32 \<Rightarrow> cpu_seg_desc" where
  "cpu_seg_desc_init_intr_gate handler =
     \<lparr>low = push_bit 16 CPU_GDT_SEL_CODE OR (handler AND 0xffff),
      high = (handler AND 0xffff0000) OR CPU_SEG_P OR 0xe00\<rparr>"

definition cpu_pseudo_desc_init :: "u32 \<Rightarrow> u32 \<Rightarrow> cpu_pseudo_desc option" where
  "cpu_pseudo_desc_init addr sz = do {
     assert (sz \<le> 0x10000);
     Some \<lparr>limit = ucast (sz - 1), base = addr\<rparr>
   }"

definition cpu_get_gdt_entry :: "u32 \<Rightarrow> 'a cpu_scheme \<Rightarrow> nat option" where
  "cpu_get_gdt_entry selector s = do {
     let index = unat (drop_bit 3 selector);
     assert (index < length (cpu_gdt s));
     Some index
   }"

text \<open>\<open>gdt\<close> is the address of \<^verbatim>\<open>cpu_gdt\<close>; a descriptor takes 8 bytes.\<close>

definition cpu_setup_gdt :: "u32 \<Rightarrow> 'a cpu_scheme \<Rightarrow> 'a cpu_scheme option" where
  "cpu_setup_gdt gdt s = do {
     i \<leftarrow> cpu_get_gdt_entry CPU_GDT_SEL_NULL s;
     let s = s\<lparr>cpu_gdt := (cpu_gdt s)[i := cpu_seg_desc_init_null]\<rparr>;
     i \<leftarrow> cpu_get_gdt_entry CPU_GDT_SEL_CODE s;
     let s = s\<lparr>cpu_gdt := (cpu_gdt s)[i := cpu_seg_desc_init_code]\<rparr>;
     i \<leftarrow> cpu_get_gdt_entry CPU_GDT_SEL_DATA s;
     let s = s\<lparr>cpu_gdt := (cpu_gdt s)[i := cpu_seg_desc_init_data]\<rparr>;
     desc \<leftarrow> cpu_pseudo_desc_init gdt (of_nat (8 * length (cpu_gdt s)));
     Some (s\<lparr>gdtr := desc\<rparr>)
   }"

section \<open>Handlers\<close>

definition cpu_irq_handler_init :: "cpu_irq_handler \<Rightarrow> cpu_irq_handler" where
  "cpu_irq_handler_init handler = handler\<lparr>h_fn := 0\<rparr>"

definition cpu_lookup_irq_handler :: "nat \<Rightarrow> 'a cpu_scheme \<Rightarrow> nat option" where
  "cpu_lookup_irq_handler irq s = do {
     assert (irq < length (cpu_irq_handlers s));
     Some irq
   }"

definition cpu_irq_handler_set_fn :: "cpu_irq_handler \<Rightarrow> u32 \<Rightarrow> u32 \<Rightarrow> cpu_irq_handler option" where
  "cpu_irq_handler_set_fn handler f a = do {
     assert (h_fn handler = 0);
     Some (handler\<lparr>h_fn := f, h_arg := a\<rparr>)
   }"

definition set_gate :: "(nat \<Rightarrow> u32) \<Rightarrow> nat \<Rightarrow> 'a cpu_scheme \<Rightarrow> 'a cpu_scheme" where
  "set_gate isr v s = s\<lparr>cpu_idt := (cpu_idt s)[v := cpu_seg_desc_init_intr_gate (isr v)]\<rparr>"

definition cpu_setup_idt :: "u32 \<Rightarrow> (nat \<Rightarrow> u32) \<Rightarrow> u32 \<Rightarrow> 'a cpu_scheme \<Rightarrow> 'a cpu_scheme option" where
  "cpu_setup_idt idt isr dflt s = do {
     let s = s\<lparr>cpu_irq_handlers := map cpu_irq_handler_init (cpu_irq_handlers s)\<rparr>;
     let s = s\<lparr>cpu_idt := map (\<lambda>_. cpu_seg_desc_init_intr_gate dflt) (cpu_idt s)\<rparr>;
     let s = set_gate isr CPU_IDT_VECT_GP s;
     let s = fold (set_gate isr) [32..<48] s;
     desc \<leftarrow> cpu_pseudo_desc_init idt (of_nat (8 * length (cpu_idt s)));
     Some (s\<lparr>idtr := desc\<rparr>)
   }"

definition cpu_setup :: "u32 \<Rightarrow> u32 \<Rightarrow> (nat \<Rightarrow> u32) \<Rightarrow> u32 \<Rightarrow> 'a cpu_scheme \<Rightarrow> 'a cpu_scheme option" where
  "cpu_setup gdt idt isr dflt s = do {
     s \<leftarrow> cpu_setup_gdt gdt s;
     cpu_setup_idt idt isr dflt s
   }"

definition cpu_irq_register :: "nat \<Rightarrow> u32 \<Rightarrow> u32 \<Rightarrow> 'a cpu_scheme \<Rightarrow> 'a cpu_scheme option" where
  "cpu_irq_register irq f a s = do {
     i \<leftarrow> cpu_lookup_irq_handler irq s;
     h \<leftarrow> cpu_irq_handler_set_fn (cpu_irq_handlers s ! i) f a;
     let s = s\<lparr>cpu_irq_handlers := (cpu_irq_handlers s)[i := h]\<rparr>;
     i8259_irq_enable irq s
   }"

section \<open>Interrupts\<close>

text \<open>The text of the message about a missing handler, which prints the number with \<^verbatim>\<open>%u\<close>.\<close>

definition invalid_handler_text :: "nat \<Rightarrow> u8 list" where
  "invalid_handler_text irq =
     map ch ''cpu: error: invalid handler for irq '' @
     (if irq = 0 then [ch CHR ''0''] else rev (fmt_conv_dec32 (of_nat irq))) @ [10]"

text \<open>
  The default handler of the interrupts that have none: it prints a message and halts for good, so
  it has no result.
\<close>

definition cpu_default_intr_handler :: "'a cpu_scheme \<Rightarrow> 'a cpu_scheme option" where
  "cpu_default_intr_handler s = None"

text \<open>
  The body of \<^verbatim>\<open>cpu_intr_main\<close> between its changes of the preemption level.  \<open>call\<close> runs the
  function of a handler with its argument.
\<close>

definition cpu_intr_dispatch ::
  "(u32 \<Rightarrow> u32 \<Rightarrow> 'a cpu_scheme \<times> kernel \<Rightarrow> ('a cpu_scheme \<times> kernel) option) \<Rightarrow> nat \<Rightarrow>
   'a cpu_scheme \<times> kernel \<Rightarrow> ('a cpu_scheme \<times> kernel) option" where
  "cpu_intr_dispatch call vector = (\<lambda>(s, k).
     if vector < 32 then Some (s, k)
     else do {
       let irq = vector - 32;
       s \<leftarrow> i8259_irq_eoi irq k s;
       i \<leftarrow> cpu_lookup_irq_handler irq s;
       let h = cpu_irq_handlers s ! i;
       if h_fn h = 0 then Some (put_text (invalid_handler_text irq) s, k)
       else call (h_fn h) (h_arg h) (s, k)
     })"

section \<open>Descriptors as the processor reads them\<close>

text \<open>
  The fields of descriptors, from the formats of the processor's manual (Volume 3, \<open>Segment
  Descriptors\<close> and \<open>IDT Descriptors\<close>).
\<close>

definition gate_offset :: "cpu_seg_desc \<Rightarrow> u32" where
  "gate_offset d = (high d AND 0xffff0000) OR (low d AND 0xffff)"

definition gate_selector :: "cpu_seg_desc \<Rightarrow> u32" where
  "gate_selector d = drop_bit 16 (low d)"

definition gate_attributes :: "cpu_seg_desc \<Rightarrow> u32" where
  "gate_attributes d = high d AND 0xffff"

definition seg_base :: "cpu_seg_desc \<Rightarrow> u32" where
  "seg_base d = drop_bit 16 (low d) OR push_bit 16 (high d AND 0xff) OR (high d AND 0xff000000)"

definition seg_limit :: "cpu_seg_desc \<Rightarrow> u32" where
  "seg_limit d =
     (let l = (low d AND 0xffff) OR (high d AND 0xf0000)
      in if bit (high d) 23 then push_bit 12 l OR 0xfff else l)"

definition seg_dpl :: "cpu_seg_desc \<Rightarrow> u32" where
  "seg_dpl d = drop_bit 13 (high d) AND 3"

lemma fold_set_gate_length [simp]: "length (cpu_idt (fold (set_gate isr) vs s)) = length (cpu_idt s)"
  by (induction vs arbitrary: s) (auto simp: set_gate_def)

lemma fold_set_gate:
  "distinct vs \<Longrightarrow> v < length (cpu_idt s) \<Longrightarrow> cpu_idt (fold (set_gate isr) vs s) ! v =
     (if v \<in> set vs then cpu_seg_desc_init_intr_gate (isr v) else cpu_idt s ! v)"
  by (induction vs arbitrary: s) (auto simp: set_gate_def nth_list_update)

lemma fold_set_gate_other [simp]:
  "cpu_irq_handlers (fold (set_gate isr) vs s) = cpu_irq_handlers s" "cpu_gdt (fold (set_gate isr) vs s) = cpu_gdt s"
  "gdtr (fold (set_gate isr) vs s) = gdtr s" "i8259_pics (fold (set_gate isr) vs s) = i8259_pics s"
  "io_writes (fold (set_gate isr) vs s) = io_writes s" "cpu.more (fold (set_gate isr) vs s) = cpu.more s"
  by (induction vs arbitrary: s) (auto simp: set_gate_def)

lemma bit_const_u32:
  "bit (0xffff :: u32) n \<longleftrightarrow> n < 16" "bit (0xffff0000 :: u32) n \<longleftrightarrow> 16 \<le> n \<and> n < 32"
proof -
  have m: "(0xffff :: u32) = mask 16" "(0xffff0000 :: u32) = push_bit 16 (mask 16)" by code_simp+
  show "bit (0xffff :: u32) n \<longleftrightarrow> n < 16" "bit (0xffff0000 :: u32) n \<longleftrightarrow> 16 \<le> n \<and> n < 32"
    by (simp_all only: m bit_push_bit_iff bit_mask_iff possible_bit_word) auto
qed

lemma gate_decode:
  "gate_offset (cpu_seg_desc_init_intr_gate h) = h"
  "gate_selector (cpu_seg_desc_init_intr_gate h) = CPU_GDT_SEL_CODE"
  "gate_attributes (cpu_seg_desc_init_intr_gate h) = 0x8e00"
proof -
  have c: "push_bit 16 CPU_GDT_SEL_CODE AND 0xffff = 0" "drop_bit 16 (push_bit 16 CPU_GDT_SEL_CODE) = CPU_GDT_SEL_CODE"
    "CPU_SEG_P AND 0xffff0000 = 0" "(0xe00 :: u32) AND 0xffff0000 = 0"
    "CPU_SEG_P AND 0xffff = 0x8000" "(0xe00 :: u32) AND 0xffff = 0xe00" "(0x8000 OR 0xe00 :: u32) = 0x8e00"
    by (code_simp, code_simp, code_simp, code_simp, code_simp, code_simp, code_simp)
  have h: "(h AND 0xffff0000 AND 0xffff0000) OR (h AND 0xffff AND 0xffff) = h"
    "drop_bit 16 (h AND 0xffff) = 0" "(h AND 0xffff0000) AND 0xffff = 0"
    by (rule bit_word_eqI, simp only: bit_and_iff bit_or_iff bit_drop_bit_eq bit_const_u32 comp_def bit_0_eq, force)+
  show "gate_offset (cpu_seg_desc_init_intr_gate h) = h"
    "gate_selector (cpu_seg_desc_init_intr_gate h) = CPU_GDT_SEL_CODE"
    "gate_attributes (cpu_seg_desc_init_intr_gate h) = 0x8e00"
    using c h by (simp_all add: gate_offset_def gate_selector_def gate_attributes_def
        cpu_seg_desc_init_intr_gate_def bit.conj_disj_distrib2)
qed

end
