(* ===== verification/Drivers.thy ===== *)
theory Drivers
  imports Cpu Timer_Correct Cbuf_Props
begin

text \<open>
  The drivers whose handlers run in interrupts: the timer of src/i8254.c and the serial line of
  src/uart.c, and the composition of interrupt entry, controller, handler table, drivers, timers and
  threads.  The record \<open>machine\<close> extends the processor's by the memory, the software timers and the
  state of the serial driver.
\<close>

record machine = cpu +
  mem :: bytes
  timers_of :: timers
  uart_cbuf :: cbuf
  uart_waiter :: tid

section \<open>The interval timer\<close>

definition I8254_FREQ :: nat where "I8254_FREQ = 1193182"
definition I8254_PORT_CHANNEL0 :: u16 where "I8254_PORT_CHANNEL0 = 0x40"
definition I8254_PORT_MODE :: u16 where "I8254_PORT_MODE = 0x43"
definition I8254_CONTROL_BINARY :: u8 where "I8254_CONTROL_BINARY = 0x00"
definition I8254_CONTROL_RATE_GEN :: u8 where "I8254_CONTROL_RATE_GEN = 0x04"
definition I8254_CONTROL_RW_LSB :: u8 where "I8254_CONTROL_RW_LSB = 0x10"
definition I8254_CONTROL_RW_MSB :: u8 where "I8254_CONTROL_RW_MSB = 0x20"
definition I8254_CONTROL_COUNTER0 :: u8 where "I8254_CONTROL_COUNTER0 = 0x00"
definition THREAD_SCHED_FREQ_HZ :: nat where "THREAD_SCHED_FREQ_HZ = 100"
definition I8254_IRQ :: nat where "I8254_IRQ = 0"

definition I8254_INITIAL_COUNT :: nat where
  "I8254_INITIAL_COUNT = (I8254_FREQ + THREAD_SCHED_FREQ_HZ - 1) div THREAD_SCHED_FREQ_HZ"

lemmas i8254_consts = I8254_FREQ_def I8254_PORT_CHANNEL0_def I8254_PORT_MODE_def I8254_CONTROL_BINARY_def
  I8254_CONTROL_RATE_GEN_def I8254_CONTROL_RW_LSB_def I8254_CONTROL_RW_MSB_def I8254_CONTROL_COUNTER0_def
  THREAD_SCHED_FREQ_HZ_def I8254_IRQ_def I8254_INITIAL_COUNT_def

definition i8254_irq_handler :: "machine \<times> kernel \<Rightarrow> (machine \<times> kernel) option" where
  "i8254_irq_handler = (\<lambda>(s, k). do {
     (ts, k) \<leftarrow> thread_report_tick_timers (timers_of s) k;
     Some (s\<lparr>timers_of := ts\<rparr>, k)
   })"

text \<open>\<open>f\<close> is the address of the handler.\<close>

definition i8254_setup :: "u32 \<Rightarrow> 'a cpu_scheme \<Rightarrow> 'a cpu_scheme option" where
  "i8254_setup f s = do {
     s \<leftarrow> cpu_irq_register I8254_IRQ f 0 s;
     let s = io_write I8254_PORT_MODE (I8254_CONTROL_COUNTER0 OR I8254_CONTROL_RW_MSB OR I8254_CONTROL_RW_LSB
       OR I8254_CONTROL_RATE_GEN OR I8254_CONTROL_BINARY) s;
     let value = (of_nat I8254_INITIAL_COUNT :: u16);
     let s = io_write I8254_PORT_CHANNEL0 (ucast (value AND 0xff)) s;
     Some (io_write I8254_PORT_CHANNEL0 (ucast (drop_bit 8 value)) s)
   }"

section \<open>The serial line\<close>

definition UART_DIVISOR :: nat where "UART_DIVISOR = 115200 div 115200"
definition UART_IRQ :: nat where "UART_IRQ = 4"
definition UART_IER_DATA :: u8 where "UART_IER_DATA = 0x1"
definition UART_LCR_8BITS :: u8 where "UART_LCR_8BITS = 0x3"
definition UART_LCR_STOP1 :: u8 where "UART_LCR_STOP1 = 0"
definition UART_LCR_PARITY_NONE :: u8 where "UART_LCR_PARITY_NONE = 0"
definition UART_LCR_DLAB :: u8 where "UART_LCR_DLAB = 0x80"
definition UART_REG_DIVL :: u16 where "UART_REG_DIVL = 0"
definition UART_REG_IER :: u16 where "UART_REG_IER = 1"
definition UART_REG_DIVH :: u16 where "UART_REG_DIVH = 1"
definition UART_REG_LCR :: u16 where "UART_REG_LCR = 3"
definition UART_BUFFER_SIZE :: u32 where "UART_BUFFER_SIZE = 16"

text \<open>\<open>byte\<close> is what the data register reads.\<close>

definition uart_irq_handler :: "u8 \<Rightarrow> machine \<times> kernel \<Rightarrow> (machine \<times> kernel) option" where
  "uart_irq_handler byte = (\<lambda>(s, k).
     case cbuf_pushb (mem s) (uart_cbuf s) byte False of
       (Some _, _, _) \<Rightarrow> Some (put_text (map ch ''uart: error: buffer full'' @ [10]) s, k)
     | (None, c, m) \<Rightarrow> do {
         let s = s\<lparr>uart_cbuf := c, mem := m\<rparr>;
         k \<leftarrow> thread_wakeup (uart_waiter s) k;
         Some (s, k)
       })"

text \<open>\<open>buffer\<close> is the address of \<^verbatim>\<open>uart_buffer\<close>, \<open>f\<close> that of the handler.\<close>

definition uart_setup :: "u32 \<Rightarrow> u32 \<Rightarrow> machine \<Rightarrow> machine option" where
  "uart_setup buffer f s = do {
     c \<leftarrow> cbuf_init buffer UART_BUFFER_SIZE;
     let s = s\<lparr>uart_cbuf := c\<rparr>;
     let s = io_write (UART_COM1_PORT + UART_REG_LCR) UART_LCR_DLAB s;
     let s = io_write (UART_COM1_PORT + UART_REG_DIVL) (of_nat UART_DIVISOR) s;
     let s = io_write (UART_COM1_PORT + UART_REG_DIVH) (of_nat (UART_DIVISOR div 2 ^ 8)) s;
     let s = io_write (UART_COM1_PORT + UART_REG_LCR) (UART_LCR_8BITS OR UART_LCR_STOP1 OR UART_LCR_PARITY_NONE) s;
     s \<leftarrow> cpu_irq_register UART_IRQ f 0 s;
     Some (io_write (UART_COM1_PORT + UART_REG_IER) UART_IER_DATA s)
   }"

text \<open>
  \<open>uart_read\<close> is entered by a call, and \<open>uart_read_loop\<close> is its loop, which a thread that has been
  woken up enters with \<^verbatim>\<open>uart_waiter\<close> reset.  The result is an error, a byte, or
  \<^term>\<open>None\<close> when the thread has gone to sleep.
\<close>

definition uart_read_out :: "bool \<Rightarrow> error + u8 \<Rightarrow> machine \<times> kernel \<Rightarrow> ((error + u8) option \<times> machine \<times> kernel) option" where
  "uart_read_out eflags r = (\<lambda>(s, k). do {
     k \<leftarrow> thread_preempt_enable (cpu_intr_restore eflags k);
     Some (Some r, s, k)
   })"

definition uart_read_loop :: "bool \<Rightarrow> machine \<times> kernel \<Rightarrow> ((error + u8) option \<times> machine \<times> kernel) option" where
  "uart_read_loop eflags = (\<lambda>(s, k).
     case cbuf_popb (mem s) (uart_cbuf s) of
       Inr (byte, c) \<Rightarrow> uart_read_out eflags (Inr byte) (s\<lparr>uart_cbuf := c\<rparr>, k)
     | Inl _ \<Rightarrow> do {
         let s = s\<lparr>uart_waiter := thread_self k\<rparr>;
         k \<leftarrow> thread_sleep k;
         Some (None, s, k)
       })"

definition uart_read_woken :: "bool \<Rightarrow> machine \<times> kernel \<Rightarrow> ((error + u8) option \<times> machine \<times> kernel) option" where
  "uart_read_woken eflags = (\<lambda>(s, k). uart_read_loop eflags (s\<lparr>uart_waiter := 0\<rparr>, k))"

definition uart_read :: "machine \<times> kernel \<Rightarrow> ((error + u8) option \<times> machine \<times> kernel) option" where
  "uart_read = (\<lambda>(s, k). do {
     k \<leftarrow> thread_preempt_disable k;
     let (eflags, k) = cpu_intr_save k;
     if uart_waiter s \<noteq> 0 then uart_read_out eflags (Inl ERROR_BUSY) (s, k)
     else uart_read_loop eflags (s, k)
   })"

section \<open>Interrupts of the machine\<close>

text \<open>The whole of \<^verbatim>\<open>cpu_intr_main\<close>, from the processor's entry on; compare theory Sync.\<close>

definition cpu_intr_main_vector ::
  "(u32 \<Rightarrow> u32 \<Rightarrow> 'a cpu_scheme \<times> kernel \<Rightarrow> ('a cpu_scheme \<times> kernel) option) \<Rightarrow> nat \<Rightarrow>
   'a cpu_scheme \<times> kernel \<Rightarrow> ('a cpu_scheme \<times> kernel) option" where
  "cpu_intr_main_vector call vector = (\<lambda>(s, k). do {
     let k = push [Iret] (k\<lparr>intr := False\<rparr>);
     assert (\<not> cpu_intr_enabled k);
     k \<leftarrow> thread_preempt_disable k;
     (s, k) \<leftarrow> cpu_intr_dispatch call vector (s, k);
     k \<leftarrow> thread_preempt_enable k;
     Some (s, k)
   })"

text \<open>The functions at the addresses \<open>ft\<close> and \<open>fu\<close> of the two handlers.\<close>

definition handlers :: "u32 \<Rightarrow> u32 \<Rightarrow> u8 \<Rightarrow> u32 \<Rightarrow> u32 \<Rightarrow> machine \<times> kernel \<Rightarrow> (machine \<times> kernel) option" where
  "handlers ft fu byte f a p =
     (if f = ft then i8254_irq_handler p else if f = fu then uart_irq_handler byte p else None)"

end
