(* ===== verification/Drivers_Props.thy ===== *)
theory Drivers_Props
  imports Drivers Sync_Props
begin

text \<open>
  The properties of the processor's tables, of the registration and dispatch of interrupt handlers,
  and of the two interrupts of the machine as they go through the controller, the handler table, the
  driver and the thread module.
\<close>

section \<open>Tables\<close>

definition isr_vector :: "nat \<Rightarrow> bool" where
  "isr_vector v \<longleftrightarrow> v = 13 \<or> 32 \<le> v \<and> v < 48"

lemma gdt_flat:
  "seg_base cpu_seg_desc_init_code = 0" "seg_limit cpu_seg_desc_init_code = 0xffffffff"
  "seg_base cpu_seg_desc_init_data = 0" "seg_limit cpu_seg_desc_init_data = 0xffffffff"
  "seg_dpl cpu_seg_desc_init_code = 0" "seg_dpl cpu_seg_desc_init_data = 0"
  by (code_simp, code_simp, code_simp, code_simp, code_simp, code_simp)

lemma cpu_setup_ok:
  assumes len: "length (cpu_gdt s) = CPU_GDT_SIZE" "length (cpu_idt s) = CPU_IDT_SIZE"
  shows "\<exists>s'. cpu_setup gdt idt isr dflt s = Some s' \<and>
    (\<forall>v < 256. gate_offset (cpu_idt s' ! v) = (if isr_vector v then isr v else dflt) \<and>
       gate_selector (cpu_idt s' ! v) = CPU_GDT_SEL_CODE \<and> gate_attributes (cpu_idt s' ! v) = 0x8e00) \<and>
    (\<forall>sel \<in> {CPU_GDT_SEL_CODE, CPU_GDT_SEL_DATA}. \<exists>d. cpu_gdt s' ! unat (drop_bit 3 sel) = d \<and>
       seg_base d = 0 \<and> seg_limit d = 0xffffffff \<and> seg_dpl d = 0) \<and>
    gdtr s' = \<lparr>limit = 8 * 3 - 1, base = gdt\<rparr> \<and> idtr s' = \<lparr>limit = 8 * 256 - 1, base = idt\<rparr> \<and>
    (\<forall>h \<in> set (cpu_irq_handlers s'). h_fn h = 0) \<and>
    length (cpu_irq_handlers s') = length (cpu_irq_handlers s) \<and> cpu.more s' = cpu.more s \<and>
    i8259_pics s' = i8259_pics s \<and> io_writes s' = io_writes s"
proof -
  obtain a b c where g: "cpu_gdt s = [a, b, c]" using len(1) by (auto simp: cpu_consts length_Suc_conv numeral_eq_Suc)
  define s1 where "s1 = s\<lparr>cpu_gdt := [cpu_seg_desc_init_null, cpu_seg_desc_init_code, cpu_seg_desc_init_data],
    gdtr := \<lparr>limit = 23, base = gdt\<rparr>\<rparr>"
  have sel: "drop_bit 3 CPU_GDT_SEL_NULL = 0" "drop_bit 3 CPU_GDT_SEL_CODE = 1" "drop_bit 3 CPU_GDT_SEL_DATA = 2"
    by (code_simp, code_simp, code_simp)
  have "cpu_setup_gdt gdt s = Some s1"
    by (simp add: cpu_setup_gdt_def cpu_get_gdt_entry_def sel g cpu_pseudo_desc_init_def s1_def)
  define s2 where "s2 = set_gate isr 13 (s1\<lparr>cpu_irq_handlers := map cpu_irq_handler_init (cpu_irq_handlers s1),
      cpu_idt := map (\<lambda>_. cpu_seg_desc_init_intr_gate dflt) (cpu_idt s1)\<rparr>)"
  define vs :: "nat list" where "vs = [32..<48]"
  have vs: "distinct vs" "v \<in> set vs \<longleftrightarrow> 32 \<le> v \<and> v < 48" for v
    by (simp_all only: vs_def distinct_upt set_upt atLeastLessThan_iff)
  define s' where "s' = (fold (set_gate isr) vs s2)\<lparr>idtr := \<lparr>limit = 2047, base = idt\<rparr>\<rparr>"
  have l2: "length (cpu_idt s2) = 256" using len(2) by (simp add: s2_def s1_def set_gate_def cpu_consts)
  have "cpu_setup_idt idt isr dflt s1 = Some s'"
    using l2 unfolding cpu_setup_idt_def vs_def [symmetric]
    by (simp add: cpu_pseudo_desc_init_def cpu_consts s'_def flip: s2_def)
  then have r: "cpu_setup gdt idt isr dflt s = Some s'"
    using \<open>cpu_setup_gdt gdt s = Some s1\<close> by (simp add: cpu_setup_def)
  have idt: "cpu_idt s' ! v = cpu_seg_desc_init_intr_gate (if isr_vector v then isr v else dflt)" if "v < 256" for v
  proof -
    have "cpu_idt s2 ! v = cpu_seg_desc_init_intr_gate (if v = 13 then isr v else dflt)"
      using that len(2) by (auto simp: s2_def s1_def set_gate_def cpu_consts nth_list_update)
    then show ?thesis
      using fold_set_gate [OF vs(1), of v s2 isr] that l2 by (auto simp: s'_def isr_vector_def vs(2))
  qed
  have "cpu_gdt s' = cpu_gdt s1" "gdtr s' = gdtr s1" by (simp_all add: s'_def s2_def set_gate_def)
  moreover have "\<forall>h \<in> set (cpu_irq_handlers s'). h_fn h = 0"
    by (auto simp: s'_def s2_def set_gate_def cpu_irq_handler_init_def)
  moreover have "length (cpu_irq_handlers s') = length (cpu_irq_handlers s)" "cpu.more s' = cpu.more s"
    "i8259_pics s' = i8259_pics s" "io_writes s' = io_writes s"
    by (simp_all add: s'_def s2_def s1_def set_gate_def)
  ultimately show ?thesis
    using r idt by (auto simp: gate_decode s1_def sel gdt_flat s'_def)
qed

text \<open>
  C37: the descriptor tables after \<^verbatim>\<open>cpu_setup\<close>, as the processor decodes them.  The function returns;
  each of the 256 interrupt gates leads to its service routine (the default handler where there is
  none) through the kernel's code segment, with interrupts disabled on entry; the code and data
  segments span the whole address space from 0; the table registers hold the addresses and sizes of
  the tables; and no interrupt has a handler.\<close>
theorem cpu_setup_tables:
  assumes len: "length (cpu_gdt s) = CPU_GDT_SIZE" "length (cpu_idt s) = CPU_IDT_SIZE"
  shows "\<exists>s'. cpu_setup gdt idt isr dflt s = Some s' \<and>
    (\<forall>v < 256. gate_offset (cpu_idt s' ! v) = (if isr_vector v then isr v else dflt) \<and>
       gate_selector (cpu_idt s' ! v) = CPU_GDT_SEL_CODE \<and> gate_attributes (cpu_idt s' ! v) = 0x8e00) \<and>
    (\<forall>sel \<in> {CPU_GDT_SEL_CODE, CPU_GDT_SEL_DATA}. \<exists>d. cpu_gdt s' ! unat (drop_bit 3 sel) = d \<and>
       seg_base d = 0 \<and> seg_limit d = 0xffffffff \<and> seg_dpl d = 0) \<and>
    gdtr s' = \<lparr>limit = 8 * 3 - 1, base = gdt\<rparr> \<and> idtr s' = \<lparr>limit = 8 * 256 - 1, base = idt\<rparr> \<and>
    (\<forall>h \<in> set (cpu_irq_handlers s'). h_fn h = 0)"
  using cpu_setup_ok [OF assms, of gdt idt isr dflt] by blast

section \<open>Registration and dispatch\<close>

lemma i8259_irq_enable_keeps:
  fixes s :: "'a cpu_scheme"
  shows "i8259_irq_enable irq s = Some s' \<Longrightarrow> cpu_irq_handlers s' = cpu_irq_handlers s"
  by (auto simp: i8259_irq_enable_def i8259_pic_enable_irq_def i8259_pic_defs io_write_def bind_eq_Some_conv
      split: if_splits)

definition eoi_writes :: "nat \<Rightarrow> (u16 \<times> u8) list" where
  "eoi_writes irq = (if irq < 8 then [(0x20, 0x20)] else [(0x20, 0x20), (0xa0, 0x20)])"

lemma irq_eoi_eq:
  assumes "i8259_wf s" and "\<not> cpu_intr_enabled k" and "irq < 16"
  shows "i8259_irq_eoi irq k s = Some (s\<lparr>io_writes := io_writes s @ eoi_writes irq\<rparr>)"
proof -
  obtain x y where s: "i8259_pics s = [\<lparr>cmd_port = 0x20, data_port = 0x21, imr = x, master = True\<rparr>,
    \<lparr>cmd_port = 0xa0, data_port = 0xa1, imr = y, master = False\<rparr>]" by (rule i8259_wfE [OF assms(1)])
  have "irq div 8 = (if irq < 8 then 0 else 1)" using assms(3) by (simp add: div_nat_eqI)
  then show ?thesis
    using assms s by (simp add: i8259_irq_eoi_def convert_global_irq_eq i8259_get_pic_def i8259_pic_eoi_def
        i8259_consts eoi_writes_def io_write_def)
qed

text \<open>Interrupt \<open>irq\<close> has the handler \<open>f\<close> with the argument \<open>a\<close>.\<close>

definition irq_bound :: "'a cpu_scheme \<Rightarrow> nat \<Rightarrow> u32 \<Rightarrow> u32 \<Rightarrow> bool" where
  "irq_bound s irq f a \<longleftrightarrow> i8259_wf s \<and> irq < 16 \<and> length (cpu_irq_handlers s) = 16 \<and> f \<noteq> 0 \<and>
     cpu_irq_handlers s ! irq = \<lparr>h_fn = f, h_arg = a\<rparr>"

lemma dispatch_bound:
  assumes "irq_bound s irq f a" and "\<not> cpu_intr_enabled k"
  shows "cpu_intr_dispatch call (32 + irq) (s, k) = call f a (s\<lparr>io_writes := io_writes s @ eoi_writes irq\<rparr>, k)"
  using assms irq_eoi_eq [of s k irq]
  by (simp add: irq_bound_def cpu_intr_dispatch_def cpu_lookup_irq_handler_def)

lemma irq_register_ok:
  assumes inv: "i8259_inv s" and irq: "irq < 16" "length (cpu_irq_handlers s) = 16" "h_fn (cpu_irq_handlers s ! irq) = 0"
    and f: "f \<noteq> 0" and off: "\<not> cpu_intr_enabled k"
  shows "\<exists>s'. cpu_irq_register irq f a s = Some s' \<and> i8259_inv s' \<and>
    cpu_irq_handlers s' = (cpu_irq_handlers s)[irq := \<lparr>h_fn = f, h_arg = a\<rparr>] \<and>
    (\<forall>j < 16. irq_masked s' j \<longleftrightarrow> irq_masked s j \<and> j \<noteq> irq) \<and>
    cpu_irq_register irq g b s' = None \<and>
    cpu_intr_dispatch call (32 + irq) (s', k) = call f a (s'\<lparr>io_writes := io_writes s' @ eoi_writes irq\<rparr>, k)"
proof -
  let ?h = "(cpu_irq_handlers s ! irq)\<lparr>h_fn := f, h_arg := a\<rparr>"
  let ?s = "s\<lparr>cpu_irq_handlers := (cpu_irq_handlers s)[irq := ?h]\<rparr>"
  have h: "?h = \<lparr>h_fn = f, h_arg = a\<rparr>" by simp
  have inv1: "i8259_inv ?s" and m1: "irq_masked ?s j = irq_masked s j" for j
    using inv by (simp_all add: i8259_inv_def i8259_wf_def last_write_def irq_masked_def)
  obtain s' where s': "i8259_irq_enable irq ?s = Some s'" "i8259_inv s'"
    "\<forall>j < 16. irq_masked s' j \<longleftrightarrow> irq_masked s j \<and> j \<noteq> irq"
    using irq_mask_ok [OF inv1, of irq] irq(1) unfolding m1 by auto
  have hs: "cpu_irq_handlers s' = cpu_irq_handlers ?s"
    using s'(1) i8259_irq_enable_keeps by blast
  have reg: "cpu_irq_register irq f a s = Some s'"
    using irq s'(1) by (simp add: cpu_irq_register_def cpu_lookup_irq_handler_def cpu_irq_handler_set_fn_def)
  have "cpu_irq_register irq g b s' = None"
    using irq f hs by (simp add: cpu_irq_register_def cpu_lookup_irq_handler_def cpu_irq_handler_set_fn_def assert_def)
  moreover have "irq_bound s' irq f a"
    using s'(2) irq f hs h by (simp add: irq_bound_def i8259_inv_def)
  ultimately show ?thesis
    using reg s' hs h dispatch_bound [OF _ off] by auto
qed

text \<open>
  C38: registering and dispatching interrupt handlers.  Registering a handler for an interrupt below 16
  that has none returns, unmasks exactly this interrupt and keeps the other handlers; registering
  another for the same interrupt then fails an assertion.  When the interrupt is taken, its end is
  signalled to the controller (to both for an interrupt of the slave) and this handler runs, with its
  argument.\<close>
theorem cpu_irq_register_dispatch:
  assumes inv: "i8259_inv s" and irq: "irq < 16" "length (cpu_irq_handlers s) = 16" "h_fn (cpu_irq_handlers s ! irq) = 0"
    and f: "f \<noteq> 0" and off: "\<not> cpu_intr_enabled k"
  shows "\<exists>s'. cpu_irq_register irq f a s = Some s' \<and> i8259_inv s' \<and>
    cpu_irq_handlers s' = (cpu_irq_handlers s)[irq := \<lparr>h_fn = f, h_arg = a\<rparr>] \<and>
    (\<forall>j < 16. irq_masked s' j \<longleftrightarrow> irq_masked s j \<and> j \<noteq> irq) \<and>
    cpu_irq_register irq g b s' = None \<and>
    cpu_intr_dispatch call (32 + irq) (s', k) = call f a (s'\<lparr>io_writes := io_writes s' @ eoi_writes irq\<rparr>, k)"
  using assms by (rule irq_register_ok)

section \<open>Interrupts of the machine\<close>

lemma vector_ok:
  assumes inv: "kinv T Hd k" and on: "intr k" and bound: "irq_bound s irq f a"
    and call: "call f a (s\<lparr>io_writes := io_writes s @ eoi_writes irq\<rparr>, intr_entry k) = Some (s', k1)"
    and w: "woken (intr_entry k) k1" and base: "base_inv T Hd k1"
  shows "\<exists>k'. cpu_intr_main_vector call (32 + irq) (s, k) = Some (s', k') \<and> kinv T Hd k' \<and>
    (\<forall>t. thread_is_running k1 t \<longrightarrow> thread_is_running k' t)"
proof -
  note en = intr_entry_ok [OF inv]
  have off: "\<not> cpu_intr_enabled (push [Iret] (k\<lparr>intr := False\<rparr>))" "\<not> cpu_intr_enabled (intr_entry k)"
    using en(5) by (simp_all add: cpu_intr_enabled_def push_def upd_thread_def)
  obtain k' where k': "thread_preempt_enable k1 = Some k'" "kinv T Hd k'"
    using intr_return_ok [OF inv on w base] by blast
  have "cpu_intr_main_vector call (32 + irq) (s, k) = Some (s', k')"
    using off en(1) dispatch_bound [OF bound off(2)] call k'(1) by (simp add: cpu_intr_main_vector_def)
  then show ?thesis using k'(2) preempt_enable_frame [OF k'(1)] by (auto simp: thread_is_running_def)
qed

lemma wakeup_in_handler:
  assumes inv: "kinv T Hd k" and w: "woken (intr_entry k) k1" and base: "base_inv T Hd k1"
    and t: "t = 0 \<or> t \<in> T \<and> \<not> thread_is_dead k t"
  shows "\<exists>k2. thread_wakeup t k1 = Some k2 \<and> woken (intr_entry k) k2 \<and> base_inv T Hd k2 \<and>
    (t \<noteq> 0 \<longrightarrow> thread_is_running k2 t)"
proof (cases "t = 0")
  case True
  then show ?thesis using w base by (simp add: thread_wakeup_def)
next
  case False
  have e: "cur_level k1 = cur_level (intr_entry k)" "current k1 = current k" "thread_is_dead k1 t = thread_is_dead k t"
    "thread_is_running k1 (current k)"
    using w kinvD(2) [OF inv] by (auto simp: woken_def cur_level_def intr_entry_def)
  obtain k2 where k2: "thread_wakeup t k1 = Some k2" "woken k1 k2" "base_inv T Hd k2"
    "t \<noteq> current k1 \<longrightarrow> thread_is_running k2 t"
    by (rule wakeup_ok [OF base, of t]) (use intr_entry_ok(3,4) [OF inv] e t False in auto)
  have "thread_is_running k2 t" using k2(2,4) e by (cases "t = current k") (auto simp: woken_def)
  then show ?thesis using k2 woken_trans [OF w k2(2)] by blast
qed

text \<open>
  C31: the timer interrupt, through every component.  In any state that satisfies the kernel's
  invariant, with interrupts enabled, the interrupt returns without failing an assertion and keeps
  the invariants of the kernel and of the timers; its end has been signalled to the master controller,
  the time has advanced by one tick, and if a timer is due then the timer thread is runnable.\<close>
theorem timer_interrupt:
  assumes inv: "kinv T Hd k" "intr k" and bound: "irq_bound s 0 ft a"
    and ts: "timers_inv b (timers_of s)" "near b (timer_ticks (timers_of s) + 1)"
    and thr: "timer_thread (timers_of s) \<in> T" "\<not> thread_is_dead k (timer_thread (timers_of s))"
  shows "\<exists>s' k'. cpu_intr_main_vector (handlers ft fu byte) 32 (s, k) = Some (s', k') \<and> kinv T Hd k' \<and>
    timers_inv b (timers_of s') \<and> timers_of s' = (timers_of s)\<lparr>timer_ticks := timer_ticks (timers_of s) + 1\<rparr> \<and>
    io_writes s' = io_writes s @ [(0x20, 0x20)] \<and>
    (due (timer_ticks (timers_of s')) (timers_of s') \<noteq> [] \<longrightarrow> thread_is_running k' (timer_thread (timers_of s')))"
proof -
  note en = intr_entry_ok [OF inv(1)]
  let ?k1 = "thread_report_tick (intr_entry k)" and ?ts = "timers_of s"
  let ?ts' = "?ts\<lparr>timer_ticks := timer_ticks ?ts + 1\<rparr>"
  let ?s' = "s\<lparr>io_writes := io_writes s @ eoi_writes 0, timers_of := ?ts'\<rparr>"
  have k1: "woken (intr_entry k) ?k1" "base_inv T Hd ?k1"
    using tick_irq.handler [OF en(2) _ en(4)] en(3) by (auto simp: tick_def)
  have off: "\<not> cpu_intr_enabled ?k1" using k1(1) en(5) by (simp add: woken_def cpu_intr_enabled_def)
  obtain k2 where k2: "timer_report_tick ?ts ?k1 = Some (?ts', k2)" "woken (intr_entry k) k2" "base_inv T Hd k2"
    "due (timer_ticks ?ts + 1) ?ts \<noteq> [] \<longrightarrow> thread_is_running k2 (timer_thread ?ts)"
    using report_tick_eq [OF ts off] wakeup_in_handler [OF inv(1) k1, of "timer_thread ?ts"] thr k1
    by (cases "due (timer_ticks ?ts + 1) ?ts = []") (auto simp: base_inv_def runq_inv_def)
  have "handlers ft fu byte ft a (s\<lparr>io_writes := io_writes s @ eoi_writes 0\<rparr>, intr_entry k) = Some (?s', k2)"
    using k2(1) by (simp add: handlers_def i8254_irq_handler_def thread_report_tick_timers_def)
  from vector_ok [where call = "handlers ft fu byte", OF inv bound this k2(2,3)]
  obtain k' where k': "cpu_intr_main_vector (handlers ft fu byte) 32 (s, k) = Some (?s', k')" "kinv T Hd k'"
    "\<forall>t. thread_is_running k2 t \<longrightarrow> thread_is_running k' t" by auto
  have "timers_inv b ?ts'" "due (timer_ticks ?ts') ?ts' = due (timer_ticks ?ts + 1) ?ts"
    using ts(1) by (simp_all add: timers_inv_def timers_order_def wakeup_ok_def deadline_def due_def)
  then show ?thesis using k' k2(4) by (auto simp: eoi_writes_def)
qed

text \<open>
  C32: the interrupt of the serial line.  In any state that satisfies the kernel's invariant, with
  interrupts enabled, the interrupt returns and keeps the invariants.  If the input buffer has room,
  the received byte is appended to it and a waiting reader is runnable; if it is full, the byte is
  dropped and the buffer is not changed.\<close>
theorem uart_interrupt:
  assumes inv: "kinv T Hd k" "intr k" and bound: "irq_bound s 4 fu a" "fu \<noteq> ft" and buf: "cbuf_inv (uart_cbuf s)"
    and wtr: "uart_waiter s = 0 \<or> uart_waiter s \<in> T \<and> \<not> thread_is_dead k (uart_waiter s)"
  shows "\<exists>s' k'. cpu_intr_main_vector (handlers ft fu byte) 36 (s, k) = Some (s', k') \<and> kinv T Hd k' \<and>
    cbuf_inv (uart_cbuf s') \<and> uart_waiter s' = uart_waiter s \<and> timers_of s' = timers_of s \<and>
    (if unat (cbuf_size (uart_cbuf s)) < cap (uart_cbuf s)
     then cbuf_contents (mem s') (uart_cbuf s') = cbuf_contents (mem s) (uart_cbuf s) @ [byte] \<and>
       io_writes s' = io_writes s @ [(0x20, 0x20)] \<and> (uart_waiter s \<noteq> 0 \<longrightarrow> thread_is_running k' (uart_waiter s))
     else mem s' = mem s \<and> uart_cbuf s' = uart_cbuf s)"
proof -
  note en = intr_entry_ok [OF inv(1)]
  have w0: "woken (intr_entry k) (intr_entry k)" by (simp add: woken_def)
  let ?s = "s\<lparr>io_writes := io_writes s @ eoi_writes 4\<rparr>"
  have h: "handlers ft fu byte fu a p = uart_irq_handler byte p" for p using bound(2) by (simp add: handlers_def)
  show ?thesis
  proof (cases "unat (cbuf_size (uart_cbuf s)) < cap (uart_cbuf s)")
    case True
    obtain c' m' where p: "cbuf_pushb (mem s) (uart_cbuf s) byte False = (None, c', m')" "cbuf_inv c'"
      "cbuf_contents m' c' =
        overwrite (cap (uart_cbuf s)) (cbuf_contents (mem s) (uart_cbuf s)) (unat (cbuf_size (uart_cbuf s))) [byte]"
      by (rule cbuf_pushb_contents [OF buf, where erase = False and byte = byte and m = "mem s"]) (use True in auto)
    have cs: "cbuf_contents m' c' = cbuf_contents (mem s) (uart_cbuf s) @ [byte]"
      using True unfolding p(3) by (simp add: overwrite_def Let_def)
    obtain k2 where k2: "thread_wakeup (uart_waiter s) (intr_entry k) = Some k2" "woken (intr_entry k) k2"
      "base_inv T Hd k2" "uart_waiter s \<noteq> 0 \<longrightarrow> thread_is_running k2 (uart_waiter s)"
      using wakeup_in_handler [OF inv(1) w0 en(2) wtr] by blast
    let ?s' = "?s\<lparr>uart_cbuf := c', mem := m'\<rparr>"
    have "handlers ft fu byte fu a (?s, intr_entry k) = Some (?s', k2)"
      unfolding h using p(1) k2(1) by (simp add: uart_irq_handler_def)
    from vector_ok [where call = "handlers ft fu byte", OF inv bound(1) this k2(2,3)]
    show ?thesis using p(2) cs k2(4) True by (auto simp: eoi_writes_def)
  next
    case False
    then have "cap (uart_cbuf s) = unat (cbuf_size (uart_cbuf s))"
      using buf by (simp add: cbuf_inv_def cap_def)
    then have full: "cbuf_capacity (uart_cbuf s) - cbuf_size (uart_cbuf s) = 0"
      using word_unat_eq_iff [of "capacity (uart_cbuf s)" "cbuf_size (uart_cbuf s)"]
      by (simp add: cap_def cbuf_capacity_def)
    have "handlers ft fu byte fu a (?s, intr_entry k) =
        Some (put_text (map ch ''uart: error: buffer full'' @ [10]) ?s, intr_entry k)"
      unfolding h using full by (simp add: uart_irq_handler_def cbuf_pushb_def)
    from vector_ok [where call = "handlers ft fu byte", OF inv bound(1) this w0 en(2)]
    show ?thesis using False buf by (auto simp: put_text_def)
  qed
qed

section \<open>Witnesses\<close>

definition ex_timers_of :: timers where
  "ex_timers_of = \<lparr>timer_ticks = 0xFFFFFFFE, timer_list_empty = False, timer_wakeup_ticks = 0xFFFFFFFF,
     timer_list = [16], timer_mutex = \<lparr>waiters = [], owner = None, locked = False\<rparr>, timer_thread = 3,
     timer_objs = (\<lambda>t. \<lparr>ticks = 0xFFFFFFFF, fn = 0, arg = t\<rparr>)\<rparr>"

definition ex_machine :: machine where
  "ex_machine = \<lparr>io_writes = [(0x21, 0xff), (0xa1, 0xff)], i8259_pics = i8259_pics_initial,
     cpu_gdt = replicate 3 cpu_seg_desc_init_null, cpu_idt = replicate 256 cpu_seg_desc_init_null,
     cpu_irq_handlers = replicate 16 \<lparr>h_fn = 0, h_arg = 0\<rparr>, gdtr = \<lparr>limit = 0, base = 0\<rparr>, idtr = \<lparr>limit = 0, base = 0\<rparr>,
     mem = (\<lambda>_. 0), timers_of = ex_timers_of,
     uart_cbuf = \<lparr>buf = 64, capacity = 16, start = CBUF_INIT_INDEX, stop = CBUF_INIT_INDEX\<rparr>, uart_waiter = 3\<rparr>"

definition ex_bound :: machine where
  "ex_bound = ex_machine\<lparr>cpu_irq_handlers := (replicate 16 \<lparr>h_fn = 0, h_arg = 0\<rparr>)
     [0 := \<lparr>h_fn = 80, h_arg = 0\<rparr>, 4 := \<lparr>h_fn = 96, h_arg = 0\<rparr>]\<rparr>"

theorem cpu_setup_tables_witness:
  "\<exists>s'. cpu_setup 512 1024 (\<lambda>v. of_nat (0x10000 * v)) 16 ex_machine = Some s' \<and>
     gate_offset (cpu_idt s' ! 13) = 0xd0000 \<and> gate_offset (cpu_idt s' ! 14) = 16"
proof -
  have "length (cpu_gdt ex_machine) = CPU_GDT_SIZE" "length (cpu_idt ex_machine) = CPU_IDT_SIZE"
    by (simp_all add: ex_machine_def cpu_consts)
  from cpu_setup_tables [OF this, of 512 1024 "\<lambda>v. of_nat (0x10000 * v)" 16]
  show ?thesis by (auto simp: isr_vector_def)
qed

lemma ex_locked_off: "\<not> cpu_intr_enabled ex_locked"
  by (simp add: cpu_intr_enabled_def ex_locked_def)

theorem cpu_irq_register_dispatch_witness:
  "\<exists>s'. cpu_irq_register 4 96 0 ex_machine = Some s' \<and> \<not> irq_masked s' 4 \<and> cpu_irq_register 4 80 0 s' = None"
proof -
  have i: "i8259_inv ex_machine" by code_simp
  have h: "length (cpu_irq_handlers ex_machine) = 16" "h_fn (cpu_irq_handlers ex_machine ! 4) = 0"
    by (simp_all add: ex_machine_def)
  show ?thesis
    using cpu_irq_register_dispatch [OF i _ h _ ex_locked_off, of 96 0 80 0 "\<lambda>f a p. Some p"] by auto
qed

text \<open>A state of the example kernel with interrupts enabled, in which thread 3 is not dead.\<close>

lemma ex_running:
  obtains k Hd where "ex_at 7 = Some k" and "kinv (insert 2 (fst ` set ex_threads)) Hd k" and "intr k"
    and "\<not> thread_is_dead k 3" and "3 \<in> insert 2 (fst ` set ex_threads)"
proof -
  have "map_option (\<lambda>k. intr k \<and> \<not> thread_is_dead k 3) (ex_at 7) = Some True" by code_simp
  then obtain k where k: "ex_at 7 = Some k" "intr k" "\<not> thread_is_dead k 3" by auto
  obtain Hd where "kinv (insert 2 (fst ` set ex_threads)) Hd k" by (rule ex_at_kinv [OF k(1)])
  then show ?thesis using that k by (simp add: ex_threads_def)
qed

theorem timer_interrupt_witness:
  "\<exists>k s' k'. ex_at 7 = Some k \<and> cpu_intr_main_vector (handlers 80 96 0) 32 (ex_bound, k) = Some (s', k') \<and>
     timer_ticks (timers_of s') = 0xFFFFFFFF \<and> due 0xFFFFFFFF (timers_of s') = [16] \<and> thread_is_running k' 3"
proof -
  obtain k Hd where k: "ex_at 7 = Some k" "kinv (insert 2 (fst ` set ex_threads)) Hd k" "intr k"
    "\<not> thread_is_dead k 3" "3 \<in> insert 2 (fst ` set ex_threads)" by (rule ex_running)
  have b: "irq_bound ex_bound 0 80 0" by code_simp
  have t: "timers_inv 0 (timers_of ex_bound)" "near 0 (timer_ticks (timers_of ex_bound) + 1)"
    "timer_thread (timers_of ex_bound) = 3" "timer_ticks (timers_of ex_bound) + 1 = 0xFFFFFFFF"
    by (code_simp, code_simp, code_simp, code_simp)
  have d: "due 0xFFFFFFFF ((timers_of ex_bound)\<lparr>timer_ticks := 0xFFFFFFFF\<rparr>) = [16]" by code_simp
  obtain s' k' where "cpu_intr_main_vector (handlers 80 96 0) 32 (ex_bound, k) = Some (s', k')"
    "timers_of s' = (timers_of ex_bound)\<lparr>timer_ticks := 0xFFFFFFFF\<rparr>"
    "due (timer_ticks (timers_of s')) (timers_of s') \<noteq> [] \<longrightarrow> thread_is_running k' (timer_thread (timers_of s'))"
    using timer_interrupt [OF k(2,3) b t(1,2), of 96 0] k(4,5) t(3,4) by auto
  then show ?thesis using k(1) t(3) d by auto
qed

theorem uart_interrupt_witness:
  "\<exists>k s' k'. ex_at 7 = Some k \<and> cpu_intr_main_vector (handlers 80 96 65) 36 (ex_bound, k) = Some (s', k') \<and>
     cbuf_contents (mem s') (uart_cbuf s') = [65] \<and> thread_is_running k' 3"
proof -
  obtain k Hd where k: "ex_at 7 = Some k" "kinv (insert 2 (fst ` set ex_threads)) Hd k" "intr k"
    "\<not> thread_is_dead k 3" "3 \<in> insert 2 (fst ` set ex_threads)" by (rule ex_running)
  have b: "irq_bound ex_bound 4 96 0" by code_simp
  have "capacity (uart_cbuf ex_bound) = 2 ^ 4" by (simp add: ex_bound_def ex_machine_def)
  then have c: "cbuf_inv (uart_cbuf ex_bound)"
    unfolding cbuf_inv_def by (auto simp: ex_bound_def ex_machine_def cbuf_size_def intro!: exI [of _ 4])
  have e: "uart_waiter ex_bound = 3" "unat (cbuf_size (uart_cbuf ex_bound)) < cap (uart_cbuf ex_bound)"
    "cbuf_contents (mem ex_bound) (uart_cbuf ex_bound) = []"
    by (code_simp, code_simp, code_simp)
  show ?thesis
    using uart_interrupt [OF k(2,3) b _ c, of 80 65] k(1,4,5) e by auto
qed

end
