(* ===== verification/Hash.thy ===== *)
theory Hash
  imports Cstring
begin

text \<open>
  The hash functions of lib/hash.h.  \<open>bits\<close> is the number of bits the caller wants; a shift by the
  whole width of the type is undefined in C, so it lies between 1 and the width, and below 31 for
  strings (whose mask is computed in a signed \<^verbatim>\<open>int\<close>).
\<close>

definition HASH_ALLBITS :: nat where "HASH_ALLBITS = 32"

definition hash_mix32 :: "u32 \<Rightarrow> u32" where
  "hash_mix32 n =
     (let hash = n;
          hash = NOT hash + push_bit 15 hash;
          hash = hash XOR drop_bit 12 hash;
          hash = hash + push_bit 2 hash;
          hash = hash XOR drop_bit 4 hash;
          hash = hash + (push_bit 3 hash + push_bit 11 hash)
      in hash XOR drop_bit 16 hash)"

definition hash_int32 :: "u32 \<Rightarrow> nat \<Rightarrow> u32" where
  "hash_int32 n bits = drop_bit (32 - bits) (hash_mix32 n)"

definition hash_mix64 :: "u64 \<Rightarrow> u64" where
  "hash_mix64 n =
     (let hash = n;
          hash = NOT hash + push_bit 21 hash;
          hash = hash XOR drop_bit 24 hash;
          hash = hash + (push_bit 3 hash + push_bit 8 hash);
          hash = hash XOR drop_bit 14 hash;
          hash = hash + (push_bit 2 hash + push_bit 4 hash);
          hash = hash XOR drop_bit 28 hash
      in hash + push_bit 31 hash)"

definition hash_int64 :: "u64 \<Rightarrow> nat \<Rightarrow> u64" where
  "hash_int64 n bits = drop_bit (64 - bits) (hash_mix64 n)"

definition hash_long :: "u32 \<Rightarrow> nat \<Rightarrow> u32" where
  "hash_long n bits = hash_int32 n bits"

text \<open>Pointers have 4 bytes.\<close>

definition hash_ptr :: "u32 \<Rightarrow> nat \<Rightarrow> u32" where
  "hash_ptr ptr bits = hash_int32 ptr bits"

text \<open>The loop of \<^verbatim>\<open>hash_str\<close>; a \<^verbatim>\<open>char\<close> is signed.\<close>

partial_function (option) hash_str_loop :: "bytes \<Rightarrow> u32 \<Rightarrow> u32 \<Rightarrow> u32 option" where
  "hash_str_loop m str hash =
     (if m str = 0 then Some hash
      else hash_str_loop m (str + 1) ((push_bit 5 hash - hash) + scast (m str)))"

definition hash_str :: "bytes \<Rightarrow> u32 \<Rightarrow> nat \<Rightarrow> u32 option" where
  "hash_str m str bits = map_option (\<lambda>hash. hash AND (push_bit bits 1 - 1)) (hash_str_loop m str 0)"

section \<open>Mixing is injective\<close>

lemma odd_mult_inj:
  fixes a x y :: "'a::len word"
  assumes "odd a" and "a * x = a * y"
  shows "x = y"
proof -
  let ?m = "2 ^ LENGTH('a) :: int"
  have "a * (x - y) = 0" using assms(2) by (simp add: right_diff_distrib)
  then have "uint (a * (x - y)) = 0" by simp
  then have "?m dvd uint a * uint (x - y)"
    unfolding uint_word_ariths by (simp add: mod_eq_0_iff_dvd)
  moreover have "odd (uint a)" using assms(1) by (simp add: bit_uint_iff flip: bit_0)
  then have "coprime ?m (uint a)" by simp
  ultimately have "?m dvd uint (x - y)" by (simp add: coprime_dvd_mult_right_iff)
  moreover have "0 \<le> uint (x - y)" "uint (x - y) < ?m" using uint_bounded [of "x - y"] by auto
  ultimately have "uint (x - y) = 0" by (meson zdvd_imp_le linorder_not_less order_le_less)
  then show ?thesis by (simp add: uint_0_iff)
qed

lemma xor_shift_inj:
  fixes x y :: "'a::len word"
  assumes "0 < k" and "x XOR drop_bit k x = y XOR drop_bit k y"
  shows "x = y"
proof -
  let ?z = "\<lambda>n. bit x n \<noteq> bit y n"
  have step: "?z n \<longleftrightarrow> ?z (n + k)" for n
  proof (cases "n < LENGTH('a)")
    case True
    then show ?thesis
      using arg_cong [OF assms(2), of "\<lambda>w. bit w n"] by (auto simp: bit_xor_iff bit_drop_bit_eq add.commute)
  next
    case False
    then show ?thesis by (auto dest: bit_imp_le_length)
  qed
  have "?z n \<longleftrightarrow> ?z (n + j * k)" for n j
  proof (induction j)
    case (Suc j)
    then show ?case using step [of "n + j * k"] by (simp add: ac_simps)
  qed simp
  note iter = this [of _ "LENGTH('a)"]
  have "LENGTH('a) \<le> n + LENGTH('a) * k" for n using assms(1) by (simp add: trans_le_add2)
  then have "\<not> ?z n" for n using iter [of n] bit_imp_le_length by (metis linorder_not_le)
  then show ?thesis by (simp add: bit_eq_iff)
qed

text \<open>The steps of the two functions as multiplications by odd numbers.\<close>

lemma push_bit_mult: "push_bit n (x :: 'a::len word) = 2 ^ n * x"
  by (simp add: push_bit_eq_mult mult.commute)

lemma mix_step_inj:
  fixes x y :: "'a::len word"
  assumes "a * x + c = a * y + c" and "odd a"
  shows "x = y"
  using odd_mult_inj [OF assms(2)] assms(1) by simp

lemma mix_step:
  fixes h :: "'a::len word"
  shows "NOT h + push_bit i h = (2 ^ i - 1) * h + (- 1)" and "h + push_bit i h = (1 + 2 ^ i) * h + 0"
    and "h + (push_bit i h + push_bit j h) = (1 + (2 ^ i + 2 ^ j)) * h + 0"
  by (simp_all only: push_bit_mult not_eq_complement left_diff_distrib distrib_right) simp_all

lemma hash_mix32_inj: "hash_mix32 x = hash_mix32 y \<Longrightarrow> x = y"
  unfolding hash_mix32_def Let_def
  apply (drule xor_shift_inj [rotated], simp)
  apply (simp only: mix_step)
  apply (drule mix_step_inj, simp)
  apply (drule xor_shift_inj [rotated], simp)
  apply (drule mix_step_inj, simp)
  apply (drule xor_shift_inj [rotated], simp)
  apply (drule mix_step_inj, simp)
  apply assumption
  done

lemma hash_mix64_inj: "hash_mix64 x = hash_mix64 y \<Longrightarrow> x = y"
  unfolding hash_mix64_def Let_def
  apply (simp only: mix_step)
  apply (drule mix_step_inj, simp)
  apply (drule xor_shift_inj [rotated], simp)
  apply (drule mix_step_inj, simp)
  apply (drule xor_shift_inj [rotated], simp)
  apply (drule mix_step_inj, simp)
  apply (drule xor_shift_inj [rotated], simp)
  apply (drule mix_step_inj, simp)
  apply assumption
  done

section \<open>Strings\<close>

text \<open>The polynomial of Java's \<^verbatim>\<open>hashCode\<close> in the signed characters.\<close>

fun java_hash :: "int \<Rightarrow> u8 list \<Rightarrow> int" where
  "java_hash h [] = h"
| "java_hash h (c # cs) = java_hash (31 * h + sint c) cs"

lemma hash_str_loop_eq:
  "cstr m str cs \<Longrightarrow> hash_str_loop m str (word_of_int h) = Some (word_of_int (java_hash h cs))"
proof (induction cs arbitrary: str h)
  case Nil
  then show ?case by (simp add: hash_str_loop.simps)
next
  case (Cons c cs)
  have "push_bit 5 (word_of_int h) - word_of_int h + scast c = (word_of_int (31 * h + sint c) :: u32)"
    by (simp only: push_bit_mult wi_hom_mult [symmetric] wi_hom_add [symmetric] scast_eq of_int_numeral) simp
  then have "hash_str_loop m str (word_of_int h) = hash_str_loop m (str + 1) (word_of_int (31 * h + sint c))"
    using Cons.prems by (subst hash_str_loop.simps) (simp only: cstr.simps, simp)
  also have "\<dots> = Some (word_of_int (java_hash (31 * h + sint c) cs))"
    by (rule Cons.IH) (use Cons.prems in simp)
  finally show ?case by simp
qed

lemma hash_str_eq:
  assumes "cstr m str cs" and "bits < 31"
  shows "hash_str m str bits = Some (word_of_int (java_hash 0 cs mod 2 ^ bits))"
proof -
  have "(word_of_int h :: u32) AND (push_bit bits 1 - 1) = word_of_int (h mod 2 ^ bits)" for h
  proof -
    have "(word_of_int h :: u32) AND (push_bit bits 1 - 1) = take_bit bits (word_of_int h)"
      by (simp add: take_bit_eq_mask mask_eq_exp_minus_1)
    also have "\<dots> = word_of_int (take_bit bits h)"
      by (rule bit_word_eqI) (auto simp: bit_simps)
    finally show ?thesis by (simp add: take_bit_eq_mod)
  qed
  then show ?thesis using hash_str_loop_eq [OF assms(1), of 0] by (simp add: hash_str_def)
qed

section \<open>Properties\<close>

lemma drop_bit_bound:
  fixes z :: "'a::len word"
  assumes "bits \<le> LENGTH('a)"
  shows "unat (drop_bit (LENGTH('a) - bits) z) < 2 ^ bits"
proof -
  have "unat z < 2 ^ bits * 2 ^ (LENGTH('a) - bits)"
    using unsigned_less [of z, where 'a = nat] assms by (simp flip: power_add)
  then have "unat z div 2 ^ (LENGTH('a) - bits) < 2 ^ bits" by (rule less_mult_imp_div_less)
  then show ?thesis unfolding unat_drop_bit_eq unfolding drop_bit_eq_div .
qed

text \<open>
  The integer hashes do not collide at full width: the 32-bit and 64-bit mixing functions are one
  to one, so \<^verbatim>\<open>hash_int32\<close> with \<^verbatim>\<open>HASH_ALLBITS\<close> and \<^verbatim>\<open>hash_int64\<close> with 64 bits distinguish all
  numbers, and a hash of \<open>bits\<close> bits is below 2 to the power of \<open>bits\<close>.\<close>
theorem hash_int_injective:
  "(hash_int32 x HASH_ALLBITS = hash_int32 y HASH_ALLBITS \<longleftrightarrow> x = y) \<and>
   (hash_int64 v 64 = hash_int64 w 64 \<longleftrightarrow> v = w) \<and>
   (if bits \<le> 32 then unat (hash_int32 x bits) < 2 ^ bits else hash_int32 x bits = hash_int32 x 32) \<and>
   (if bits \<le> 64 then unat (hash_int64 v bits) < 2 ^ bits else hash_int64 v bits = hash_int64 v 64)"
proof (intro conjI)
  show "hash_int32 x HASH_ALLBITS = hash_int32 y HASH_ALLBITS \<longleftrightarrow> x = y"
    using hash_mix32_inj [of x y] by (auto simp: hash_int32_def HASH_ALLBITS_def)
  show "hash_int64 v 64 = hash_int64 w 64 \<longleftrightarrow> v = w"
    using hash_mix64_inj [of v w] by (auto simp: hash_int64_def)
  show "if bits \<le> 32 then unat (hash_int32 x bits) < 2 ^ bits else hash_int32 x bits = hash_int32 x 32"
    using drop_bit_bound [of bits "hash_mix32 x"] by (simp add: hash_int32_def)
  show "if bits \<le> 64 then unat (hash_int64 v bits) < 2 ^ bits else hash_int64 v bits = hash_int64 v 64"
    using drop_bit_bound [of bits "hash_mix64 v"] by (simp add: hash_int64_def)
qed

theorem hash_int_injective_witness:
  "hash_int32 1 HASH_ALLBITS \<noteq> hash_int32 2 HASH_ALLBITS \<and> unat (hash_int32 1 5) < 2 ^ 5"
  using hash_int_injective [of 1 2 0 0 5] by simp

end
