(* ===== verification/Shell_Cmd.thy ===== *)
theory Shell_Cmd
  imports Hash Mutex
begin

text \<open>
  The commands of the shell: the first part of lib/shell.c, up to \<^verbatim>\<open>shell_cmd_register\<close>.

  Commands are structures at addresses of a store, linked by their members \<^verbatim>\<open>ht_next\<close> (the
  chain of a bucket of the hash table) and \<^verbatim>\<open>ls_next\<close> (the sorted list); a null pointer is
  address 0.  A string is the list of its characters without the terminator: \<^verbatim>\<open>strcmp\<close> and
  \<^verbatim>\<open>strncmp\<close> are the comparisons that theory Cstring shows them to be, and the bucket of a
  name is its hash as theory Hash gives it.  What is printed is appended to the field \<open>out\<close>.  Loops
  along the links need not end on a store that is not well formed, hence their option results.
\<close>

section \<open>State\<close>

record shell_cmd =
  ht_next :: u32
  ls_next :: u32
  name :: "u8 list"
  cmd_fn :: u32
  usage :: "u8 list"
  short_desc :: "u8 list"
  long_desc :: "u8 list option"

record shell_cmds =
  cmds :: "u32 \<Rightarrow> shell_cmd"
  shell_htable :: "u32 list"
  shell_list :: u32
  shell_lock :: mutex
  out :: "u8 list"

definition SHELL_HTABLE_BITS :: nat where "SHELL_HTABLE_BITS = 6"
definition SHELL_HTABLE_SIZE :: nat where "SHELL_HTABLE_SIZE = 2 ^ SHELL_HTABLE_BITS"
definition SHELL_COMPLETION_NR_MATCHES_PER_LINE :: nat where "SHELL_COMPLETION_NR_MATCHES_PER_LINE = 4"

definition text_of :: "string \<Rightarrow> u8 list" where
  "text_of s = map of_char s"

definition print :: "u8 list \<Rightarrow> 'a shell_cmds_scheme \<Rightarrow> 'a shell_cmds_scheme" where
  "print cs s = s\<lparr>out := out s @ cs\<rparr>"

text \<open>\<^verbatim>\<open>strncmp\<close> on strings.\<close>

definition strn_diff :: "u8 list \<Rightarrow> u8 list \<Rightarrow> nat \<Rightarrow> int" where
  "strn_diff a b n = str_diff (take n a) (take n b)"

text \<open>The character of a string at an index, with its terminator.\<close>

definition char_at :: "u8 list \<Rightarrow> nat \<Rightarrow> u8" where
  "char_at cs i = (if i < length cs then cs ! i else 0)"

section \<open>Operations\<close>

definition shell_cmd_init ::
  "u32 \<Rightarrow> u8 list \<Rightarrow> u32 \<Rightarrow> u8 list \<Rightarrow> u8 list \<Rightarrow> u8 list option \<Rightarrow> 'a shell_cmds_scheme \<Rightarrow> 'a shell_cmds_scheme" where
  "shell_cmd_init cmd nm f us sd ld s = s\<lparr>cmds := (cmds s)(cmd :=
     \<lparr>ht_next = 0, ls_next = 0, name = nm, cmd_fn = f, usage = us, short_desc = sd, long_desc = ld\<rparr>)\<rparr>"

definition shell_cmd_name :: "'a shell_cmds_scheme \<Rightarrow> u32 \<Rightarrow> u8 list" where
  "shell_cmd_name s cmd = name (cmds s cmd)"

definition shell_bucket_get :: "u8 list \<Rightarrow> nat" where
  "shell_bucket_get nm = unat (word_of_int (java_hash 0 nm mod 2 ^ SHELL_HTABLE_BITS) :: u32)"

definition shell_cmd_acquire :: "tid \<Rightarrow> 'a shell_cmds_scheme \<Rightarrow> 'a shell_cmds_scheme option" where
  "shell_cmd_acquire self s = do { mtx \<leftarrow> mutex_set_owner (shell_lock s) self; Some (s\<lparr>shell_lock := mtx\<rparr>) }"

definition shell_cmd_release :: "tid \<Rightarrow> 'a shell_cmds_scheme \<Rightarrow> 'a shell_cmds_scheme option" where
  "shell_cmd_release self s = do { mtx \<leftarrow> mutex_clear_owner (shell_lock s) self; Some (s\<lparr>shell_lock := mtx\<rparr>) }"

partial_function (option) lookup_from :: "(u32 \<Rightarrow> shell_cmd) \<Rightarrow> u8 list \<Rightarrow> u32 \<Rightarrow> u32 option" where
  "lookup_from cs nm cmd =
     (if cmd = 0 then Some 0
      else if str_diff (name (cs cmd)) nm = 0 then Some cmd
      else lookup_from cs nm (ht_next (cs cmd)))"

definition shell_cmd_lookup :: "tid \<Rightarrow> u8 list \<Rightarrow> 'a shell_cmds_scheme \<Rightarrow> (u32 \<times> 'a shell_cmds_scheme) option" where
  "shell_cmd_lookup self nm s = do {
     s \<leftarrow> shell_cmd_acquire self s;
     cmd \<leftarrow> lookup_from (cmds s) nm (shell_htable s ! shell_bucket_get nm);
     s \<leftarrow> shell_cmd_release self s;
     Some (cmd, s)
   }"

partial_function (option) shell_cmd_match :: "(u32 \<Rightarrow> shell_cmd) \<Rightarrow> u32 \<Rightarrow> u8 list \<Rightarrow> nat \<Rightarrow> u32 option" where
  "shell_cmd_match cs cmd str sz =
     (if cmd = 0 then Some 0
      else if strn_diff (name (cs cmd)) str sz = 0 then Some cmd
      else shell_cmd_match cs (ls_next (cs cmd)) str sz)"

text \<open>The loops of \<^verbatim>\<open>shell_cmd_complete\<close>: to the last match, and along the common prefix.\<close>

partial_function (option) complete_last :: "(u32 \<Rightarrow> shell_cmd) \<Rightarrow> u8 list \<Rightarrow> nat \<Rightarrow> u32 \<Rightarrow> u32 option" where
  "complete_last cs nm sz next =
     (if ls_next (cs next) \<noteq> 0 then
        (if strn_diff nm (name (cs (ls_next (cs next)))) sz \<noteq> 0 then Some next
         else complete_last cs nm sz (ls_next (cs next)))
      else Some next)"

function complete_size :: "u8 list \<Rightarrow> u8 list \<Rightarrow> nat \<Rightarrow> nat" where
  "complete_size a b sz =
     (if char_at a (sz - 1) \<noteq> 0 \<and> char_at a (sz - 1) = char_at b (sz - 1) then complete_size a b (sz + 1) else sz)"
  by pat_completeness auto

termination
  by (relation "measure (\<lambda>(a, b, sz). length a + 1 - sz)") (auto simp: char_at_def split: if_splits)

text \<open>
  The result is the error, the new size and the command; they are left alone when nothing matches.
\<close>

definition shell_cmd_complete ::
  "u8 list \<Rightarrow> nat \<Rightarrow> u32 \<Rightarrow> 'a shell_cmds_scheme \<Rightarrow> (error option \<times> nat \<times> u32) option" where
  "shell_cmd_complete str sz cmdp s = do {
     cmd \<leftarrow> shell_cmd_match (cmds s) (shell_list s) str sz;
     if cmd = 0 then Some (Some ERROR_INVAL, sz, cmdp)
     else do {
       let nm = name (cmds s cmd);
       let next = ls_next (cmds s cmd);
       if next = 0 \<or> strn_diff nm (name (cmds s next)) sz \<noteq> 0 then Some (None, length nm, cmd)
       else do {
         next \<leftarrow> complete_last (cmds s) nm sz next;
         let sz = (if sz = 0 then 1 else sz);
         Some (Some ERROR_AGAIN, complete_size nm (name (cmds s next)) sz - 1, cmd)
       }
     }
   }"

text \<open>\<^verbatim>\<open>printf("%-16s", name)\<close>.\<close>

definition pad_right :: "nat \<Rightarrow> u8 list \<Rightarrow> u8 list" where
  "pad_right n cs = cs @ replicate (n - length cs) 32"

partial_function (option) print_matches_loop ::
  "(u32 \<Rightarrow> shell_cmd) \<Rightarrow> u8 list \<Rightarrow> nat \<Rightarrow> u32 \<Rightarrow> nat \<Rightarrow> u8 list \<Rightarrow> (nat \<times> u8 list) option" where
  "print_matches_loop cs nm sz tmp i acc =
     (if tmp = 0 then Some (i, acc)
      else if strn_diff nm (name (cs tmp)) sz \<noteq> 0 then Some (i, acc)
      else print_matches_loop cs nm sz (ls_next (cs tmp)) (i + 1)
        (acc @ pad_right 16 (name (cs tmp)) @
         (if i mod SHELL_COMPLETION_NR_MATCHES_PER_LINE = 0 then [10] else [])))"

definition shell_cmd_print_matches :: "u32 \<Rightarrow> nat \<Rightarrow> 'a shell_cmds_scheme \<Rightarrow> 'a shell_cmds_scheme option" where
  "shell_cmd_print_matches cmd sz s = do {
     (i, acc) \<leftarrow> print_matches_loop (cmds s) (name (cmds s cmd)) sz cmd 1 [10];
     Some (print (acc @ (if i mod SHELL_COMPLETION_NR_MATCHES_PER_LINE \<noteq> 1 then [10] else [])) s)
   }"

definition shell_cmd_check_char :: "u8 \<Rightarrow> error option" where
  "shell_cmd_check_char c =
     (if (of_char CHR ''a'' \<le> c \<and> c \<le> of_char CHR ''z'') \<or> (of_char CHR ''A'' \<le> c \<and> c \<le> of_char CHR ''Z'') \<or>
         (of_char CHR ''0'' \<le> c \<and> c \<le> of_char CHR ''9'') \<or> c = of_char CHR ''-'' \<or> c = of_char CHR ''_''
      then None else Some ERROR_INVAL)"

fun check_name :: "u8 list \<Rightarrow> error option" where
  "check_name [] = None"
| "check_name (c # cs) = (case shell_cmd_check_char c of Some e \<Rightarrow> Some e | None \<Rightarrow> check_name cs)"

definition shell_cmd_check :: "shell_cmd \<Rightarrow> error option" where
  "shell_cmd_check cmd =
     (case check_name (name cmd) of
        Some e \<Rightarrow> Some e
      | None \<Rightarrow> if length (name cmd) = 0 then Some ERROR_INVAL else None)"

text \<open>The loop of \<^verbatim>\<open>shell_cmd_add_list\<close>: the command behind which the new one goes.\<close>

partial_function (option) add_list_prev :: "(u32 \<Rightarrow> shell_cmd) \<Rightarrow> u8 list \<Rightarrow> u32 \<Rightarrow> u32 option" where
  "add_list_prev cs nm prev =
     (if ls_next (cs prev) = 0 \<or> str_diff nm (name (cs (ls_next (cs prev)))) < 0 then Some prev
      else add_list_prev cs nm (ls_next (cs prev)))"

definition set_ls_next :: "u32 \<Rightarrow> u32 \<Rightarrow> 'a shell_cmds_scheme \<Rightarrow> 'a shell_cmds_scheme" where
  "set_ls_next p q s = s\<lparr>cmds := (cmds s)(p := (cmds s p)\<lparr>ls_next := q\<rparr>)\<rparr>"

definition set_ht_next :: "u32 \<Rightarrow> u32 \<Rightarrow> 'a shell_cmds_scheme \<Rightarrow> 'a shell_cmds_scheme" where
  "set_ht_next p q s = s\<lparr>cmds := (cmds s)(p := (cmds s p)\<lparr>ht_next := q\<rparr>)\<rparr>"

definition shell_cmd_add_list :: "u32 \<Rightarrow> 'a shell_cmds_scheme \<Rightarrow> 'a shell_cmds_scheme option" where
  "shell_cmd_add_list cmd s =
     (let prev = shell_list s; nm = name (cmds s cmd) in
      if prev = 0 \<or> str_diff nm (name (cmds s prev)) < 0
      then Some (set_ls_next cmd prev (s\<lparr>shell_list := cmd\<rparr>))
      else do {
        prev \<leftarrow> add_list_prev (cmds s) nm prev;
        let next = ls_next (cmds s prev);
        Some (set_ls_next cmd next (set_ls_next prev cmd s))
      })"

text \<open>
  The loop of \<^verbatim>\<open>shell_cmd_add\<close>: the error when a command of the chain has the name, and
  otherwise the last command of the chain.
\<close>

partial_function (option) add_last :: "(u32 \<Rightarrow> shell_cmd) \<Rightarrow> u8 list \<Rightarrow> u32 \<Rightarrow> (error + u32) option" where
  "add_last cs nm tmp =
     (if str_diff nm (name (cs tmp)) = 0 then Some (Inl ERROR_EXIST)
      else if ht_next (cs tmp) = 0 then Some (Inr tmp)
      else add_last cs nm (ht_next (cs tmp)))"

definition shell_cmd_add :: "u32 \<Rightarrow> 'a shell_cmds_scheme \<Rightarrow> (error option \<times> 'a shell_cmds_scheme) option" where
  "shell_cmd_add cmd s = do {
     let nm = name (cmds s cmd);
     let bucket = shell_bucket_get nm;
     let tmp = shell_htable s ! bucket;
     if tmp = 0 then do {
       s \<leftarrow> shell_cmd_add_list cmd (s\<lparr>shell_htable := (shell_htable s)[bucket := cmd]\<rparr>);
       Some (None, s)
     } else do {
       r \<leftarrow> add_last (cmds s) nm tmp;
       case r of
         Inl e \<Rightarrow> Some (Some e,
           print (text_of ''shell: error: '' @ nm @ text_of '': shell command name collision'') s)
       | Inr tmp \<Rightarrow> do {
           s \<leftarrow> shell_cmd_add_list cmd (set_ht_next tmp cmd s);
           Some (None, s)
         }
     }
   }"

definition shell_cmd_register :: "tid \<Rightarrow> u32 \<Rightarrow> 'a shell_cmds_scheme \<Rightarrow> (error option \<times> 'a shell_cmds_scheme) option" where
  "shell_cmd_register self cmd s =
     (case shell_cmd_check (cmds s cmd) of
        Some e \<Rightarrow> Some (Some e, s)
      | None \<Rightarrow> do {
          s \<leftarrow> shell_cmd_acquire self s;
          (err, s) \<leftarrow> shell_cmd_add cmd s;
          s \<leftarrow> shell_cmd_release self s;
          Some (err, s)
        })"

declare lookup_from.simps [code] shell_cmd_match.simps [code] complete_last.simps [code]
  print_matches_loop.simps [code] add_list_prev.simps [code] add_last.simps [code]

end
