(* ===== verification/Shell_Cmd_Correct.thy ===== *)
theory Shell_Cmd_Correct
  imports Shell_Cmd "HOL-Library.List_Lexorder"
begin

text \<open>
  The command table of the shell is a partial map from names to commands.  The order of
  \<^verbatim>\<open>strcmp\<close> on the names the shell accepts is the lexicographic order of the library; \<open>chain\<close>
  relates the links of the store to sequences, and \<open>cmds_rep\<close> a state of the shell to its table.
  The locale \<open>command_table\<close> is the contract on which the users of the table rely.
\<close>

section \<open>The order of names\<close>

definition ascii :: "u8 list \<Rightarrow> bool" where
  "ascii cs \<longleftrightarrow> (\<forall>c \<in> set cs. 0 < sint c)"

definition key :: "u8 list \<Rightarrow> int list" where
  "key cs = map sint cs"

lemma key_inj [simp]: "key a = key b \<longleftrightarrow> a = b"
  by (simp add: key_def inj_map_eq_map inj_def signed_word_eqI)

lemma ascii_nonzero: "ascii cs \<Longrightarrow> 0 \<notin> set cs"
  by (auto simp: ascii_def)

lemma ascii_Cons [simp]: "ascii (c # cs) \<longleftrightarrow> 0 < sint c \<and> ascii cs" "ascii []"
  by (auto simp: ascii_def)

lemma str_diff_less: "ascii a \<Longrightarrow> ascii b \<Longrightarrow> str_diff a b < 0 \<longleftrightarrow> key a < key b"
  by (induction a b rule: str_diff.induct) (auto simp: key_def signed_word_eqI)

lemma str_diff_eq: "ascii a \<Longrightarrow> ascii b \<Longrightarrow> str_diff a b = 0 \<longleftrightarrow> a = b"
  using str_diff_eq_0 ascii_nonzero by blast

lemma check_name_iff: "check_name cs = None \<longleftrightarrow> (\<forall>c \<in> set cs. shell_cmd_check_char c = None)"
  by (induction cs) (auto split: option.splits)

lemma check_name_error: "check_name cs = Some e \<Longrightarrow> e = ERROR_INVAL"
  by (induction cs) (auto simp: shell_cmd_check_char_def split: option.splits if_splits)

lemma check_char_range:
  assumes "shell_cmd_check_char c = None"
  shows "32 < sint c" "sint c < 127"
proof -
  have r: "unat c < 127" "32 < unat c"
    using assms by (auto simp: shell_cmd_check_char_def word_le_nat_alt split: if_splits)
  have "int (unat c) = uint c" by simp
  then have u: "uint c < 127" "32 < uint c" using r by linarith+
  have "(uint c + 128) mod 256 = uint c + 128" using u by (intro mod_pos_pos_trivial) auto
  then show "32 < sint c" "sint c < 127" using u int_word_sint [of "uint c", where 'a = 8] by simp_all
qed

lemma check_char_ascii: "shell_cmd_check_char c = None \<Longrightarrow> 0 < sint c"
  using check_char_range [of c] by linarith

definition valid_name :: "u8 list \<Rightarrow> bool" where
  "valid_name nm \<longleftrightarrow> nm \<noteq> [] \<and> (\<forall>c \<in> set nm. shell_cmd_check_char c = None)"

lemma valid_ascii: "valid_name nm \<Longrightarrow> ascii nm"
  by (simp add: valid_name_def ascii_def check_char_ascii)

lemma cmd_check_eq: "shell_cmd_check cmd = (if valid_name (name cmd) then None else Some ERROR_INVAL)"
proof (cases "check_name (name cmd)")
  case None
  then show ?thesis using check_name_iff [of "name cmd"] by (simp add: shell_cmd_check_def valid_name_def)
next
  case (Some e)
  then have "\<not> valid_name (name cmd)" using check_name_iff [of "name cmd"] by (auto simp: valid_name_def)
  then show ?thesis using Some check_name_error by (simp add: shell_cmd_check_def)
qed

section \<open>Linked chains\<close>

fun chain :: "(u32 \<Rightarrow> u32) \<Rightarrow> u32 \<Rightarrow> u32 list \<Rightarrow> bool" where
  "chain nx p [] \<longleftrightarrow> p = 0"
| "chain nx p (x # xs) \<longleftrightarrow> p = x \<and> x \<noteq> 0 \<and> chain nx (nx x) xs"

lemma chain_0: "chain nx 0 xs \<longleftrightarrow> xs = []"
  by (cases xs) auto

lemma chain_nonzero: "chain nx p xs \<Longrightarrow> 0 \<notin> set xs"
  by (induction xs arbitrary: p) auto

lemma chain_cong: "(\<And>x. x \<in> set xs \<Longrightarrow> nx' x = nx x) \<Longrightarrow> chain nx' p xs = chain nx p xs"
  by (induction xs arbitrary: p) auto

lemma chain_suffix: "chain nx p (us @ a # ys) \<Longrightarrow> chain nx a (a # ys)"
  by (induction us arbitrary: p) auto

lemma chain_append: "chain nx p (xs @ a # ys) \<longleftrightarrow> chain (nx(a := 0)) p (xs @ [a]) \<and> chain nx (nx a) ys"
  if "a \<notin> set xs"
  using that by (induction xs arbitrary: p) auto

lemma chain_insert:
  assumes "chain nx p (xs @ a # ys)" and "distinct (xs @ a # ys)" and "c \<notin> set (xs @ a # ys)" "c \<noteq> 0"
  shows "chain (nx(a := c, c := nx a)) p (xs @ a # c # ys)"
  using assms
proof (induction xs arbitrary: p)
  case Nil
  have "chain (nx(a := c, c := nx a)) (nx a) ys = chain nx (nx a) ys"
    by (rule chain_cong) (use Nil in auto)
  then show ?case using Nil by (auto simp: fun_upd_def)
next
  case (Cons x xs)
  then show ?case by auto
qed

lemma chain_snoc:
  assumes "chain nx p (xs @ [a])" and "distinct (xs @ [a])" and "c \<notin> set (xs @ [a])" "c \<noteq> 0" "nx c = 0"
  shows "chain (nx(a := c)) p (xs @ [a, c])"
proof -
  have "nx a = 0" using assms(1) by (induction xs arbitrary: p) auto
  then have "nx(a := c, c := nx a) = nx(a := c)" using assms(3,5) by auto
  then show ?thesis using chain_insert [OF assms(1-4)] by simp
qed

section \<open>The table\<close>

abbreviation ht :: "'a shell_cmds_scheme \<Rightarrow> u32 \<Rightarrow> u32" where
  "ht s p \<equiv> ht_next (cmds s p)"

abbreviation ls :: "'a shell_cmds_scheme \<Rightarrow> u32 \<Rightarrow> u32" where
  "ls s p \<equiv> ls_next (cmds s p)"

definition ls_rep :: "'a shell_cmds_scheme \<Rightarrow> u32 list \<Rightarrow> bool" where
  "ls_rep s L \<longleftrightarrow> chain (ls s) (shell_list s) L \<and> sorted_wrt (<) (map (\<lambda>p. key (name (cmds s p))) L) \<and>
     (\<forall>p \<in> set L. valid_name (name (cmds s p)))"

definition ht_rep :: "'a shell_cmds_scheme \<Rightarrow> u32 set \<Rightarrow> bool" where
  "ht_rep s P \<longleftrightarrow> length (shell_htable s) = SHELL_HTABLE_SIZE \<and>
     (\<forall>b < SHELL_HTABLE_SIZE. \<exists>xs. chain (ht s) (shell_htable s ! b) xs \<and> distinct xs \<and>
        set xs = {p \<in> P. shell_bucket_get (name (cmds s p)) = b})"

text \<open>The state holds the commands \<open>L\<close>, in the order of their names.\<close>

definition cmds_rep :: "'a shell_cmds_scheme \<Rightarrow> u32 list \<Rightarrow> bool" where
  "cmds_rep s L \<longleftrightarrow> ls_rep s L \<and> ht_rep s (set L) \<and> mutex_free (shell_lock s)"

lemma sorted_names_distinct: "sorted_wrt (<) (map f L) \<Longrightarrow> distinct (map (f :: _ \<Rightarrow> _::linorder) L)"
  by (simp add: strict_sorted_iff)

lemma ls_rep_inj:
  assumes "ls_rep s L" and "p \<in> set L" "q \<in> set L" "name (cmds s p) = name (cmds s q)"
  shows "p = q"
proof -
  have "distinct (map (\<lambda>p. key (name (cmds s p))) L)"
    using assms(1) sorted_names_distinct by (auto simp: ls_rep_def)
  then have "inj_on (\<lambda>p. key (name (cmds s p))) (set L)" by (simp add: distinct_map)
  from inj_onD [OF this] show ?thesis using assms(2-4) by simp
qed

lemma ls_rep_distinct: "ls_rep s L \<Longrightarrow> distinct L"
  using sorted_names_distinct by (auto simp: ls_rep_def distinct_map)

lemma bucket_less: "shell_bucket_get nm < SHELL_HTABLE_SIZE"
proof -
  have "unat (word_of_int (x mod 64) :: u32) = nat (x mod 64)" for x
    by (simp add: unsigned_of_int take_bit_eq_mod unat_eq_nat_uint)
  then show ?thesis by (simp add: shell_bucket_get_def SHELL_HTABLE_SIZE_def SHELL_HTABLE_BITS_def)
qed

text \<open>The map that the commands stand for.\<close>

definition table_of :: "'a shell_cmds_scheme \<Rightarrow> u32 list \<Rightarrow> u8 list \<Rightarrow> u32 option" where
  "table_of s L = map_of (map (\<lambda>p. (name (cmds s p), p)) L)"

lemma table_of_Some:
  assumes "ls_rep s L"
  shows "table_of s L nm = Some p \<longleftrightarrow> p \<in> set L \<and> name (cmds s p) = nm"
proof -
  have "distinct (map fst (map (\<lambda>p. (name (cmds s p), p)) L))"
    using ls_rep_distinct [OF assms] ls_rep_inj [OF assms] by (auto simp: distinct_map inj_on_def comp_def)
  from map_of_eq_Some_iff [OF this] show ?thesis by (auto simp: table_of_def)
qed

lemma table_of_None: "table_of s L nm = None \<longleftrightarrow> (\<forall>p \<in> set L. name (cmds s p) \<noteq> nm)"
  by (force simp: table_of_def map_of_eq_None_iff)

lemma lookup_from_chain:
  assumes "chain (\<lambda>p. ht_next (cs p)) p xs" "\<forall>x \<in> set xs. ascii (name (cs x))" "ascii nm"
  shows "lookup_from cs nm p = Some (case find (\<lambda>x. name (cs x) = nm) xs of None \<Rightarrow> 0 | Some x \<Rightarrow> x)"
  using assms
proof (induction xs arbitrary: p)
  case Nil
  then show ?case by (simp add: lookup_from.simps)
next
  case (Cons x xs)
  then show ?case by (subst lookup_from.simps) (auto simp: str_diff_eq)
qed

lemma lookup_ok:
  assumes rep: "cmds_rep s L" and nm: "ascii nm"
  shows "shell_cmd_lookup self nm s = Some (case table_of s L nm of None \<Rightarrow> 0 | Some p \<Rightarrow> p, s)"
proof -
  let ?b = "shell_bucket_get nm"
  have free: "mutex_free (shell_lock s)" and lsr: "ls_rep s L" using rep by (simp_all add: cmds_rep_def)
  obtain xs where xs: "chain (ht s) (shell_htable s ! ?b) xs"
    "set xs = {p \<in> set L. shell_bucket_get (name (cmds s p)) = ?b}"
    using rep bucket_less [of nm] by (auto simp: cmds_rep_def ht_rep_def)
  have val: "\<forall>x \<in> set xs. ascii (name (cmds s x))"
    using xs(2) lsr valid_ascii by (auto simp: ls_rep_def)
  have "(case find (\<lambda>x. name (cmds s x) = nm) xs of None \<Rightarrow> 0 | Some x \<Rightarrow> x) =
      (case table_of s L nm of None \<Rightarrow> 0 | Some p \<Rightarrow> p)"
  proof (cases "table_of s L nm")
    case None
    then have "find (\<lambda>x. name (cmds s x) = nm) xs = None"
      using xs(2) by (auto simp: table_of_None find_None_iff)
    then show ?thesis using None by simp
  next
    case (Some p)
    then have p: "p \<in> set L" "name (cmds s p) = nm" using table_of_Some [OF lsr] by auto
    then have "p \<in> set xs" using xs(2) by auto
    then obtain q where q: "find (\<lambda>x. name (cmds s x) = nm) xs = Some q"
      using p(2) by (cases "find (\<lambda>x. name (cmds s x) = nm) xs") (auto simp: find_None_iff)
    then have "q \<in> set L" "name (cmds s q) = nm" using xs(2) by (auto simp: find_Some_iff)
    then have "q = p" using ls_rep_inj [OF lsr] p by blast
    then show ?thesis using q Some by simp
  qed
  then show ?thesis
    using lookup_from_chain [OF xs(1) val nm] free_set_clear [OF free, of self]
    by (simp add: shell_cmd_lookup_def shell_cmd_acquire_def shell_cmd_release_def)
qed

section \<open>Registration\<close>

text \<open>The states that differ only in links and in what is printed hold the same names.\<close>

definition same_names :: "'a shell_cmds_scheme \<Rightarrow> 'a shell_cmds_scheme \<Rightarrow> bool" where
  "same_names s s' \<longleftrightarrow> (\<forall>p. name (cmds s' p) = name (cmds s p) \<and> cmd_fn (cmds s' p) = cmd_fn (cmds s p) \<and>
     usage (cmds s' p) = usage (cmds s p) \<and> short_desc (cmds s' p) = short_desc (cmds s p) \<and>
     long_desc (cmds s' p) = long_desc (cmds s p)) \<and> shell_lock s' = shell_lock s"

lemma add_list_prev_chain:
  assumes "chain (\<lambda>p. ls_next (cs p)) p (xs @ a # ys)" and "\<forall>x \<in> set (xs @ a # ys). ascii (name (cs x))" "ascii nm"
    and "\<forall>x \<in> set xs. \<not> key nm < key (name (cs x))" and "\<not> key nm < key (name (cs a))"
    and "ys = [] \<or> key nm < key (name (cs (hd ys)))"
  shows "add_list_prev cs nm p = Some a"
  using assms
proof (induction xs arbitrary: p)
  case Nil
  then show ?case by (subst add_list_prev.simps) (cases ys, auto simp: str_diff_less)
next
  case (Cons x xs)
  have "ls_next (cs p) \<noteq> 0 \<and> \<not> key nm < key (name (cs (ls_next (cs p)))) \<and> ascii (name (cs (ls_next (cs p))))"
    using Cons.prems by (cases xs) auto
  then show ?case using Cons by (subst add_list_prev.simps) (simp add: str_diff_less)
qed

lemma sorted_split:
  assumes "sorted_wrt (<) (map f L)" and "\<forall>x \<in> set L. f x \<noteq> (k :: _::linorder)"
  obtains us vs where "L = us @ vs" and "\<forall>x \<in> set us. f x < k" and "\<forall>x \<in> set vs. k < f x"
proof -
  let ?us = "takeWhile (\<lambda>x. f x < k) L" and ?vs = "dropWhile (\<lambda>x. f x < k) L"
  have "\<forall>x \<in> set ?vs. k < f x"
  proof (cases ?vs)
    case (Cons v vs)
    then have v: "\<not> f v < k" by (metis hd_dropWhile list.distinct(1) list.sel(1))
    have "sorted_wrt (<) (map f (?us @ v # vs))" using assms(1) Cons by (metis takeWhile_dropWhile_id)
    then have "\<forall>x \<in> set vs. f v < f x" by (simp add: sorted_wrt_append)
    moreover have "v \<in> set L" using Cons set_dropWhileD by (metis list.set_intros(1))
    ultimately show ?thesis using v Cons assms(2) by (auto simp: not_less order_le_less dest: less_trans)
  next
    case Nil
    show ?thesis unfolding Nil by simp
  qed
  then show ?thesis using that [of ?us ?vs] set_takeWhileD by fastforce
qed

lemma add_list_ok:
  assumes rep: "ls_rep s L" and nm: "valid_name (name (cmds s cmd))" "table_of s L (name (cmds s cmd)) = None"
    and cmd: "cmd \<noteq> 0" "cmd \<notin> set L"
  shows "\<exists>s' L'. shell_cmd_add_list cmd s = Some s' \<and> ls_rep s' L' \<and> set L' = insert cmd (set L) \<and>
    same_names s s' \<and> ht s' = ht s \<and> shell_htable s' = shell_htable s"
proof -
  let ?nm = "name (cmds s cmd)" and ?f = "\<lambda>p. key (name (cmds s p))"
  have srt: "sorted_wrt (<) (map ?f L)" and ch: "chain (ls s) (shell_list s) L"
    and val: "\<forall>p \<in> set L. valid_name (name (cmds s p))" using rep by (simp_all add: ls_rep_def)
  have asc: "\<forall>x \<in> set L. ascii (name (cmds s x))" "ascii ?nm" using val nm(1) valid_ascii by blast+
  obtain us vs where L: "L = us @ vs" and us: "\<forall>x \<in> set us. ?f x < key ?nm" and vs: "\<forall>x \<in> set vs. key ?nm < ?f x"
    by (rule sorted_split [OF srt, of "key ?nm"]) (use nm(2) in \<open>auto simp: table_of_None\<close>)
  have srt': "sorted_wrt (<) (map ?f (us @ cmd # vs))"
    using srt us vs by (auto simp: L sorted_wrt_append)
  show ?thesis
  proof (cases us rule: rev_cases)
    case Nil
    let ?s = "set_ls_next cmd (shell_list s) (s\<lparr>shell_list := cmd\<rparr>)"
    have "shell_list s = 0 \<or> str_diff ?nm (name (cmds s (shell_list s))) < 0"
      using ch vs asc Nil by (cases vs) (auto simp: L str_diff_less)
    then have "shell_cmd_add_list cmd s = Some ?s" by (auto simp: shell_cmd_add_list_def Let_def)
    moreover have "chain (ls ?s) (shell_list s) L = chain (ls s) (shell_list s) L"
      by (rule chain_cong) (use cmd(2) in \<open>auto simp: set_ls_next_def\<close>)
    then have c: "chain (ls ?s) (shell_list ?s) (cmd # L)" using ch cmd(1) by (simp add: set_ls_next_def)
    have n: "name (cmds ?s p) = name (cmds s p)" for p by (simp add: set_ls_next_def)
    have "ls_rep ?s (cmd # L)" using c srt' val nm(1) L Nil unfolding ls_rep_def n by auto
    ultimately show ?thesis
      by (intro exI [of _ ?s] exI [of _ "cmd # L"]) (auto simp: same_names_def set_ls_next_def)
  next
    case (snoc us' a)
    let ?s = "set_ls_next cmd (ls s a) (set_ls_next a cmd s)"
    have L': "L = us' @ a # vs" using L snoc by simp
    have p: "shell_list s \<noteq> 0 \<and> \<not> str_diff ?nm (name (cmds s (shell_list s))) < 0"
      using ch us asc L' snoc by (cases us') (auto simp: str_diff_less)
    have "add_list_prev (cmds s) ?nm (shell_list s) = Some a"
      by (rule add_list_prev_chain [OF ch [unfolded L']])
        (use asc us vs L' snoc in \<open>auto intro: hd_in_set simp: not_less order_less_imp_le\<close>)
    then have r: "shell_cmd_add_list cmd s = Some ?s" using p by (simp add: shell_cmd_add_list_def Let_def)
    have a: "a \<noteq> cmd" using cmd(2) L' by auto
    then have "ls ?s = (ls s)(a := cmd, cmd := ls s a)" by (auto simp: set_ls_next_def)
    moreover have "shell_list ?s = shell_list s" by (simp add: set_ls_next_def)
    ultimately have "chain (ls ?s) (shell_list ?s) (us' @ a # cmd # vs)"
      using chain_insert [OF ch [unfolded L']] ls_rep_distinct [OF rep] cmd L' by simp
    moreover have n: "name (cmds ?s p) = name (cmds s p)" for p using a by (simp add: set_ls_next_def)
    ultimately have "ls_rep ?s (us' @ a # cmd # vs)"
      using srt' val nm(1) snoc L' unfolding ls_rep_def n by auto
    moreover have "same_names s ?s" "ht ?s = ht s" "shell_htable ?s = shell_htable s"
      using a by (auto simp: same_names_def set_ls_next_def)
    ultimately show ?thesis using r L' by (intro exI [of _ ?s] exI [of _ "us' @ a # cmd # vs"]) auto
  qed
qed

lemma add_last_chain:
  assumes "chain (\<lambda>p. ht_next (cs p)) p (x # xs)" "\<forall>y \<in> set (x # xs). ascii (name (cs y))" "ascii nm"
  shows "add_last cs nm p = Some (if nm \<in> (\<lambda>y. name (cs y)) ` set (x # xs) then Inl ERROR_EXIST else Inr (last (x # xs)))"
  using assms
proof (induction xs arbitrary: p x)
  case Nil
  then show ?case by (subst add_last.simps) (auto simp: str_diff_eq)
next
  case (Cons y ys)
  show ?case
  proof (cases "nm = name (cs x)")
    case True
    then show ?thesis using Cons.prems by (subst add_last.simps) (auto simp: str_diff_eq)
  next
    case False
    then have "add_last cs nm p = add_last cs nm y"
      using Cons.prems by (subst add_last.simps) (auto simp: str_diff_eq)
    also have "\<dots> = Some (if nm \<in> (\<lambda>y. name (cs y)) ` set (y # ys) then Inl ERROR_EXIST else Inr (last (y # ys)))"
      by (rule Cons.IH) (use Cons.prems in auto)
    finally show ?thesis using False by auto
  qed
qed

text \<open>Linking a new command into its bucket.\<close>

lemma ht_rep_link:
  assumes rep: "ht_rep s P" and len: "b = shell_bucket_get (name (cmds s cmd))" "cmd \<notin> P"
    and same: "\<And>p. name (cmds s' p) = name (cmds s p)" "length (shell_htable s') = length (shell_htable s)"
    and other: "\<And>c. c < SHELL_HTABLE_SIZE \<Longrightarrow> c \<noteq> b \<Longrightarrow> shell_htable s' ! c = shell_htable s ! c"
      "\<And>p. p \<in> P \<Longrightarrow> shell_bucket_get (name (cmds s p)) \<noteq> b \<Longrightarrow> ht s' p = ht s p"
    and new: "chain (ht s') (shell_htable s' ! b) (xs @ [cmd])" "distinct xs"
      "set xs = {p \<in> P. shell_bucket_get (name (cmds s p)) = b}"
  shows "ht_rep s' (insert cmd P)"
  unfolding ht_rep_def same
proof (intro conjI allI impI)
  show "length (shell_htable s) = SHELL_HTABLE_SIZE" using rep by (simp add: ht_rep_def)
  fix c
  assume c: "c < SHELL_HTABLE_SIZE"
  show "\<exists>xs. chain (ht s') (shell_htable s' ! c) xs \<and> distinct xs \<and>
      set xs = {p \<in> insert cmd P. shell_bucket_get (name (cmds s p)) = c}"
  proof (cases "c = b")
    case True
    then show ?thesis using new len by (intro exI [of _ "xs @ [cmd]"]) auto
  next
    case False
    obtain ys where ys: "chain (ht s) (shell_htable s ! c) ys" "distinct ys"
      "set ys = {p \<in> P. shell_bucket_get (name (cmds s p)) = c}"
      using rep c by (auto simp: ht_rep_def)
    have "chain (ht s') (shell_htable s ! c) ys = chain (ht s) (shell_htable s ! c) ys"
      by (rule chain_cong) (use ys(3) False other(2) in auto)
    then show ?thesis using ys False other(1) [OF c] len(1) by (intro exI [of _ ys]) auto
  qed
qed

text \<open>
  A command that can be registered: a structure that is not in use, with null links.
\<close>

definition fresh_cmd :: "'a shell_cmds_scheme \<Rightarrow> u32 list \<Rightarrow> u32 \<Rightarrow> bool" where
  "fresh_cmd s L cmd \<longleftrightarrow> cmd \<noteq> 0 \<and> cmd \<notin> set L \<and> ht s cmd = 0"

lemma same_names_table: "same_names s s' \<Longrightarrow> table_of s' L = table_of s L"
  by (simp add: same_names_def table_of_def)

lemma same_names_bucket: "same_names s s' \<Longrightarrow> name (cmds s' p) = name (cmds s p)"
  by (simp add: same_names_def)

lemma ls_rep_cong:
  assumes "\<And>p. p \<in> set L \<Longrightarrow> ls s' p = ls s p" "\<And>p. name (cmds s' p) = name (cmds s p)" "shell_list s' = shell_list s"
  shows "ls_rep s' L = ls_rep s L"
  unfolding ls_rep_def assms(2,3) using chain_cong [of L "ls s'" "ls s"] assms(1) by simp

lemma cmd_add_new:
  assumes rep: "ls_rep s L" "ht_rep s (set L)" and fresh: "fresh_cmd s L cmd"
    and nm: "valid_name (name (cmds s cmd))" "table_of s L (name (cmds s cmd)) = None"
  shows "\<exists>s' L'. shell_cmd_add cmd s = Some (None, s') \<and> ls_rep s' L' \<and> ht_rep s' (set L') \<and>
    set L' = insert cmd (set L) \<and> same_names s s' \<and> (\<forall>p. p \<notin> set L \<longrightarrow> ht s' p = ht s p)"
proof -
  let ?nm = "name (cmds s cmd)" and ?b = "shell_bucket_get (name (cmds s cmd))"
  have b: "?b < SHELL_HTABLE_SIZE" "length (shell_htable s) = SHELL_HTABLE_SIZE"
    using bucket_less rep(2) by (simp_all add: ht_rep_def)
  obtain xs where xs: "chain (ht s) (shell_htable s ! ?b) xs" "distinct xs"
    "set xs = {p \<in> set L. shell_bucket_get (name (cmds s p)) = ?b}"
    using rep(2) b(1) by (auto simp: ht_rep_def)
  have cmd: "cmd \<noteq> 0" "cmd \<notin> set L" "ht s cmd = 0" using fresh by (auto simp: fresh_cmd_def)
  define s1 where "s1 = (if xs = [] then s\<lparr>shell_htable := (shell_htable s)[?b := cmd]\<rparr> else set_ht_next (last xs) cmd s)"
  have s1: "name (cmds s1 p) = name (cmds s p)" "ls s1 p = ls s p" "shell_list s1 = shell_list s" "same_names s s1" for p
    by (simp_all add: s1_def set_ht_next_def same_names_def)
  have ls1: "ls_rep s1 L" using ls_rep_cong [of L s1 s] s1 rep(1) by simp
  have add: "shell_cmd_add cmd s = map_option (Pair None) (shell_cmd_add_list cmd s1)"
  proof (cases xs)
    case Nil
    then show ?thesis using xs(1) by (simp add: shell_cmd_add_def s1_def Let_def map_option_case split: option.split)
  next
    case (Cons y ys)
    have "ascii (name (cmds s x))" if "x \<in> set xs" for x
      using that xs(3) rep(1) valid_ascii by (auto simp: ls_rep_def)
    moreover have "name (cmds s y) \<noteq> ?nm" if "y \<in> set xs" for y
      using that nm(2) unfolding table_of_None xs(3) by simp
    then have "?nm \<notin> (\<lambda>y. name (cmds s y)) ` set xs" by (metis imageE)
    ultimately have "add_last (cmds s) ?nm (shell_htable s ! ?b) = Some (Inr (last xs))"
      using add_last_chain [of "cmds s" "shell_htable s ! ?b" y ys ?nm] xs(1) valid_ascii [OF nm(1)] unfolding Cons
      by simp
    then show ?thesis
      using xs(1) Cons by (simp add: shell_cmd_add_def s1_def Let_def map_option_case split: option.split)
  qed
  have ht1: "ht_rep s1 (insert cmd (set L))"
  proof (rule ht_rep_link [OF rep(2) refl cmd(2), where xs = xs])
    show "chain (ht s1) (shell_htable s1 ! ?b) (xs @ [cmd])"
    proof (cases xs rule: rev_cases)
      case Nil
      then show ?thesis using b cmd by (simp add: s1_def)
    next
      case (snoc ys a)
      have "ht s1 = (ht s)(a := cmd)" "shell_htable s1 = shell_htable s"
        using snoc by (auto simp: s1_def set_ht_next_def)
      moreover have "cmd \<notin> set xs" using xs(3) cmd(2) by auto
      ultimately show ?thesis using chain_snoc [of "ht s" "shell_htable s ! ?b" ys a cmd] xs(1,2) cmd(1,3) snoc by simp
    qed
    show "ht s1 p = ht s p" if "p \<in> set L" "shell_bucket_get (name (cmds s p)) \<noteq> ?b" for p
    proof -
      have "p \<notin> set xs" using that xs(3) by auto
      then show ?thesis by (auto simp: s1_def set_ht_next_def)
    qed
    show "distinct xs" "set xs = {p \<in> set L. shell_bucket_get (name (cmds s p)) = ?b}" by (rule xs(2), rule xs(3))
    show "name (cmds s1 p) = name (cmds s p)" for p by (rule s1(1))
    show "length (shell_htable s1) = length (shell_htable s)" by (simp add: s1_def set_ht_next_def)
    show "shell_htable s1 ! c = shell_htable s ! c" if "c \<noteq> ?b" for c
      using that by (simp add: s1_def set_ht_next_def)
  qed
  have "valid_name (name (cmds s1 cmd))" "table_of s1 L (name (cmds s1 cmd)) = None"
    using nm s1(1) same_names_table [OF s1(4)] by simp_all
  from add_list_ok [OF ls1 this cmd(1,2)] obtain s' L' where s': "shell_cmd_add_list cmd s1 = Some s'" "ls_rep s' L'"
    "set L' = insert cmd (set L)" "same_names s1 s'" "ht s' = ht s1" "shell_htable s' = shell_htable s1" by blast
  have n: "name (cmds s' p) = name (cmds s1 p)" for p using s'(4) by (rule same_names_bucket)
  have "ht_rep s' (set L')" using ht1 s'(3) unfolding ht_rep_def s'(5,6) n by simp
  moreover have "same_names s s'" using s1(4) s'(4) by (simp add: same_names_def)
  moreover have "ht s' p = ht s p" if "p \<notin> set L" for p
  proof -
    have "xs \<noteq> [] \<Longrightarrow> last xs \<in> set L" using last_in_set [of xs] unfolding xs(3) by simp
    then have "ht s1 p = ht s p" using that by (auto simp: s1_def set_ht_next_def)
    then show ?thesis using fun_cong [OF s'(5)] by simp
  qed
  ultimately show ?thesis using add s' by auto
qed

lemma cmd_add_exists:
  assumes rep: "ls_rep s L" "ht_rep s (set L)" and nm: "ascii (name (cmds s cmd))" "table_of s L (name (cmds s cmd)) \<noteq> None"
  shows "\<exists>cs. shell_cmd_add cmd s = Some (Some ERROR_EXIST, print cs s)"
proof -
  let ?nm = "name (cmds s cmd)"
  obtain p where p: "p \<in> set L" "name (cmds s p) = ?nm" using nm(2) table_of_Some [OF rep(1)] by auto
  obtain xs where xs: "chain (ht s) (shell_htable s ! shell_bucket_get ?nm) xs"
    "set xs = {p \<in> set L. shell_bucket_get (name (cmds s p)) = shell_bucket_get ?nm}"
    using rep(2) bucket_less [of ?nm] by (auto simp: ht_rep_def)
  have px: "p \<in> set xs" using p xs(2) by auto
  have "ascii (name (cmds s x))" if "x \<in> set xs" for x
    using that xs(2) rep(1) valid_ascii by (auto simp: ls_rep_def)
  moreover have "?nm \<in> (\<lambda>y. name (cmds s y)) ` set xs" using px p(2) by (metis imageI)
  ultimately have "add_last (cmds s) ?nm (shell_htable s ! shell_bucket_get ?nm) = Some (Inl ERROR_EXIST)"
    using add_last_chain [of "cmds s" _ "hd xs" "tl xs" ?nm] xs(1) nm(1) px by (cases xs) auto
  moreover have "shell_htable s ! shell_bucket_get ?nm \<noteq> 0" using xs(1) px by (cases xs) auto
  ultimately show ?thesis by (auto simp: shell_cmd_add_def Let_def)
qed

text \<open>The whole of \<^verbatim>\<open>shell_cmd_register\<close>.\<close>

lemma register_ok:
  assumes rep: "cmds_rep s L" and fresh: "fresh_cmd s L cmd"
  shows "\<exists>err s' L'. shell_cmd_register self cmd s = Some (err, s') \<and> cmds_rep s' L' \<and> same_names s s' \<and>
    (\<forall>p. p \<notin> set L \<longrightarrow> ht s' p = ht s p) \<and>
    (if \<not> valid_name (name (cmds s cmd)) then err = Some ERROR_INVAL \<and> L' = L \<and> s' = s
     else if table_of s L (name (cmds s cmd)) \<noteq> None then err = Some ERROR_EXIST \<and> L' = L
     else err = None \<and> set L' = insert cmd (set L) \<and>
       table_of s' L' = (table_of s L)(name (cmds s cmd) \<mapsto> cmd))"
proof (cases "valid_name (name (cmds s cmd))")
  case False
  then show ?thesis
    using rep by (intro exI [of _ "Some ERROR_INVAL"] exI [of _ s] exI [of _ L])
      (auto simp: shell_cmd_register_def cmd_check_eq same_names_def)
next
  case valid: True
  let ?nm = "name (cmds s cmd)" and ?m = "(shell_lock s)\<lparr>owner := Some self, locked := True\<rparr>"
  have free: "mutex_free (shell_lock s)" and r: "ls_rep s L" "ht_rep s (set L)" using rep by (auto simp: cmds_rep_def)
  let ?s = "s\<lparr>shell_lock := ?m\<rparr>"
  have r1: "ls_rep ?s L" "ht_rep ?s (set L)" "table_of ?s L = table_of s L" "fresh_cmd ?s L cmd"
    using r fresh by (simp_all add: ls_rep_def ht_rep_def table_of_def fresh_cmd_def)
  have reg: "shell_cmd_register self cmd s =
      Option.bind (shell_cmd_add cmd ?s) (\<lambda>(err, s). Option.bind (shell_cmd_release self s) (\<lambda>s. Some (err, s)))"
    using valid free_set_clear [OF free, of self] by (simp add: shell_cmd_register_def cmd_check_eq shell_cmd_acquire_def)
  have rel: "shell_cmd_release self t = Some (t\<lparr>shell_lock := shell_lock s\<rparr>)" if "shell_lock t = ?m" for t :: "'a shell_cmds_scheme"
    using that free_set_clear [OF free, of self] by (simp add: shell_cmd_release_def)
  show ?thesis
  proof (cases "table_of s L ?nm")
    case (Some p)
    then obtain cs where "shell_cmd_add cmd ?s = Some (Some ERROR_EXIST, print cs ?s)"
      using cmd_add_exists [OF r1(1,2), of cmd] r1(3) valid_ascii [OF valid] by auto
    then have "shell_cmd_register self cmd s = Some (Some ERROR_EXIST, print cs s)"
      using reg rel [of "print cs ?s"] by (simp add: print_def)
    moreover have "cmds_rep (print cs s) L" using rep by (simp add: cmds_rep_def ls_rep_def ht_rep_def print_def)
    moreover have "same_names s (print cs s)" by (simp add: same_names_def print_def)
    ultimately show ?thesis using valid Some by (auto simp: print_def)
  next
    case None
    then obtain s1 L' where s1: "shell_cmd_add cmd ?s = Some (None, s1)" "ls_rep s1 L'" "ht_rep s1 (set L')"
      "set L' = insert cmd (set L)" "same_names ?s s1" "\<forall>p. p \<notin> set L \<longrightarrow> ht s1 p = ht ?s p"
      using cmd_add_new [OF r1(1,2,4)] valid r1(3) by auto
    let ?s' = "s1\<lparr>shell_lock := shell_lock s\<rparr>"
    have "shell_lock s1 = ?m" using s1(5) by (simp add: same_names_def)
    then have "shell_cmd_register self cmd s = Some (None, ?s')" using reg s1(1) rel by simp
    moreover have rep': "cmds_rep ?s' L'" using s1(2,3) free by (simp add: cmds_rep_def ls_rep_def ht_rep_def)
    moreover have same: "same_names s ?s'" using s1(5) by (simp add: same_names_def)
    moreover have "table_of ?s' L' = (table_of s L)(?nm \<mapsto> cmd)"
    proof (rule ext)
      fix nm
      have ls': "ls_rep ?s' L'" using rep' by (simp add: cmds_rep_def)
      have "table_of ?s' L' nm = Some p \<longleftrightarrow> ((table_of s L)(?nm \<mapsto> cmd)) nm = Some p" for p
        using table_of_Some [OF ls', of nm p] table_of_Some [OF r(1), of nm p] s1(4) same_names_bucket [OF same] None
          table_of_None [of s L ?nm] by auto
      then show "table_of ?s' L' nm = ((table_of s L)(?nm \<mapsto> cmd)) nm" by (metis option.exhaust)
    qed
    ultimately show ?thesis using valid None s1(4,6) by auto
  qed
qed

section \<open>The contract of the table\<close>

text \<open>
  A table of commands: a state \<open>s\<close> stands for a map from names to commands; \<open>lookup\<close> reads it, and
  \<open>register\<close> adds the command \<open>c\<close>, of the name \<open>nm s c\<close>, if it is \<open>ready\<close> and its name is new.
\<close>

locale command_table =
  fixes rep :: "'s \<Rightarrow> ('n \<Rightarrow> 'c option) \<Rightarrow> bool" and nm :: "'s \<Rightarrow> 'c \<Rightarrow> 'n" and ready :: "'s \<Rightarrow> 'c \<Rightarrow> bool"
    and lookup :: "'s \<Rightarrow> 'n \<Rightarrow> 'c option" and register :: "'c \<Rightarrow> 's \<Rightarrow> 's option"
  assumes lookup_rep: "rep s t \<Longrightarrow> t n \<noteq> None \<Longrightarrow> lookup s n = t n"
    and register_rep: "rep s t \<Longrightarrow> ready s c \<Longrightarrow> c \<notin> ran t \<Longrightarrow> t (nm s c) = None \<Longrightarrow>
      \<exists>s'. register c s = Some s' \<and> rep s' (t(nm s c \<mapsto> c)) \<and> nm s' = nm s \<and>
        (\<forall>d. ready s d \<longrightarrow> d \<notin> ran t \<longrightarrow> ready s' d)"
begin

fun register_all :: "'c list \<Rightarrow> 's \<Rightarrow> 's option" where
  "register_all [] s = Some s"
| "register_all (c # cs) s = Option.bind (register c s) (register_all cs)"

lemma register_all_lookup:
  assumes "rep s t" and "distinct (map (nm s) cs)" and "\<forall>c \<in> set cs. ready s c \<and> c \<notin> ran t \<and> t (nm s c) = None"
  shows "\<exists>s'. register_all cs s = Some s' \<and> rep s' (t ++ map_of (map (\<lambda>c. (nm s c, c)) (rev cs))) \<and>
    (\<forall>c \<in> set cs. lookup s' (nm s c) = Some c)"
proof -
  have "\<exists>s'. register_all cs s = Some s' \<and> rep s' (t ++ map_of (map (\<lambda>c. (nm s c, c)) (rev cs))) \<and> nm s' = nm s"
    using assms
  proof (induction cs arbitrary: s t)
    case (Cons c cs)
    obtain s1 where s1: "register c s = Some s1" "rep s1 (t(nm s c \<mapsto> c))" "nm s1 = nm s"
      "\<forall>d. ready s d \<longrightarrow> d \<notin> ran t \<longrightarrow> ready s1 d"
      using register_rep [OF Cons.prems(1), of c] Cons.prems(3) by auto
    have "\<exists>s'. register_all cs s1 = Some s' \<and> rep s' (t(nm s c \<mapsto> c) ++ map_of (map (\<lambda>c. (nm s1 c, c)) (rev cs))) \<and>
        nm s' = nm s1"
    proof (rule Cons.IH [OF s1(2)])
      show "distinct (map (nm s1) cs)" using Cons.prems(2) s1(3) by simp
      show "\<forall>d \<in> set cs. ready s1 d \<and> d \<notin> ran (t(nm s c \<mapsto> c)) \<and> (t(nm s c \<mapsto> c)) (nm s1 d) = None"
      proof
        fix d
        assume d: "d \<in> set cs"
        have "nm s c \<notin> nm s ` set cs" using Cons.prems(2) by simp
        then have ne: "nm s d \<noteq> nm s c" using imageI [OF d, of "nm s"] by metis
        have "ran (t(nm s c \<mapsto> c)) \<subseteq> insert c (ran t)" by (auto simp: ran_def)
        then show "ready s1 d \<and> d \<notin> ran (t(nm s c \<mapsto> c)) \<and> (t(nm s c \<mapsto> c)) (nm s1 d) = None"
          using Cons.prems(3) d ne s1(3,4) by auto
      qed
    qed
    moreover have "map_of (map (\<lambda>c. (nm s c, c)) (rev (c # cs))) = [nm s c \<mapsto> c] ++ map_of (map (\<lambda>c. (nm s c, c)) (rev cs))"
      by (simp add: map_of_append)
    then have "t ++ map_of (map (\<lambda>c. (nm s c, c)) (rev (c # cs))) =
        t(nm s c \<mapsto> c) ++ map_of (map (\<lambda>c. (nm s c, c)) (rev cs))"
      by (simp only: map_add_assoc map_add_upd map_add_empty)
    ultimately show ?case using s1 by (simp only: register_all.simps bind.bind_lunit)
  qed simp
  then obtain s' where s': "register_all cs s = Some s'" "rep s' (t ++ map_of (map (\<lambda>c. (nm s c, c)) (rev cs)))" by blast
  have "lookup s' (nm s c) = Some c" if "c \<in> set cs" for c
  proof -
    have "distinct (map fst (map (\<lambda>c. (nm s c, c)) (rev cs)))" using assms(2) by (simp add: comp_def flip: rev_map)
    then have "map_of (map (\<lambda>c. (nm s c, c)) (rev cs)) (nm s c) = Some c" using that by (auto intro!: map_of_is_SomeI)
    then show ?thesis using lookup_rep [OF s'(2), of "nm s c"] by (simp add: map_add_def)
  qed
  then show ?thesis using s' by blast
qed

end

text \<open>The shell's table, with a mutex taken by the thread \<open>self\<close>.\<close>

definition shell_table :: "shell_cmds \<Rightarrow> (u8 list \<Rightarrow> u32 option) \<Rightarrow> bool" where
  "shell_table s t \<longleftrightarrow> (\<exists>L. cmds_rep s L \<and> t = table_of s L)"

definition shell_ready :: "shell_cmds \<Rightarrow> u32 \<Rightarrow> bool" where
  "shell_ready s c \<longleftrightarrow> c \<noteq> 0 \<and> ht s c = 0 \<and> valid_name (name (cmds s c))"

definition lookup_result :: "(u32 \<times> shell_cmds) option \<Rightarrow> u32 option" where
  "lookup_result r = (case r of Some (c, _) \<Rightarrow> if c = 0 then None else Some c | None \<Rightarrow> None)"

definition register_result :: "(error option \<times> shell_cmds) option \<Rightarrow> shell_cmds option" where
  "register_result r = (case r of Some (None, s) \<Rightarrow> Some s | _ \<Rightarrow> None)"

interpretation shell_tab: command_table shell_table "\<lambda>s c. name (cmds s c)" shell_ready
  "\<lambda>s n. lookup_result (shell_cmd_lookup self n s)" "\<lambda>c s. register_result (shell_cmd_register self c s)" for self
proof
  fix s :: shell_cmds and t and n :: "u8 list"
  assume t: "shell_table s t" "t n \<noteq> None"
  then obtain L where L: "cmds_rep s L" "t = table_of s L" by (auto simp: shell_table_def)
  have lsr: "ls_rep s L" using L(1) by (simp add: cmds_rep_def)
  obtain p where p: "t n = Some p" using t(2) by auto
  then have "p \<in> set L" "name (cmds s p) = n" using table_of_Some [OF lsr] L(2) by auto
  moreover from this have "p \<noteq> 0" "ascii n" using lsr chain_nonzero valid_ascii by (auto simp: ls_rep_def)
  ultimately show "lookup_result (shell_cmd_lookup self n s) = t n"
    using lookup_ok [OF L(1), of n self] p L(2) by (simp add: lookup_result_def)
next
  fix s :: shell_cmds and t and c :: u32
  assume t: "shell_table s t" and c: "shell_ready s c" "c \<notin> ran t" "t (name (cmds s c)) = None"
  then obtain L where L: "cmds_rep s L" "t = table_of s L" by (auto simp: shell_table_def)
  have lsr: "ls_rep s L" using L(1) by (simp add: cmds_rep_def)
  have out: "p \<notin> set L" if "p \<notin> ran t" for p using that table_of_Some [OF lsr] L(2) by (auto simp: ran_def)
  have "fresh_cmd s L c" using c(1) out [OF c(2)] by (simp add: fresh_cmd_def shell_ready_def)
  from register_ok [OF L(1) this, of self] c L(2) obtain s' L' where s': "shell_cmd_register self c s = Some (None, s')"
    "cmds_rep s' L'" "same_names s s'" "\<forall>p. p \<notin> set L \<longrightarrow> ht s' p = ht s p" "table_of s' L' = t(name (cmds s c) \<mapsto> c)"
    by (auto simp: shell_ready_def)
  have n: "name (cmds s' p) = name (cmds s p)" for p by (rule same_names_bucket [OF s'(3)])
  have "shell_table s' (t(name (cmds s c) \<mapsto> c))" unfolding shell_table_def s'(5) [symmetric] using s'(2) by blast
  moreover have "\<forall>d. shell_ready s d \<longrightarrow> d \<notin> ran t \<longrightarrow> shell_ready s' d"
    using s'(4) out n by (simp add: shell_ready_def)
  ultimately show "\<exists>s'. register_result (shell_cmd_register self c s) = Some s' \<and>
      shell_table s' (t(name (cmds s c) \<mapsto> c)) \<and> (\<lambda>c. name (cmds s' c)) = (\<lambda>c. name (cmds s c)) \<and>
      (\<forall>d. shell_ready s d \<longrightarrow> d \<notin> ran t \<longrightarrow> shell_ready s' d)"
    using s'(1) n by (simp add: register_result_def)
qed

end
