(* ===== verification/Shell_Complete.thy ===== *)
theory Shell_Complete
  imports Shell_Cmd_Correct "HOL-Library.Sublist"
begin

text \<open>
  Completion of command names: on the sorted list of the commands, the loops of
  \<^verbatim>\<open>shell_cmd_complete\<close> find the commands whose names begin with a given string, and the longest
  prefix that these names have in common.
\<close>

section \<open>Prefixes in the lexicographic order\<close>

text \<open>The names with a given beginning follow each other in the order.\<close>

lemma lex_convex:
  fixes a b c :: "'a::linorder list"
  assumes "take n a = take n c" "a \<le> b" "b \<le> c"
  shows "take n b = take n a"
  using assms
proof (induction n arbitrary: a b c)
  case (Suc n)
  show ?case
  proof (cases a)
    case Nil
    then show ?thesis using Suc.prems by (cases c) auto
  next
    case a: (Cons x xs)
    then obtain zs where c: "c = x # zs" using Suc.prems(1) by (cases c) auto
    obtain y ys where b: "b = y # ys" using Suc.prems(2) a by (cases b) auto
    have y: "y = x" "xs \<le> ys" "ys \<le> zs" using Suc.prems(2,3) unfolding a b c by (auto simp: Cons_le_Cons)
    have "take n xs = take n zs" using Suc.prems(1) unfolding a c by simp
    from Suc.IH [OF this y(2,3)] show ?thesis unfolding a b y(1) by simp
  qed
qed simp

lemma take_key [simp]: "take n (key cs) = key (take n cs)"
  by (simp add: key_def take_map)

lemma name_convex:
  assumes "take n a = take n c" "key a \<le> key b" "key b \<le> key c"
  shows "take n b = take n a"
  using lex_convex [of n "key a" "key c" "key b"] assms by simp

lemma strn_diff_take: "ascii a \<Longrightarrow> ascii b \<Longrightarrow> strn_diff a b n = 0 \<longleftrightarrow> take n a = take n b"
  unfolding strn_diff_def by (rule str_diff_eq) (auto simp: ascii_def dest: in_set_takeD)

section \<open>The loops\<close>

declare complete_size.simps [simp del]

lemma char_at_eq:
  assumes "ascii a" "ascii b" "m \<le> length a" "m \<le> length b"
  shows "char_at a m \<noteq> 0 \<and> char_at a m = char_at b m \<longleftrightarrow> m < length a \<and> m < length b \<and> a ! m = b ! m"
proof -
  have "m < length a \<Longrightarrow> a ! m \<noteq> 0" "m < length b \<Longrightarrow> b ! m \<noteq> 0"
    using ascii_nonzero [OF assms(1)] ascii_nonzero [OF assms(2)] nth_mem by metis+
  then show ?thesis using assms(3,4) by (auto simp: char_at_def)
qed

text \<open>The first index at which two strings differ.\<close>

definition first_diff :: "u8 list \<Rightarrow> u8 list \<Rightarrow> nat \<Rightarrow> bool" where
  "first_diff a b m \<longleftrightarrow> m \<le> length a \<and> m \<le> length b \<and> take m a = take m b \<and>
     \<not> (m < length a \<and> m < length b \<and> a ! m = b ! m)"

lemma complete_size_diff:
  assumes "ascii a" "ascii b" "0 < sz" "sz - 1 \<le> length a" "sz - 1 \<le> length b" "take (sz - 1) a = take (sz - 1) b"
  shows "first_diff a b (complete_size a b sz - 1)"
  using assms
proof (induction a b sz rule: complete_size.induct)
  case (1 a b sz)
  note eq = char_at_eq [OF 1(2,3,5,6)]
  show ?case
  proof (cases "char_at a (sz - 1) \<noteq> 0 \<and> char_at a (sz - 1) = char_at b (sz - 1)")
    case True
    then have m: "sz - 1 < length a" "sz - 1 < length b" "a ! (sz - 1) = b ! (sz - 1)" using eq by auto
    have "Suc (sz - 1) = sz" using 1(4) by simp
    then have "take sz a = take sz b"
      using m 1(7) take_Suc_conv_app_nth [of "sz - 1" a] take_Suc_conv_app_nth [of "sz - 1" b] by simp
    with 1(1) [OF True 1(2,3)] m have "first_diff a b (complete_size a b (sz + 1) - 1)" by simp
    moreover have "complete_size a b sz = complete_size a b (sz + 1)"
      by (subst complete_size.simps) (rule if_P [OF True])
    ultimately show ?thesis by simp
  next
    case False
    then have "complete_size a b sz = sz" by (subst complete_size.simps) auto
    moreover have "first_diff a b (sz - 1)" unfolding first_diff_def using False 1(5-7) unfolding eq by blast
    ultimately show ?thesis by simp
  qed
qed

lemma match_chain:
  assumes "chain (\<lambda>p. ls_next (cs p)) c L" "\<forall>x \<in> set L. ascii (name (cs x))" "ascii str"
  shows "shell_cmd_match cs c str sz =
    Some (case filter (\<lambda>p. take sz (name (cs p)) = take sz str) L of [] \<Rightarrow> 0 | p # _ \<Rightarrow> p)"
  using assms
proof (induction L arbitrary: c)
  case Nil
  then show ?case by (subst shell_cmd_match.simps) simp
next
  case (Cons x L)
  then show ?case by (subst shell_cmd_match.simps) (simp add: strn_diff_take)
qed

lemma complete_last_chain:
  assumes "chain (\<lambda>p. ls_next (cs p)) q (q # R)" "\<forall>x \<in> set (q # R). ascii (name (cs x))" "ascii nm"
  shows "complete_last cs nm sz q =
    Some (last (q # takeWhile (\<lambda>p. take sz (name (cs p)) = take sz nm) R))"
  using assms
proof (induction R arbitrary: q)
  case Nil
  then show ?case by (subst complete_last.simps) simp
next
  case (Cons x R)
  have "chain (\<lambda>p. ls_next (cs p)) x (x # R)" "ls_next (cs q) = x" "x \<noteq> 0" using Cons.prems(1) by auto
  moreover have "strn_diff nm (name (cs x)) sz = 0 \<longleftrightarrow> take sz (name (cs x)) = take sz nm"
    using Cons.prems(2,3) by (subst strn_diff_take) auto
  ultimately show ?case using Cons by (subst complete_last.simps) simp
qed

lemma filter_takeWhile_sorted:
  fixes f :: "'a \<Rightarrow> 'b::linorder"
  assumes "sorted_wrt (<) (map f (p # R))"
    and "\<And>q r. f p \<le> f q \<Longrightarrow> f q \<le> f r \<Longrightarrow> P r \<Longrightarrow> P q"
  shows "filter P R = takeWhile P R"
  using assms(1)
proof (induction R)
  case (Cons q R)
  have srt: "f p < f q" "\<forall>r \<in> set R. f q < f r" "sorted_wrt (<) (map f (p # R))" using Cons.prems by auto
  show ?case
  proof (cases "P q")
    case False
    then have "\<forall>r \<in> set R. \<not> P r" using srt assms(2) [of q] by fastforce
    then show ?thesis using False by (simp add: filter_empty_conv)
  qed (use Cons.IH [OF srt(3)] in simp)
qed simp

text \<open>Between the first and the last of sorted names, the common prefix is that of the two.\<close>

lemma lcp_first_last:
  assumes diff: "first_diff a b m" and ab: "a \<in> N" "b \<in> N"
    and mid: "\<forall>c \<in> N. key a \<le> key c \<and> key c \<le> key b"
  shows "length (Longest_common_prefix N) = m"
proof -
  have m: "m \<le> length a" "m \<le> length b" "take m a = take m b"
    "\<not> (m < length a \<and> m < length b \<and> a ! m = b ! m)" using diff by (simp_all add: first_diff_def)
  have "Longest_common_prefix N = take m a"
  proof (rule Longest_common_prefix_eq)
    show "\<forall>xs \<in> N. prefix (take m a) xs"
      using name_convex [OF m(3)] mid by (metis take_is_prefix)
    show "\<forall>qs. (\<forall>xs \<in> N. prefix qs xs) \<longrightarrow> length qs \<le> length (take m a)"
    proof (intro allI impI)
      fix qs assume "\<forall>xs \<in> N. prefix qs xs"
      then obtain u v where uv: "a = qs @ u" "b = qs @ v" using ab unfolding prefix_def by meson
      have "\<not> m < length qs" using m(4) unfolding uv by (auto simp: nth_append)
      then show "length qs \<le> length (take m a)" using m(1) by simp
    qed
  qed (use ab in auto)
  then show ?thesis using m(1) by simp
qed

section \<open>Completion\<close>

text \<open>The registered commands that a string of which \<open>sz\<close> characters count may stand for.\<close>

definition matches :: "'a shell_cmds_scheme \<Rightarrow> u32 list \<Rightarrow> u8 list \<Rightarrow> nat \<Rightarrow> u32 list" where
  "matches s L str sz = filter (\<lambda>p. take sz (name (cmds s p)) = take sz str) L"

definition completion ::
  "'a shell_cmds_scheme \<Rightarrow> u32 list \<Rightarrow> u8 list \<Rightarrow> nat \<Rightarrow> u32 \<Rightarrow> error option \<times> nat \<times> u32" where
  "completion s L str sz cmd =
     (case matches s L str sz of
        [] \<Rightarrow> (Some ERROR_INVAL, sz, cmd)
      | [p] \<Rightarrow> (None, length (name (cmds s p)), p)
      | p # _ \<Rightarrow> (Some ERROR_AGAIN,
          length (Longest_common_prefix ((\<lambda>q. name (cmds s q)) ` set (matches s L str sz))), p))"

lemma matches_Cons:
  assumes "matches s L str sz = p # ms" and "ls_rep s L"
  obtains R where "chain (ls s) p (p # R)" and "set (p # R) \<subseteq> set L"
    and "sorted_wrt (<) (map (\<lambda>p. key (name (cmds s p))) (p # R))"
    and "ms = takeWhile (\<lambda>q. take sz (name (cmds s q)) = take sz (name (cmds s p))) R"
    and "take sz (name (cmds s p)) = take sz str"
proof -
  let ?P = "\<lambda>p. take sz (name (cmds s p)) = take sz str"
  from assms(1) obtain us R where L: "L = us @ p # R" "\<forall>u \<in> set us. \<not> ?P u" "?P p" "ms = filter ?P R"
    unfolding matches_def filter_eq_Cons_iff by auto
  have ch: "chain (ls s) p (p # R)" "sorted_wrt (<) (map (\<lambda>p. key (name (cmds s p))) (p # R))"
    using assms(2) unfolding ls_rep_def L(1) by (auto simp: sorted_wrt_append dest: chain_suffix)
  have "filter ?P R = takeWhile ?P R"
    by (rule filter_takeWhile_sorted [OF ch(2)]) (use name_convex L(3) in metis)
  then show ?thesis using that [of R] ch L by auto
qed

lemma sorted_hd_last:
  fixes f :: "'a \<Rightarrow> 'b::linorder"
  assumes "sorted_wrt (<) (map f xs)" "x \<in> set xs"
  shows "f (hd xs) \<le> f x \<and> f x \<le> f (last xs)"
  using assms by (induction xs) (auto simp: order_le_less dest: less_trans)

lemma sorted_wrt_takeWhile_map: "sorted_wrt r (map f (p # R)) \<Longrightarrow> sorted_wrt r (map f (p # takeWhile P R))"
  by (metis map_append sorted_wrt_append takeWhile_dropWhile_id append_Cons)

lemma take_eq_length: "take n a = take n b \<Longrightarrow> a \<noteq> b \<Longrightarrow> n \<le> length a \<and> n \<le> length b"
  by (metis nat_le_linear take_all length_take min.absorb2 min.absorb_iff2)

text \<open>The prefix that the loop computes is common to all the matches.\<close>

lemma complete_size_matches:
  assumes srt: "sorted_wrt (<) (map (\<lambda>p. key (f p)) (p # ms))" and ms: "ms \<noteq> []"
    and asc: "\<forall>x \<in> set (p # ms). ascii (f x)" and eq: "\<forall>x \<in> set ms. take sz (f x) = take sz (f p)"
  shows "complete_size (f p) (f (last ms)) (max 1 sz) - 1 = length (Longest_common_prefix (f ` set (p # ms)))"
proof -
  let ?a = "f p" and ?b = "f (last ms)"
  have l: "last ms \<in> set ms" using ms by simp
  then have "?a \<noteq> ?b" using srt by auto
  then have "sz \<le> length ?a" "sz \<le> length ?b" "take sz ?a = take sz ?b"
    using eq l take_eq_length [of sz ?a ?b] by auto
  then have "first_diff ?a ?b (complete_size ?a ?b (max 1 sz) - 1)"
    using asc l by (intro complete_size_diff) (auto simp: max_def dest: arg_cong [of _ _ "take (sz - 1)"])
  moreover have "\<forall>x \<in> set (p # ms). key ?a \<le> key (f x) \<and> key (f x) \<le> key ?b"
    using sorted_hd_last [OF srt] ms by simp
  ultimately show ?thesis by (intro lcp_first_last [symmetric]) (use l in auto)
qed

lemma complete_ok:
  assumes lsr: "ls_rep s L" and str: "ascii str"
  shows "shell_cmd_complete str sz cmd s = Some (completion s L str sz cmd)"
proof (cases "matches s L str sz")
  case Nil
  have "shell_cmd_match (cmds s) (shell_list s) str sz = Some 0"
    using lsr Nil valid_ascii str by (subst match_chain [of _ _ L]) (auto simp: ls_rep_def matches_def)
  then show ?thesis using Nil by (simp add: shell_cmd_complete_def completion_def)
next
  case (Cons p ms)
  let ?n = "\<lambda>p. name (cmds s p)"
  have asc: "\<forall>x \<in> set L. ascii (?n x)" using valid_ascii lsr by (auto simp: ls_rep_def)
  from Cons lsr obtain R where R: "chain (ls s) p (p # R)" "set (p # R) \<subseteq> set L"
    "sorted_wrt (<) (map (\<lambda>p. key (?n p)) (p # R))"
    "ms = takeWhile (\<lambda>q. take sz (?n q) = take sz (?n p)) R" by (rule matches_Cons)
  have p: "p \<noteq> 0" "ascii (?n p)" "shell_cmd_match (cmds s) (shell_list s) str sz = Some p"
    using R(1,2) asc lsr Cons str by (auto simp: match_chain [of _ _ L] ls_rep_def matches_def)
  show ?thesis
  proof (cases ms)
    case Nil
    have "ls s p = 0 \<or> strn_diff (?n p) (?n (ls s p)) sz \<noteq> 0"
      using R Nil asc p(2) by (cases R) (auto simp: strn_diff_take split: if_splits)
    then show ?thesis using p Cons Nil by (auto simp: shell_cmd_complete_def completion_def Let_def)
  next
    case ms: (Cons q qs)
    then obtain R' where R': "R = q # R'" "qs = takeWhile (\<lambda>q. take sz (?n q) = take sz (?n p)) R'"
      "take sz (?n q) = take sz (?n p)" using R(4) by (cases R) (auto split: if_splits)
    have q: "ls s p = q" "q \<noteq> 0" "ascii (?n q)" "chain (ls s) q (q # R')" using R(1,2) R'(1) asc by auto
    have "complete_last (cmds s) (?n p) sz q = Some (last (q # qs))"
      unfolding R'(2) by (rule complete_last_chain [OF q(4)]) (use R(2) R'(1) asc p(2) in auto)
    moreover have tw: "set ms \<subseteq> set R" "\<forall>x \<in> set ms. take sz (?n x) = take sz (?n p)"
      unfolding R(4) using set_takeWhileD by fastforce+
    have "sorted_wrt (<) (map (\<lambda>p. key (?n p)) (p # ms))"
      using R(3) unfolding R(4) by (rule sorted_wrt_takeWhile_map)
    then have "complete_size (?n p) (?n (last ms)) (max 1 sz) - 1 = length (Longest_common_prefix (?n ` set (p # ms)))"
      by (rule complete_size_matches) (use ms tw R(2) asc in auto)
    ultimately show ?thesis
      using p Cons ms q R'(3)
      by (cases "sz = 0") (simp_all add: shell_cmd_complete_def completion_def strn_diff_take max_def del: last.simps)
  qed
qed

end
