(* ===== verification/Shell.thy ===== *)
theory Shell
  imports Shell_Line Thread
begin

text \<open>
  The line editor and the command loop of the shell: lib/shell.c from \<^verbatim>\<open>shell_cmd_help\<close> on,
  and \<^verbatim>\<open>shell_find_word\<close>.  What \<^verbatim>\<open>printf\<close> and \<^verbatim>\<open>putchar\<close> write on the serial line is
  appended to the output that theory Shell\_Cmd keeps.  A loop that may not end is a partial function
  without a result in that case.

  The thread that runs the shell is the parameter \<open>self\<close>, and \<open>call\<close> runs a command, given the address of
  its function; \<open>shell_call\<close> below adds the two commands of the shell to it.
\<close>

section \<open>State\<close>

definition SHELL_SEPARATOR :: u8 where "SHELL_SEPARATOR = of_char CHR '' ''"
definition SHELL_ERASE_BS :: u8 where "SHELL_ERASE_BS = 8"
definition SHELL_ERASE_DEL :: u8 where "SHELL_ERASE_DEL = 127"
definition SHELL_MAX_ARGS :: nat where "SHELL_MAX_ARGS = 16"
definition SHELL_ESC_SEQ_MAX_SIZE :: nat where "SHELL_ESC_SEQ_MAX_SIZE = 8"
definition SHELL_ESC_STATE_START :: nat where "SHELL_ESC_STATE_START = 1"
definition SHELL_ESC_STATE_CSI :: nat where "SHELL_ESC_STATE_CSI = 2"
definition THREAD_MIN_PRIORITY :: u32 where "THREAD_MIN_PRIORITY = 1"

text \<open>A pointer to a string: null, into \<^verbatim>\<open>shell_tmp_line\<close>, or to a constant.\<close>

datatype shell_arg = NULL | Tmp nat | Const "u8 list"

text \<open>\<open>esc_str\<close> and \<open>esc_ptr\<close> are the static variables of \<^verbatim>\<open>shell_process_esc_sequence\<close>.\<close>

record shell = shell_hist +
  shell_tab :: shell_cmds
  shell_cursor :: u32
  shell_tmp_line :: "u8 list"
  shell_argc :: int
  shell_argv :: "shell_arg list"
  esc_str :: "u8 list"
  esc_ptr :: nat

definition emit :: "u8 list \<Rightarrow> 'a shell_scheme \<Rightarrow> 'a shell_scheme" where
  "emit cs s = s\<lparr>shell_tab := print cs (shell_tab s)\<rparr>"

definition putchar :: "u8 \<Rightarrow> 'a shell_scheme \<Rightarrow> 'a shell_scheme" where
  "putchar c s = emit [c] s"

fun emit_times :: "nat \<Rightarrow> u8 list \<Rightarrow> 'a shell_scheme \<Rightarrow> 'a shell_scheme" where
  "emit_times 0 cs s = s"
| "emit_times (Suc n) cs s = emit_times n cs (emit cs s)"

abbreviation ESC :: u8 where "ESC \<equiv> 27"

definition newest :: "'a shell_scheme \<Rightarrow> shell_line" where
  "newest s = shell_history s ! shell_history_get_newest s"

section \<open>Commands of the shell\<close>

text \<open>The offset of the first word.\<close>

function find_word_from :: "u8 list \<Rightarrow> nat \<Rightarrow> nat option" where
  "find_word_from cs i =
     (if i < length cs then (if cs ! i = 0 \<or> cs ! i \<noteq> SHELL_SEPARATOR then Some i else find_word_from cs (i + 1))
      else None)"
  by pat_completeness auto

termination
  by (relation "measure (\<lambda>(cs, i). length cs - i)") auto

definition shell_find_word :: "u8 list \<Rightarrow> nat option" where
  "shell_find_word cs = find_word_from cs 0"

definition arg_text :: "'a shell_scheme \<Rightarrow> shell_arg \<Rightarrow> u8 list option" where
  "arg_text s a = (case a of NULL \<Rightarrow> None | Tmp i \<Rightarrow> c_str (drop i (shell_tmp_line s)) | Const cs \<Rightarrow> Some cs)"

text \<open>\<^verbatim>\<open>%13s\<close> and \<^verbatim>\<open>%6lu\<close>.\<close>

definition pad_left :: "nat \<Rightarrow> u8 list \<Rightarrow> u8 list" where
  "pad_left n cs = replicate (n - length cs) 32 @ cs"

fun dec_text :: "nat \<Rightarrow> u8 list" where
  "dec_text n = (if n < 10 then [48 + of_nat n] else dec_text (n div 10) @ [48 + of_nat (n mod 10)])"

partial_function (option) help_list :: "u32 \<Rightarrow> 'a shell_scheme \<Rightarrow> 'a shell_scheme option" where
  "help_list cmd s =
     (if cmd \<noteq> 0 then
        help_list (ls_next (cmds (shell_tab s) cmd))
          (emit (pad_left 13 (name (cmds (shell_tab s) cmd)) @ text_of ''  '' @
             short_desc (cmds (shell_tab s) cmd) @ [10]) s)
      else Some s)"

definition shell_cmd_help :: "tid \<Rightarrow> 'a shell_scheme \<Rightarrow> 'a shell_scheme option" where
  "shell_cmd_help self s = do {
     let argc = shell_argc s;
     (argc, s) \<leftarrow> (if argc > 2 then do {
         argv \<leftarrow> put (shell_argv s) 1 (Const (text_of ''help''));
         Some (2, s\<lparr>shell_argv := argv\<rparr>)
       } else Some (argc, s));
     if argc = 2 then do {
       nm \<leftarrow> arg_text s (shell_argv s ! 1);
       (cmd, tab) \<leftarrow> shell_cmd_lookup self nm (shell_tab s);
       let s = s\<lparr>shell_tab := tab\<rparr>;
       if cmd = 0 then Some (emit (text_of ''shell: help: '' @ nm @ text_of '': command not found'' @ [10]) s)
       else do {
         let c = cmds (shell_tab s) cmd;
         let s = emit (text_of ''usage: '' @ usage c @ [10] @ short_desc c @ [10]) s;
         Some (case long_desc c of None \<Rightarrow> s | Some cs \<Rightarrow> emit ([10] @ cs @ [10]) s)
       }
     } else do {
       tab \<leftarrow> shell_cmd_acquire self (shell_tab s);
       s \<leftarrow> help_list (shell_list tab) (s\<lparr>shell_tab := tab\<rparr>);
       tab \<leftarrow> shell_cmd_release self (shell_tab s);
       Some (s\<lparr>shell_tab := tab\<rparr>)
     }
   }"

partial_function (option) history_list :: "u32 \<Rightarrow> 'a shell_scheme \<Rightarrow> 'a shell_scheme option" where
  "history_list i s =
     (if i \<noteq> shell_history_newest s then do {
        cs \<leftarrow> c_str (shell_line_str (shell_history s ! shell_history_get i));
        history_list (i + 1)
          (emit (pad_left 6 (dec_text (unat (i - shell_history_oldest s))) @ text_of ''  '' @ cs @ [10]) s)
      } else Some s)"

definition shell_cmd_history :: "'a shell_scheme \<Rightarrow> 'a shell_scheme option" where
  "shell_cmd_history s = history_list (shell_history_oldest s) s"

section \<open>The display\<close>

definition shell_prompt :: "'a shell_scheme \<Rightarrow> 'a shell_scheme" where
  "shell_prompt s = emit (text_of ''shell> '') s"

definition shell_reset :: "'a shell_scheme \<Rightarrow> 'a shell_scheme option" where
  "shell_reset s = do {
     line \<leftarrow> shell_line_reset (newest s);
     let s = (set_newest line s)\<lparr>shell_cursor := 0\<rparr>;
     Some (shell_prompt s)
   }"

partial_function (option) erase_blank :: "u32 \<Rightarrow> 'a shell_scheme \<Rightarrow> 'a shell_scheme option" where
  "erase_blank remaining_chars s =
     (if shell_cursor s \<noteq> remaining_chars
      then erase_blank remaining_chars ((putchar 32 s)\<lparr>shell_cursor := shell_cursor s + 1\<rparr>)
      else Some s)"

definition shell_erase :: "'a shell_scheme \<Rightarrow> 'a shell_scheme option" where
  "shell_erase s = do {
     let remaining_chars = shell_line_size (newest s);
     s \<leftarrow> erase_blank remaining_chars s;
     let s = emit_times (unat remaining_chars) [8, 32, 8] s;
     Some (s\<lparr>shell_cursor := 0\<rparr>)
   }"

definition shell_restore :: "'a shell_scheme \<Rightarrow> 'a shell_scheme option" where
  "shell_restore s = do {
     cs \<leftarrow> c_str (shell_line_str (newest s));
     Some ((emit cs s)\<lparr>shell_cursor := shell_line_size (newest s)\<rparr>)
   }"

definition shell_is_ctrl_char :: "u8 \<Rightarrow> bool" where
  "shell_is_ctrl_char c \<longleftrightarrow> sint c < 32 \<or> sint c \<ge> 127"

definition shell_process_left :: "'a shell_scheme \<Rightarrow> 'a shell_scheme" where
  "shell_process_left s =
     (if shell_cursor s = 0 then s
      else emit (ESC # text_of ''[1D'') (s\<lparr>shell_cursor := shell_cursor s - 1\<rparr>))"

definition shell_process_right :: "'a shell_scheme \<Rightarrow> error option \<times> 'a shell_scheme" where
  "shell_process_right s =
     (if shell_cursor s \<ge> shell_line_size (newest s) then (Some ERROR_AGAIN, s)
      else (None, emit (ESC # text_of ''[1C'') (s\<lparr>shell_cursor := shell_cursor s + 1\<rparr>)))"

definition shell_process_up :: "'a shell_scheme \<Rightarrow> 'a shell_scheme option" where
  "shell_process_up s = do {
     s \<leftarrow> shell_erase s;
     s \<leftarrow> shell_history_back s;
     shell_restore s
   }"

definition shell_process_down :: "'a shell_scheme \<Rightarrow> 'a shell_scheme option" where
  "shell_process_down s = do {
     s \<leftarrow> shell_erase s;
     s \<leftarrow> shell_history_forward s;
     shell_restore s
   }"

section \<open>Editing\<close>

definition shell_process_backspace :: "'a shell_scheme \<Rightarrow> 'a shell_scheme option" where
  "shell_process_backspace s = do {
     (err, line) \<leftarrow> shell_line_erase (newest s) (shell_cursor s - 1);
     if err \<noteq> None then Some s
     else do {
       let s = (set_newest line s)\<lparr>shell_cursor := shell_cursor s - 1\<rparr>;
       cs \<leftarrow> c_str (drop (unat (shell_cursor s)) (shell_line_str line));
       let s = emit ([8] @ cs @ [32]) s;
       let remaining_chars = shell_line_size line - shell_cursor s + 1;
       Some (emit_times (unat remaining_chars) [8] s)
     }
   }"

definition shell_process_raw_char :: "u8 \<Rightarrow> 'a shell_scheme \<Rightarrow> (error option \<times> 'a shell_scheme) option" where
  "shell_process_raw_char c s = do {
     (err, line) \<leftarrow> shell_line_insert (newest s) (shell_cursor s) c;
     if err \<noteq> None then Some (err, emit ([10] @ text_of ''shell: line too long'' @ [10]) s)
     else do {
       let s = (set_newest line s)\<lparr>shell_cursor := shell_cursor s + 1\<rparr>;
       if shell_cursor s = shell_line_size line then Some (None, putchar c s)
       else do {
         cs \<leftarrow> c_str (drop (unat (shell_cursor s - 1)) (shell_line_str line));
         let s = emit cs s;
         let remaining_chars = shell_line_size line - shell_cursor s;
         Some (None, emit_times (unat remaining_chars) [8] s)
       }
     }
   }"

text \<open>The loops of \<^verbatim>\<open>shell_process_tabulation\<close> and of \<^verbatim>\<open>shell_esc_seq_home\<close>.\<close>

partial_function (option) left_to :: "u32 \<Rightarrow> 'a shell_scheme \<Rightarrow> 'a shell_scheme option" where
  "left_to cursor s = (if shell_cursor s \<noteq> cursor then left_to cursor (shell_process_left s) else Some s)"

partial_function (option) backspace_to :: "u32 \<Rightarrow> 'a shell_scheme \<Rightarrow> 'a shell_scheme option" where
  "backspace_to cmd_cursor s =
     (if shell_cursor s \<noteq> cmd_cursor then do {
        s \<leftarrow> shell_process_backspace s;
        backspace_to cmd_cursor s
      } else Some s)"

fun insert_chars :: "u8 list \<Rightarrow> 'a shell_scheme \<Rightarrow> (error option \<times> 'a shell_scheme) option" where
  "insert_chars [] s = Some (None, s)"
| "insert_chars (c # cs) s = do {
     (err, s) \<leftarrow> shell_process_raw_char c s;
     if err \<noteq> None then Some (err, s) else insert_chars cs s
   }"

definition set_tab :: "shell_cmds \<Rightarrow> 'a shell_scheme \<Rightarrow> 'a shell_scheme" where
  "set_tab tab s = s\<lparr>shell_tab := tab\<rparr>"

text \<open>The part of \<^verbatim>\<open>shell_process_tabulation\<close> that replaces the word by the completion.\<close>

definition tabulation_replace ::
  "error option \<Rightarrow> nat \<Rightarrow> u32 \<Rightarrow> u32 \<Rightarrow> 'a shell_scheme \<Rightarrow> (error option \<times> 'a shell_scheme) option" where
  "tabulation_replace err sz cmd cmd_cursor s = do {
     s \<leftarrow> (if err = Some ERROR_AGAIN then do {
         let cursor = shell_cursor s;
         tab \<leftarrow> shell_cmd_print_matches cmd sz (shell_tab s);
         s \<leftarrow> shell_restore (shell_prompt (set_tab tab s));
         left_to cursor s
       } else Some s);
     let name = shell_cmd_name (shell_tab s) cmd;
     s \<leftarrow> backspace_to cmd_cursor s;
     insert_chars (map (char_at name) [0..<sz]) s
   }"

definition shell_process_tabulation :: "tid \<Rightarrow> 'a shell_scheme \<Rightarrow> (error option \<times> 'a shell_scheme) option" where
  "shell_process_tabulation self s = do {
     tab \<leftarrow> shell_cmd_acquire self (shell_tab s);
     let s = set_tab tab s;
     let str = shell_line_str (newest s);
     word \<leftarrow> shell_find_word str;
     let size = shell_cursor s - of_nat word;
     let cmd_cursor = shell_cursor s - size;
     cs \<leftarrow> c_str (drop word str);
     (err, sz, cmd) \<leftarrow> shell_cmd_complete cs (unat size) 0 (shell_tab s);
     (err, s) \<leftarrow> (if err \<noteq> None \<and> err \<noteq> Some ERROR_AGAIN then Some (None, s)
                    else tabulation_replace err sz cmd cmd_cursor s);
     tab \<leftarrow> shell_cmd_release self (shell_tab s);
     Some (err, set_tab tab s)
   }"

section \<open>Escape sequences\<close>

definition shell_esc_seq_up :: "'a shell_scheme \<Rightarrow> 'a shell_scheme option" where
  "shell_esc_seq_up s = shell_process_up s"

definition shell_esc_seq_down :: "'a shell_scheme \<Rightarrow> 'a shell_scheme option" where
  "shell_esc_seq_down s = shell_process_down s"

definition shell_esc_seq_next :: "'a shell_scheme \<Rightarrow> 'a shell_scheme option" where
  "shell_esc_seq_next s = Some (snd (shell_process_right s))"

definition shell_esc_seq_prev :: "'a shell_scheme \<Rightarrow> 'a shell_scheme option" where
  "shell_esc_seq_prev s = Some (shell_process_left s)"

definition shell_esc_seq_home :: "'a shell_scheme \<Rightarrow> 'a shell_scheme option" where
  "shell_esc_seq_home s = left_to 0 s"

definition shell_esc_seq_del :: "'a shell_scheme \<Rightarrow> 'a shell_scheme option" where
  "shell_esc_seq_del s =
     (case shell_process_right s of (err, s) \<Rightarrow> if err \<noteq> None then Some s else shell_process_backspace s)"

partial_function (option) right_to :: "u32 \<Rightarrow> 'a shell_scheme \<Rightarrow> 'a shell_scheme option" where
  "right_to sz s = (if shell_cursor s < sz then right_to sz (snd (shell_process_right s)) else Some s)"

definition shell_esc_seq_end :: "'a shell_scheme \<Rightarrow> 'a shell_scheme option" where
  "shell_esc_seq_end s = right_to (shell_line_size (newest s)) s"

definition shell_esc_seqs :: "(u8 list \<times> ('a shell_scheme \<Rightarrow> 'a shell_scheme option)) list" where
  "shell_esc_seqs =
     [(text_of ''A'', shell_esc_seq_up),
      (text_of ''B'', shell_esc_seq_down),
      (text_of ''C'', shell_esc_seq_next),
      (text_of ''D'', shell_esc_seq_prev),
      (text_of ''H'', shell_esc_seq_home),
      (text_of ''1~'', shell_esc_seq_home),
      (text_of ''3~'', shell_esc_seq_del),
      (text_of ''F'', shell_esc_seq_end),
      (text_of ''4~'', shell_esc_seq_end)]"

definition shell_esc_seq_lookup :: "u8 list \<Rightarrow> (u8 list \<times> ('a shell_scheme \<Rightarrow> 'a shell_scheme option)) option" where
  "shell_esc_seq_lookup str = find (\<lambda>seq. str_diff (fst seq) str = 0) shell_esc_seqs"

text \<open>The next escape state, or 0 if the sequence is complete.\<close>

definition shell_process_esc_sequence :: "u8 \<Rightarrow> 'a shell_scheme \<Rightarrow> (nat \<times> 'a shell_scheme) option" where
  "shell_process_esc_sequence c s =
     (if esc_ptr s \<ge> SHELL_ESC_SEQ_MAX_SIZE - 1
      then Some (0, (emit (text_of ''shell: escape sequence too long'' @ [10]) s)\<lparr>esc_ptr := 0\<rparr>)
      else do {
        cs \<leftarrow> put (esc_str s) (esc_ptr s) c;
        let p = esc_ptr s + 1;
        cs \<leftarrow> put cs p 0;
        let s = s\<lparr>esc_str := cs, esc_ptr := p\<rparr>;
        if sint c \<ge> 64 \<and> sint c \<le> 126 then do {
          str \<leftarrow> c_str (esc_str s);
          s \<leftarrow> (case shell_esc_seq_lookup str of None \<Rightarrow> Some s | Some seq \<Rightarrow> snd seq s);
          Some (0, s\<lparr>esc_ptr := 0\<rparr>)
        } else Some (SHELL_ESC_STATE_CSI, s)
      })"

section \<open>Arguments\<close>

function args_loop ::
  "nat \<Rightarrow> nat \<Rightarrow> u8 \<Rightarrow> u8 list \<Rightarrow> shell_arg list \<Rightarrow> (error option \<times> nat \<times> u8 list \<times> shell_arg list) option" where
  "args_loop i j prev tmp argv =
     (if i < length tmp then
        let c = tmp ! i in
        if c = 0 then Some (None, j, tmp, argv)
        else if c = SHELL_SEPARATOR then
          args_loop (i + 1) j c (if prev \<noteq> SHELL_SEPARATOR then tmp[i := 0] else tmp) argv
        else if prev = SHELL_SEPARATOR then do {
          argv \<leftarrow> put argv j (Tmp i);
          if j + 1 = SHELL_MAX_ARGS then Some (Some ERROR_INVAL, j + 1, tmp, argv)
          else do {
            argv \<leftarrow> put argv (j + 1) NULL;
            args_loop (i + 1) (j + 1) c tmp argv
          }
        } else args_loop (i + 1) j c tmp argv
      else None)"
  by pat_completeness auto

termination
  by (relation "measure (\<lambda>(i, j, prev, tmp, argv). length tmp - i)") auto

text \<open>\<^verbatim>\<open>snprintf(tmp, size, "%s", cs)\<close>.\<close>

definition snprintf_s :: "u8 list \<Rightarrow> nat \<Rightarrow> u8 list \<Rightarrow> u8 list" where
  "snprintf_s tmp n cs = take (n - 1) cs @ 0 # drop (Suc (length (take (n - 1) cs))) tmp"

definition shell_process_args :: "'a shell_scheme \<Rightarrow> (error option \<times> 'a shell_scheme) option" where
  "shell_process_args s = do {
     cs \<leftarrow> c_str (shell_line_str (newest s));
     (err, j, tmp, argv) \<leftarrow> args_loop 0 0 SHELL_SEPARATOR
       (snprintf_s (shell_tmp_line s) SHELL_LINE_MAX_SIZE cs) (shell_argv s);
     let s = s\<lparr>shell_tmp_line := tmp, shell_argv := argv\<rparr>;
     Some (case err of
         Some e \<Rightarrow> (Some e, emit (text_of ''shell: too many arguments'' @ [10]) s)
       | None \<Rightarrow> (None, s\<lparr>shell_argc := int j\<rparr>))
   }"

section \<open>The command loop\<close>

definition shell_process_line ::
  "(u32 \<Rightarrow> 'a shell_scheme \<Rightarrow> 'a shell_scheme option) \<Rightarrow> tid \<Rightarrow> 'a shell_scheme \<Rightarrow> 'a shell_scheme option" where
  "shell_process_line call self s = do {
     (err, s) \<leftarrow> shell_process_args s;
     (cmd, s) \<leftarrow> (if err \<noteq> None \<or> shell_argc s = 0 then Some (0, s)
       else do {
         nm \<leftarrow> arg_text s (shell_argv s ! 0);
         (cmd, tab) \<leftarrow> shell_cmd_lookup self nm (shell_tab s);
         let s = set_tab tab s;
         Some (cmd, if cmd = 0 then emit (text_of ''shell: '' @ nm @ text_of '': command not found'' @ [10]) s else s)
       });
     s \<leftarrow> shell_history_push s;
     if cmd \<noteq> 0 then call (cmd_fn (cmds (shell_tab s) cmd)) s else Some s
   }"

definition shell_process_ctrl_char ::
  "(u32 \<Rightarrow> 'a shell_scheme \<Rightarrow> 'a shell_scheme option) \<Rightarrow> tid \<Rightarrow> u8 \<Rightarrow> 'a shell_scheme \<Rightarrow>
   (error option \<times> 'a shell_scheme) option" where
  "shell_process_ctrl_char call self c s =
     (if c = SHELL_ERASE_BS \<or> c = SHELL_ERASE_DEL then do {
        s \<leftarrow> shell_process_backspace s;
        Some (None, s)
      }
      else if c = 9 then shell_process_tabulation self s
      else if c = 10 \<or> c = 13 then do {
        s \<leftarrow> shell_process_line call self (putchar 10 s);
        Some (Some ERROR_AGAIN, s)
      }
      else Some (None, s))"

text \<open>
  One round of the inner loop of \<^verbatim>\<open>shell_run\<close> on what \<^verbatim>\<open>getchar\<close> returned: the error, the
  escape state and the state.  \<open>shell_run_char\<close> also goes round the outer loop when the inner one is left.
\<close>

definition shell_run_inner ::
  "(u32 \<Rightarrow> 'a shell_scheme \<Rightarrow> 'a shell_scheme option) \<Rightarrow> tid \<Rightarrow> int \<Rightarrow> nat \<times> 'a shell_scheme \<Rightarrow>
   (error option \<times> nat \<times> 'a shell_scheme) option" where
  "shell_run_inner call self c = (\<lambda>(escape, s).
     if escape \<noteq> 0 then
       (if escape = SHELL_ESC_STATE_START then
          Some (None, if c = 91 \<or> c = 79 then SHELL_ESC_STATE_CSI else 0, s)
        else if escape = SHELL_ESC_STATE_CSI then do {
          (escape, s) \<leftarrow> shell_process_esc_sequence (of_int c) s;
          Some (None, escape, s)
        }
        else Some (None, 0, s))
     else if shell_is_ctrl_char (of_int c) then
       (if c = 27 then Some (None, SHELL_ESC_STATE_START, s)
        else do {
          (err, s) \<leftarrow> shell_process_ctrl_char call self (of_int c) s;
          Some (err, escape, s)
        })
     else do {
       (err, s) \<leftarrow> shell_process_raw_char (of_int c) s;
       Some (err, escape, s)
     })"

definition shell_run_char ::
  "(u32 \<Rightarrow> 'a shell_scheme \<Rightarrow> 'a shell_scheme option) \<Rightarrow> tid \<Rightarrow> int \<Rightarrow> nat \<times> 'a shell_scheme \<Rightarrow>
   (nat \<times> 'a shell_scheme) option" where
  "shell_run_char call self c p = do {
     (err, escape, s) \<leftarrow> shell_run_inner call self c p;
     if err \<noteq> None then do { s \<leftarrow> shell_reset s; Some (0, s) } else Some (escape, s)
   }"

text \<open>
  The shell from its start: \<open>shell_run_chars\<close> goes on with the values that \<^verbatim>\<open>getchar\<close> returns, and
  \<open>shell_run\<close> takes the results of \<^verbatim>\<open>uart_read\<close> (theory Drivers), which \<^verbatim>\<open>getchar\<close> turns into them.
\<close>

definition getchar :: "error + u8 \<Rightarrow> int" where
  "getchar r = (case r of Inl _ \<Rightarrow> - 1 | Inr byte \<Rightarrow> uint byte)"

fun shell_run_chars ::
  "(u32 \<Rightarrow> 'a shell_scheme \<Rightarrow> 'a shell_scheme option) \<Rightarrow> tid \<Rightarrow> int list \<Rightarrow> nat \<times> 'a shell_scheme \<Rightarrow>
   (nat \<times> 'a shell_scheme) option" where
  "shell_run_chars call self [] p = Some p"
| "shell_run_chars call self (c # cs) p = do { p \<leftarrow> shell_run_char call self c p; shell_run_chars call self cs p }"

definition shell_run ::
  "(u32 \<Rightarrow> 'a shell_scheme \<Rightarrow> 'a shell_scheme option) \<Rightarrow> tid \<Rightarrow> (error + u8) list \<Rightarrow> 'a shell_scheme \<Rightarrow>
   (nat \<times> 'a shell_scheme) option" where
  "shell_run call self rs s = do { s \<leftarrow> shell_reset s; shell_run_chars call self (map getchar rs) (0, s) }"

text \<open>
  The functions of the default commands are at the addresses \<open>help\<close> and \<open>history\<close>; \<open>ext\<close> runs the others.
\<close>

definition shell_call ::
  "u32 \<Rightarrow> u32 \<Rightarrow> (u32 \<Rightarrow> 'a shell_scheme \<Rightarrow> 'a shell_scheme option) \<Rightarrow> tid \<Rightarrow> u32 \<Rightarrow> 'a shell_scheme \<Rightarrow> 'a shell_scheme option" where
  "shell_call help history ext self f s =
     (if f = help then shell_cmd_help self s else if f = history then shell_cmd_history s else ext f s)"

section \<open>Start-up\<close>

text \<open>The array of the default commands, at the address \<open>a\<close> (a structure takes 28 bytes).\<close>

definition shell_default_cmds :: "u32 \<Rightarrow> u32 \<Rightarrow> u32 \<Rightarrow> 'a shell_cmds_scheme \<Rightarrow> 'a shell_cmds_scheme" where
  "shell_default_cmds a help history s =
     shell_cmd_init (a + 28) (text_of ''history'') history (text_of ''history'') (text_of ''display history list'') None
       (shell_cmd_init a (text_of ''help'') help (text_of ''help [command]'')
          (text_of ''obtain help about shell commands'') None s)"

fun register_cmds :: "tid \<Rightarrow> u32 list \<Rightarrow> 'a shell_cmds_scheme \<Rightarrow> 'a shell_cmds_scheme option" where
  "register_cmds self [] s = Some s"
| "register_cmds self (c # cs) s = do {
     (err, s) \<leftarrow> shell_cmd_register self c s;
     assert (err = None);
     register_cmds self cs s
   }"

text \<open>\<open>t\<close>, \<open>stack\<close> and \<open>fn\<close> are those of the call of \<^verbatim>\<open>thread_create\<close> (theory Thread).\<close>

definition shell_setup ::
  "tid \<Rightarrow> u32 \<Rightarrow> tid \<Rightarrow> u32 \<Rightarrow> instr list \<Rightarrow> shell_cmds \<times> kernel \<Rightarrow> (shell_cmds \<times> kernel) option" where
  "shell_setup self a t stack fn = (\<lambda>(s, k). do {
     let s = s\<lparr>shell_lock := mutex_init (shell_lock s)\<rparr>;
     s \<leftarrow> register_cmds self [a, a + 28] s;
     (err, k) \<leftarrow> thread_create t stack fn THREAD_MIN_PRIORITY k;
     assert (err = None);
     Some (s, k)
   })"

declare help_list.simps [code] history_list.simps [code] erase_blank.simps [code] left_to.simps [code]
  backspace_to.simps [code] right_to.simps [code]

end
