(* ===== verification/Shell_Line_Correct.thy ===== *)
theory Shell_Line_Correct
  imports Shell_Line
begin

text \<open>
  A line of the shell stands for a text, and the history for the sequence of the texts entered before:
  \<open>line_rep\<close> and \<open>hist_rep\<close> relate them, and each operation is shown to do on the arrays what its
  counterpart does on the texts.
\<close>

section \<open>Lines as texts\<close>

definition line_rep :: "shell_line \<Rightarrow> u8 list \<Rightarrow> bool" where
  "line_rep line t \<longleftrightarrow> (\<exists>rest. line_str line = t @ 0 # rest) \<and> length (line_str line) = SHELL_LINE_MAX_SIZE \<and>
     0 \<notin> set t \<and> line_size line = of_nat (length t)"

lemma line_repE:
  assumes "line_rep line t"
  obtains rest where "line_str line = t @ 0 # rest" "length t + Suc (length rest) = 64" "0 \<notin> set t"
    "line_size line = of_nat (length t)" "unat (line_size line) = length t"
  using assms by (auto simp: line_rep_def SHELL_LINE_MAX_SIZE_def unat_of_nat_u32)

lemma line_rep_length: "line_rep line t \<Longrightarrow> length t < 64"
  by (erule line_repE) simp

lemma takeWhile_str: "0 \<notin> set t \<Longrightarrow> takeWhile (\<lambda>c. c \<noteq> 0) (t @ 0 # rest) = t"
  by (subst takeWhile_append2) auto

lemma c_str_line: "line_rep line t \<Longrightarrow> c_str (line_str line) = Some t"
  by (erule line_repE) (simp add: c_str_def takeWhile_str)

lemma c_str_drop:
  assumes "line_rep line t" "i \<le> length t"
  shows "c_str (drop i (line_str line)) = Some (drop i t)"
proof -
  have "0 \<notin> set (drop i t)" using assms(1) by (auto simp: line_rep_def dest: in_set_dropD)
  then show ?thesis using assms by (auto elim!: line_repE simp: c_str_def takeWhile_str)
qed

lemma line_rep_unique: "line_rep line t \<Longrightarrow> line_rep line t' \<Longrightarrow> t = t'"
  using c_str_line [of line t] c_str_line [of line t'] by simp

lemma line_reset_ok:
  assumes "line_rep line t"
  shows "\<exists>line'. shell_line_reset line = Some line' \<and> line_rep line' []"
proof -
  obtain x xs where "line_str line = x # xs" "length xs = 63"
    using assms by (cases "line_str line") (auto simp: line_rep_def SHELL_LINE_MAX_SIZE_def)
  then show ?thesis by (simp add: shell_line_reset_def put_def line_rep_def SHELL_LINE_MAX_SIZE_def)
qed

lemma line_copy_ok:
  assumes "line_rep dest t" "line_rep src u"
  shows "\<exists>line'. shell_line_copy dest src = Some line' \<and> line_rep line' u"
proof -
  have "length (line_str dest) = 64" "length u < 64" "0 \<notin> set u" "line_size src = of_nat (length u)"
    using assms line_rep_length by (auto simp: line_rep_def SHELL_LINE_MAX_SIZE_def)
  then show ?thesis using c_str_line [OF assms(2)]
    by (simp add: shell_line_copy_def copy_str_def line_rep_def SHELL_LINE_MAX_SIZE_def)
qed

lemma line_cmp_ok: "line_rep a t \<Longrightarrow> line_rep b u \<Longrightarrow> shell_line_cmp a b = Some (str_diff t u)"
  by (simp add: shell_line_cmp_def c_str_line)

lemma str_diff_texts: "line_rep a t \<Longrightarrow> line_rep b u \<Longrightarrow> str_diff t u = 0 \<longleftrightarrow> t = u"
  using str_diff_eq_0 by (auto simp: line_rep_def)

section \<open>Insertion and removal\<close>

lemma move_up:
  assumes "i \<le> length t"
  shows "\<exists>x. move (t @ z # rest) (Suc i) i (length t - i) = Some (take i t @ x # drop i t @ rest)"
proof (cases "i < length t")
  case True
  then have "take (Suc i) (t @ z # rest) = take i t @ [t ! i]" by (simp add: take_Suc_conv_app_nth)
  moreover have "take (length t - i) (drop i (t @ z # rest)) = drop i t" by simp
  ultimately show ?thesis using assms by (auto simp: move_def)
next
  case False
  then show ?thesis using assms by (auto simp: move_def)
qed

text \<open>The comparisons and differences of the code, on small numbers.\<close>

lemma small_words:
  assumes "i \<le> n" "n < 64"
  shows "unat (of_nat i :: u32) = i" "unat (of_nat i + 1 :: u32) = Suc i" "unat (of_nat n - of_nat i :: u32) = n - i"
    "\<not> (of_nat i :: u32) > of_nat n" "(of_nat n - of_nat i :: u32) = 0 \<longleftrightarrow> i = n"
    "of_nat n + 1 = (64 :: u32) \<longleftrightarrow> n = 63"
proof -
  have u: "unat (of_nat m :: u32) = m" if "m \<le> 64" for m using that by (intro unat_of_nat_u32) simp
  show a: "unat (of_nat i :: u32) = i" and "unat (of_nat i + 1 :: u32) = Suc i"
    using u [of i] u [of "Suc i"] assms by (simp_all add: add.commute)
  show d: "unat (of_nat n - of_nat i :: u32) = n - i"
    using u [of n] a assms by (simp add: unat_sub_no_wrap)
  show "\<not> (of_nat i :: u32) > of_nat n" using u [of n] a assms by (simp add: word_less_nat_alt)
  show "(of_nat n - of_nat i :: u32) = 0 \<longleftrightarrow> i = n" using d assms by (metis diff_is_0_eq' le_antisym unat_0 unat_eq_zero diff_is_0_eq)
  show "of_nat n + 1 = (64 :: u32) \<longleftrightarrow> n = 63"
    using u [of "Suc n"] u [of 64] assms unfolding word_unat_eq_iff by (simp add: add.commute)
qed

lemma line_insert_ok:
  assumes rep: "line_rep line t" and i: "i \<le> length t" and c: "c \<noteq> 0" and len: "length t < 63"
  shows "\<exists>line'. shell_line_insert line (of_nat i) c = Some (None, line') \<and> line_rep line' (take i t @ c # drop i t)"
proof -
  obtain rest where r: "line_str line = t @ 0 # rest" "length t + Suc (length rest) = 64" "0 \<notin> set t"
    "line_size line = of_nat (length t)" using rep by (rule line_repE)
  obtain z rest' where rest: "rest = z # rest'" using r(2) len by (cases rest) auto
  have l: "length t < 64" using len by simp
  note w = small_words [OF i l]
  obtain x where x: "(if i = length t then Some (t @ 0 # rest) else move (t @ 0 # rest) (Suc i) i (length t - i)) =
      Some (take i t @ x # drop i t @ rest)"
    using move_up [OF i, of 0 rest] by (cases "i = length t") auto
  have p1: "put (take i t @ x # drop i t @ rest) i c = Some (take i t @ c # drop i t @ rest)"
    using i by (simp add: put_def list_update_append)
  have p2: "put (take i t @ c # drop i t @ rest) (Suc (length t)) 0 = Some (take i t @ c # drop i t @ 0 # rest')"
    using i by (simp add: put_def list_update_append rest Suc_diff_le nth_Cons')
  have "shell_line_insert line (of_nat i) c = Some (None, line\<lparr>line_str := take i t @ c # drop i t @ 0 # rest',
      line_size := of_nat (length t) + 1\<rparr>)"
    using w x p1 p2 len small_words(2) [OF order_refl l]
    by (cases "i = length t") (simp_all add: shell_line_insert_def r SHELL_LINE_MAX_SIZE_def)
  moreover have "0 \<notin> set (take i t @ c # drop i t)" using r(3) c by (auto dest: in_set_takeD in_set_dropD)
  ultimately show ?thesis
    using i r(2) by (simp add: line_rep_def SHELL_LINE_MAX_SIZE_def rest add.commute)
qed

lemma line_insert_full:
  assumes "line_rep line t" "i \<le> length t" "length t = 63"
  shows "shell_line_insert line (of_nat i) c = Some (Some ERROR_NOMEM, line)"
proof -
  have "length t < 64" using assms(3) by simp
  from small_words [OF assms(2) this] show ?thesis
    using assms by (auto elim!: line_repE simp: shell_line_insert_def SHELL_LINE_MAX_SIZE_def)
qed

lemma move_down:
  assumes "i < length t"
  shows "\<exists>x. move (t @ z # rest) i (Suc i) (length t - Suc i) = Some (take i t @ drop (Suc i) t @ x # z # rest)"
proof -
  have "drop (i + (length t - Suc i)) (t @ z # rest) = last t # z # rest"
  proof -
    have "t \<noteq> []" using assms by auto
    then have "t = butlast t @ [last t]" "length (butlast t) = i + (length t - Suc i)" using assms by simp_all
    then show ?thesis by (metis append.assoc append_Cons append_Nil append_eq_conv_conj)
  qed
  moreover have "i + (length t - Suc i) \<le> length (t @ z # rest)" "Suc i + (length t - Suc i) \<le> length (t @ z # rest)"
    using assms by simp_all
  ultimately show ?thesis using assms by (simp add: move_def)
qed

lemma line_erase_ok:
  assumes rep: "line_rep line t" and i: "i < length t"
  shows "\<exists>line'. shell_line_erase line (of_nat i) = Some (None, line') \<and> line_rep line' (take i t @ drop (Suc i) t)"
proof -
  obtain rest where r: "line_str line = t @ 0 # rest" "length t + Suc (length rest) = 64" "0 \<notin> set t"
    "line_size line = of_nat (length t)" using rep by (rule line_repE)
  have l: "Suc i \<le> length t" "i \<le> length t" "length t < 64" using i r(2) by auto
  note w = small_words [OF l(2,3)] small_words [OF l(1,3)]
  have w': "(of_nat (length t) - of_nat i - 1 :: u32) = of_nat (length t) - of_nat (Suc i)"
    "(of_nat (length t) - 1 :: u32) = of_nat (length t - 1)" "unat (of_nat (length t - 1) :: u32) = length t - 1"
    "(of_nat i :: u32) + 1 = of_nat (Suc i)"
    using i l(3) small_words(1) [of "length t - 1" 63] by (simp_all add: of_nat_diff algebra_simps)
  have w'': "\<not> (of_nat i :: u32) \<ge> of_nat (length t)"
    using w(1) small_words(1) [OF order_refl l(3)] i by (simp add: word_le_nat_alt)
  have if_not: "(if \<not> b then u else v) = (if b then v else u)" for b and u v :: "'a" by simp
  obtain x where x: "(if Suc i = length t then Some (t @ 0 # rest) else move (t @ 0 # rest) i (Suc i) (length t - Suc i)) =
      Some (take i t @ drop (Suc i) t @ x # 0 # rest)"
  proof (cases "Suc i = length t")
    case True
    then have "t = take i t @ drop (Suc i) t @ [t ! i]" by (metis append_self_conv drop_all order_refl take_Suc_conv_app_nth i take_all append_Nil)
    then have "t @ 0 # rest = take i t @ drop (Suc i) t @ t ! i # 0 # rest"
      by (metis append.assoc append_Cons append_Nil)
    then show ?thesis using that True by simp
  qed (use move_down [OF i, of 0 rest] that in auto)
  have "length (take i t @ drop (Suc i) t) = length t - 1" using i by simp
  then have p: "put (take i t @ drop (Suc i) t @ x # 0 # rest) (length t - 1) 0 =
      Some ((take i t @ drop (Suc i) t) @ 0 # 0 # rest)"
    using list_update_length [of "take i t @ drop (Suc i) t" x "0 # rest" 0] by (simp add: put_def)
  have "shell_line_erase line (of_nat i) = Some (None, line\<lparr>line_str := (take i t @ drop (Suc i) t) @ 0 # 0 # rest,
      line_size := of_nat (length t - 1)\<rparr>)"
    unfolding shell_line_erase_def r(1,4) Let_def w' if_not_P [OF w'']
    using x p w(1,7,9,11) w'(3) by (simp only: if_not bind.bind_lunit)
  moreover have "0 \<notin> set (take i t @ drop (Suc i) t)" using r(3) by (auto dest: in_set_takeD in_set_dropD)
  ultimately show ?thesis
    using i r(2) by (simp add: line_rep_def SHELL_LINE_MAX_SIZE_def)
qed

lemma line_erase_bad:
  assumes "line_rep line t" "length t \<le> unat i"
  shows "shell_line_erase line i = Some (Some ERROR_INVAL, line)"
  using assms by (auto elim!: line_repE simp: shell_line_erase_def word_le_nat_alt)

section \<open>The history as a sequence of texts\<close>

text \<open>
  \<open>H\<close> holds the entries before the current line, the oldest first; \<open>cur\<close> is the current line and \<open>k\<close> the
  entry last copied into it (the number of entries if there is none).  The counters are taken before
  they wrap around.
\<close>

definition hist_rep :: "'a shell_hist_scheme \<Rightarrow> u8 list list \<Rightarrow> u8 list \<Rightarrow> nat \<Rightarrow> bool" where
  "hist_rep s H cur k \<longleftrightarrow>
     length (shell_history s) = SHELL_HISTORY_SIZE \<and> (\<forall>l \<in> set (shell_history s). \<exists>t. line_rep l t) \<and>
     length H < SHELL_HISTORY_SIZE \<and> k \<le> length H \<and>
     unat (shell_history_newest s) = unat (shell_history_oldest s) + length H \<and>
     unat (shell_history_index s) = unat (shell_history_oldest s) + k \<and>
     line_rep (shell_history s ! shell_history_get_newest s) cur \<and>
     (\<forall>i < length H. line_rep (shell_history s ! ((unat (shell_history_oldest s) + i) mod SHELL_HISTORY_SIZE)) (H ! i))"

definition trim_history :: "'a list \<Rightarrow> 'a list" where
  "trim_history xs = drop (length xs - (SHELL_HISTORY_SIZE - 1)) xs"

lemma history_get_mod: "shell_history_get i = unat i mod SHELL_HISTORY_SIZE"
  by (simp add: shell_history_get_def SHELL_HISTORY_SIZE_def unat_mod)

lemma newest_mod: "shell_history_get_newest s = unat (shell_history_newest s) mod SHELL_HISTORY_SIZE"
  by (simp add: shell_history_get_newest_def history_get_mod)

lemma hist_rep_slot: "hist_rep s H cur k \<Longrightarrow> shell_history_get_newest s < length (shell_history s)"
  by (simp add: hist_rep_def newest_mod SHELL_HISTORY_SIZE_def)

lemma hist_rep_cur: "hist_rep s H cur k \<Longrightarrow> line_rep (shell_history s ! shell_history_get_newest s) cur"
  by (simp add: hist_rep_def)

lemma slots_differ:
  assumes "i < n" "n < SHELL_HISTORY_SIZE"
  shows "(b + i) mod SHELL_HISTORY_SIZE \<noteq> (b + n) mod SHELL_HISTORY_SIZE"
proof
  assume "(b + i) mod SHELL_HISTORY_SIZE = (b + n) mod SHELL_HISTORY_SIZE"
  then have "SHELL_HISTORY_SIZE dvd (b + n) - (b + i)" by (metis mod_eq_dvd_iff_nat add_le_cancel_left assms(1) less_imp_le)
  then show False using assms by (auto dest: dvd_imp_le)
qed

text \<open>Writing the current line changes no other entry.\<close>

lemma set_newest_rep:
  assumes "hist_rep s H cur k" "line_rep line t"
  shows "hist_rep (set_newest line s) H t k"
proof -
  let ?n = "shell_history_get_newest s"
  have slot: "?n < length (shell_history s)" by (rule hist_rep_slot [OF assms(1)])
  have "?n \<noteq> (unat (shell_history_oldest s) + i) mod SHELL_HISTORY_SIZE" if "i < length H" for i
    using slots_differ [OF that, of "unat (shell_history_oldest s)"] assms(1) by (simp add: hist_rep_def newest_mod)
  moreover have "\<forall>l \<in> set ((shell_history s)[?n := line]). \<exists>t. line_rep l t"
    using assms set_update_subset_insert [of "shell_history s" ?n line] by (auto simp: hist_rep_def)
  moreover have "shell_history_get_newest (set_newest line s) = ?n"
    by (simp add: set_newest_def shell_history_get_newest_def)
  ultimately show ?thesis
    using assms slot unfolding hist_rep_def by (simp add: set_newest_def)
qed

lemma hist_rep_index:
  assumes "hist_rep s H cur k" "unat i = unat (shell_history_oldest s) + j" "j \<le> length H"
  shows "hist_rep (s\<lparr>shell_history_index := i\<rparr>) H cur j"
  using assms by (simp add: hist_rep_def shell_history_get_newest_def)

lemma entry_rep:
  assumes "hist_rep s H cur k" "k < length H"
  shows "line_rep (shell_history s ! shell_history_get_index s) (H ! k)"
  using assms by (simp add: hist_rep_def shell_history_get_index_def history_get_mod)

lemma history_back_ok:
  assumes rep: "hist_rep s H cur k"
  shows "\<exists>s'. shell_history_back s = Some s' \<and>
    (if k = 0 then s' = s else hist_rep s' H (H ! (k - 1)) (k - 1))"
proof (cases "k = 0")
  case True
  then have "shell_history_index s = shell_history_oldest s" using rep by (simp add: hist_rep_def word_unat_eq_iff)
  then show ?thesis using True by (simp add: shell_history_back_def)
next
  case False
  let ?s = "s\<lparr>shell_history_index := shell_history_index s - 1\<rparr>"
  have k: "k - 1 < length H" "unat (shell_history_index s) = unat (shell_history_oldest s) + k"
    using rep False by (auto simp: hist_rep_def)
  have "shell_history_index s \<noteq> 0" using k(2) False by auto
  then have "unat (shell_history_index s - 1) = unat (shell_history_oldest s) + (k - 1)"
    using k(2) False by (simp add: unat_minus_one)
  then have r: "hist_rep ?s H cur (k - 1)" using hist_rep_index [OF rep] k(1) by simp
  obtain line where "shell_line_copy (shell_history ?s ! shell_history_get_newest ?s)
      (shell_history ?s ! shell_history_get_index ?s) = Some line" "line_rep line (H ! (k - 1))"
    using line_copy_ok [OF hist_rep_cur [OF r] entry_rep [OF r k(1)]] by blast
  moreover have "shell_history_index s \<noteq> shell_history_oldest s" using k(2) False by auto
  ultimately show ?thesis
    using False set_newest_rep [OF r] by (simp add: shell_history_back_def Let_def)
qed

lemma history_forward_ok:
  assumes rep: "hist_rep s H cur k"
  shows "\<exists>s'. shell_history_forward s = Some s' \<and>
    (if k = length H then s' = s
     else hist_rep s' H (if Suc k = length H then [] else H ! Suc k) (Suc k))"
proof (cases "k = length H")
  case True
  then have "shell_history_index s = shell_history_newest s" using rep by (simp add: hist_rep_def word_unat_eq_iff)
  then show ?thesis using True by (simp add: shell_history_forward_def)
next
  case False
  let ?s = "s\<lparr>shell_history_index := shell_history_index s + 1\<rparr>"
  have k: "Suc k \<le> length H" "unat (shell_history_index s) = unat (shell_history_oldest s) + k"
    "unat (shell_history_newest s) = unat (shell_history_oldest s) + length H"
    using rep False by (auto simp: hist_rep_def)
  have "unat (shell_history_index s) + 1 < 2 ^ 32" using k unat_u32_less [of "shell_history_newest s"] by simp
  then have i: "unat (shell_history_index s + 1) = unat (shell_history_oldest s) + Suc k"
    using k(2) by (simp add: unat_add_no_wrap)
  then have r: "hist_rep ?s H cur (Suc k)" using hist_rep_index [OF rep] k(1) by simp
  have e: "shell_history_index s \<noteq> shell_history_newest s"
    "shell_history_index s + 1 = shell_history_newest s \<longleftrightarrow> Suc k = length H"
    using k i False by (auto simp: word_unat_eq_iff)
  obtain line where "(if shell_history_index ?s = shell_history_newest ?s
      then shell_line_reset (shell_history ?s ! shell_history_get_newest ?s)
      else shell_line_copy (shell_history ?s ! shell_history_get_newest ?s)
        (shell_history ?s ! shell_history_get_index ?s)) = Some line"
    "line_rep line (if Suc k = length H then [] else H ! Suc k)"
    using line_reset_ok [OF hist_rep_cur [OF r]] line_copy_ok [OF hist_rep_cur [OF r] entry_rep [OF r]] k(1) e(2)
    by (cases "Suc k = length H") auto
  then show ?thesis
    using False e(1) set_newest_rep [OF r] by (simp add: shell_history_forward_def Let_def)
qed

lemma same_newest_ok:
  assumes rep: "hist_rep s H cur k"
  shows "shell_history_same_newest s = Some (H \<noteq> [] \<and> last H = cur)"
proof (cases "H = []")
  case True
  then have "shell_history_newest s = shell_history_oldest s" using rep by (simp add: hist_rep_def word_unat_eq_iff)
  then show ?thesis using True by (simp add: shell_history_same_newest_def)
next
  case False
  have n: "unat (shell_history_newest s) = unat (shell_history_oldest s) + length H" using rep by (simp add: hist_rep_def)
  then have "shell_history_newest s \<noteq> 0" "shell_history_newest s \<noteq> shell_history_oldest s" using False by auto
  moreover from this have "unat (shell_history_newest s - 1) = unat (shell_history_oldest s) + (length H - 1)"
    using n False by (cases H) (simp_all add: unat_minus_one)
  then have "line_rep (shell_history s ! shell_history_get (shell_history_newest s - 1)) (last H)"
    using rep False by (simp add: hist_rep_def history_get_mod last_conv_nth)
  note this' = line_cmp_ok [OF hist_rep_cur [OF rep] this] str_diff_texts [OF hist_rep_cur [OF rep] this]
  ultimately show ?thesis using False this' by (auto simp: shell_history_same_newest_def)
qed

lemma size_0_iff: "line_rep line t \<Longrightarrow> shell_line_size line = 0 \<longleftrightarrow> t = []"
  by (erule line_repE) (metis length_0_conv shell_line_size_def unat_eq_zero)

text \<open>The entry at an offset from the oldest one, counting the current line as the last.\<close>

lemma hist_rep_entry:
  assumes "hist_rep s H cur k" "i \<le> length H"
  shows "line_rep (shell_history s ! ((unat (shell_history_oldest s) + i) mod SHELL_HISTORY_SIZE)) ((H @ [cur]) ! i)"
  using assms by (cases "i = length H") (auto simp: hist_rep_def newest_mod nth_append)

lemma history_advance:
  assumes rep: "hist_rep s H cur k" and n: "unat (shell_history_newest s) < 2 ^ 32 - 1"
    and d: "d = length (H @ [cur]) - (SHELL_HISTORY_SIZE - 1)"
    and o: "unat oldest = unat (shell_history_oldest s) + d"
  shows "\<exists>t. hist_rep (s\<lparr>shell_history_newest := shell_history_newest s + 1,
      shell_history_index := shell_history_newest s + 1, shell_history_oldest := oldest\<rparr>)
    (drop d (H @ [cur])) t (length (drop d (H @ [cur])))"
    (is "\<exists>t. hist_rep ?s _ t _")
proof -
  have len: "length H < SHELL_HISTORY_SIZE" "length (shell_history s) = SHELL_HISTORY_SIZE"
    "unat (shell_history_newest s) = unat (shell_history_oldest s) + length H" using rep by (auto simp: hist_rep_def)
  have n': "unat (shell_history_newest s + 1) = unat (shell_history_oldest s) + length H + 1"
    using n len(3) by (simp add: unat_add_no_wrap)
  have "shell_history ?s ! shell_history_get_newest ?s \<in> set (shell_history s)"
    using len(2) by (simp add: newest_mod SHELL_HISTORY_SIZE_def)
  then obtain t where t: "line_rep (shell_history ?s ! shell_history_get_newest ?s) t"
    using rep unfolding hist_rep_def by blast
  have dl: "d \<le> length (H @ [cur])" "length (drop d (H @ [cur])) < SHELL_HISTORY_SIZE"
    unfolding d using len(1) by (auto simp: SHELL_HISTORY_SIZE_def)
  have "line_rep (shell_history ?s ! ((unat (shell_history_oldest ?s) + i) mod SHELL_HISTORY_SIZE)) (drop d (H @ [cur]) ! i)"
    if "i < length (drop d (H @ [cur]))" for i
  proof -
    have "d + i \<le> length H" "drop d (H @ [cur]) ! i = (H @ [cur]) ! (d + i)"
      using that dl(1) by (simp, intro nth_drop)
    then show ?thesis using hist_rep_entry [OF rep, of "d + i"] o by (simp add: add.assoc)
  qed
  then show ?thesis
    using rep t dl n' o unfolding hist_rep_def by (intro exI [of _ t]) simp
qed

lemma history_push_ok:
  assumes rep: "hist_rep s H cur k" and n: "unat (shell_history_newest s) < 2 ^ 32 - 1"
  shows "\<exists>s' t. shell_history_push s = Some s' \<and>
    (if cur = [] \<or> H \<noteq> [] \<and> last H = cur then hist_rep s' H t (length H)
     else hist_rep s' (trim_history (H @ [cur])) t (length (trim_history (H @ [cur]))))"
proof (cases "cur = [] \<or> H \<noteq> [] \<and> last H = cur")
  case True
  then have "shell_history_push s = Some (shell_history_reset_index s)"
    using same_newest_ok [OF rep] size_0_iff [OF hist_rep_cur [OF rep]] by (auto simp: shell_history_push_def)
  moreover have "hist_rep (shell_history_reset_index s) H cur (length H)"
    unfolding shell_history_reset_index_def by (rule hist_rep_index [OF rep]) (use rep in \<open>auto simp: hist_rep_def\<close>)
  ultimately show ?thesis using True by auto
next
  case False
  let ?n = "shell_history_newest s" and ?o = "shell_history_oldest s" and ?d = "length (H @ [cur]) - (SHELL_HISTORY_SIZE - 1)"
  define oldest where "oldest = (if ?n + 1 - ?o \<ge> of_nat SHELL_HISTORY_SIZE then ?n + 1 - of_nat SHELL_HISTORY_SIZE + 1 else ?o)"
  have len: "length H < 21" "unat ?n = unat ?o + length H" using rep by (auto simp: hist_rep_def SHELL_HISTORY_SIZE_def)
  have n': "unat (?n + 1) = unat ?o + length H + 1" using n len(2) by (simp add: unat_add_no_wrap)
  then have diff: "unat (?n + 1 - ?o) = length H + 1" by (simp add: unat_sub_no_wrap)
  have "unat oldest = unat ?o + ?d"
  proof (cases "length H = 20")
    case True
    have "unat (?n - ?o) = unat (20 :: u32)" using True len(2) by (simp add: unat_sub_no_wrap)
    then have "?n - ?o = 20" by (simp only: word_unat_eq_iff)
    then have "?n = ?o + 20" by (simp add: algebra_simps)
    moreover have "unat (?o + 1) = unat ?o + 1" using n len(2) by (simp add: unat_add_no_wrap)
    ultimately show ?thesis using True diff by (simp add: oldest_def word_le_nat_alt SHELL_HISTORY_SIZE_def)
  next
    case False
    then show ?thesis using len(1) diff by (simp add: oldest_def word_le_nat_alt SHELL_HISTORY_SIZE_def)
  qed
  from history_advance [OF rep n refl this] obtain t where t:
    "hist_rep (s\<lparr>shell_history_newest := ?n + 1, shell_history_index := ?n + 1, shell_history_oldest := oldest\<rparr>)
      (trim_history (H @ [cur])) t (length (trim_history (H @ [cur])))" by (auto simp: trim_history_def)
  have "shell_history_push s = Some (s\<lparr>shell_history_newest := ?n + 1, shell_history_index := ?n + 1,
      shell_history_oldest := oldest\<rparr>)"
    using False same_newest_ok [OF rep] size_0_iff [OF hist_rep_cur [OF rep]]
    by (auto simp: shell_history_push_def shell_history_reset_index_def Let_def oldest_def)
  then show ?thesis using t False by auto
qed

end
