(* ===== verification/Shell_Edit.thy ===== *)
theory Shell_Edit
  imports Shell Shell_Line_Correct
begin

text \<open>
  What the line editor promises: \<open>editor\<close> is the text before and after the cursor with the
  history, and the \<open>ed\<close> functions are the effects of the keys on it.  The display is described by a
  model of the terminal, as far as the shell relies on one: a printable character replaces the one
  under the cursor, a backspace moves the cursor without erasing (as a comment in
  \<^verbatim>\<open>shell_process_raw_char\<close> says), a newline starts an empty row and the two escape sequences that the shell
  writes move the cursor by one.  \<open>edit_rep\<close> relates a state of the shell to an editor, and to what its
  output shows on such a terminal.
\<close>

section \<open>The terminal\<close>

datatype tmode = TGround | TEsc | TCsi

type_synonym terminal = "tmode \<times> u8 list \<times> u8 list"

text \<open>A row, left and right of the cursor, and the state of the escape sequence.\<close>

fun feed_char :: "u8 \<Rightarrow> terminal \<Rightarrow> terminal" where
  "feed_char c (TGround, l, r) =
     (if c = 27 then (TEsc, l, r)
      else if c = 8 then (TGround, butlast l, if l = [] then r else last l # r)
      else if c = 10 then (TGround, [], [])
      else (TGround, l @ [c], tl r))"
| "feed_char c (TEsc, l, r) = (if c = 91 then TCsi else TGround, l, r)"
| "feed_char c (TCsi, l, r) =
     (if 48 \<le> c \<and> c \<le> 57 then (TCsi, l, r)
      else if c = 68 then (TGround, butlast l, if l = [] then r else last l # r)
      else if c = 67 then (TGround, l @ [if r = [] then 32 else hd r], tl r)
      else (TGround, l, r))"

definition feed :: "u8 list \<Rightarrow> terminal \<Rightarrow> terminal" where
  "feed cs = fold feed_char cs"

lemma feed_append [simp]: "feed (a @ b) r = feed b (feed a r)"
  by (simp add: feed_def)

lemma feed_Nil [simp]: "feed [] r = r"
  by (simp add: feed_def)

lemma feed_Cons: "feed (c # cs) r = feed cs (feed_char c r)"
  by (simp add: feed_def)

text \<open>The characters that the shell keeps in its lines.\<close>

definition graphic :: "u8 \<Rightarrow> bool" where
  "graphic c \<longleftrightarrow> 32 \<le> sint c \<and> sint c < 127"

definition printable :: "u8 list \<Rightarrow> bool" where
  "printable cs \<longleftrightarrow> (\<forall>c \<in> set cs. graphic c)"

lemma printable_simps [simp]:
  "printable []" "printable (c # cs) \<longleftrightarrow> graphic c \<and> printable cs" "printable (a @ b) \<longleftrightarrow> printable a \<and> printable b"
  by (auto simp: printable_def)

lemma printable_take: "printable cs \<Longrightarrow> printable (take n cs)"
  by (auto simp: printable_def dest: in_set_takeD)

lemma printable_drop: "printable cs \<Longrightarrow> printable (drop n cs)"
  by (auto simp: printable_def dest: in_set_dropD)

lemma graphic_not: "graphic c \<Longrightarrow> c \<noteq> 0 \<and> c \<noteq> 8 \<and> c \<noteq> 10 \<and> c \<noteq> 27"
  by (auto simp: graphic_def)

lemma graphic_32 [simp]: "graphic 32"
  by (simp add: graphic_def)

lemma printable_not_0: "printable cs \<Longrightarrow> 0 \<notin> set cs"
  using graphic_not by (auto simp: printable_def)

lemma feed_printable: "printable cs \<Longrightarrow> feed cs (TGround, l, r) = (TGround, l @ cs, drop (length cs) r)"
proof (induction cs arbitrary: l r)
  case (Cons c cs)
  then show ?case using graphic_not [of c] by (simp add: feed_Cons drop_Suc)
qed simp

lemma feed_backspaces: "length x = n \<Longrightarrow> feed (replicate n 8) (TGround, l @ x, r) = (TGround, l, x @ r)"
proof (induction n arbitrary: x r)
  case (Suc n)
  then obtain x' c where "x = x' @ [c]" by (cases x rule: rev_cases) auto
  then show ?case using Suc.IH [of x' "c # r"] Suc.prems by (simp add: feed_Cons butlast_append)
qed simp

lemma feed_newline [simp]: "feed [10] (TGround, l, r) = (TGround, [], [])"
  by (simp add: feed_Cons)

text \<open>Erasing: a backspace, a blank over the character and a backspace.\<close>

lemma feed_rubout: "length x = n \<Longrightarrow>
  \<exists>m. feed (concat (replicate n [8, 32, 8])) (TGround, l @ x, replicate k 32) = (TGround, l, replicate m 32)"
proof (induction n arbitrary: x k)
  case (Suc n)
  then obtain x' c where "x = x' @ [c]" by (cases x rule: rev_cases) auto
  then show ?case using Suc.IH [of x' "Suc k"] Suc.prems by (simp add: feed_Cons butlast_append)
qed auto

section \<open>The editor\<close>

record editor =
  entries :: "u8 list list"
  before :: "u8 list"
  after :: "u8 list"
  pos :: nat
  shown :: bool

text \<open>
  \<open>shown\<close> tells whether the row of the terminal is that of the line: a message may have been written into it.
\<close>

definition ed_line :: "editor \<Rightarrow> u8 list" where
  "ed_line e = before e @ after e"

definition ed_insert :: "u8 \<Rightarrow> editor \<Rightarrow> editor" where
  "ed_insert c e = e\<lparr>before := before e @ [c]\<rparr>"

definition ed_backspace :: "editor \<Rightarrow> editor" where
  "ed_backspace e = e\<lparr>before := butlast (before e)\<rparr>"

definition ed_left :: "editor \<Rightarrow> editor" where
  "ed_left e = (if before e = [] then e else e\<lparr>before := butlast (before e), after := last (before e) # after e\<rparr>)"

definition ed_right :: "editor \<Rightarrow> editor" where
  "ed_right e = (if after e = [] then e else e\<lparr>before := before e @ [hd (after e)], after := tl (after e)\<rparr>)"

definition ed_home :: "editor \<Rightarrow> editor" where
  "ed_home e = e\<lparr>before := [], after := ed_line e\<rparr>"

definition ed_end :: "editor \<Rightarrow> editor" where
  "ed_end e = e\<lparr>before := ed_line e, after := []\<rparr>"

definition ed_delete :: "editor \<Rightarrow> editor" where
  "ed_delete e = e\<lparr>after := tl (after e)\<rparr>"

definition ed_up :: "editor \<Rightarrow> editor" where
  "ed_up e = (if pos e = 0 then ed_end e
     else e\<lparr>before := entries e ! (pos e - 1), after := [], pos := pos e - 1\<rparr>)"

definition ed_down :: "editor \<Rightarrow> editor" where
  "ed_down e = (if pos e = length (entries e) then ed_end e
     else e\<lparr>before := if Suc (pos e) = length (entries e) then [] else entries e ! Suc (pos e),
            after := [], pos := Suc (pos e)\<rparr>)"

text \<open>The end of a line: it joins the history unless it is empty or repeats the last entry.\<close>

definition ed_push :: "u8 list \<Rightarrow> u8 list list \<Rightarrow> u8 list list" where
  "ed_push t H = (if t = [] \<or> H \<noteq> [] \<and> last H = t then H else trim_history (H @ [t]))"

definition ed_reset :: "editor \<Rightarrow> editor" where
  "ed_reset e = e\<lparr>before := [], after := []\<rparr>"

section \<open>The relation\<close>

definition prompt :: "u8 list" where
  "prompt = text_of ''shell> ''"

definition screen :: "u8 list \<Rightarrow> terminal" where
  "screen cs = feed cs (TGround, [], [])"

definition shows_line :: "u8 list \<Rightarrow> u8 list \<Rightarrow> u8 list \<Rightarrow> bool" where
  "shows_line cs l r \<longleftrightarrow> (\<exists>n. screen cs = (TGround, prompt @ l, r @ replicate n 32))"

definition edit_rep :: "'a shell_scheme \<Rightarrow> editor \<Rightarrow> bool" where
  "edit_rep s e \<longleftrightarrow>
     hist_rep s (entries e) (ed_line e) (pos e) \<and> shell_cursor s = of_nat (length (before e)) \<and>
     printable (ed_line e) \<and> (\<forall>t \<in> set (entries e). printable t) \<and>
     fst (screen (out (shell_tab s))) = TGround \<and>
     (shown e \<longrightarrow> shows_line (out (shell_tab s)) (before e) (after e))"

text \<open>What editing leaves alone: everything but the array of lines, its index, the cursor and the output.\<close>

definition frame :: "'a shell_scheme \<Rightarrow> 'a shell_scheme \<Rightarrow> bool" where
  "frame s s' \<longleftrightarrow> shell_history_newest s' = shell_history_newest s \<and>
     shell_history_oldest s' = shell_history_oldest s \<and>
     (shell_tab s')\<lparr>out := []\<rparr> = (shell_tab s)\<lparr>out := []\<rparr> \<and> shell_tmp_line s' = shell_tmp_line s \<and>
     shell_argc s' = shell_argc s \<and> shell_argv s' = shell_argv s \<and> esc_str s' = esc_str s \<and> esc_ptr s' = esc_ptr s \<and>
     shell.more s' = shell.more s"

lemma frame_refl [simp]: "frame s s"
  by (simp add: frame_def)

lemma frame_trans: "frame s s' \<Longrightarrow> frame s' s'' \<Longrightarrow> frame s s''"
  by (simp add: frame_def)

lemma frame_tab:
  assumes "frame s s'"
  shows "cmds (shell_tab s') = cmds (shell_tab s)" "shell_list (shell_tab s') = shell_list (shell_tab s)"
    "shell_htable (shell_tab s') = shell_htable (shell_tab s)" "shell_lock (shell_tab s') = shell_lock (shell_tab s)"
proof -
  have "(shell_tab s')\<lparr>out := []\<rparr> = (shell_tab s)\<lparr>out := []\<rparr>" using assms by (simp add: frame_def)
  note e = arg_cong [OF this, of cmds] arg_cong [OF this, of shell_list] arg_cong [OF this, of shell_htable]
    arg_cong [OF this, of shell_lock]
  show "cmds (shell_tab s') = cmds (shell_tab s)" "shell_list (shell_tab s') = shell_list (shell_tab s)"
    "shell_htable (shell_tab s') = shell_htable (shell_tab s)" "shell_lock (shell_tab s') = shell_lock (shell_tab s)"
    using e by simp_all
qed

lemma frame_upd [simp]:
  "frame s (emit cs s') = frame s s'" "frame s (set_newest line s') = frame s s'"
  "frame s (s'\<lparr>shell_cursor := c\<rparr>) = frame s s'"
  by (simp_all add: frame_def emit_def set_newest_def print_def)

lemma emit_simps [simp]:
  "shell_history (emit cs s) = shell_history s" "shell_history_newest (emit cs s) = shell_history_newest s"
  "shell_history_oldest (emit cs s) = shell_history_oldest s" "shell_history_index (emit cs s) = shell_history_index s"
  "shell_cursor (emit cs s) = shell_cursor s" "out (shell_tab (emit cs s)) = out (shell_tab s) @ cs"
  "shell_history_get_newest (emit cs s) = shell_history_get_newest s" "newest (emit cs s) = newest s"
  by (simp_all add: emit_def print_def shell_history_get_newest_def newest_def)

lemma cursor_simps [simp]:
  "shell_history_get_newest (s\<lparr>shell_cursor := c\<rparr>) = shell_history_get_newest s"
  "newest (s\<lparr>shell_cursor := c\<rparr>) = newest s"
  by (simp_all add: shell_history_get_newest_def newest_def)

lemma set_newest_simps [simp]:
  "shell_cursor (set_newest line s) = shell_cursor s" "shell_tab (set_newest line s) = shell_tab s"
  "shell_history_newest (set_newest line s) = shell_history_newest s"
  by (simp_all add: set_newest_def)

lemma emit_times_eq: "emit_times n cs s = emit (concat (replicate n cs)) s"
  by (induction n arbitrary: s) (simp_all add: emit_def print_def)

lemma hist_rep_simps [simp]:
  "hist_rep (emit cs s) H t k = hist_rep s H t k" "hist_rep (s\<lparr>shell_cursor := c\<rparr>) H t k = hist_rep s H t k"
  by (simp_all add: hist_rep_def shell_history_get_newest_def)

lemma edit_line_rep: "edit_rep s e \<Longrightarrow> line_rep (newest s) (ed_line e)"
  unfolding edit_rep_def newest_def using hist_rep_cur by blast

lemma screen_append [simp]: "screen (a @ b) = feed b (screen a)"
  by (simp add: screen_def)

end
