(* ===== verification/Shell_Edit_Correct.thy ===== *)
theory Shell_Edit_Correct
  imports Shell_Edit
begin

text \<open>
  The keys of the line editor: every function of lib/shell.c that edits the line does to the arrays,
  the cursor and the terminal what its counterpart of theory Shell\_Edit does to the editor, and stays
  within the arrays.
\<close>

section \<open>Output\<close>

lemma feed_ground: "27 \<notin> set cs \<Longrightarrow> fst (feed cs (TGround, l, r)) = TGround"
proof (induction cs arbitrary: l r)
  case (Cons c cs)
  then show ?case by (cases "c = 8 \<or> c = 10") (auto simp: feed_Cons)
qed simp

lemma printable_27: "printable cs \<Longrightarrow> 27 \<notin> set cs"
  using graphic_not by (auto simp: printable_def)

lemma feed_overwrite:
  assumes "printable u" "printable v"
  shows "feed ((u @ v) @ replicate (length v) 8) (TGround, l, r) = (TGround, l @ u, v @ drop (length u + length v) r)"
proof -
  have "feed (u @ v) (TGround, l, r) = (TGround, (l @ u) @ v, drop (length u + length v) r)"
    using feed_printable [of "u @ v" l r] assms by simp
  then show ?thesis using feed_backspaces [of v "length v" "l @ u"] by simp
qed

lemma edit_repI:
  assumes "edit_rep s e" and "hist_rep s1 (entries e') (ed_line e') (pos e')" and "shell_tab s1 = shell_tab s"
    and "shell_cursor s1 = of_nat (length (before e'))" and "printable (ed_line e')"
    and "entries e' = entries e" "shown e' = shown e"
    and ground: "\<And>l r. fst (feed cs (TGround, l, r)) = TGround"
    and disp: "\<And>n. \<exists>m. feed cs (TGround, prompt @ before e, after e @ replicate n 32) =
      (TGround, prompt @ before e', after e' @ replicate m 32)"
  shows "edit_rep (emit cs s1) e'"
proof -
  obtain l r where sc: "screen (out (shell_tab s)) = (TGround, l, r)"
    using assms(1) by (cases "screen (out (shell_tab s))") (auto simp: edit_rep_def)
  have "shown e \<longrightarrow> shows_line (out (shell_tab s) @ cs) (before e') (after e')"
    using assms(1) disp by (auto simp: edit_rep_def shows_line_def)
  then show ?thesis using assms ground [of l r] sc by (simp add: edit_rep_def)
qed

lemma edit_hist: "edit_rep s e \<Longrightarrow> hist_rep s (entries e) (ed_line e) (pos e)"
  by (simp add: edit_rep_def)

lemma edit_length: "edit_rep s e \<Longrightarrow> length (before e) + length (after e) < 64"
  using line_rep_length [OF edit_line_rep] by (fastforce simp: ed_line_def)

lemma edit_printable: "edit_rep s e \<Longrightarrow> printable (before e) \<and> printable (after e)"
  by (simp add: edit_rep_def ed_line_def)

lemma edit_cursor: "edit_rep s e \<Longrightarrow> shell_cursor s = of_nat (length (before e))"
  by (simp add: edit_rep_def)

lemma small_eq: "m < 2 ^ 32 \<Longrightarrow> n < 2 ^ 32 \<Longrightarrow> (of_nat m :: u32) = of_nat n \<longleftrightarrow> m = n"
  by (metis unat_of_nat_u32)

lemma edit_size: "line_rep line t \<Longrightarrow> shell_line_size line = of_nat (length t)"
  by (simp add: line_rep_def shell_line_size_def)

section \<open>Characters\<close>

lemma raw_char_ok:
  assumes rep: "edit_rep s e" and c: "graphic c" and len: "length (ed_line e) < 63"
  shows "\<exists>s'. shell_process_raw_char c s = Some (None, s') \<and> frame s s' \<and> edit_rep s' (ed_insert c e)"
proof -
  let ?b = "before e" and ?a = "after e" and ?e = "ed_insert c e"
  have l: "length ?b + length ?a < 63" using len by (simp add: ed_line_def)
  obtain line where line: "shell_line_insert (newest s) (shell_cursor s) c = Some (None, line)"
    "line_rep line (?b @ c # ?a)"
    using line_insert_ok [OF edit_line_rep [OF rep], of "length ?b" c] c len graphic_not
    by (auto simp: edit_cursor [OF rep] ed_line_def)
  let ?s = "(set_newest line s)\<lparr>shell_cursor := shell_cursor s + 1\<rparr>"
  have cur: "shell_cursor s + 1 = of_nat (Suc (length ?b))" by (simp add: edit_cursor [OF rep])
  have h: "hist_rep ?s (entries ?e) (ed_line ?e) (pos ?e)"
    using set_newest_rep [OF edit_hist [OF rep] line(2)] by (simp add: ed_insert_def ed_line_def)
  have pr: "printable ?b" "printable ?a" using edit_printable [OF rep] by auto
  have sz: "shell_line_size line = of_nat (Suc (length ?b + length ?a))" using edit_size [OF line(2)] by simp
  have rep': "edit_rep (emit cs ?s) ?e" if "\<And>l r. fst (feed cs (TGround, l, r)) = TGround"
    and "\<And>n. \<exists>m. feed cs (TGround, prompt @ ?b, ?a @ replicate n 32) = (TGround, prompt @ ?b @ [c], ?a @ replicate m 32)" for cs
    by (rule edit_repI [OF rep h]) (use that pr c cur in \<open>simp_all add: ed_insert_def ed_line_def\<close>)
  show ?thesis
  proof (cases "?a = []")
    case True
    have "shell_process_raw_char c s = Some (None, emit [c] ?s)"
      using line(1) sz cur True by (simp add: shell_process_raw_char_def putchar_def Let_def)
    moreover have "\<exists>m. feed [c] (TGround, prompt @ ?b, ?a @ replicate n 32) = (TGround, prompt @ ?b @ [c], ?a @ replicate m 32)" for n
      using True c graphic_not by (intro exI [of _ "n - 1"]) (simp add: feed_printable)
    then have "edit_rep (emit [c] ?s) ?e" using feed_ground printable_27 [of "[c]"] c by (intro rep') auto
    ultimately show ?thesis by auto
  next
    case False
    let ?cs = "(c # ?a) @ replicate (length ?a) 8"
    have ne: "(of_nat (Suc (length ?b)) :: u32) \<noteq> of_nat (Suc (length ?b + length ?a))"
      using l False by (subst small_eq) auto
    have "c_str (drop (length ?b) (shell_line_str line)) = Some (c # ?a)"
      using c_str_drop [OF line(2), of "length ?b"] by (simp add: shell_line_str_def)
    moreover have "unat (of_nat (Suc (length ?b)) - 1 :: u32) = length ?b"
      "unat (of_nat (Suc (length ?b + length ?a)) - of_nat (Suc (length ?b)) :: u32) = length ?a"
      using l small_words(1) [of "length ?b" 63] small_words(3) [of "Suc (length ?b)" "Suc (length ?b + length ?a)"] by auto
    ultimately have "shell_process_raw_char c s = Some (None, emit ?cs ?s)"
      using line(1) sz cur ne
      by (simp add: shell_process_raw_char_def Let_def emit_times_eq emit_def print_def concat_replicate_trivial del: of_nat_Suc)
    moreover have "\<exists>m. feed ?cs (TGround, prompt @ ?b, ?a @ replicate n 32) = (TGround, prompt @ ?b @ [c], ?a @ replicate m 32)" for n
      using feed_overwrite [of "[c]" ?a "prompt @ ?b"] c pr by (intro exI [of _ "n - 1"]) simp
    then have "edit_rep (emit ?cs ?s) ?e" using feed_ground [of ?cs] printable_27 [of "c # ?a"] c pr by (intro rep') auto
    ultimately show ?thesis by auto
  qed
qed

lemma raw_char_full:
  assumes rep: "edit_rep s e" and len: "length (ed_line e) = 63"
  shows "\<exists>s'. shell_process_raw_char c s = Some (Some ERROR_NOMEM, s') \<and> frame s s' \<and> edit_rep s' (e\<lparr>shown := False\<rparr>) \<and>
    screen (out (shell_tab s')) = (TGround, [], [])"
proof -
  let ?m = "[10] @ text_of ''shell: line too long'' @ [10]"
  have "shell_line_insert (newest s) (shell_cursor s) c = Some (Some ERROR_NOMEM, newest s)"
    unfolding edit_cursor [OF rep] using edit_line_rep [OF rep] by (rule line_insert_full) (use len in \<open>auto simp: ed_line_def\<close>)
  then have "shell_process_raw_char c s = Some (Some ERROR_NOMEM, emit ?m s)" by (simp add: shell_process_raw_char_def)
  moreover obtain l r where sc: "screen (out (shell_tab s)) = (TGround, l, r)"
    using rep by (cases "screen (out (shell_tab s))") (auto simp: edit_rep_def)
  then have "screen (out (shell_tab (emit ?m s))) = (TGround, [], [])"
    by (simp add: text_of_def feed_Cons)
  ultimately show ?thesis using rep by (auto simp: edit_rep_def ed_line_def)
qed

lemma minus_one_small:
  assumes "0 < n" "n < 2 ^ 32"
  shows "(of_nat n - 1 :: u32) = of_nat (n - 1)"
  using assms by (simp add: of_nat_diff)

lemma backspace_ok:
  assumes rep: "edit_rep s e"
  shows "\<exists>s'. shell_process_backspace s = Some s' \<and> frame s s' \<and> edit_rep s' (ed_backspace e) \<and> (before e = [] \<longrightarrow> s' = s)"
proof (cases "before e" rule: rev_cases)
  case Nil
  have "length (ed_line e) \<le> unat (shell_cursor s - 1)"
    using edit_length [OF rep] edit_cursor [OF rep] Nil by (simp add: ed_line_def)
  then have "shell_process_backspace s = Some s"
    using line_erase_bad [OF edit_line_rep [OF rep]] by (simp add: shell_process_backspace_def)
  moreover have "ed_backspace e = e" using Nil by (cases e) (simp add: ed_backspace_def)
  ultimately show ?thesis using rep by simp
next
  case (snoc b c)
  let ?a = "after e" and ?e = "ed_backspace e"
  have l: "Suc (length b) + length ?a < 64" using edit_length [OF rep] snoc by simp
  have cur: "shell_cursor s - 1 = of_nat (length b)" using edit_cursor [OF rep] snoc by simp
  obtain line where line: "shell_line_erase (newest s) (of_nat (length b)) = Some (None, line)" "line_rep line (b @ ?a)"
    using line_erase_ok [OF edit_line_rep [OF rep], of "length b"] by (auto simp: ed_line_def snoc)
  let ?s = "(set_newest line s)\<lparr>shell_cursor := shell_cursor s - 1\<rparr>" and ?cs = "[8] @ ((?a @ [32]) @ replicate (length ?a + 1) 8)"
  have pr: "printable b" "printable ?a" using edit_printable [OF rep] snoc by auto
  have str: "c_str (drop (length b) (shell_line_str line)) = Some ?a"
    using c_str_drop [OF line(2), of "length b"] by (simp add: shell_line_str_def)
  have w: "unat (of_nat (length b) :: u32) = length b"
    "unat (shell_line_size line - of_nat (length b) + 1) = length ?a + 1"
  proof -
    show "unat (of_nat (length b) :: u32) = length b" using l small_words(1) [of "length b" 63] by simp
    have "shell_line_size line - of_nat (length b) + 1 = of_nat (length ?a + 1)" using edit_size [OF line(2)] by simp
    then show "unat (shell_line_size line - of_nat (length b) + 1) = length ?a + 1"
      using l unat_of_nat_u32 [of "length ?a + 1"] by (simp add: add.commute)
  qed
  have "shell_process_backspace s = Some (emit ?cs ?s)"
    unfolding shell_process_backspace_def cur line(1)
    using str w by (simp add: Let_def emit_times_eq emit_def print_def concat_replicate_trivial)
  moreover have "edit_rep (emit ?cs ?s) ?e"
  proof (rule edit_repI [OF rep])
    show "hist_rep ?s (entries ?e) (ed_line ?e) (pos ?e)"
      using set_newest_rep [OF edit_hist [OF rep] line(2)] by (simp add: ed_backspace_def ed_line_def snoc)
    show "fst (feed ?cs (TGround, l, r)) = TGround" for l r
      using printable_27 [OF pr(2)] by (intro feed_ground) auto
    fix n
    have "feed ?cs (TGround, prompt @ before e, ?a @ replicate n 32) =
        feed (([] @ (?a @ [32])) @ replicate (length (?a @ [32])) 8) (TGround, prompt @ b, c # ?a @ replicate n 32)"
      by (simp add: feed_Cons snoc butlast_append)
    also have "\<dots> = (TGround, prompt @ b, (?a @ [32]) @ replicate n 32)"
      using pr(2) by (subst feed_overwrite) auto
    also have "(?a @ [32]) @ replicate n 32 = ?a @ replicate (Suc n) 32" by simp
    finally show "\<exists>m. feed ?cs (TGround, prompt @ before e, ?a @ replicate n 32) =
        (TGround, prompt @ before ?e, after ?e @ replicate m 32)"
      by (intro exI [of _ "Suc n"]) (simp add: ed_backspace_def snoc)
  qed (use pr cur in \<open>auto simp: ed_backspace_def ed_line_def snoc\<close>)
  ultimately show ?thesis using snoc by auto
qed

section \<open>Motion\<close>

lemma edit_move:
  assumes rep: "edit_rep s e" and e': "e' = e\<lparr>before := b, after := a\<rparr>" "b @ a = ed_line e"
    and disp: "\<And>n. \<exists>m. feed cs (TGround, prompt @ before e, after e @ replicate n 32) = (TGround, prompt @ b, a @ replicate m 32)"
    and ground: "\<And>l r. fst (feed cs (TGround, l, r)) = TGround"
  shows "edit_rep (emit cs (s\<lparr>shell_cursor := of_nat (length b)\<rparr>)) e'"
  using edit_hist [OF rep] rep
  by (intro edit_repI [OF rep _ _ _ _ _ _ ground]) (use e' disp in \<open>simp_all add: ed_line_def edit_rep_def\<close>)

lemma feed_left: "feed (ESC # text_of ''[1D'') (TGround, l, r) = (TGround, butlast l, if l = [] then r else last l # r)"
  by (simp add: text_of_def feed_Cons word_le_nat_alt)

lemma feed_right: "feed (ESC # text_of ''[1C'') (TGround, l, r) = (TGround, l @ [if r = [] then 32 else hd r], tl r)"
  by (simp add: text_of_def feed_Cons word_le_nat_alt)

lemma left_ok:
  assumes rep: "edit_rep s e"
  shows "edit_rep (shell_process_left s) (ed_left e) \<and> frame s (shell_process_left s)"
proof (cases "before e" rule: rev_cases)
  case Nil
  then show ?thesis using rep edit_cursor [OF rep] by (simp add: shell_process_left_def ed_left_def)
next
  case (snoc b c)
  have "shell_cursor s \<noteq> 0"
    unfolding edit_cursor [OF rep] using edit_length [OF rep] small_eq [of "length (before e)" 0] snoc by simp
  then have e: "shell_process_left s = emit (ESC # text_of ''[1D'') (s\<lparr>shell_cursor := of_nat (length b)\<rparr>)"
    using edit_cursor [OF rep] snoc by (simp add: shell_process_left_def)
  have "edit_rep (shell_process_left s) (ed_left e)" unfolding e
  proof (rule edit_move [OF rep])
    show "ed_left e = e\<lparr>before := b, after := c # after e\<rparr>" using snoc by (simp add: ed_left_def)
    show "\<exists>m. feed (ESC # text_of ''[1D'') (TGround, prompt @ before e, after e @ replicate n 32) =
        (TGround, prompt @ b, (c # after e) @ replicate m 32)" for n
      using snoc unfolding feed_left by (auto simp: butlast_append)
  qed (use snoc in \<open>simp_all add: ed_line_def feed_left\<close>)
  then show ?thesis using e by simp
qed

lemma right_ok:
  assumes rep: "edit_rep s e"
  shows "\<exists>s'. shell_process_right s = (if after e = [] then Some ERROR_AGAIN else None, s') \<and> edit_rep s' (ed_right e) \<and> frame s s'"
proof (cases "after e")
  case Nil
  then show ?thesis using rep edit_cursor [OF rep] edit_size [OF edit_line_rep [OF rep]]
    by (simp add: shell_process_right_def ed_right_def ed_line_def)
next
  case (Cons c a)
  let ?b = "before e @ [c]" and ?s = "s\<lparr>shell_cursor := of_nat (length (before e @ [c]))\<rparr>"
  have "\<not> shell_cursor s \<ge> shell_line_size (newest s)"
    unfolding edit_cursor [OF rep] edit_size [OF edit_line_rep [OF rep]] ed_line_def word_le_nat_alt
    using edit_length [OF rep] Cons unat_of_nat_u32 [of "length (before e)"]
      unat_of_nat_u32 [of "length (before e @ after e)"] by simp
  then have e: "shell_process_right s = (None, emit (ESC # text_of ''[1C'') ?s)"
    using edit_cursor [OF rep] by (simp add: shell_process_right_def add.commute)
  have "edit_rep (emit (ESC # text_of ''[1C'') ?s) (ed_right e)"
  proof (rule edit_move [OF rep])
    show "ed_right e = e\<lparr>before := ?b, after := a\<rparr>" using Cons by (simp add: ed_right_def)
    show "\<exists>m. feed (ESC # text_of ''[1C'') (TGround, prompt @ before e, after e @ replicate n 32) =
        (TGround, prompt @ ?b, a @ replicate m 32)" for n
      using Cons unfolding feed_right by auto
  qed (use Cons in \<open>simp_all add: ed_line_def feed_right\<close>)
  then show ?thesis using e Cons by simp
qed

text \<open>The loop that moves to a given position on the left.\<close>

definition ed_left_to :: "nat \<Rightarrow> editor \<Rightarrow> editor" where
  "ed_left_to n e = e\<lparr>before := take n (before e), after := drop n (before e) @ after e\<rparr>"

lemma left_to_ok:
  assumes "edit_rep s e" "n \<le> length (before e)"
  shows "\<exists>s'. left_to (of_nat n) s = Some s' \<and> edit_rep s' (ed_left_to n e) \<and> frame s s'"
  using assms
proof (induction "length (before e) - n" arbitrary: s e)
  case 0
  then have "n = length (before e)" by simp
  then show ?case using 0 edit_cursor [of s e] by (cases e) (simp add: left_to.simps [of _ s] ed_left_to_def)
next
  case (Suc d)
  then obtain b c where bc: "before e = b @ [c]" by (cases "before e" rule: rev_cases) auto
  have n: "n \<le> length b" using Suc.hyps(2) bc by simp
  have ne: "shell_cursor s \<noteq> of_nat n"
    using Suc edit_length [OF Suc.prems(1)] by (simp add: edit_cursor [OF Suc.prems(1)] small_eq)
  note l = left_ok [OF Suc.prems(1)]
  have b: "before (ed_left e) = b" "after (ed_left e) = c # after e" using bc by (simp_all add: ed_left_def)
  have "ed_left_to n (ed_left e) = ed_left_to n e" using bc n by (cases e) (simp add: ed_left_to_def ed_left_def)
  with Suc.hyps(1) [of "ed_left e"] Suc.hyps(2) l b n bc obtain s' where
    "left_to (of_nat n) (shell_process_left s) = Some s'" "edit_rep s' (ed_left_to n e)" "frame (shell_process_left s) s'"
    by fastforce
  then show ?case using ne l frame_trans by (subst left_to.simps) auto
qed

lemma right_to_ok:
  assumes "edit_rep s e"
  shows "\<exists>s'. right_to (shell_line_size (newest s)) s = Some s' \<and> edit_rep s' (ed_end e) \<and> frame s s'"
proof -
  have "\<exists>s'. right_to (of_nat (length (ed_line e))) s = Some s' \<and> edit_rep s' (ed_end e) \<and> frame s s'"
    using assms
  proof (induction "length (after e)" arbitrary: s e)
    case 0
    then have "ed_end e = e" "\<not> shell_cursor s < of_nat (length (ed_line e))"
      using edit_cursor [OF 0(2)] by (cases e, simp add: ed_end_def ed_line_def, simp add: ed_line_def)
    then show ?case using 0 by (subst right_to.simps) simp
  next
    case (Suc d)
    have lt: "shell_cursor s < of_nat (length (ed_line e))"
      unfolding edit_cursor [OF Suc.prems] word_less_nat_alt ed_line_def
      using edit_length [OF Suc.prems] Suc.hyps(2) unat_of_nat_u32 [of "length (before e)"]
        unat_of_nat_u32 [of "length (before e @ after e)"] by auto
    obtain s1 where s1: "snd (shell_process_right s) = s1" "edit_rep s1 (ed_right e)" "frame s s1"
      using right_ok [OF Suc.prems] by (metis snd_conv)
    have e: "length (after (ed_right e)) = d" "ed_line (ed_right e) = ed_line e" "ed_end (ed_right e) = ed_end e"
      using Suc.hyps(2) by (cases e; cases "after e"; simp add: ed_right_def ed_line_def ed_end_def)+
    from Suc.hyps(1) [OF e(1) [symmetric] s1(2)] obtain s' where
      "right_to (of_nat (length (ed_line e))) s1 = Some s'" "edit_rep s' (ed_end e)" "frame s1 s'"
      unfolding e by auto
    then show ?case using lt s1 frame_trans by (subst right_to.simps) auto
  qed
  then show ?thesis using edit_size [OF edit_line_rep [OF assms]] by simp
qed

lemma esc_move_ok:
  assumes rep: "edit_rep s e"
  shows "\<exists>s'. shell_esc_seq_prev s = Some s' \<and> edit_rep s' (ed_left e) \<and> frame s s'"
    and "\<exists>s'. shell_esc_seq_next s = Some s' \<and> edit_rep s' (ed_right e) \<and> frame s s'"
    and "\<exists>s'. shell_esc_seq_home s = Some s' \<and> edit_rep s' (ed_home e) \<and> frame s s'"
    and "\<exists>s'. shell_esc_seq_end s = Some s' \<and> edit_rep s' (ed_end e) \<and> frame s s'"
    and "\<exists>s'. shell_esc_seq_del s = Some s' \<and> edit_rep s' (ed_delete e) \<and> frame s s'"
proof -
  show "\<exists>s'. shell_esc_seq_prev s = Some s' \<and> edit_rep s' (ed_left e) \<and> frame s s'"
    using left_ok [OF rep] by (simp add: shell_esc_seq_prev_def)
  show "\<exists>s'. shell_esc_seq_next s = Some s' \<and> edit_rep s' (ed_right e) \<and> frame s s'"
    using right_ok [OF rep] by (auto simp: shell_esc_seq_next_def)
  have "ed_left_to 0 e = ed_home e" by (simp add: ed_left_to_def ed_home_def ed_line_def)
  then show "\<exists>s'. shell_esc_seq_home s = Some s' \<and> edit_rep s' (ed_home e) \<and> frame s s'"
    using left_to_ok [OF rep, of 0] by (simp add: shell_esc_seq_home_def)
  show "\<exists>s'. shell_esc_seq_end s = Some s' \<and> edit_rep s' (ed_end e) \<and> frame s s'"
    using right_to_ok [OF rep] by (simp add: shell_esc_seq_end_def)
  obtain s1 where s1: "shell_process_right s = (if after e = [] then Some ERROR_AGAIN else None, s1)"
    "edit_rep s1 (ed_right e)" "frame s s1" using right_ok [OF rep] by auto
  show "\<exists>s'. shell_esc_seq_del s = Some s' \<and> edit_rep s' (ed_delete e) \<and> frame s s'"
  proof (cases "after e")
    case Nil
    then have "ed_right e = ed_delete e" by (cases e) (simp add: ed_right_def ed_delete_def)
    then show ?thesis using s1 Nil by (simp add: shell_esc_seq_del_def)
  next
    case (Cons c a)
    then have "ed_backspace (ed_right e) = ed_delete e" by (cases e) (simp add: ed_right_def ed_delete_def ed_backspace_def)
    then show ?thesis using s1 Cons backspace_ok [OF s1(2)] frame_trans by (fastforce simp: shell_esc_seq_del_def)
  qed
qed

section \<open>The history keys\<close>

lemma erase_blank_ok:
  assumes "shell_cursor s = of_nat i" "i \<le> n" "n < 2 ^ 32"
  shows "erase_blank (of_nat n) s = Some (emit (replicate (n - i) 32) (s\<lparr>shell_cursor := of_nat n\<rparr>))"
  using assms
proof (induction "n - i" arbitrary: s i)
  case 0
  then show ?case by (subst erase_blank.simps) (simp add: emit_def print_def)
next
  case (Suc d)
  let ?s = "(putchar 32 s)\<lparr>shell_cursor := shell_cursor s + 1\<rparr>"
  have i: "d = n - Suc i" "n - i = Suc (n - Suc i)" "Suc i \<le> n" using Suc.hyps(2) by auto
  have "shell_cursor ?s = of_nat (Suc i)" using Suc.prems(1) by simp
  from Suc.hyps(1) [OF i(1) this i(3) Suc.prems(3)]
  have "erase_blank (of_nat n) ?s = Some (emit (replicate (n - Suc i) 32) (?s\<lparr>shell_cursor := of_nat n\<rparr>))" .
  moreover have "shell_cursor s \<noteq> of_nat n" using Suc i by (simp add: small_eq)
  ultimately show ?case unfolding i(2) by (subst erase_blank.simps) (simp add: putchar_def emit_def print_def)
qed

lemma erase_ok:
  assumes rep: "edit_rep s e"
  shows "\<exists>cs. shell_erase s = Some (emit cs (s\<lparr>shell_cursor := 0\<rparr>)) \<and> 27 \<notin> set cs \<and>
    (\<forall>n. \<exists>m. feed cs (TGround, prompt @ before e, after e @ replicate n 32) = (TGround, prompt, replicate m 32))"
proof -
  let ?b = "before e" and ?a = "after e"
  let ?u = "replicate (length ?a) (32::u8)" and ?v = "concat (replicate (length (ed_line e)) [8::u8, 32, 8])"
  have l: "length (ed_line e) < 2 ^ 32" using edit_length [OF rep] by (simp add: ed_line_def)
  have sz: "shell_line_size (newest s) = of_nat (length (ed_line e))" by (rule edit_size [OF edit_line_rep [OF rep]])
  have "erase_blank (of_nat (length (ed_line e))) s = Some (emit ?u (s\<lparr>shell_cursor := of_nat (length (ed_line e))\<rparr>))"
    using erase_blank_ok [OF edit_cursor [OF rep], of "length (ed_line e)"] l by (simp add: ed_line_def)
  then have "shell_erase s = Some (emit (?u @ ?v) (s\<lparr>shell_cursor := 0\<rparr>))"
    using l sz by (simp add: shell_erase_def unat_of_nat_u32 emit_times_eq) (simp add: emit_def print_def)
  moreover have "27 \<notin> set (?u @ ?v)" by auto
  moreover have "\<exists>m. feed (?u @ ?v) (TGround, prompt @ ?b, ?a @ replicate n 32) = (TGround, prompt, replicate m 32)" for n
  proof -
    have "feed ?u (TGround, prompt @ ?b, ?a @ replicate n 32) = (TGround, prompt @ (?b @ ?u), replicate n 32)"
      by (subst feed_printable) (auto simp: printable_def)
    then show ?thesis using feed_rubout [of "?b @ ?u" "length (ed_line e)" prompt n] by (simp add: ed_line_def)
  qed
  ultimately show ?thesis by blast
qed

lemma restore_ok:
  assumes hist: "hist_rep s H t k" and pr: "printable t" "\<forall>u \<in> set H. printable u"
    and sc: "screen (out (shell_tab s)) = (TGround, l, r)" "b \<longrightarrow> l = prompt \<and> (\<exists>n. r = replicate n 32)"
  shows "\<exists>s'. shell_restore s = Some s' \<and> frame s s' \<and>
    edit_rep s' \<lparr>entries = H, before = t, after = [], pos = k, shown = b\<rparr>"
proof -
  have line: "line_rep (newest s) t" using hist_rep_cur [OF hist] by (simp add: newest_def)
  let ?s = "(emit t s)\<lparr>shell_cursor := shell_line_size (newest s)\<rparr>"
  have "shell_restore s = Some ?s" using c_str_line [OF line] by (simp add: shell_restore_def shell_line_str_def)
  moreover have "edit_rep ?s \<lparr>entries = H, before = t, after = [], pos = k, shown = b\<rparr>"
    using hist pr sc edit_size [OF line] by (auto simp: edit_rep_def ed_line_def feed_printable shows_line_def)
  ultimately show ?thesis by simp
qed

lemma history_frame:
  assumes "shell_history_back s = Some s' \<or> shell_history_forward s = Some s'"
  shows "frame s s' \<and> shell_tab s' = shell_tab s"
  using assms
  by (auto simp: shell_history_back_def shell_history_forward_def Let_def frame_def set_newest_def
      split: if_splits bind_splits)

text \<open>Both keys erase the line, change it and display it.\<close>

lemma history_key_ok:
  assumes rep: "edit_rep s e" and tr: "printable t"
    and op: "\<And>s1. hist_rep s1 (entries e) (ed_line e) (pos e) \<Longrightarrow> \<exists>s2. f s1 = Some s2 \<and> hist_rep s2 (entries e) t k \<and> frame s1 s2 \<and> shell_tab s2 = shell_tab s1"
  shows "\<exists>s'. do { s \<leftarrow> shell_erase s; s \<leftarrow> f s; shell_restore s } = Some s' \<and> frame s s' \<and>
    edit_rep s' (e\<lparr>before := t, after := [], pos := k\<rparr>)"
proof -
  obtain cs where cs: "shell_erase s = Some (emit cs (s\<lparr>shell_cursor := 0\<rparr>))" "27 \<notin> set cs"
    "\<forall>n. \<exists>m. feed cs (TGround, prompt @ before e, after e @ replicate n 32) = (TGround, prompt, replicate m 32)"
    using erase_ok [OF rep] by blast
  let ?s1 = "emit cs (s\<lparr>shell_cursor := 0\<rparr>)"
  obtain s2 where s2: "f ?s1 = Some s2" "hist_rep s2 (entries e) t k" "frame ?s1 s2" "shell_tab s2 = shell_tab ?s1"
    using op [of ?s1] edit_hist [OF rep] by auto
  obtain l r where sc: "screen (out (shell_tab s)) = (TGround, l, r)"
    using rep by (cases "screen (out (shell_tab s))") (auto simp: edit_rep_def)
  obtain l' r' where sc': "screen (out (shell_tab s2)) = (TGround, l', r')"
    using sc feed_ground [OF cs(2), of l r] s2(4) by (cases "feed cs (TGround, l, r)") auto
  have "shown e \<longrightarrow> l' = prompt \<and> (\<exists>n. r' = replicate n 32)"
  proof
    assume "shown e"
    then obtain n where "screen (out (shell_tab s)) = (TGround, prompt @ before e, after e @ replicate n 32)"
      using rep by (auto simp: edit_rep_def shows_line_def)
    moreover obtain m where "feed cs (TGround, prompt @ before e, after e @ replicate n 32) = (TGround, prompt, replicate m 32)"
      using cs(3) by blast
    ultimately show "l' = prompt \<and> (\<exists>n. r' = replicate n 32)" using sc' s2(4) by auto
  qed
  from restore_ok [OF s2(2) tr _ sc' this] rep
  obtain s' where "shell_restore s2 = Some s'" "frame s2 s'"
    "edit_rep s' \<lparr>entries = entries e, before = t, after = [], pos = k, shown = shown e\<rparr>"
    by (auto simp: edit_rep_def)
  moreover have "frame s s2" using s2(3) frame_trans [of s ?s1 s2] by simp
  ultimately show ?thesis using cs(1) s2(1) frame_trans by (cases e) auto
qed

lemma entry_printable: "edit_rep s e \<Longrightarrow> i < length (entries e) \<Longrightarrow> printable (entries e ! i)"
  by (simp add: edit_rep_def)

lemma up_ok:
  assumes rep: "edit_rep s e"
  shows "\<exists>s'. shell_process_up s = Some s' \<and> frame s s' \<and> edit_rep s' (ed_up e)"
proof -
  let ?t = "if pos e = 0 then ed_line e else entries e ! (pos e - 1)"
  have "pos e \<le> length (entries e)" using rep by (simp add: edit_rep_def hist_rep_def)
  then have "printable ?t" using rep entry_printable [OF rep, of "pos e - 1"] by (auto simp: edit_rep_def)
  moreover have "\<exists>s2. shell_history_back s1 = Some s2 \<and> hist_rep s2 (entries e) ?t (pos e - 1) \<and> frame s1 s2 \<and> shell_tab s2 = shell_tab s1"
    if "hist_rep s1 (entries e) (ed_line e) (pos e)" for s1 :: "'a shell_scheme"
    using history_back_ok [OF that] history_frame [of s1] that by (fastforce split: if_splits)
  ultimately have "\<exists>s'. shell_process_up s = Some s' \<and> frame s s' \<and> edit_rep s' (e\<lparr>before := ?t, after := [], pos := pos e - 1\<rparr>)"
    unfolding shell_process_up_def by (rule history_key_ok [OF rep])
  moreover have "e\<lparr>before := ?t, after := [], pos := pos e - 1\<rparr> = ed_up e"
    by (cases e) (simp add: ed_up_def ed_end_def ed_line_def)
  ultimately show ?thesis by simp
qed

lemma down_ok:
  assumes rep: "edit_rep s e"
  shows "\<exists>s'. shell_process_down s = Some s' \<and> frame s s' \<and> edit_rep s' (ed_down e)"
proof -
  let ?k = "if pos e = length (entries e) then pos e else Suc (pos e)"
  let ?t = "if pos e = length (entries e) then ed_line e else if Suc (pos e) = length (entries e) then [] else entries e ! Suc (pos e)"
  have "pos e \<le> length (entries e)" using rep by (simp add: edit_rep_def hist_rep_def)
  then have "printable ?t" using rep entry_printable [OF rep, of "Suc (pos e)"] by (auto simp: edit_rep_def)
  moreover have "\<exists>s2. shell_history_forward s1 = Some s2 \<and> hist_rep s2 (entries e) ?t ?k \<and> frame s1 s2 \<and> shell_tab s2 = shell_tab s1"
    if "hist_rep s1 (entries e) (ed_line e) (pos e)" for s1 :: "'a shell_scheme"
    using history_forward_ok [OF that] history_frame [of s1] that by (fastforce split: if_splits)
  ultimately have "\<exists>s'. shell_process_down s = Some s' \<and> frame s s' \<and> edit_rep s' (e\<lparr>before := ?t, after := [], pos := ?k\<rparr>)"
    unfolding shell_process_down_def by (rule history_key_ok [OF rep])
  moreover have "e\<lparr>before := ?t, after := [], pos := ?k\<rparr> = ed_down e"
    by (cases e) (simp add: ed_down_def ed_end_def ed_line_def)
  ultimately show ?thesis by simp
qed

end
