(* ===== verification/Shell_Tab.thy ===== *)
theory Shell_Tab
  imports Shell_Complete Shell_Edit_Correct
begin

text \<open>
  The tabulation key: \<^verbatim>\<open>shell_process_tabulation\<close> replaces the beginning of a command by its
  completion, or lists the commands that it may stand for; and the lines on which it does not return.
\<close>

section \<open>Loops\<close>

declare find_word_from.simps [simp del]

lemma find_word_ok:
  assumes "0 \<notin> set t"
  shows "find_word_from (d @ t @ 0 # z) (length d) = Some (length d + length (takeWhile (\<lambda>c. c = SHELL_SEPARATOR) t))"
  using assms
proof (induction t arbitrary: d)
  case Nil
  then show ?case by (subst find_word_from.simps) simp
next
  case (Cons c t)
  show ?case
  proof (cases "c = SHELL_SEPARATOR")
    case True
    then show ?thesis using Cons.IH [of "d @ [c]"] Cons.prems by (subst find_word_from.simps) simp
  next
    case False
    then show ?thesis by (subst find_word_from.simps) simp
  qed
qed

lemma backspace_to_ok:
  assumes "edit_rep s e" "n \<le> length (before e)"
  shows "\<exists>s'. backspace_to (of_nat n) s = Some s' \<and> frame s s' \<and> edit_rep s' (e\<lparr>before := take n (before e)\<rparr>)"
  using assms
proof (induction "length (before e) - n" arbitrary: s e)
  case 0
  then have "n = length (before e)" by simp
  then show ?case using 0 edit_cursor [of s e] by (cases e) (simp add: backspace_to.simps [of _ s])
next
  case (Suc d)
  then obtain b c where bc: "before e = b @ [c]" by (cases "before e" rule: rev_cases) auto
  have ne: "shell_cursor s \<noteq> of_nat n"
    using Suc edit_length [OF Suc.prems(1)] by (simp add: edit_cursor [OF Suc.prems(1)] small_eq)
  obtain s1 where s1: "shell_process_backspace s = Some s1" "frame s s1" "edit_rep s1 (ed_backspace e)"
    using backspace_ok [OF Suc.prems(1)] by blast
  have b: "before (ed_backspace e) = b" "(ed_backspace e)\<lparr>before := take n b\<rparr> = e\<lparr>before := take n (before e)\<rparr>"
    using bc Suc.hyps(2) by (simp_all add: ed_backspace_def)
  have "d = length (before (ed_backspace e)) - n" "n \<le> length (before (ed_backspace e))"
    using Suc.hyps(2) b(1) bc by simp_all
  from Suc.hyps(1) [OF this(1) s1(3) this(2)] obtain s' where
    "backspace_to (of_nat n) s1 = Some s'" "frame s1 s'" "edit_rep s' (e\<lparr>before := take n (before e)\<rparr>)"
    unfolding b by auto
  then show ?case using ne s1 frame_trans by (subst backspace_to.simps) auto
qed

lemma insert_chars_ok:
  assumes "edit_rep s e" "printable cs" "length (ed_line e) + length cs < 64"
  shows "\<exists>s'. insert_chars cs s = Some (None, s') \<and> frame s s' \<and> edit_rep s' (e\<lparr>before := before e @ cs\<rparr>)"
  using assms
proof (induction cs arbitrary: s e)
  case Nil
  then show ?case by (cases e) simp
next
  case (Cons c cs)
  obtain s1 where s1: "shell_process_raw_char c s = Some (None, s1)" "frame s s1" "edit_rep s1 (ed_insert c e)"
    using raw_char_ok [OF Cons.prems(1), of c] Cons.prems by auto
  have "(ed_insert c e)\<lparr>before := before (ed_insert c e) @ cs\<rparr> = e\<lparr>before := before e @ c # cs\<rparr>"
    "length (ed_line (ed_insert c e)) = Suc (length (ed_line e))" by (simp_all add: ed_insert_def ed_line_def)
  with Cons.IH [OF s1(3)] Cons.prems obtain s' where
    "insert_chars cs s1 = Some (None, s')" "frame s1 s'" "edit_rep s' (e\<lparr>before := before e @ c # cs\<rparr>)" by auto
  then show ?case using s1 frame_trans by auto
qed

lemma insert_chars_full:
  assumes "edit_rep s e" "printable cs" "length (ed_line e) + length cs \<ge> 64"
  shows "\<exists>s' e'. insert_chars cs s = Some (Some ERROR_NOMEM, s') \<and> frame s s' \<and> edit_rep s' e' \<and>
    entries e' = entries e \<and> pos e' = pos e \<and> screen (out (shell_tab s')) = (TGround, [], [])"
  using assms
proof (induction cs arbitrary: s e)
  case Nil
  then show ?case using line_rep_length [OF edit_line_rep [OF Nil(1)]] by simp
next
  case (Cons c cs)
  show ?case
  proof (cases "length (ed_line e) = 63")
    case True
    from raw_char_full [OF Cons.prems(1) True, of c] obtain s' where
      "shell_process_raw_char c s = Some (Some ERROR_NOMEM, s')" "frame s s'" "edit_rep s' (e\<lparr>shown := False\<rparr>)"
      "screen (out (shell_tab s')) = (TGround, [], [])" by auto
    then show ?thesis by (intro exI [of _ s'] exI [of _ "e\<lparr>shown := False\<rparr>"]) simp
  next
    case False
    then have "length (ed_line e) < 63" using line_rep_length [OF edit_line_rep [OF Cons.prems(1)]] by simp
    then obtain s1 where s1: "shell_process_raw_char c s = Some (None, s1)" "frame s s1" "edit_rep s1 (ed_insert c e)"
      using raw_char_ok [OF Cons.prems(1), of c] Cons.prems by auto
    have "entries (ed_insert c e) = entries e" "pos (ed_insert c e) = pos e"
      "length (ed_line (ed_insert c e)) = Suc (length (ed_line e))" by (simp_all add: ed_insert_def ed_line_def)
    with Cons.IH [OF s1(3)] Cons.prems obtain s' e' where
      "insert_chars cs s1 = Some (Some ERROR_NOMEM, s')" "frame s1 s'" "edit_rep s' e'" "entries e' = entries e" "pos e' = pos e"
      "screen (out (shell_tab s')) = (TGround, [], [])" by auto
    then show ?thesis using s1 frame_trans by (intro exI [of _ s'] exI [of _ e']) auto
  qed
qed

section \<open>The list of the matches\<close>

lemma print_matches_loop_ok:
  assumes "chain (\<lambda>p. ls_next (cs p)) p R" "\<forall>x \<in> set R. printable (name (cs x))"
    and "i mod 4 = 1 \<longrightarrow> acc \<noteq> [] \<and> last acc = 10" "27 \<notin> set acc"
  shows "\<exists>i' acc'. print_matches_loop cs nm sz p i acc = Some (i', acc') \<and>
    (i' mod 4 = 1 \<longrightarrow> acc' \<noteq> [] \<and> last acc' = 10) \<and> 27 \<notin> set acc'"
  using assms
proof (induction R arbitrary: p i acc)
  case Nil
  then show ?case by (subst print_matches_loop.simps) simp
next
  case (Cons x R)
  let ?acc = "acc @ pad_right 16 (name (cs x)) @ (if i mod SHELL_COMPLETION_NR_MATCHES_PER_LINE = 0 then [10] else [])"
  have x: "p = x" "x \<noteq> 0" "chain (\<lambda>p. ls_next (cs p)) (ls_next (cs x)) R" using Cons.prems(1) by auto
  have "27 \<notin> set ?acc" using Cons.prems(2,4) printable_27 by (auto simp: pad_right_def)
  moreover have "(i + 1) mod 4 = 1 \<longrightarrow> ?acc \<noteq> [] \<and> last ?acc = 10"
  proof
    assume "(i + 1) mod 4 = 1"
    then have "i mod 4 = 0" by presburger
    then show "?acc \<noteq> [] \<and> last ?acc = 10" by (simp add: SHELL_COMPLETION_NR_MATCHES_PER_LINE_def)
  qed
  ultimately show ?case
    using Cons.IH [OF x(3), of "i + 1" ?acc] Cons.prems x by (subst print_matches_loop.simps) auto
qed

lemma feed_rows:
  assumes "27 \<notin> set cs" "cs \<noteq> []" "last cs = 10"
  shows "feed cs (TGround, l, r) = (TGround, [], [])"
proof -
  have cs: "cs = butlast cs @ [10]" using assms(2,3) by (metis append_butlast_last_id)
  have "fst (feed (butlast cs) (TGround, l, r)) = TGround"
    using assms(1) by (intro feed_ground) (auto dest: in_set_butlastD)
  then obtain l' r' where "feed (butlast cs) (TGround, l, r) = (TGround, l', r')" by (cases "feed (butlast cs) (TGround, l, r)") auto
  then show ?thesis by (subst cs) simp
qed

lemma print_matches_ok:
  assumes "chain (ls tab) cmd R" "\<forall>x \<in> set R. printable (name (cmds tab x))"
  shows "\<exists>cs. shell_cmd_print_matches cmd sz tab = Some (print cs tab) \<and> (\<forall>l r. feed cs (TGround, l, r) = (TGround, [], []))"
proof -
  obtain i acc where l: "print_matches_loop (cmds tab) (name (cmds tab cmd)) sz cmd 1 [10] = Some (i, acc)"
    "i mod 4 = 1 \<longrightarrow> acc \<noteq> [] \<and> last acc = 10" "27 \<notin> set acc"
    using print_matches_loop_ok [OF assms, where i = 1 and acc = "[10]" and nm = "name (cmds tab cmd)" and sz = sz] by auto
  let ?cs = "acc @ (if i mod SHELL_COMPLETION_NR_MATCHES_PER_LINE \<noteq> 1 then [10] else [])"
  have "shell_cmd_print_matches cmd sz tab = Some (print ?cs tab)" using l(1) by (simp add: shell_cmd_print_matches_def)
  moreover have "feed ?cs (TGround, l, r) = (TGround, [], [])" for l r
    using l(2,3) by (intro feed_rows) (auto simp: SHELL_COMPLETION_NR_MATCHES_PER_LINE_def)
  ultimately show ?thesis by blast
qed

section \<open>Completion of the line\<close>

definition blanks :: "editor \<Rightarrow> nat" where
  "blanks e = length (takeWhile (\<lambda>c. c = SHELL_SEPARATOR) (ed_line e))"

definition first_word :: "editor \<Rightarrow> u8 list" where
  "first_word e = drop (blanks e) (ed_line e)"

text \<open>
  The line with the text between the first word and the cursor replaced; nothing if it does not fit.
\<close>

definition ed_replace :: "u8 list \<Rightarrow> editor \<Rightarrow> editor option" where
  "ed_replace cs e =
     (if blanks e + length cs + length (after e) < SHELL_LINE_MAX_SIZE
      then Some (e\<lparr>before := take (blanks e) (before e) @ cs\<rparr>) else None)"

text \<open>The effect of the key, for a cursor that is not in front of the first word.\<close>

definition ed_tab :: "'a shell_cmds_scheme \<Rightarrow> u32 list \<Rightarrow> editor \<Rightarrow> editor option" where
  "ed_tab tab L e =
     (case completion tab L (first_word e) (length (before e) - blanks e) 0 of
        (err, sz, cmd) \<Rightarrow>
          if err = None then ed_replace (take sz (name (cmds tab cmd))) e
          else if err = Some ERROR_AGAIN then ed_replace (take sz (name (cmds tab cmd))) (e\<lparr>shown := True\<rparr>)
          else Some e)"

lemma valid_printable: "valid_name nm \<Longrightarrow> printable nm"
  unfolding valid_name_def printable_def graphic_def using check_char_range order_less_imp_le by blast

lemma printable_ascii: "printable cs \<Longrightarrow> ascii cs"
  by (auto simp: printable_def graphic_def ascii_def)

lemma replace_ok:
  assumes rep: "edit_rep s e" and w: "blanks e \<le> length (before e)" and pr: "printable cs"
  shows "\<exists>s1 s' err. backspace_to (of_nat (blanks e)) s = Some s1 \<and> insert_chars cs s1 = Some (err, s') \<and> frame s s' \<and>
    (case ed_replace cs e of
       Some e' \<Rightarrow> err = None \<and> edit_rep s' e'
     | None \<Rightarrow> err = Some ERROR_NOMEM \<and> screen (out (shell_tab s')) = (TGround, [], []) \<and>
         (\<exists>e'. edit_rep s' e' \<and> entries e' = entries e \<and> pos e' = pos e))"
proof -
  let ?e = "e\<lparr>before := take (blanks e) (before e)\<rparr>"
  obtain s1 where s1: "backspace_to (of_nat (blanks e)) s = Some s1" "frame s s1" "edit_rep s1 ?e"
    using backspace_to_ok [OF rep w] by blast
  have l: "length (ed_line ?e) = blanks e + length (after e)" using w by (simp add: ed_line_def)
  show ?thesis
  proof (cases "blanks e + length cs + length (after e) < 64")
    case True
    then obtain s' where "insert_chars cs s1 = Some (None, s')" "frame s1 s'" "edit_rep s' (?e\<lparr>before := before ?e @ cs\<rparr>)"
      using insert_chars_ok [OF s1(3) pr] l by auto
    then show ?thesis using s1 True frame_trans by (fastforce simp: ed_replace_def SHELL_LINE_MAX_SIZE_def)
  next
    case False
    then obtain s' e' where "insert_chars cs s1 = Some (Some ERROR_NOMEM, s')" "frame s1 s'" "edit_rep s' e'"
      "entries e' = entries ?e" "pos e' = pos ?e" "screen (out (shell_tab s')) = (TGround, [], [])"
      using insert_chars_full [OF s1(3) pr] l by fastforce
    then show ?thesis using s1 False frame_trans by (fastforce simp: ed_replace_def SHELL_LINE_MAX_SIZE_def)
  qed
qed

lemma prompt_printable: "printable prompt"
  by (simp add: prompt_def text_of_def graphic_def)

text \<open>The list of the matches, followed by the line as it was.\<close>

lemma relist_ok:
  assumes rep: "edit_rep s e" and ch: "chain (ls (shell_tab s)) cmd R" "\<forall>x \<in> set R. printable (name (cmds (shell_tab s) x))"
  shows "\<exists>tab s1 s'. shell_cmd_print_matches cmd sz (shell_tab s) = Some tab \<and>
    shell_restore (shell_prompt (set_tab tab s)) = Some s1 \<and> left_to (shell_cursor s) s1 = Some s' \<and>
    frame s s' \<and> edit_rep s' (e\<lparr>shown := True\<rparr>)"
proof -
  obtain cs where cs: "shell_cmd_print_matches cmd sz (shell_tab s) = Some (print cs (shell_tab s))"
    "\<And>l r. feed cs (TGround, l, r) = (TGround, [], [])" using print_matches_ok [OF ch] by blast
  have e0: "shell_prompt (set_tab (print cs (shell_tab s)) s) = emit (cs @ prompt) s"
    by (simp add: shell_prompt_def set_tab_def emit_def print_def prompt_def)
  obtain l r where "screen (out (shell_tab s)) = (TGround, l, r)"
    using rep by (cases "screen (out (shell_tab s))") (auto simp: edit_rep_def)
  then have sc: "screen (out (shell_tab (emit (cs @ prompt) s))) = (TGround, prompt, [])"
    using cs(2) prompt_printable by (simp add: feed_printable)
  have h: "hist_rep (emit (cs @ prompt) s) (entries e) (ed_line e) (pos e)" using edit_hist [OF rep] by simp
  let ?e = "\<lparr>entries = entries e, before = ed_line e, after = [], pos = pos e, shown = True\<rparr>"
  have "printable (ed_line e)" "\<forall>u \<in> set (entries e). printable u" using rep by (simp_all add: edit_rep_def)
  from restore_ok [OF h this sc, of True] obtain s1 where s1: "shell_restore (emit (cs @ prompt) s) = Some s1"
    "frame (emit (cs @ prompt) s) s1" "edit_rep s1 ?e" by auto
  obtain s' where s': "left_to (of_nat (length (before e))) s1 = Some s'" "edit_rep s' (ed_left_to (length (before e)) ?e)" "frame s1 s'"
    using left_to_ok [OF s1(3), of "length (before e)"] by (auto simp: ed_line_def)
  have "ed_left_to (length (before e)) ?e = e\<lparr>shown := True\<rparr>" by (cases e) (simp add: ed_left_to_def ed_line_def)
  moreover have "frame s s'" using frame_trans [OF s1(2) s'(3)] frame_trans [of s "emit (cs @ prompt) s" s'] by simp
  ultimately show ?thesis using cs(1) s1(1) s'(1,2) e0 edit_cursor [OF rep] by auto
qed

definition replace_post :: "'a shell_scheme \<Rightarrow> editor option \<Rightarrow> editor \<Rightarrow> error option \<Rightarrow> bool" where
  "replace_post s' r e err \<longleftrightarrow>
    (case r of
       Some e' \<Rightarrow> err = None \<and> edit_rep s' e'
     | None \<Rightarrow> err = Some ERROR_NOMEM \<and> screen (out (shell_tab s')) = (TGround, [], []) \<and>
         (\<exists>e'. edit_rep s' e' \<and> entries e' = entries e \<and> pos e' = pos e))"

lemma tabulation_replace_ok:
  assumes rep: "edit_rep s e" and w: "blanks e \<le> length (before e)"
    and ch: "chain (ls (shell_tab s)) cmd R" "\<forall>x \<in> set R. printable (name (cmds (shell_tab s) x))" "cmd \<in> set R"
    and sz: "sz \<le> length (name (cmds (shell_tab s) cmd))"
  shows "\<exists>s' err. tabulation_replace er sz cmd (of_nat (blanks e)) s = Some (err, s') \<and> frame s s' \<and>
    replace_post s' (ed_replace (take sz (name (cmds (shell_tab s) cmd)))
      (if er = Some ERROR_AGAIN then e\<lparr>shown := True\<rparr> else e)) e err"
proof -
  let ?e = "if er = Some ERROR_AGAIN then e\<lparr>shown := True\<rparr> else e" and ?n = "name (cmds (shell_tab s) cmd)"
  obtain s1 where s1: "(if er = Some ERROR_AGAIN then do {
         let cursor = shell_cursor s;
         tab \<leftarrow> shell_cmd_print_matches cmd sz (shell_tab s);
         s \<leftarrow> shell_restore (shell_prompt (set_tab tab s));
         left_to cursor s
       } else Some s) = Some s1" "frame s s1" "edit_rep s1 ?e"
    using relist_ok [OF rep ch(1,2), of sz] rep by (cases "er = Some ERROR_AGAIN") auto
  have e: "blanks ?e = blanks e" "before ?e = before e" "entries ?e = entries e" "pos ?e = pos e"
    by (auto simp: blanks_def ed_line_def)
  have pr: "printable (take sz ?n)" using ch(2,3) printable_take by blast
  obtain s2 s' err where s': "backspace_to (of_nat (blanks e)) s1 = Some s2" "insert_chars (take sz ?n) s2 = Some (err, s')"
    "frame s1 s'" "replace_post s' (ed_replace (take sz ?n) ?e) e err"
    using replace_ok [OF s1(3) _ pr] w unfolding e replace_post_def by blast
  have nm: "shell_cmd_name (shell_tab s1) cmd = ?n"
    using frame_tab(1) [OF s1(2)] by (simp add: shell_cmd_name_def)
  have "map (char_at ?n) [0..<sz] = take sz ?n"
    using sz by (intro nth_equalityI) (auto simp: char_at_def)
  then have "tabulation_replace er sz cmd (of_nat (blanks e)) s = Some (err, s')"
    unfolding tabulation_replace_def s1(1) using s' nm by simp
  then show ?thesis using s' frame_trans [OF s1(2) s'(3)] by blast
qed

section \<open>The key\<close>

lemma edit_rep_set_tab: "out tab = out (shell_tab s) \<Longrightarrow> edit_rep (set_tab tab s) e = edit_rep s e"
  by (simp add: edit_rep_def set_tab_def hist_rep_def shell_history_get_newest_def)

lemma set_tab_newest [simp]: "newest (set_tab tab s) = newest s" "shell_tab (set_tab tab s) = tab"
  "shell_cursor (set_tab tab s) = shell_cursor s"
  by (simp_all add: set_tab_def newest_def shell_history_get_newest_def)

text \<open>The state with the lock held, and the release of the lock.\<close>

definition tab_locked :: "tid \<Rightarrow> 'a shell_scheme \<Rightarrow> 'a shell_scheme" where
  "tab_locked self s = set_tab ((shell_tab s)\<lparr>shell_lock := (shell_lock (shell_tab s))\<lparr>owner := Some self, locked := True\<rparr>\<rparr>) s"

lemma tab_locked_rep: "edit_rep (tab_locked self s) e = edit_rep s e"
  unfolding tab_locked_def by (rule edit_rep_set_tab) simp

lemma tab_unlock:
  assumes "mutex_free (shell_lock (shell_tab s))" and fr: "frame (tab_locked self s) s'"
  shows "\<exists>tab. shell_cmd_release self (shell_tab s') = Some tab \<and> out tab = out (shell_tab s') \<and> frame s (set_tab tab s')"
proof -
  let ?tab = "(shell_tab s')\<lparr>shell_lock := shell_lock (shell_tab s)\<rparr>"
  have l: "shell_lock (shell_tab s') = (shell_lock (shell_tab s))\<lparr>owner := Some self, locked := True\<rparr>"
    using frame_tab(4) [OF fr] by (simp add: tab_locked_def)
  have "shell_cmd_release self (shell_tab s') = Some ?tab"
    using free_set_clear(2) [OF assms(1), of self] l by (simp add: shell_cmd_release_def)
  moreover have "?tab\<lparr>out := []\<rparr> = (shell_tab s)\<lparr>out := []\<rparr>"
    using frame_tab [OF fr] by (intro shell_cmds.equality) (simp_all add: tab_locked_def)
  then have "frame s (set_tab ?tab s')" using fr by (simp add: frame_def set_tab_def tab_locked_def)
  ultimately show ?thesis by simp
qed

lemma replace_post_out:
  assumes "out tab = out (shell_tab s')"
  shows "replace_post (set_tab tab s') r e err = replace_post s' r e err"
  using assms edit_rep_set_tab [OF assms] by (simp add: replace_post_def split: option.splits)

text \<open>The completion that the key asks for.\<close>

lemma tabulation_unfold:
  assumes rep: "edit_rep s e" and cm: "cmds_rep (shell_tab s) L"
  shows "shell_process_tabulation self s = do {
     let size = shell_cursor s - of_nat (blanks e);
     (err, s') \<leftarrow> (case completion (shell_tab s) L (first_word e) (unat size) 0 of (err, sz, cmd) \<Rightarrow>
        if err \<noteq> None \<and> err \<noteq> Some ERROR_AGAIN then Some (None, tab_locked self s)
        else tabulation_replace err sz cmd (of_nat (blanks e)) (tab_locked self s));
     tab \<leftarrow> shell_cmd_release self (shell_tab s');
     Some (err, set_tab tab s')
   }"
proof -
  let ?s = "tab_locked self s"
  have line: "line_rep (newest s) (ed_line e)" by (rule edit_line_rep [OF rep])
  then obtain rest where str: "line_str (newest s) = ed_line e @ 0 # rest" "0 \<notin> set (ed_line e)" by (auto elim: line_repE)
  have free: "mutex_free (shell_lock (shell_tab s))" using cm by (simp add: cmds_rep_def)
  have acq: "shell_cmd_acquire self (shell_tab s) = Some (shell_tab ?s)" "set_tab (shell_tab ?s) s = ?s"
    using free_set_clear(1) [OF free, of self] by (simp_all add: shell_cmd_acquire_def tab_locked_def set_tab_def)
  have fw: "shell_find_word (line_str (newest s)) = Some (blanks e)"
    using find_word_ok [OF str(2), of "[]" rest] by (simp add: shell_find_word_def str(1) blanks_def)
  have bl: "blanks e \<le> length (ed_line e)" by (simp add: blanks_def length_takeWhile_le)
  have cs: "c_str (drop (blanks e) (line_str (newest s))) = Some (first_word e)"
    using c_str_drop [OF line bl] by (simp add: first_word_def)
  have "ls_rep (shell_tab ?s) L" using cm by (simp add: cmds_rep_def ls_rep_def tab_locked_def)
  moreover have "ascii (first_word e)"
    using rep printable_drop by (auto simp: edit_rep_def first_word_def intro!: printable_ascii)
  ultimately have "shell_cmd_complete (first_word e) n 0 (shell_tab ?s) = Some (completion (shell_tab ?s) L (first_word e) n 0)" for n
    by (rule complete_ok)
  moreover have "completion (shell_tab ?s) L (first_word e) n 0 = completion (shell_tab s) L (first_word e) n 0" for n
  proof -
    have cm: "cmds (shell_tab ?s) = cmds (shell_tab s)" by (simp add: tab_locked_def)
    show ?thesis unfolding completion_def matches_def cm ..
  qed
  moreover have "newest ?s = newest s" "shell_cursor ?s = shell_cursor s" by (simp_all add: tab_locked_def)
  moreover obtain er sz cmd where
    "completion (shell_tab s) L (first_word e) (unat (shell_cursor s - of_nat (blanks e))) 0 = (er, sz, cmd)"
    by (metis prod_cases3)
  ultimately show ?thesis
    unfolding shell_process_tabulation_def acq(1) by (simp add: acq(2) shell_line_str_def fw cs Let_def)
qed

lemma completion_cases:
  assumes "completion tab L str n c = (err, sz, cmd)" "ls_rep tab L" "err = None \<or> err = Some ERROR_AGAIN"
  obtains R where "chain (ls tab) cmd R" "\<forall>x \<in> set R. printable (name (cmds tab x))" "cmd \<in> set R"
    "sz \<le> length (name (cmds tab cmd))" "take n (name (cmds tab cmd)) = take n str"
proof -
  have ne: "matches tab L str n \<noteq> []" using assms(1,3) by (auto simp: completion_def)
  then obtain p ms where m: "matches tab L str n = p # ms" by (cases "matches tab L str n") auto
  have p: "cmd = p" using assms(1) m by (auto simp: completion_def split: list.splits)
  from m assms(2) obtain R where R: "chain (ls tab) p (p # R)" "set (p # R) \<subseteq> set L" "take n (name (cmds tab p)) = take n str"
    by (rule matches_Cons)
  have "prefix (Longest_common_prefix ((\<lambda>q. name (cmds tab q)) ` set (p # ms))) (name (cmds tab p))"
    by (rule Longest_common_prefix_prefix) simp
  then have "sz \<le> length (name (cmds tab p))"
    using assms(1) m by (auto simp: completion_def prefix_length_le split: list.splits)
  moreover have "\<forall>x \<in> set (p # R). printable (name (cmds tab x))"
    using assms(2) R(2) valid_printable by (auto simp: ls_rep_def)
  ultimately show ?thesis using that [of "p # R"] R p by simp
qed

lemma cursor_minus:
  assumes "edit_rep s e" "blanks e \<le> length (before e)"
  shows "unat (shell_cursor s - of_nat (blanks e)) = length (before e) - blanks e"
  using edit_cursor [OF assms(1)] edit_length [OF assms(1)] small_words(3) [OF assms(2)] by simp

lemma tab_ok:
  assumes rep: "edit_rep s e" and cm: "cmds_rep (shell_tab s) L" and w: "blanks e \<le> length (before e)"
  shows "\<exists>s' err. shell_process_tabulation self s = Some (err, s') \<and> frame s s' \<and>
    replace_post s' (ed_tab (shell_tab s) L e) e err"
proof -
  let ?s = "tab_locked self s" and ?n = "length (before e) - blanks e"
  obtain er sz cmd where c: "completion (shell_tab s) L (first_word e) ?n 0 = (er, sz, cmd)" by (metis prod_cases3)
  have lsr: "ls_rep (shell_tab s) L" and free: "mutex_free (shell_lock (shell_tab s))" using cm by (simp_all add: cmds_rep_def)
  have rep1: "edit_rep ?s e" using rep tab_locked_rep by blast
  have cm1: "cmds (shell_tab ?s) = cmds (shell_tab s)" by (simp add: tab_locked_def)
  have "\<exists>s1 err. (if er \<noteq> None \<and> er \<noteq> Some ERROR_AGAIN then Some (None, ?s)
      else tabulation_replace er sz cmd (of_nat (blanks e)) ?s) = Some (err, s1) \<and> frame ?s s1 \<and>
      replace_post s1 (ed_tab (shell_tab s) L e) e err"
  proof (cases "er = None \<or> er = Some ERROR_AGAIN")
    case True
    from c lsr this obtain R where R: "chain (ls (shell_tab s)) cmd R" "\<forall>x \<in> set R. printable (name (cmds (shell_tab s) x))"
      "cmd \<in> set R" "sz \<le> length (name (cmds (shell_tab s) cmd))" by (rule completion_cases)
    have "ed_tab (shell_tab s) L e = ed_replace (take sz (name (cmds (shell_tab s) cmd)))
        (if er = Some ERROR_AGAIN then e\<lparr>shown := True\<rparr> else e)"
      using True c by (auto simp: ed_tab_def)
    then show ?thesis using tabulation_replace_ok [OF rep1 w, of cmd R sz er] R True unfolding cm1 by auto
  next
    case False
    then show ?thesis using c rep1 by (auto simp: ed_tab_def replace_post_def)
  qed
  then obtain s1 err where s1: "(if er \<noteq> None \<and> er \<noteq> Some ERROR_AGAIN then Some (None, ?s)
      else tabulation_replace er sz cmd (of_nat (blanks e)) ?s) = Some (err, s1)" "frame ?s s1"
      "replace_post s1 (ed_tab (shell_tab s) L e) e err" by blast
  obtain tab where tab: "shell_cmd_release self (shell_tab s1) = Some tab" "out tab = out (shell_tab s1)" "frame s (set_tab tab s1)"
    using tab_unlock [OF free s1(2)] by blast
  have "shell_process_tabulation self s = Some (err, set_tab tab s1)"
    unfolding tabulation_unfold [OF rep cm] cursor_minus [OF rep w] Let_def c prod.case s1(1) using tab(1) by simp
  then show ?thesis using tab(3) s1(3) replace_post_out [OF tab(2)] by blast
qed

section \<open>A cursor in front of the first word\<close>

lemma cursor_minus_wrap:
  assumes "edit_rep s e" "length (before e) < blanks e"
  shows "length (first_word e) < unat (shell_cursor s - of_nat (blanks e))"
proof -
  define d where "d = blanks e - length (before e)"
  have b: "blanks e \<le> length (ed_line e)" by (simp add: blanks_def length_takeWhile_le)
  have l: "length (ed_line e) < 64" using line_rep_length [OF edit_line_rep [OF assms(1)]] .
  have d: "0 < d" "d < 64" "blanks e = length (before e) + d" using assms(2) b l by (simp_all add: d_def)
  then have "shell_cursor s - of_nat (blanks e) = - of_nat d" using edit_cursor [OF assms(1)] by simp
  moreover have "unat (of_nat d :: u32) = d" using d by (simp add: unat_of_nat_u32)
  then have "unat (- of_nat d :: u32) = 2 ^ 32 - d" using d by (auto simp: unat_minus)
  ultimately show ?thesis using b l d(2) by (simp add: first_word_def)
qed

lemma filter_eq_single: "distinct L \<Longrightarrow> p \<in> set L \<Longrightarrow> filter (\<lambda>q. q = p) L = [p]"
  by (induction L) (auto simp: filter_empty_conv)

lemma matches_exact:
  assumes "length str < n" "ls_rep tab L"
  shows "matches tab L str n = (case table_of tab L str of None \<Rightarrow> [] | Some p \<Rightarrow> [p])"
proof -
  have e: "take n a = take n str \<longleftrightarrow> a = str" for a :: "u8 list"
    using assms(1) by (metis le_cases less_imp_le length_take linorder_not_less min.absorb1 min_def take_all)
  have "matches tab L str n = filter (\<lambda>p. name (cmds tab p) = str) L" by (simp add: matches_def e)
  also have "\<dots> = (case table_of tab L str of None \<Rightarrow> [] | Some p \<Rightarrow> [p])"
  proof (cases "table_of tab L str")
    case None
    then have "filter (\<lambda>p. name (cmds tab p) = str) L = []" unfolding table_of_None filter_empty_conv .
    with None show ?thesis by simp
  next
    case (Some p)
    then have "p \<in> set L" "\<forall>q \<in> set L. name (cmds tab q) = str \<longleftrightarrow> q = p"
      using table_of_Some [OF assms(2)] ls_rep_inj [OF assms(2)] by blast+
    then have "filter (\<lambda>p. name (cmds tab p) = str) L = filter (\<lambda>q. q = p) L" by (intro filter_cong) auto
    also have "\<dots> = [p]" using ls_rep_distinct [OF assms(2)] \<open>p \<in> set L\<close> by (rule filter_eq_single)
    finally show ?thesis using Some by simp
  qed
  finally show ?thesis .
qed

text \<open>With the cursor at the left edge, the loop that erases the word does not end.\<close>

lemma backspace_to_moves:
  "backspace_to n s = Some s' \<Longrightarrow> shell_process_backspace s = Some s \<longrightarrow> shell_cursor s = n"
  by (erule backspace_to.raw_induct [rotated]) (auto split: if_splits bind_splits)

lemma backspace_to_stuck:
  assumes "shell_process_backspace s = Some s" "shell_cursor s \<noteq> n"
  shows "backspace_to n s = None"
  using backspace_to_moves [of n s] assms by (cases "backspace_to n s") auto

lemma backspace_to_never:
  assumes "edit_rep s e" "length (before e) < n" "n < 2 ^ 32"
  shows "backspace_to (of_nat n) s = None"
  using assms
proof (induction "length (before e)" arbitrary: s e)
  case 0
  have ne: "shell_cursor s \<noteq> of_nat n"
    using 0 edit_cursor [OF 0(2)] small_eq [of "length (before e)" n] by simp
  have "shell_process_backspace s = Some s" using backspace_ok [OF 0(2)] 0(1) by auto
  then show ?case using backspace_to_stuck ne by blast
next
  case (Suc k)
  have ne: "shell_cursor s \<noteq> of_nat n"
    using Suc.prems edit_cursor [OF Suc.prems(1)] small_eq [of "length (before e)" n] by simp
  obtain s1 where s1: "shell_process_backspace s = Some s1" "edit_rep s1 (ed_backspace e)"
    using backspace_ok [OF Suc.prems(1)] by blast
  have "k = length (before (ed_backspace e))" using Suc.hyps(2) by (simp add: ed_backspace_def)
  from Suc.hyps(1) [OF this s1(2)] Suc.prems Suc.hyps(2) have "backspace_to (of_nat n) s1 = None"
    by (simp add: ed_backspace_def)
  then show ?case using ne s1(1) by (subst backspace_to.simps) simp
qed

lemma tab_front:
  assumes rep: "edit_rep s e" and cm: "cmds_rep (shell_tab s) L" and w: "length (before e) < blanks e"
  shows "case table_of (shell_tab s) L (first_word e) of
      None \<Rightarrow> \<exists>s'. shell_process_tabulation self s = Some (None, s') \<and> frame s s' \<and> edit_rep s' e
    | Some p \<Rightarrow> shell_process_tabulation self s = None"
proof -
  let ?n = "unat (shell_cursor s - of_nat (blanks e))" and ?s = "tab_locked self s"
  have lsr: "ls_rep (shell_tab s) L" and free: "mutex_free (shell_lock (shell_tab s))" using cm by (simp_all add: cmds_rep_def)
  have m: "matches (shell_tab s) L (first_word e) ?n =
      (case table_of (shell_tab s) L (first_word e) of None \<Rightarrow> [] | Some p \<Rightarrow> [p])"
    by (rule matches_exact [OF cursor_minus_wrap [OF rep w] lsr])
  note unf = tabulation_unfold [OF rep cm, of self, unfolded Let_def]
  show ?thesis
  proof (cases "table_of (shell_tab s) L (first_word e)")
    case None
    obtain tab where tab: "shell_cmd_release self (shell_tab ?s) = Some tab" "out tab = out (shell_tab ?s)" "frame s (set_tab tab ?s)"
      using tab_unlock [OF free frame_refl] by blast
    have "edit_rep (set_tab tab ?s) e" using edit_rep_set_tab [OF tab(2)] tab_locked_rep rep by blast
    moreover have "completion (shell_tab s) L (first_word e) ?n 0 = (Some ERROR_INVAL, ?n, 0)"
      using m None by (simp add: completion_def)
    ultimately show ?thesis using None tab unf by simp
  next
    case (Some p)
    have "blanks e < 2 ^ 32"
      using line_rep_length [OF edit_line_rep [OF rep]] length_takeWhile_le [of "\<lambda>c. c = SHELL_SEPARATOR" "ed_line e"]
      unfolding blanks_def by simp
    then have "backspace_to (of_nat (blanks e)) ?s = None"
      using backspace_to_never [of ?s e "blanks e"] rep w tab_locked_rep by blast
    moreover have "completion (shell_tab s) L (first_word e) ?n 0 = (None, length (name (cmds (shell_tab s) p)), p)"
      using m Some by (simp add: completion_def)
    ultimately show ?thesis using Some unf by (simp add: tabulation_replace_def)
  qed
qed

end
