(* ===== verification/Shell_Args.thy ===== *)
theory Shell_Args
  imports Shell_Edit_Correct
begin

text \<open>
  \<^verbatim>\<open>shell_process_args\<close> splits a line into its words in place: \<open>words\<close> is the reference, and the
  pointers of \<^verbatim>\<open>shell_argv\<close> are shown to point to its elements.
\<close>

function words :: "u8 list \<Rightarrow> u8 list list" where
  "words [] = []"
| "words (c # cs) = (if c = SHELL_SEPARATOR then words cs
     else (c # takeWhile (\<lambda>x. x \<noteq> SHELL_SEPARATOR) cs) # words (dropWhile (\<lambda>x. x \<noteq> SHELL_SEPARATOR) cs))"
  by pat_completeness auto

termination
  by (relation "measure length") (auto simp: le_imp_less_Suc length_dropWhile_le)

text \<open>What the loop does to the characters, and where the words start.\<close>

fun cut :: "u8 \<Rightarrow> u8 list \<Rightarrow> u8 list" where
  "cut prev [] = []"
| "cut prev (c # cs) = (if c = SHELL_SEPARATOR \<and> prev \<noteq> SHELL_SEPARATOR then 0 else c) # cut c cs"

fun starts :: "nat \<Rightarrow> u8 \<Rightarrow> u8 list \<Rightarrow> nat list" where
  "starts i prev [] = []"
| "starts i prev (c # cs) = (if c \<noteq> SHELL_SEPARATOR \<and> prev = SHELL_SEPARATOR then [i] else []) @ starts (Suc i) c cs"

definition fill_args :: "nat \<Rightarrow> nat list \<Rightarrow> shell_arg list \<Rightarrow> shell_arg list" where
  "fill_args j os argv = (if os = [] then argv
     else take j argv @ map Tmp os @ NULL # drop (Suc (j + length os)) argv)"

lemma fill_args_Cons:
  assumes "j + length os < length argv" "Suc j < length argv"
  shows "fill_args (Suc j) os (argv[j := Tmp i, Suc j := NULL]) = fill_args j (i # os) argv"
proof -
  have t: "take (Suc j) (argv[j := Tmp i, Suc j := NULL]) = take j argv @ [Tmp i]"
    using assms(2) by (intro nth_equalityI) (auto simp: nth_append nth_list_update less_Suc_eq)
  show ?thesis
  proof (cases "os = []")
    case True
    have "argv[j := Tmp i, Suc j := NULL] = take (Suc j) (argv[j := Tmp i, Suc j := NULL]) @
        NULL # drop (Suc (Suc j)) (argv[j := Tmp i, Suc j := NULL])"
      using assms(2) id_take_nth_drop [of "Suc j" "argv[j := Tmp i, Suc j := NULL]"] by simp
    then show ?thesis using True t by (simp add: fill_args_def)
  next
    case False
    then show ?thesis using t by (simp add: fill_args_def drop_update_cancel)
  qed
qed

declare args_loop.simps [simp del]

lemma args_loop_step:
  assumes "c \<noteq> 0"
  shows "args_loop (length d) j prev (d @ c # r @ 0 # z) argv =
    (if c = SHELL_SEPARATOR then args_loop (Suc (length d)) j c ((d @ [if prev \<noteq> SHELL_SEPARATOR then 0 else c]) @ r @ 0 # z) argv
     else if prev = SHELL_SEPARATOR then do {
       argv \<leftarrow> put argv j (Tmp (length d));
       if j + 1 = SHELL_MAX_ARGS then Some (Some ERROR_INVAL, j + 1, d @ c # r @ 0 # z, argv)
       else do {
         argv \<leftarrow> put argv (j + 1) NULL;
         args_loop (Suc (length d)) (j + 1) c ((d @ [c]) @ r @ 0 # z) argv
       }
     } else args_loop (Suc (length d)) j c ((d @ [c]) @ r @ 0 # z) argv)"
  using assms by (subst args_loop.simps) (auto simp: Let_def cong: if_cong)

lemma args_loop_ok:
  assumes "0 \<notin> set r" "length argv = SHELL_MAX_ARGS" "j + length (starts (length d) prev r) < SHELL_MAX_ARGS"
  shows "args_loop (length d) j prev (d @ r @ 0 # z) argv =
    Some (None, j + length (starts (length d) prev r), d @ cut prev r @ 0 # z, fill_args j (starts (length d) prev r) argv)"
  using assms
proof (induction r arbitrary: d j prev argv)
  case Nil
  then show ?case by (subst args_loop.simps) (simp add: fill_args_def)
next
  case (Cons c r)
  let ?c = "if c = SHELL_SEPARATOR \<and> prev \<noteq> SHELL_SEPARATOR then 0 else c"
  note IH = Cons.IH [of _ _ "d @ [?c]" c]
  have c: "c \<noteq> 0" "0 \<notin> set r" using Cons.prems(1) by auto
  show ?case
  proof (cases "c \<noteq> SHELL_SEPARATOR \<and> prev = SHELL_SEPARATOR")
    case True
    have j: "Suc j + length (starts (Suc (length d)) c r) < SHELL_MAX_ARGS" using Cons.prems(3) True by simp
    let ?argv = "argv[j := Tmp (length d), Suc j := NULL]"
    have "args_loop (Suc (length d)) (Suc j) c ((d @ [c]) @ r @ 0 # z) ?argv =
      Some (None, Suc j + length (starts (Suc (length d)) c r), (d @ [c]) @ cut c r @ 0 # z, fill_args (Suc j) (starts (Suc (length d)) c r) ?argv)"
      using IH [of ?argv "Suc j"] c(2) j Cons.prems(2) True by simp
    moreover have "fill_args (Suc j) (starts (Suc (length d)) c r) ?argv = fill_args j (starts (length d) prev (c # r)) argv"
      using True j Cons.prems(2) by (subst fill_args_Cons) auto
    ultimately show ?thesis using True j Cons.prems(2) c(1) by (simp add: args_loop_step put_def)
  next
    case False
    then have "starts (length d) prev (c # r) = starts (Suc (length d)) c r" by auto
    then show ?thesis using IH [of argv j] c Cons.prems False by (auto simp: args_loop_step)
  qed
qed

lemma args_loop_too_many:
  assumes "0 \<notin> set r" "length argv = SHELL_MAX_ARGS" "j < SHELL_MAX_ARGS"
    "j + length (starts (length d) prev r) \<ge> SHELL_MAX_ARGS"
  shows "\<exists>n tmp argv'. args_loop (length d) j prev (d @ r @ 0 # z) argv = Some (Some ERROR_INVAL, n, tmp, argv') \<and>
    length tmp = length (d @ r @ 0 # z) \<and> length argv' = length argv"
  using assms
proof (induction r arbitrary: d j prev argv)
  case (Cons c r)
  let ?c = "if c = SHELL_SEPARATOR \<and> prev \<noteq> SHELL_SEPARATOR then 0 else c"
  note IH = Cons.IH [of _ _ "d @ [?c]" c]
  have c: "c \<noteq> 0" "0 \<notin> set r" using Cons.prems(1) by auto
  show ?case
  proof (cases "c \<noteq> SHELL_SEPARATOR \<and> prev = SHELL_SEPARATOR")
    case True
    show ?thesis
    proof (cases "j + 1 = SHELL_MAX_ARGS")
      case j: True
      then show ?thesis using True Cons.prems(2) c(1) by (simp add: args_loop_step put_def)
    next
      case False
      then have j: "Suc j < SHELL_MAX_ARGS" "Suc j + length (starts (Suc (length d)) c r) \<ge> SHELL_MAX_ARGS"
        using Cons.prems True by auto
      then show ?thesis
        using IH [of "argv[j := Tmp (length d), Suc j := NULL]" "Suc j"] c Cons.prems(2) True False
        by (simp add: args_loop_step put_def)
    qed
  next
    case False
    then have "starts (length d) prev (c # r) = starts (Suc (length d)) c r" by auto
    then show ?thesis using IH [of argv j] c Cons.prems False by (auto simp: args_loop_step)
  qed
qed simp

section \<open>The words\<close>

lemma starts_shift: "starts (i + n) prev cs = map (\<lambda>x. x + n) (starts i prev cs)"
  by (induction cs arbitrary: i prev) (auto simp flip: add_Suc)

lemma starts_Suc: "starts (Suc 0) prev cs = map Suc (starts 0 prev cs)"
  using starts_shift [of 0 1] by simp

text \<open>The strings at the starts, once the loop is over.\<close>

definition args_of :: "u8 \<Rightarrow> u8 list \<Rightarrow> u8 list \<Rightarrow> u8 list list" where
  "args_of prev cs z = map (\<lambda>i. takeWhile (\<lambda>x. x \<noteq> 0) (drop i (cut prev cs @ 0 # z))) (starts 0 prev cs)"

lemma args_of_Cons:
  "args_of prev (c # cs) z =
    (if c \<noteq> SHELL_SEPARATOR \<and> prev = SHELL_SEPARATOR then [takeWhile (\<lambda>x. x \<noteq> 0) (c # cut c cs @ 0 # z)] else []) @ args_of c cs z"
  by (auto simp: args_of_def starts_Suc)

lemma cut_word:
  "prev \<noteq> SHELL_SEPARATOR \<Longrightarrow> 0 \<notin> set cs \<Longrightarrow>
   takeWhile (\<lambda>x. x \<noteq> 0) (cut prev cs @ 0 # z) = takeWhile (\<lambda>x. x \<noteq> SHELL_SEPARATOR) cs"
  by (induction cs arbitrary: prev) auto

lemma args_of_words:
  "0 \<notin> set cs \<Longrightarrow> args_of prev cs z =
   words (if prev = SHELL_SEPARATOR then cs else dropWhile (\<lambda>x. x \<noteq> SHELL_SEPARATOR) cs)"
proof (induction cs arbitrary: prev)
  case Nil
  then show ?case by (simp add: args_of_def)
next
  case (Cons c cs)
  have "takeWhile (\<lambda>x. x \<noteq> 0) (c # cut c cs @ 0 # z) = c # takeWhile (\<lambda>x. x \<noteq> SHELL_SEPARATOR) cs" if "c \<noteq> SHELL_SEPARATOR"
    using cut_word [OF that, of cs z] Cons.prems by auto
  then show ?case using Cons by (auto simp: args_of_Cons)
qed

lemma args_of_length: "length (args_of prev cs z) = length (starts 0 prev cs)"
  by (simp add: args_of_def)

text \<open>What the members hold after the arguments of a line have been found.\<close>

definition args_rep :: "'a shell_scheme \<Rightarrow> u8 list list \<Rightarrow> bool" where
  "args_rep s ws \<longleftrightarrow> shell_argc s = int (length ws) \<and>
     (\<forall>i < length ws. arg_text s (shell_argv s ! i) = Some (ws ! i)) \<and>
     (ws \<noteq> [] \<longrightarrow> shell_argv s ! length ws = NULL)"

definition args_ready :: "'a shell_scheme \<Rightarrow> bool" where
  "args_ready s \<longleftrightarrow> length (shell_tmp_line s) = SHELL_LINE_MAX_SIZE \<and> length (shell_argv s) = SHELL_MAX_ARGS"

lemma fill_args_nth:
  assumes "length os < length argv"
  shows "i < length os \<Longrightarrow> fill_args 0 os argv ! i = Tmp (os ! i)" "os \<noteq> [] \<Longrightarrow> fill_args 0 os argv ! length os = NULL"
    "length (fill_args 0 os argv) = length argv"
  using assms by (auto simp: fill_args_def nth_append)

lemma cut_length [simp]: "length (cut prev cs) = length cs"
  by (induction cs arbitrary: prev) auto

lemma starts_bound: "i \<in> set (starts n prev cs) \<Longrightarrow> i < n + length cs"
  by (induction cs arbitrary: n prev) (fastforce split: if_splits)+

lemma process_args_ok:
  assumes line: "line_rep (newest s) t" and ready: "args_ready s" and few: "length (words t) < SHELL_MAX_ARGS"
  shows "\<exists>tmp argv. shell_process_args s =
      Some (None, s\<lparr>shell_tmp_line := tmp, shell_argv := argv, shell_argc := int (length (words t))\<rparr>) \<and>
    args_rep (s\<lparr>shell_tmp_line := tmp, shell_argv := argv, shell_argc := int (length (words t))\<rparr>) (words t) \<and>
    length tmp = SHELL_LINE_MAX_SIZE \<and> length argv = SHELL_MAX_ARGS"
proof -
  let ?z = "drop (Suc (length t)) (shell_tmp_line s)" and ?os = "starts 0 SHELL_SEPARATOR t"
  let ?tmp = "cut SHELL_SEPARATOR t @ 0 # ?z" and ?argv = "fill_args 0 ?os (shell_argv s)"
  have t: "0 \<notin> set t" "length t < 64" using line line_rep_length by (auto simp: line_rep_def)
  have w: "words t = args_of SHELL_SEPARATOR t ?z" using args_of_words [OF t(1), of SHELL_SEPARATOR] by simp
  then have n: "length ?os = length (words t)" by (simp add: args_of_length)
  have sn: "snprintf_s (shell_tmp_line s) SHELL_LINE_MAX_SIZE t = t @ 0 # ?z"
    using t(2) by (simp add: snprintf_s_def SHELL_LINE_MAX_SIZE_def)
  have lens: "length (shell_argv s) = SHELL_MAX_ARGS" "length (shell_tmp_line s) = 64"
    using ready by (simp_all add: args_ready_def SHELL_LINE_MAX_SIZE_def)
  have "args_loop 0 0 SHELL_SEPARATOR (t @ 0 # ?z) (shell_argv s) = Some (None, length (words t), ?tmp, ?argv)"
    using args_loop_ok [of t "shell_argv s" 0 "[]" SHELL_SEPARATOR ?z] t(1) lens few n by simp
  then have "shell_process_args s = Some (None, s\<lparr>shell_tmp_line := ?tmp, shell_argv := ?argv, shell_argc := int (length (words t))\<rparr>)"
    using c_str_line [OF line] by (simp add: shell_process_args_def shell_line_str_def sn)
  moreover have "arg_text (s\<lparr>shell_tmp_line := ?tmp, shell_argv := ?argv, shell_argc := int (length (words t))\<rparr>) (?argv ! i) =
      Some (words t ! i)" if "i < length (words t)" for i
  proof -
    have i: "i < length ?os" using that n by simp
    have "?os ! i < length t" using starts_bound [OF nth_mem [OF i]] by simp
    then have "c_str (drop (?os ! i) ?tmp) = Some (takeWhile (\<lambda>x. x \<noteq> 0) (drop (?os ! i) ?tmp))" by (simp add: c_str_def)
    moreover have "?argv ! i = Tmp (?os ! i)" using fill_args_nth(1) [of ?os "shell_argv s" i] i few n lens by simp
    moreover have "words t ! i = takeWhile (\<lambda>x. x \<noteq> 0) (drop (?os ! i) ?tmp)"
      unfolding w args_of_def by (rule nth_map [OF i])
    ultimately show ?thesis unfolding arg_text_def by simp
  qed
  moreover have "length ?argv = SHELL_MAX_ARGS" "words t \<noteq> [] \<Longrightarrow> ?argv ! length (words t) = NULL"
    using few n lens fill_args_nth(2,3) [of ?os "shell_argv s"] by (simp, metis length_0_conv)
  ultimately show ?thesis
    using lens(2) t(2) by (intro exI [of _ ?tmp] exI [of _ ?argv]) (simp add: args_rep_def SHELL_LINE_MAX_SIZE_def)
qed

lemma process_args_too_many:
  assumes line: "line_rep (newest s) t" and ready: "args_ready s" and many: "length (words t) \<ge> SHELL_MAX_ARGS"
  shows "\<exists>tmp argv. shell_process_args s = Some (Some ERROR_INVAL,
      emit (text_of ''shell: too many arguments'' @ [10]) (s\<lparr>shell_tmp_line := tmp, shell_argv := argv\<rparr>)) \<and>
    length tmp = SHELL_LINE_MAX_SIZE \<and> length argv = SHELL_MAX_ARGS"
proof -
  let ?z = "drop (Suc (length t)) (shell_tmp_line s)" and ?os = "starts 0 SHELL_SEPARATOR t"
  have t: "0 \<notin> set t" "length t < 64" using line line_rep_length by (auto simp: line_rep_def)
  have n: "length ?os = length (words t)"
    using args_of_words [OF t(1), of SHELL_SEPARATOR ?z] args_of_length [of SHELL_SEPARATOR t ?z] by simp
  have sn: "snprintf_s (shell_tmp_line s) SHELL_LINE_MAX_SIZE t = t @ 0 # ?z"
    using t(2) by (simp add: snprintf_s_def SHELL_LINE_MAX_SIZE_def)
  have lens: "length (shell_argv s) = SHELL_MAX_ARGS" "length (shell_tmp_line s) = 64"
    using ready by (simp_all add: args_ready_def SHELL_LINE_MAX_SIZE_def)
  obtain m tmp argv where "args_loop 0 0 SHELL_SEPARATOR (t @ 0 # ?z) (shell_argv s) = Some (Some ERROR_INVAL, m, tmp, argv)"
    "length tmp = SHELL_LINE_MAX_SIZE" "length argv = SHELL_MAX_ARGS"
    using args_loop_too_many [of t "shell_argv s" 0 "[]" SHELL_SEPARATOR ?z] t lens many n
    by (auto simp: SHELL_MAX_ARGS_def SHELL_LINE_MAX_SIZE_def)
  then show ?thesis
    using c_str_line [OF line]
    by (intro exI [of _ tmp] exI [of _ argv]) (simp add: shell_process_args_def shell_line_str_def sn)
qed

end
