(* ===== verification/Shell_Run.thy ===== *)
theory Shell_Run
  imports Shell_Tab Shell_Args
begin

text \<open>
  The shell as a whole: the state of \<^verbatim>\<open>shell_run\<close> between two characters stands for an editor
  and the escape sequence read so far (\<open>shell_rep\<close>), and a character does to them what \<open>ed_step\<close> says.  The
  contract of the commands that a line may call is the locale \<open>shell_commands\<close> of theory Shell\_Default.
\<close>

section \<open>The relation\<close>

datatype emode = Ground | Start | Csi "u8 list"

definition esc_rep :: "nat \<Rightarrow> 'a shell_scheme \<Rightarrow> emode \<Rightarrow> bool" where
  "esc_rep escape s m \<longleftrightarrow> length (esc_str s) = SHELL_ESC_SEQ_MAX_SIZE \<and>
     (case m of
        Ground \<Rightarrow> escape = 0 \<and> esc_ptr s = 0
      | Start \<Rightarrow> escape = SHELL_ESC_STATE_START \<and> esc_ptr s = 0
      | Csi cs \<Rightarrow> escape = SHELL_ESC_STATE_CSI \<and> esc_ptr s = length cs \<and> length cs < SHELL_ESC_SEQ_MAX_SIZE \<and>
          take (length cs) (esc_str s) = cs)"

definition shell_rep :: "nat \<times> 'a shell_scheme \<Rightarrow> u32 list \<Rightarrow> emode \<times> editor \<Rightarrow> bool" where
  "shell_rep p L q \<longleftrightarrow> edit_rep (snd p) (snd q) \<and> cmds_rep (shell_tab (snd p)) L \<and> args_ready (snd p) \<and>
     esc_rep (fst p) (snd p) (fst q)"

lemma cmds_rep_cong:
  assumes "cmds s' = cmds s" "shell_list s' = shell_list s" "shell_htable s' = shell_htable s" "shell_lock s' = shell_lock s"
  shows "cmds_rep s' L = cmds_rep s L"
  unfolding cmds_rep_def ls_rep_def ht_rep_def assms ..

lemma frame_env:
  assumes "frame s s'"
  shows "cmds_rep (shell_tab s') L = cmds_rep (shell_tab s) L" "args_ready s' = args_ready s"
    "esc_rep escape s' m = esc_rep escape s m"
proof -
  show "cmds_rep (shell_tab s') L = cmds_rep (shell_tab s) L" by (rule cmds_rep_cong) (rule frame_tab [OF assms])+
  have "shell_tmp_line s' = shell_tmp_line s" "shell_argv s' = shell_argv s" "esc_str s' = esc_str s" "esc_ptr s' = esc_ptr s"
    using assms by (simp_all add: frame_def)
  then show "args_ready s' = args_ready s" "esc_rep escape s' m = esc_rep escape s m"
    unfolding args_ready_def esc_rep_def by (simp, cases m, simp_all)
qed

lemma shell_rep_frame:
  assumes "shell_rep (escape, s) L (m, e)" "frame s s'" "edit_rep s' e'"
  shows "shell_rep (escape, s') L (m, e')"
  using assms frame_env [OF assms(2)] by (simp add: shell_rep_def)

section \<open>Escape sequences\<close>

text \<open>The keys that the sequences stand for.\<close>

definition ed_esc_seqs :: "(u8 list \<times> (editor \<Rightarrow> editor)) list" where
  "ed_esc_seqs =
     [(text_of ''A'', ed_up), (text_of ''B'', ed_down), (text_of ''C'', ed_right), (text_of ''D'', ed_left),
      (text_of ''H'', ed_home), (text_of ''1~'', ed_home), (text_of ''3~'', ed_delete),
      (text_of ''F'', ed_end), (text_of ''4~'', ed_end)]"

definition ed_esc :: "u8 list \<Rightarrow> editor \<Rightarrow> editor" where
  "ed_esc cs e = (case find (\<lambda>seq. fst seq = cs) ed_esc_seqs of None \<Rightarrow> e | Some seq \<Rightarrow> snd seq e)"

text \<open>A function of the shell that does what a function on editors says.\<close>

definition implements :: "('a shell_scheme \<Rightarrow> 'a shell_scheme option) \<Rightarrow> (editor \<Rightarrow> editor) \<Rightarrow> bool" where
  "implements f g \<longleftrightarrow> (\<forall>s e. edit_rep s e \<longrightarrow> (\<exists>s'. f s = Some s' \<and> edit_rep s' (g e) \<and> frame s s'))"

lemma esc_seqs_implement:
  "list_all2 (\<lambda>x y. fst x = fst y \<and> implements (snd x) (snd y)) shell_esc_seqs ed_esc_seqs"
proof -
  have "implements shell_esc_seq_up ed_up" "implements shell_esc_seq_down ed_down"
    using up_ok down_ok by (fastforce simp: implements_def shell_esc_seq_up_def shell_esc_seq_down_def)+
  moreover have "implements shell_esc_seq_next ed_right" "implements shell_esc_seq_prev ed_left"
    "implements shell_esc_seq_home ed_home" "implements shell_esc_seq_end ed_end" "implements shell_esc_seq_del ed_delete"
    unfolding implements_def using esc_move_ok by blast+
  ultimately show ?thesis by (simp add: shell_esc_seqs_def ed_esc_seqs_def)
qed

lemma find_list_all2:
  assumes "list_all2 (\<lambda>x y. fst x = fst y \<and> P (snd x) (snd y)) xs ys"
  shows "rel_option (\<lambda>x y. P (snd x) (snd y)) (find (\<lambda>x. fst x = k) xs) (find (\<lambda>y. fst y = k) ys)"
  using assms by (induction rule: list_all2_induct) auto

lemma esc_lookup:
  assumes "0 \<notin> set cs"
  shows "shell_esc_seq_lookup cs = find (\<lambda>seq. fst seq = cs) shell_esc_seqs"
proof -
  have "\<forall>seq \<in> set shell_esc_seqs. 0 \<notin> set (fst seq)" by (simp add: shell_esc_seqs_def text_of_def)
  then have "\<forall>seq \<in> set shell_esc_seqs. str_diff (fst seq) cs = 0 \<longleftrightarrow> fst seq = cs"
    using str_diff_eq_0 assms by blast
  then show ?thesis unfolding shell_esc_seq_lookup_def by (intro find_cong) auto
qed

lemma esc_fn_ok:
  assumes rep: "edit_rep s e" and cs: "0 \<notin> set cs"
  shows "\<exists>s'. (case shell_esc_seq_lookup cs of None \<Rightarrow> Some s | Some seq \<Rightarrow> snd seq s) = Some s' \<and>
    frame s s' \<and> edit_rep s' (ed_esc cs e)"
proof -
  have "rel_option (\<lambda>x y. implements (snd x) (snd y))
      (find (\<lambda>x. fst x = cs) (shell_esc_seqs :: (u8 list \<times> ('a shell_scheme \<Rightarrow> 'a shell_scheme option)) list))
      (find (\<lambda>y. fst y = cs) ed_esc_seqs)"
    by (rule find_list_all2 [OF esc_seqs_implement])
  then show ?thesis
    using rep unfolding esc_lookup [OF cs] ed_esc_def implements_def by (cases rule: option.rel_cases) auto
qed

lemma put_Csi:
  assumes "esc_rep escape s (Csi cs)" "length cs < SHELL_ESC_SEQ_MAX_SIZE - 1"
  shows "\<exists>z. do { xs \<leftarrow> put (esc_str s) (esc_ptr s) c; put xs (esc_ptr s + 1) 0 } = Some (cs @ c # 0 # z) \<and>
    length (cs @ c # 0 # z) = SHELL_ESC_SEQ_MAX_SIZE"
proof -
  have a: "length (esc_str s) = 8" "esc_ptr s = length cs" "take (length cs) (esc_str s) = cs" "length cs < 7"
    using assms by (auto simp: esc_rep_def SHELL_ESC_SEQ_MAX_SIZE_def)
  have "length (drop (length cs) (esc_str s)) \<ge> 2" using a(1,4) by simp
  then obtain x y z where z: "drop (length cs) (esc_str s) = x # y # z"
    by (cases "drop (length cs) (esc_str s)"; cases "tl (drop (length cs) (esc_str s))") auto
  have "esc_str s = cs @ x # y # z" using z a(3) by (metis append_take_drop_id)
  then show ?thesis using a by (simp add: put_def list_update_append SHELL_ESC_SEQ_MAX_SIZE_def)
qed

section \<open>One character\<close>

definition ed_fresh :: "editor \<Rightarrow> editor" where
  "ed_fresh e = e\<lparr>before := [], after := [], shown := True\<rparr>"

definition ed_csi :: "u8 list \<Rightarrow> u8 \<Rightarrow> editor \<Rightarrow> emode \<times> editor" where
  "ed_csi cs c e =
     (if length cs \<ge> SHELL_ESC_SEQ_MAX_SIZE - 1 then (Ground, e\<lparr>shown := False\<rparr>)
      else if sint c \<ge> 64 \<and> sint c \<le> 126 then (Ground, ed_esc (takeWhile (\<lambda>x. x \<noteq> 0) (cs @ [c])) e)
      else (Csi (cs @ [c]), e))"

text \<open>A character other than the end of a line; \<open>c\<close> is the value of \<^verbatim>\<open>getchar\<close>.\<close>

definition ed_ground :: "'a shell_cmds_scheme \<Rightarrow> u32 list \<Rightarrow> int \<Rightarrow> editor \<Rightarrow> emode \<times> editor" where
  "ed_ground tab L c e =
     (if graphic (of_int c) then (Ground, if length (ed_line e) < SHELL_LINE_MAX_SIZE - 1 then ed_insert (of_int c) e else ed_fresh e)
      else if c = 27 then (Start, e)
      else if of_int c = SHELL_ERASE_BS \<or> of_int c = SHELL_ERASE_DEL then (Ground, ed_backspace e)
      else if (of_int c :: u8) = 9 \<and> blanks e \<le> length (before e)
        then (Ground, case ed_tab tab L e of None \<Rightarrow> ed_fresh e | Some e' \<Rightarrow> e')
      else (Ground, e))"

definition ed_step :: "'a shell_cmds_scheme \<Rightarrow> u32 list \<Rightarrow> int \<Rightarrow> emode \<times> editor \<Rightarrow> emode \<times> editor" where
  "ed_step tab L c q =
     (case fst q of
        Csi cs \<Rightarrow> ed_csi cs (of_int c) (snd q)
      | Start \<Rightarrow> (if c = 91 \<or> c = 79 then Csi [] else Ground, snd q)
      | Ground \<Rightarrow> ed_ground tab L c (snd q))"

definition enters :: "int \<Rightarrow> emode \<times> editor \<Rightarrow> bool" where
  "enters c q \<longleftrightarrow> fst q = Ground \<and> ((of_int c :: u8) = 10 \<or> (of_int c :: u8) = 13)"

text \<open>The line on which the tabulation key does not return.\<close>

definition hangs :: "'a shell_cmds_scheme \<Rightarrow> u32 list \<Rightarrow> int \<Rightarrow> emode \<times> editor \<Rightarrow> bool" where
  "hangs tab L c q \<longleftrightarrow> fst q = Ground \<and> (of_int c :: u8) = 9 \<and> length (before (snd q)) < blanks (snd q) \<and>
     table_of tab L (first_word (snd q)) \<noteq> None"

definition keep :: "'a shell_scheme \<Rightarrow> 'a shell_scheme \<Rightarrow> bool" where
  "keep s s' \<longleftrightarrow> shell_history_newest s' = shell_history_newest s \<and> cmds (shell_tab s') = cmds (shell_tab s)"

lemma frame_keep: "frame s s' \<Longrightarrow> keep s s'"
  by (simp add: keep_def frame_tab(1)) (simp add: frame_def)

lemma reset_ok:
  assumes hist: "hist_rep s H t k" and H: "\<forall>u \<in> set H. printable u" and sc: "screen (out (shell_tab s)) = (TGround, [], [])"
  shows "\<exists>s'. shell_reset s = Some s' \<and> frame s s' \<and>
    edit_rep s' \<lparr>entries = H, before = [], after = [], pos = k, shown = True\<rparr>"
proof -
  obtain line where line: "shell_line_reset (newest s) = Some line" "line_rep line []"
    using line_reset_ok [OF hist_rep_cur [OF hist]] by (auto simp: newest_def)
  let ?s = "emit prompt ((set_newest line s)\<lparr>shell_cursor := 0\<rparr>)"
  have "shell_reset s = Some ?s" using line(1) by (simp add: shell_reset_def shell_prompt_def prompt_def Let_def)
  moreover have "edit_rep ?s \<lparr>entries = H, before = [], after = [], pos = k, shown = True\<rparr>"
    using set_newest_rep [OF hist line(2)] H sc prompt_printable
    by (simp add: edit_rep_def ed_line_def feed_printable shows_line_def)
  ultimately show ?thesis by simp
qed

lemma edit_reset_ok:
  assumes "edit_rep s e" "screen (out (shell_tab s)) = (TGround, [], [])" "entries e = H" "pos e = k"
  shows "\<exists>s'. shell_reset s = Some s' \<and> frame s s' \<and> edit_rep s' \<lparr>entries = H, before = [], after = [], pos = k, shown = True\<rparr>"
  using assms by (intro reset_ok [OF edit_hist [OF assms(1)], unfolded assms(3,4)]) (auto simp: edit_rep_def)

lemma graphic_ctrl: "shell_is_ctrl_char c \<longleftrightarrow> \<not> graphic c"
  by (auto simp: shell_is_ctrl_char_def graphic_def)

lemma edit_rep_esc [simp]:
  "edit_rep (s\<lparr>esc_str := a\<rparr>) e = edit_rep s e" "edit_rep (s\<lparr>esc_ptr := p\<rparr>) e = edit_rep s e"
  by (simp_all add: edit_rep_def hist_rep_def shell_history_get_newest_def)

lemma csi_ok:
  assumes rep: "shell_rep (escape, s) L (Csi cs, e)"
  shows "\<exists>escape' s'. shell_process_esc_sequence c s = Some (escape', s') \<and> keep s s' \<and> shell_rep (escape', s') L (ed_csi cs c e)"
proof -
  have ed: "edit_rep s e" and esc: "esc_rep escape s (Csi cs)" using rep by (simp_all add: shell_rep_def)
  have ptr: "esc_ptr s = length cs" using esc by (simp add: esc_rep_def)
  show ?thesis
  proof (cases "length cs \<ge> SHELL_ESC_SEQ_MAX_SIZE - 1")
    case True
    let ?m = "text_of ''shell: escape sequence too long'' @ [10]"
    let ?s = "(emit ?m s)\<lparr>esc_ptr := 0\<rparr>"
    have "27 \<notin> set ?m" by (simp add: text_of_def)
    obtain l r where "screen (out (shell_tab s)) = (TGround, l, r)"
      using ed by (cases "screen (out (shell_tab s))") (auto simp: edit_rep_def)
    then have "fst (screen (out (shell_tab (emit ?m s)))) = TGround" using feed_ground [OF \<open>27 \<notin> set ?m\<close>, of l r] by simp
    then have "edit_rep (emit ?m s) (e\<lparr>shown := False\<rparr>)" using ed by (simp add: edit_rep_def ed_line_def)
    then have "edit_rep ?s (e\<lparr>shown := False\<rparr>)" by simp
    moreover have "shell_process_esc_sequence c s = Some (0, ?s)" using True ptr by (simp add: shell_process_esc_sequence_def)
    moreover have "keep s ?s" by (simp add: keep_def emit_def print_def)
    ultimately show ?thesis using True rep
      by (auto simp: shell_rep_def ed_csi_def esc_rep_def args_ready_def emit_def print_def cmds_rep_def ls_rep_def ht_rep_def)
  next
    case False
    then obtain z where z: "do { xs \<leftarrow> put (esc_str s) (esc_ptr s) c; put xs (esc_ptr s + 1) 0 } = Some (cs @ c # 0 # z)"
      "length (cs @ c # 0 # z) = SHELL_ESC_SEQ_MAX_SIZE" using put_Csi [OF esc] by fastforce
    let ?s = "s\<lparr>esc_str := cs @ c # 0 # z, esc_ptr := Suc (length cs)\<rparr>" and ?t = "takeWhile (\<lambda>x. x \<noteq> 0) (cs @ [c])"
    have str: "c_str (cs @ c # 0 # z) = Some ?t"
      using takeWhile_tail [of "\<lambda>x. x \<noteq> 0" 0 "cs @ [c]" z] by (simp add: c_str_def)
    obtain xs where xs: "put (esc_str s) (length cs) c = Some xs" "put xs (Suc (length cs)) 0 = Some (cs @ c # 0 # z)"
      using z(1) ptr by (auto simp: bind_eq_Some_conv)
    have ed': "edit_rep ?s e" using ed by simp
    have env: "cmds_rep (shell_tab s) L" "args_ready s" using rep by (simp_all add: shell_rep_def)
    have k: "keep s ?s" by (simp add: keep_def)
    show ?thesis
    proof (cases "sint c \<ge> 64 \<and> sint c \<le> 126")
      case True
      have "0 \<notin> set ?t" by (auto dest: set_takeWhileD)
      from esc_fn_ok [OF ed' this] obtain s' where s': "(case shell_esc_seq_lookup ?t of None \<Rightarrow> Some ?s | Some seq \<Rightarrow> snd seq ?s) = Some s'"
        "frame ?s s'" "edit_rep s' (ed_esc ?t e)" by blast
      have "shell_process_esc_sequence c s = Some (0, s'\<lparr>esc_ptr := 0\<rparr>)"
        using False True ptr xs str s'(1) by (simp add: shell_process_esc_sequence_def Let_def)
      moreover have "cmds_rep (shell_tab s') L" "args_ready s'" "length (esc_str s') = SHELL_ESC_SEQ_MAX_SIZE"
        using frame_env(1,2) [OF s'(2)] env s'(2) z(2) by (auto simp: args_ready_def frame_def)
      moreover have "keep s (s'\<lparr>esc_ptr := 0\<rparr>)" using frame_keep [OF s'(2)] by (simp add: keep_def)
      ultimately show ?thesis using False True s'(3)
        by (simp add: shell_rep_def ed_csi_def esc_rep_def args_ready_def)
    next
      case c: False
      have "shell_process_esc_sequence c s = Some (SHELL_ESC_STATE_CSI, ?s)"
        using False c ptr xs by (auto simp: shell_process_esc_sequence_def Let_def)
      moreover have "shell_rep (SHELL_ESC_STATE_CSI, ?s) L (Csi (cs @ [c]), e)"
        using ed' env z(2) by (simp add: shell_rep_def esc_rep_def args_ready_def)
      moreover have "ed_csi cs c e = (Csi (cs @ [c]), e)" using False c by (auto simp: ed_csi_def)
      ultimately show ?thesis using k by fastforce
    qed
  qed
qed

lemma ground_char_ok:
  assumes rep: "shell_rep (escape, s) L (Ground, e)" and g: "graphic (of_int c)"
  shows "\<exists>p'. shell_run_char call self c (escape, s) = Some p' \<and> keep s (snd p') \<and> shell_rep p' L (ed_ground (shell_tab s) L c e)"
proof -
  have ed: "edit_rep s e" and esc: "escape = 0" using rep by (simp_all add: shell_rep_def esc_rep_def)
  note run = shell_run_char_def shell_run_inner_def esc graphic_ctrl g
  show ?thesis
  proof (cases "length (ed_line e) < 63")
    case True
    then obtain s' where s': "shell_process_raw_char (of_int c) s = Some (None, s')" "frame s s'" "edit_rep s' (ed_insert (of_int c) e)"
      using raw_char_ok [OF ed g] by blast
    then have "shell_run_char call self c (escape, s) = Some (0, s')" by (simp add: run)
    then show ?thesis using shell_rep_frame [OF rep s'(2,3)] frame_keep [OF s'(2)] True g esc
      by (simp add: ed_ground_def SHELL_LINE_MAX_SIZE_def)
  next
    case False
    then have "length (ed_line e) = 63" using line_rep_length [OF edit_line_rep [OF ed]] by simp
    from raw_char_full [OF ed this, of "of_int c"] obtain s1 where s1: "shell_process_raw_char (of_int c) s = Some (Some ERROR_NOMEM, s1)"
      "frame s s1" "edit_rep s1 (e\<lparr>shown := False\<rparr>)" "screen (out (shell_tab s1)) = (TGround, [], [])" by blast
    from edit_reset_ok [OF s1(3,4) refl refl] obtain s' where s': "shell_reset s1 = Some s'" "frame s1 s'" "edit_rep s' (ed_fresh e)"
      by (cases e) (auto simp: ed_fresh_def)
    have "shell_run_char call self c (escape, s) = Some (0, s')" using s1(1) s'(1) by (simp add: run)
    moreover have "frame s s'" by (rule frame_trans [OF s1(2) s'(2)])
    ultimately show ?thesis using shell_rep_frame [OF rep _ s'(3)] frame_keep False g esc
      by (simp add: ed_ground_def SHELL_LINE_MAX_SIZE_def)
  qed
qed

lemma ground_tab_ok:
  assumes rep: "shell_rep (escape, s) L (Ground, e)" and nh: "\<not> hangs (shell_tab s) L c (Ground, e)" and c: "(of_int c :: u8) = 9" "c \<noteq> 27"
  shows "\<exists>p'. shell_run_char call self c (escape, s) = Some p' \<and> keep s (snd p') \<and> shell_rep p' L (ed_ground (shell_tab s) L c e)"
proof -
  have ed: "edit_rep s e" and cm: "cmds_rep (shell_tab s) L" and esc: "escape = 0" using rep by (simp_all add: shell_rep_def esc_rep_def)
  have nine: "\<not> graphic 9" "(9 :: u8) \<noteq> SHELL_ERASE_BS" "(9 :: u8) \<noteq> SHELL_ERASE_DEL"
    by (simp_all add: graphic_def SHELL_ERASE_BS_def SHELL_ERASE_DEL_def)
  note run = shell_run_char_def shell_run_inner_def esc graphic_ctrl c nine shell_process_ctrl_char_def
  have stay: "\<exists>p'. shell_run_char call self c (escape, s) = Some p' \<and> keep s (snd p') \<and> shell_rep p' L (Ground, e')"
    if "shell_process_tabulation self s = Some (None, s')" "frame s s'" "edit_rep s' e'" for s' e'
    using that shell_rep_frame [OF rep that(2,3)] frame_keep [OF that(2)] esc by (simp add: run)
  show ?thesis
  proof (cases "blanks e \<le> length (before e)")
    case w: True
    obtain s1 err where s1: "shell_process_tabulation self s = Some (err, s1)" "frame s s1" "replace_post s1 (ed_tab (shell_tab s) L e) e err"
      using tab_ok [OF ed cm w] by blast
    show ?thesis
    proof (cases "ed_tab (shell_tab s) L e")
      case None
      then obtain e' where e': "err = Some ERROR_NOMEM" "screen (out (shell_tab s1)) = (TGround, [], [])" "edit_rep s1 e'"
        "entries e' = entries e" "pos e' = pos e" using s1(3) by (auto simp: replace_post_def)
      from edit_reset_ok [OF e'(3,2,4,5)] obtain s' where s': "shell_reset s1 = Some s'" "frame s1 s'" "edit_rep s' (ed_fresh e)"
        by (cases e) (auto simp: ed_fresh_def)
      have "shell_run_char call self c (escape, s) = Some (0, s')" using s1(1) s'(1) e'(1) by (simp add: run)
      moreover have "frame s s'" by (rule frame_trans [OF s1(2) s'(2)])
      ultimately show ?thesis using shell_rep_frame [OF rep _ s'(3)] frame_keep None c nine w esc by (simp add: ed_ground_def)
    next
      case (Some e')
      then show ?thesis using s1 stay [of s1 e'] c nine w by (simp add: ed_ground_def replace_post_def)
    qed
  next
    case w: False
    then have "table_of (shell_tab s) L (first_word e) = None" using nh c by (auto simp: hangs_def)
    then obtain s' where "shell_process_tabulation self s = Some (None, s')" "frame s s'" "edit_rep s' e"
      using tab_front [OF ed cm, of self] w by auto
    then show ?thesis using stay [of s' e] c nine w by (simp add: ed_ground_def)
  qed
qed

lemma run_char_ok:
  assumes rep: "shell_rep (escape, s) L (m, e)" and nh: "\<not> hangs (shell_tab s) L c (m, e)" and ne: "\<not> enters c (m, e)"
  shows "\<exists>p'. shell_run_char call self c (escape, s) = Some p' \<and> keep s (snd p') \<and> shell_rep p' L (ed_step (shell_tab s) L c (m, e))"
proof (cases m)
  case (Csi cs)
  then have "escape = 2" using rep by (simp add: shell_rep_def esc_rep_def SHELL_ESC_STATE_CSI_def)
  moreover obtain escape' s' where "shell_process_esc_sequence (of_int c) s = Some (escape', s')" "keep s s'"
    "shell_rep (escape', s') L (ed_csi cs (of_int c) e)" using csi_ok [of escape s L cs e "of_int c"] rep Csi by blast
  ultimately show ?thesis using Csi
    by (simp add: shell_run_char_def shell_run_inner_def ed_step_def SHELL_ESC_STATE_CSI_def SHELL_ESC_STATE_START_def)
next
  case Start
  then show ?thesis using rep
    by (auto simp: shell_run_char_def shell_run_inner_def ed_step_def shell_rep_def esc_rep_def keep_def
        SHELL_ESC_STATE_CSI_def SHELL_ESC_STATE_START_def SHELL_ESC_SEQ_MAX_SIZE_def)
next
  case Ground
  have ed: "edit_rep s e" and esc: "escape = 0" using rep Ground by (simp_all add: shell_rep_def esc_rep_def)
  consider "graphic (of_int c)" | "\<not> graphic (of_int c)" "(of_int c :: u8) = 9" "c \<noteq> 27"
    | "\<not> graphic (of_int c)" "c = 27" | "\<not> graphic (of_int c)" "c \<noteq> 27" "(of_int c :: u8) \<noteq> 9" by metis
  then show ?thesis
  proof cases
    case 1
    then show ?thesis using ground_char_ok rep Ground by (simp add: ed_step_def)
  next
    case 2
    then show ?thesis using ground_tab_ok rep nh Ground by (simp add: ed_step_def)
  next
    case 3
    then show ?thesis using rep Ground
      by (auto simp: shell_run_char_def shell_run_inner_def ed_step_def ed_ground_def shell_rep_def esc_rep_def keep_def graphic_ctrl
        SHELL_ESC_STATE_START_def)
  next
    case 4
    have n: "(of_int c :: u8) \<noteq> 10" "(of_int c :: u8) \<noteq> 13" using ne Ground by (auto simp: enters_def)
    note run = shell_run_char_def shell_run_inner_def graphic_ctrl shell_process_ctrl_char_def esc ed_step_def ed_ground_def
    show ?thesis
    proof (cases "of_int c = SHELL_ERASE_BS \<or> of_int c = SHELL_ERASE_DEL")
      case True
      obtain s' where "shell_process_backspace s = Some s'" "frame s s'" "edit_rep s' (ed_backspace e)"
        using backspace_ok [OF ed] by blast
      then show ?thesis using 4 n True Ground shell_rep_frame [of escape s L Ground e s'] rep frame_keep esc
        by (auto simp: run)
    next
      case False
      then show ?thesis using 4 n Ground rep esc by (simp add: run keep_def)
    qed
  qed
qed

end
