(* ===== verification/Shell_Line_Run.thy ===== *)
theory Shell_Line_Run
  imports Shell_Run
begin

text \<open>
  The end of a line: its words become the arguments, the first one names the command that is
  called, and the line joins the history.  What the shell relies on of the commands is the locale
  \<open>shell_commands\<close> of theory Shell\_Default.
\<close>

section \<open>Between two lines\<close>

definition idle_rep :: "'a shell_scheme \<Rightarrow> u32 list \<Rightarrow> u8 list list \<Rightarrow> bool" where
  "idle_rep s L H \<longleftrightarrow> (\<exists>t. hist_rep s H t (length H)) \<and> (\<forall>u \<in> set H. printable u) \<and>
     screen (out (shell_tab s)) = (TGround, [], []) \<and> cmds_rep (shell_tab s) L \<and> args_ready s \<and> esc_rep 0 s Ground"

definition cmds_ok :: "u32 set \<Rightarrow> 'a shell_cmds_scheme \<Rightarrow> u32 list \<Rightarrow> bool" where
  "cmds_ok F tab L \<longleftrightarrow> (\<forall>p \<in> set L. cmd_fn (cmds tab p) \<in> F \<and> 27 \<notin> set (usage (cmds tab p)) \<and>
     27 \<notin> set (short_desc (cmds tab p)) \<and> (\<forall>d. long_desc (cmds tab p) = Some d \<longrightarrow> 27 \<notin> set d))"

lemma words_subset: "w \<in> set (words t) \<Longrightarrow> set w \<subseteq> set t \<and> w \<noteq> []"
proof (induction t rule: words.induct)
  case (2 c cs)
  then show ?case by (auto split: if_splits dest: set_takeWhileD set_dropWhileD)
qed simp

lemma word_printable: "printable t \<Longrightarrow> w \<in> set (words t) \<Longrightarrow> printable w"
  using words_subset by (fastforce simp: printable_def)

lemma emit_idle:
  assumes "idle_rep s L H" "27 \<notin> set cs" "cs \<noteq> []" "last cs = 10"
  shows "idle_rep (emit cs s) L H"
proof -
  have "frame s (emit cs s)" by simp
  then show ?thesis using assms frame_env [OF \<open>frame s (emit cs s)\<close>] feed_rows [OF assms(2-4)]
    by (simp add: idle_rep_def)
qed

lemma push_frame:
  assumes "shell_history_push s = Some s'"
  shows "shell_tab s' = shell_tab s" "shell_tmp_line s' = shell_tmp_line s" "shell_argc s' = shell_argc s"
    "shell_argv s' = shell_argv s" "esc_str s' = esc_str s" "esc_ptr s' = esc_ptr s"
    "shell_history_newest s' = shell_history_newest s \<or> shell_history_newest s' = shell_history_newest s + 1"
  using assms by (auto simp: shell_history_push_def shell_history_reset_index_def Let_def split: if_splits bind_splits)

text \<open>The line before it is processed, on a row of its own.\<close>

definition entered_rep :: "'a shell_scheme \<Rightarrow> u32 list \<Rightarrow> u8 list list \<Rightarrow> u8 list \<Rightarrow> bool" where
  "entered_rep s L H t \<longleftrightarrow> (\<exists>k. hist_rep s H t k) \<and> printable t \<and> (\<forall>u \<in> set H. printable u) \<and>
     screen (out (shell_tab s)) = (TGround, [], []) \<and> cmds_rep (shell_tab s) L \<and> args_ready s \<and> esc_rep 0 s Ground"

lemma emit_entered:
  assumes "entered_rep s L H t" "27 \<notin> set cs" "cs \<noteq> []" "last cs = 10"
  shows "entered_rep (emit cs s) L H t"
proof -
  have "frame s (emit cs s)" by simp
  then show ?thesis using assms frame_env [OF \<open>frame s (emit cs s)\<close>] feed_rows [OF assms(2-4)]
    by (simp add: entered_rep_def)
qed

lemma push_entered:
  assumes rep: "entered_rep s L H t" and n: "unat (shell_history_newest s) < 2 ^ 32 - 1"
  shows "\<exists>s'. shell_history_push s = Some s' \<and> idle_rep s' L (ed_push t H) \<and> (args_rep s ws \<longrightarrow> args_rep s' ws) \<and>
    shell_tab s' = shell_tab s \<and> unat (shell_history_newest s') \<le> unat (shell_history_newest s) + 1"
proof -
  obtain k where h: "hist_rep s H t k" using rep by (auto simp: entered_rep_def)
  have "\<exists>s' u. shell_history_push s = Some s' \<and> hist_rep s' (ed_push t H) u (length (ed_push t H))"
    using history_push_ok [OF h n] unfolding ed_push_def by (cases "t = [] \<or> H \<noteq> [] \<and> last H = t") auto
  then obtain s' u where s': "shell_history_push s = Some s'" "hist_rep s' (ed_push t H) u (length (ed_push t H))" by blast
  note fr = push_frame [OF s'(1)]
  have "\<forall>u \<in> set (ed_push t H). printable u"
    using rep by (auto simp: entered_rep_def ed_push_def trim_history_def dest!: in_set_dropD)
  moreover have "esc_rep 0 s' Ground" "args_ready s'" using rep fr by (simp_all add: entered_rep_def esc_rep_def args_ready_def)
  ultimately have "idle_rep s' L (ed_push t H)" using s'(2) rep fr(1) by (auto simp: idle_rep_def entered_rep_def)
  moreover have "args_rep s ws \<longrightarrow> args_rep s' ws"
    using fr(2-4) by (simp add: args_rep_def arg_text_def split: shell_arg.splits)
  moreover have "unat (shell_history_newest s') \<le> unat (shell_history_newest s) + 1"
    using fr(7) n by (auto simp: unat_add_no_wrap)
  ultimately show ?thesis using s'(1) fr(1) by blast
qed

section \<open>The line\<close>

lemma entered_line: "entered_rep s L H t \<Longrightarrow> line_rep (newest s) t"
  unfolding entered_rep_def newest_def using hist_rep_cur by blast

lemma entered_upd:
  assumes "entered_rep s L H t" "length tmp = SHELL_LINE_MAX_SIZE" "length argv = SHELL_MAX_ARGS"
  shows "entered_rep (s\<lparr>shell_tmp_line := tmp, shell_argv := argv, shell_argc := n\<rparr>) L H t"
    "entered_rep (s\<lparr>shell_tmp_line := tmp, shell_argv := argv\<rparr>) L H t"
  using assms by (simp_all add: entered_rep_def hist_rep_def shell_history_get_newest_def esc_rep_def args_ready_def)

text \<open>The command that a line calls.\<close>

definition called :: "'a shell_cmds_scheme \<Rightarrow> u32 list \<Rightarrow> u8 list \<Rightarrow> u32 option" where
  "called tab L t =
     (if words t \<noteq> [] \<and> length (words t) < SHELL_MAX_ARGS then table_of tab L (hd (words t)) else None)"

definition line_cmd :: "tid \<Rightarrow> error option \<Rightarrow> 'a shell_scheme \<Rightarrow> (u32 \<times> 'a shell_scheme) option" where
  "line_cmd self err s = (if err \<noteq> None \<or> shell_argc s = 0 then Some (0, s)
     else do {
       nm \<leftarrow> arg_text s (shell_argv s ! 0);
       (cmd, tab) \<leftarrow> shell_cmd_lookup self nm (shell_tab s);
       let s = set_tab tab s;
       Some (cmd, if cmd = 0 then emit (text_of ''shell: '' @ nm @ text_of '': command not found'' @ [10]) s else s)
     })"

lemma table_of_nonzero: "cmds_rep s L \<Longrightarrow> table_of s L nm = Some p \<Longrightarrow> p \<noteq> 0"
  using table_of_Some [of s L nm p] chain_nonzero [of "ls s" "shell_list s" L] by (auto simp: cmds_rep_def ls_rep_def)

lemma lookup_cmd_ok:
  assumes rep: "entered_rep s L H t" and args: "args_rep s (words t)" and ne: "words t \<noteq> []"
  shows "\<exists>s1. line_cmd self None s = Some (case table_of (shell_tab s) L (hd (words t)) of None \<Rightarrow> 0 | Some p \<Rightarrow> p, s1) \<and>
    entered_rep s1 L H t \<and> (table_of (shell_tab s) L (hd (words t)) \<noteq> None \<longrightarrow> s1 = s) \<and> frame s s1"
proof -
  let ?w = "hd (words t)"
  have cm: "cmds_rep (shell_tab s) L" and pr: "printable t" using rep by (simp_all add: entered_rep_def)
  have w: "printable ?w" using word_printable [OF pr, of ?w] ne by simp
  have a: "arg_text s (shell_argv s ! 0) = Some ?w" "shell_argc s \<noteq> 0"
    using args ne by (auto simp: args_rep_def hd_conv_nth)
  have lk: "shell_cmd_lookup self ?w (shell_tab s) = Some (case table_of (shell_tab s) L ?w of None \<Rightarrow> 0 | Some p \<Rightarrow> p, shell_tab s)"
    by (rule lookup_ok [OF cm printable_ascii [OF w]])
  have st: "set_tab (shell_tab s) s = s" by (simp add: set_tab_def)
  show ?thesis
  proof (cases "table_of (shell_tab s) L ?w")
    case None
    let ?m = "text_of ''shell: '' @ ?w @ text_of '': command not found'' @ [10]"
    have "27 \<notin> set ?m" using printable_27 [OF w] by (simp add: text_of_def)
    then have "entered_rep (emit ?m s) L H t" by (intro emit_entered [OF rep]) auto
    then show ?thesis using None a lk st by (simp add: line_cmd_def)
  next
    case (Some p)
    then show ?thesis using a lk st rep table_of_nonzero [OF cm Some] by (simp add: line_cmd_def)
  qed
qed

lemma line_cmd_ok:
  assumes rep: "entered_rep s L H t"
  shows "\<exists>err s0 s1. shell_process_args s = Some (err, s0) \<and>
    line_cmd self err s0 = Some (case called (shell_tab s) L t of None \<Rightarrow> 0 | Some p \<Rightarrow> p, s1) \<and>
    entered_rep s1 L H t \<and> (called (shell_tab s) L t \<noteq> None \<longrightarrow> args_rep s1 (words t)) \<and> keep s s1"
proof (cases "length (words t) < SHELL_MAX_ARGS")
  case True
  have ready: "args_ready s" using rep by (simp add: entered_rep_def)
  obtain tmp argv where a: "shell_process_args s =
      Some (None, s\<lparr>shell_tmp_line := tmp, shell_argv := argv, shell_argc := int (length (words t))\<rparr>)"
    "args_rep (s\<lparr>shell_tmp_line := tmp, shell_argv := argv, shell_argc := int (length (words t))\<rparr>) (words t)"
    "length tmp = SHELL_LINE_MAX_SIZE" "length argv = SHELL_MAX_ARGS"
    using process_args_ok [OF entered_line [OF rep] ready True] by blast
  let ?s = "s\<lparr>shell_tmp_line := tmp, shell_argv := argv, shell_argc := int (length (words t))\<rparr>"
  have rep': "entered_rep ?s L H t" by (rule entered_upd(1) [OF rep a(3,4)])
  have k: "keep s ?s" by (simp add: keep_def)
  show ?thesis
  proof (cases "words t = []")
    case w: True
    then have "line_cmd self None ?s = Some (0, ?s)" by (simp add: line_cmd_def)
    then show ?thesis using a(1) rep' k w by (auto simp: called_def)
  next
    case w: False
    obtain s1 where s1: "line_cmd self None ?s = Some (case table_of (shell_tab s) L (hd (words t)) of None \<Rightarrow> 0 | Some p \<Rightarrow> p, s1)"
      "entered_rep s1 L H t" "table_of (shell_tab s) L (hd (words t)) \<noteq> None \<longrightarrow> s1 = ?s" "frame ?s s1"
      using lookup_cmd_ok [OF rep' a(2) w, of self] by auto
    have "keep s s1" using k frame_keep [OF s1(4)] by (simp add: keep_def)
    then show ?thesis using a s1 w True by (auto simp: called_def)
  qed
next
  case False
  have ready: "args_ready s" using rep by (simp add: entered_rep_def)
  let ?m = "text_of ''shell: too many arguments'' @ [10]"
  obtain tmp argv where a: "shell_process_args s = Some (Some ERROR_INVAL, emit ?m (s\<lparr>shell_tmp_line := tmp, shell_argv := argv\<rparr>))"
    "length tmp = SHELL_LINE_MAX_SIZE" "length argv = SHELL_MAX_ARGS"
    using process_args_too_many [OF entered_line [OF rep] ready] False by auto
  let ?s = "emit ?m (s\<lparr>shell_tmp_line := tmp, shell_argv := argv\<rparr>)"
  have "entered_rep ?s L H t" by (rule emit_entered [OF entered_upd(2) [OF rep a(2,3)]]) (simp_all add: text_of_def)
  moreover have "keep s ?s" by (simp add: keep_def emit_def print_def)
  ultimately show ?thesis using a(1) False by (auto simp: line_cmd_def called_def)
qed

lemma process_line_ok:
  assumes rep: "entered_rep s L H t" and n: "unat (shell_history_newest s) < 2 ^ 32 - 1"
  shows "\<exists>s'. shell_process_line call self s =
      (case called (shell_tab s) L t of None \<Rightarrow> Some s' | Some p \<Rightarrow> call (cmd_fn (cmds (shell_tab s) p)) s') \<and>
    idle_rep s' L (ed_push t H) \<and> (called (shell_tab s) L t \<noteq> None \<longrightarrow> args_rep s' (words t)) \<and>
    cmds (shell_tab s') = cmds (shell_tab s) \<and> unat (shell_history_newest s') \<le> unat (shell_history_newest s) + 1"
proof -
  let ?c = "called (shell_tab s) L t"
  obtain err s0 s1 where s1: "shell_process_args s = Some (err, s0)"
    "line_cmd self err s0 = Some (case ?c of None \<Rightarrow> 0 | Some p \<Rightarrow> p, s1)"
    "entered_rep s1 L H t" "?c \<noteq> None \<longrightarrow> args_rep s1 (words t)" "keep s s1" using line_cmd_ok [OF rep] by blast
  have n1: "unat (shell_history_newest s1) < 2 ^ 32 - 1" "cmds (shell_tab s1) = cmds (shell_tab s)"
    using s1(5) n by (simp_all add: keep_def)
  obtain s' where s': "shell_history_push s1 = Some s'" "idle_rep s' L (ed_push t H)" "args_rep s1 (words t) \<longrightarrow> args_rep s' (words t)"
    "shell_tab s' = shell_tab s1" "unat (shell_history_newest s') \<le> unat (shell_history_newest s1) + 1"
    using push_entered [OF s1(3) n1(1)] by blast
  have c0: "?c = Some p \<Longrightarrow> p \<noteq> 0" for p
    using rep table_of_nonzero [of "shell_tab s" L] by (auto simp: called_def entered_rep_def split: if_splits)
  have "shell_process_line call self s = do { (err, s) \<leftarrow> shell_process_args s; (cmd, s) \<leftarrow> line_cmd self err s;
      s \<leftarrow> shell_history_push s; if cmd \<noteq> 0 then call (cmd_fn (cmds (shell_tab s) cmd)) s else Some s }"
    unfolding shell_process_line_def line_cmd_def ..
  also have "\<dots> = (case ?c of None \<Rightarrow> Some s' | Some p \<Rightarrow> call (cmd_fn (cmds (shell_tab s) p)) s')"
    using s1(1,2) s'(1,4) n1(2) c0 by (cases ?c) auto
  finally show ?thesis using s' s1(4,5) n1(2) by (auto simp: keep_def)
qed

end
