(* ===== verification/Shell_Default.thy ===== *)
theory Shell_Default
  imports Shell_Line_Run
begin

text \<open>
  The contract of the commands, what the shell does for any commands that keep it, and the proof that
  \<^verbatim>\<open>shell_cmd_help\<close> and \<^verbatim>\<open>shell_cmd_history\<close> keep it.
\<close>

section \<open>The contract\<close>

definition ed_enter :: "editor \<Rightarrow> editor" where
  "ed_enter e = (let H = ed_push (ed_line e) (entries e) in
     \<lparr>entries = H, before = [], after = [], pos = length H, shown = True\<rparr>)"

definition ed_next :: "'a shell_cmds_scheme \<Rightarrow> u32 list \<Rightarrow> int \<Rightarrow> emode \<times> editor \<Rightarrow> emode \<times> editor" where
  "ed_next tab L c q = (if enters c q then (Ground, ed_enter (snd q)) else ed_step tab L c q)"

lemma ed_next_cong:
  assumes "cmds tab' = cmds tab"
  shows "ed_next tab' L c q = ed_next tab L c q" "hangs tab' L c q = hangs tab L c q"
  unfolding ed_next_def ed_step_def ed_ground_def ed_tab_def completion_def matches_def hangs_def table_of_def assms by (rule refl)+

lemma shell_rep_entered:
  assumes "shell_rep (escape, s) L (Ground, e)"
  shows "entered_rep (putchar 10 s) L (entries e) (ed_line e)"
proof -
  have ed: "edit_rep s e" and env: "cmds_rep (shell_tab s) L" "args_ready s" "esc_rep escape s Ground"
    using assms by (simp_all add: shell_rep_def)
  obtain l r where "screen (out (shell_tab s)) = (TGround, l, r)"
    using ed by (cases "screen (out (shell_tab s))") (auto simp: edit_rep_def)
  moreover have "frame s (putchar 10 s)" by (simp add: putchar_def)
  moreover have "esc_rep 0 s Ground" using env(3) by (simp add: esc_rep_def)
  ultimately show ?thesis using ed env frame_env [of s "putchar 10 s"]
    by (auto simp: entered_rep_def edit_rep_def putchar_def)
qed

lemma idle_reset:
  assumes "idle_rep s L H"
  shows "\<exists>s'. shell_reset s = Some s' \<and> frame s s' \<and>
    shell_rep (0, s') L (Ground, \<lparr>entries = H, before = [], after = [], pos = length H, shown = True\<rparr>)"
proof -
  obtain t where h: "hist_rep s H t (length H)" and i: "\<forall>u \<in> set H. printable u" "screen (out (shell_tab s)) = (TGround, [], [])"
    using assms by (auto simp: idle_rep_def)
  from reset_ok [OF h i] obtain s' where s': "shell_reset s = Some s'" "frame s s'"
    "edit_rep s' \<lparr>entries = H, before = [], after = [], pos = length H, shown = True\<rparr>" by blast
  then show ?thesis using assms frame_env [OF s'(2)] by (auto simp: shell_rep_def idle_rep_def)
qed

lemma getchar_9: "(of_int (getchar r) :: u8) = 9 \<longleftrightarrow> r = Inr 9"
  by (cases r) (auto simp: getchar_def)

locale shell_commands =
  fixes call :: "u32 \<Rightarrow> 'a shell_scheme \<Rightarrow> 'a shell_scheme option" and F :: "u32 set"
  assumes call_ok: "f \<in> F \<Longrightarrow> idle_rep s L H \<Longrightarrow> cmds_ok F (shell_tab s) L \<Longrightarrow> args_rep s ws \<Longrightarrow> ws \<noteq> [] \<Longrightarrow>
    \<forall>w \<in> set ws. printable w \<Longrightarrow> \<exists>s'. call f s = Some s' \<and> idle_rep s' L H \<and> keep s s'"
begin

lemma line_ok:
  assumes rep: "entered_rep s L H t" and F: "cmds_ok F (shell_tab s) L" and n: "unat (shell_history_newest s) < 2 ^ 32 - 1"
  shows "\<exists>s'. shell_process_line call self s = Some s' \<and> idle_rep s' L (ed_push t H) \<and>
    cmds (shell_tab s') = cmds (shell_tab s) \<and> unat (shell_history_newest s') \<le> unat (shell_history_newest s) + 1"
proof -
  let ?c = "called (shell_tab s) L t"
  obtain s1 where s1: "shell_process_line call self s =
      (case ?c of None \<Rightarrow> Some s1 | Some p \<Rightarrow> call (cmd_fn (cmds (shell_tab s) p)) s1)"
    "idle_rep s1 L (ed_push t H)" "?c \<noteq> None \<longrightarrow> args_rep s1 (words t)"
    "cmds (shell_tab s1) = cmds (shell_tab s)" "unat (shell_history_newest s1) \<le> unat (shell_history_newest s) + 1"
    using process_line_ok [OF rep n] by blast
  show ?thesis
  proof (cases ?c)
    case None
    then show ?thesis using s1 by auto
  next
    case (Some p)
    have cm: "ls_rep (shell_tab s) L" "printable t" using rep by (simp_all add: entered_rep_def cmds_rep_def)
    have w: "words t \<noteq> []" "p \<in> set L" using Some table_of_Some [OF cm(1)] by (auto simp: called_def split: if_splits)
    have "cmd_fn (cmds (shell_tab s) p) \<in> F" "cmds_ok F (shell_tab s1) L" using F w(2) s1(4) by (auto simp: cmds_ok_def)
    from call_ok [OF this(1) s1(2) this(2) _ w(1)] Some s1(3) word_printable [OF cm(2)] obtain s' where
      "call (cmd_fn (cmds (shell_tab s) p)) s1 = Some s'" "idle_rep s' L (ed_push t H)" "keep s1 s'" by blast
    then show ?thesis using s1 Some by (auto simp: keep_def)
  qed
qed

lemma enter_ok:
  assumes rep: "shell_rep p L q" and c: "enters c q" and F: "cmds_ok F (shell_tab (snd p)) L"
    and n: "unat (shell_history_newest (snd p)) < 2 ^ 32 - 1"
  shows "\<exists>p'. shell_run_char call self c p = Some p' \<and> shell_rep p' L (Ground, ed_enter (snd q)) \<and>
    cmds (shell_tab (snd p')) = cmds (shell_tab (snd p)) \<and>
    unat (shell_history_newest (snd p')) \<le> unat (shell_history_newest (snd p)) + 1"
proof -
  obtain escape s e where pq: "p = (escape, s)" "q = (Ground, e)" using c by (cases p; cases q) (auto simp: enters_def)
  have esc: "escape = 0" using rep pq by (simp add: shell_rep_def esc_rep_def)
  have s: "cmds_ok F (shell_tab (putchar 10 s)) L" "unat (shell_history_newest (putchar 10 s)) < 2 ^ 32 - 1"
    "cmds (shell_tab (putchar 10 s)) = cmds (shell_tab s)"
    using F n pq by (auto simp: cmds_ok_def putchar_def emit_def print_def)
  have ent: "entered_rep (putchar 10 s) L (entries e) (ed_line e)" using shell_rep_entered rep pq by blast
  obtain s1 where s1: "shell_process_line call self (putchar 10 s) = Some s1" "idle_rep s1 L (ed_push (ed_line e) (entries e))"
    "cmds (shell_tab s1) = cmds (shell_tab s)" "unat (shell_history_newest s1) \<le> unat (shell_history_newest s) + 1"
    using line_ok [OF ent s(1,2), of self] s(3) by (auto simp: putchar_def)
  obtain s' where s': "shell_reset s1 = Some s'" "frame s1 s'" "shell_rep (0, s') L (Ground, ed_enter e)"
    using idle_reset [OF s1(2)] by (auto simp: ed_enter_def Let_def)
  have "\<not> graphic 10" "\<not> graphic 13" "(10 :: u8) \<noteq> SHELL_ERASE_BS" "(10 :: u8) \<noteq> SHELL_ERASE_DEL"
    "(13 :: u8) \<noteq> SHELL_ERASE_BS" "(13 :: u8) \<noteq> SHELL_ERASE_DEL" "c \<noteq> 27"
    using c by (auto simp: graphic_def SHELL_ERASE_BS_def SHELL_ERASE_DEL_def enters_def)
  then have "shell_run_char call self c p = Some (0, s')"
    using c s1(1) s'(1) pq esc
    by (auto simp: shell_run_char_def shell_run_inner_def graphic_ctrl shell_process_ctrl_char_def enters_def)
  then show ?thesis using s' s1 pq frame_keep [OF s'(2)] by (simp add: keep_def)
qed

lemma char_ok:
  assumes rep: "shell_rep p L q" and F: "cmds_ok F (shell_tab (snd p)) L" and h: "\<not> hangs (shell_tab (snd p)) L c q"
    and n: "unat (shell_history_newest (snd p)) < 2 ^ 32 - 1"
  shows "\<exists>p'. shell_run_char call self c p = Some p' \<and> shell_rep p' L (ed_next (shell_tab (snd p)) L c q) \<and>
    cmds (shell_tab (snd p')) = cmds (shell_tab (snd p)) \<and>
    unat (shell_history_newest (snd p')) \<le> unat (shell_history_newest (snd p)) + 1"
proof (cases "enters c q")
  case True
  then show ?thesis using enter_ok [OF rep True F n] by (simp add: ed_next_def)
next
  case False
  then show ?thesis
    using run_char_ok [of "fst p" "snd p" L "fst q" "snd q" c call self] rep h by (auto simp: ed_next_def keep_def)
qed

text \<open>The lines on which the tabulation key hangs are not reached without that key.\<close>

lemma chars_ok:
  assumes "shell_rep p L q" "cmds_ok F (shell_tab (snd p)) L" "\<forall>c \<in> set cs. (of_int c :: u8) \<noteq> 9"
    "unat (shell_history_newest (snd p)) + length cs < 2 ^ 32"
  shows "\<exists>p'. shell_run_chars call self cs p = Some p' \<and> shell_rep p' L (fold (ed_next (shell_tab (snd p)) L) cs q) \<and>
    cmds (shell_tab (snd p')) = cmds (shell_tab (snd p)) \<and>
    unat (shell_history_newest (snd p')) \<le> unat (shell_history_newest (snd p)) + length cs"
  using assms
proof (induction cs arbitrary: p q)
  case (Cons c cs)
  have h: "\<not> hangs (shell_tab (snd p)) L c q" using Cons.prems(3) by (simp add: hangs_def)
  have n: "unat (shell_history_newest (snd p)) < 2 ^ 32 - 1" using Cons.prems(4) by simp
  obtain p1 where p1: "shell_run_char call self c p = Some p1" "shell_rep p1 L (ed_next (shell_tab (snd p)) L c q)"
    "cmds (shell_tab (snd p1)) = cmds (shell_tab (snd p))"
    "unat (shell_history_newest (snd p1)) \<le> unat (shell_history_newest (snd p)) + 1"
    using char_ok [OF Cons.prems(1,2) h n] by blast
  have e: "ed_next (shell_tab (snd p1)) L = ed_next (shell_tab (snd p)) L"
    using ed_next_cong(1) [OF p1(3)] by (intro ext)
  have "cmds_ok F (shell_tab (snd p1)) L" using Cons.prems(2) p1(3) by (simp add: cmds_ok_def)
  from Cons.IH [OF p1(2) this] Cons.prems(3,4) p1(4) obtain p' where
    "shell_run_chars call self cs p1 = Some p'" "shell_rep p' L (fold (ed_next (shell_tab (snd p1)) L) cs (ed_next (shell_tab (snd p)) L c q))"
    "cmds (shell_tab (snd p')) = cmds (shell_tab (snd p1))"
    "unat (shell_history_newest (snd p')) \<le> unat (shell_history_newest (snd p1)) + length cs" by auto
  then show ?case using p1(1,3,4) e by simp
qed simp

lemma run_ok:
  assumes "idle_rep s L H" "cmds_ok F (shell_tab s) L" "Inr 9 \<notin> set rs"
    "unat (shell_history_newest s) + length rs < 2 ^ 32"
  shows "\<exists>p'. shell_run call self rs s = Some p' \<and> shell_rep p' L
    (fold (ed_next (shell_tab s) L) (map getchar rs) (Ground, \<lparr>entries = H, before = [], after = [], pos = length H, shown = True\<rparr>)) \<and>
    cmds (shell_tab (snd p')) = cmds (shell_tab s) \<and>
    unat (shell_history_newest (snd p')) \<le> unat (shell_history_newest s) + length rs"
proof -
  obtain s' where s': "shell_reset s = Some s'" "frame s s'"
    "shell_rep (0, s') L (Ground, \<lparr>entries = H, before = [], after = [], pos = length H, shown = True\<rparr>)"
    using idle_reset [OF assms(1)] by blast
  have k: "cmds (shell_tab s') = cmds (shell_tab s)" "shell_history_newest s' = shell_history_newest s"
    using frame_keep [OF s'(2)] by (simp_all add: keep_def)
  have e: "ed_next (shell_tab s') L = ed_next (shell_tab s) L" using ed_next_cong(1) [OF k(1)] by (intro ext)
  have in9: "\<forall>c \<in> set (map getchar rs). (of_int c :: u8) \<noteq> 9" using getchar_9 assms(3) by auto
  have "cmds_ok F (shell_tab s') L" using assms(2) k(1) by (simp add: cmds_ok_def)
  from chars_ok [OF s'(3), unfolded snd_conv, OF this in9] assms(4) k s'(1) e show ?thesis
    by (simp add: shell_run_def)
qed

end

section \<open>The default commands\<close>

text \<open>Complete rows of output.\<close>

definition rows :: "u8 list \<Rightarrow> bool" where
  "rows cs \<longleftrightarrow> 27 \<notin> set cs \<and> (cs = [] \<or> last cs = 10)"

lemma rows_append: "rows a \<Longrightarrow> rows b \<Longrightarrow> rows (a @ b)"
  by (cases "b = []") (auto simp: rows_def last_append)

lemma sh_emit_Nil [simp]: "emit [] s = s"
  by (simp add: emit_def print_def)

lemma emit_rows: "idle_rep s L H \<Longrightarrow> rows cs \<Longrightarrow> idle_rep (emit cs s) L H"
  using emit_idle by (cases "cs = []") (auto simp: rows_def)

lemma sh_emit_emit: "emit b (emit a s) = emit (a @ b) s"
  by (simp add: emit_def print_def)

declare dec_text.simps [simp del]

lemma dec_text_27: "27 \<notin> set (dec_text n)"
proof (induction n rule: dec_text.induct)
  case (1 n)
  have "(48 :: u8) + of_nat d \<noteq> 27" if "d < 10" for d
  proof -
    have "unat (of_nat d :: u8) = d" using that by (simp add: unsigned_of_nat take_bit_nat_eq_self)
    then have "unat ((48 :: u8) + of_nat d) = 48 + d" using that by (simp add: unat_add_no_wrap)
    moreover have "unat (27 :: u8) \<noteq> 48 + d" by simp
    ultimately show ?thesis by metis
  qed
  then show ?case using 1 by (subst dec_text.simps) auto
qed

lemma history_list_ok:
  assumes "hist_rep s H t k" "\<forall>u \<in> set H. printable u" "i \<le> length H" "unat w = unat (shell_history_oldest s) + i"
  shows "\<exists>cs. history_list w s = Some (emit cs s) \<and> rows cs"
  using assms
proof (induction "length H - i" arbitrary: i w s)
  case 0
  then have "w = shell_history_newest s" by (simp add: hist_rep_def word_unat_eq_iff)
  then show ?case by (subst history_list.simps) (auto simp: rows_def intro: exI [of _ "[]"])
next
  case (Suc d)
  have n: "unat (shell_history_newest s) = unat (shell_history_oldest s) + length H" using Suc.prems(1) by (simp add: hist_rep_def)
  have i: "i < length H" "d = length H - Suc i" using Suc.hyps(2) by auto
  have ne: "w \<noteq> shell_history_newest s" using n Suc.prems(4) i by auto
  have w: "unat (w + 1) = unat (shell_history_oldest s) + Suc i"
    using Suc.prems(4) n i unat_u32_less [of "shell_history_newest s"] by (simp add: unat_add_no_wrap)
  have str: "c_str (shell_line_str (shell_history s ! shell_history_get w)) = Some (H ! i)"
    using Suc.prems(1,4) i c_str_line by (simp add: hist_rep_def history_get_mod shell_line_str_def)
  let ?m = "pad_left 6 (dec_text (unat (w - shell_history_oldest s))) @ text_of ''  '' @ H ! i @ [10]"
  have r: "rows ?m" using dec_text_27 printable_27 [of "H ! i"] Suc.prems(2) i by (auto simp: rows_def pad_left_def text_of_def)
  have "hist_rep (emit ?m s) H t k" using Suc.prems(1) by simp
  from Suc.hyps(1) [OF i(2) this Suc.prems(2)] i(1) w obtain cs where
    "history_list (w + 1) (emit ?m s) = Some (emit cs (emit ?m s))" "rows cs" by auto
  then show ?case using ne str rows_append [OF r] by (subst history_list.simps) (auto simp: sh_emit_emit)
qed

lemma history_ok:
  assumes "idle_rep s L H"
  shows "\<exists>s'. shell_cmd_history s = Some s' \<and> idle_rep s' L H \<and> keep s s'"
proof -
  obtain t where h: "hist_rep s H t (length H)" "\<forall>u \<in> set H. printable u" using assms by (auto simp: idle_rep_def)
  obtain cs where "shell_cmd_history s = Some (emit cs s)" "rows cs"
    using history_list_ok [OF h, of 0 "shell_history_oldest s"] by (auto simp: shell_cmd_history_def)
  then show ?thesis using emit_rows [OF assms] frame_keep [of s "emit cs s"] by auto
qed

lemma help_list_ok:
  assumes "chain (ls (shell_tab s)) p R"
    "\<forall>x \<in> set R. 27 \<notin> set (name (cmds (shell_tab s) x)) \<and> 27 \<notin> set (short_desc (cmds (shell_tab s) x))"
  shows "\<exists>cs. help_list p s = Some (emit cs s) \<and> rows cs"
  using assms
proof (induction R arbitrary: p s)
  case Nil
  then show ?case by (subst help_list.simps) (auto simp: rows_def intro: exI [of _ "[]"])
next
  case (Cons x R)
  let ?m = "pad_left 13 (name (cmds (shell_tab s) x)) @ text_of ''  '' @ short_desc (cmds (shell_tab s) x) @ [10]"
  have r: "rows ?m" using Cons.prems(2) by (simp add: rows_def pad_left_def text_of_def)
  have "cmds (shell_tab (emit ?m s)) = cmds (shell_tab s)" by (simp add: emit_def print_def)
  then have "chain (ls (shell_tab (emit ?m s))) (ls (shell_tab s) x) R"
    "\<forall>y \<in> set R. 27 \<notin> set (name (cmds (shell_tab (emit ?m s)) y)) \<and> 27 \<notin> set (short_desc (cmds (shell_tab (emit ?m s)) y))"
    using Cons.prems by auto
  from Cons.IH [OF this] obtain cs where "help_list (ls (shell_tab s) x) (emit ?m s) = Some (emit cs (emit ?m s))" "rows cs" by blast
  then show ?case using Cons.prems(1) rows_append [OF r] by (subst help_list.simps) (auto simp: sh_emit_emit)
qed

lemma help_all_ok:
  assumes idle: "idle_rep s L H" and ok: "cmds_ok F (shell_tab s) L" and argc: "shell_argc s = 1"
  shows "\<exists>s'. shell_cmd_help self s = Some s' \<and> idle_rep s' L H \<and> keep s s'"
proof -
  have cm: "ls_rep (shell_tab s) L" "mutex_free (shell_lock (shell_tab s))" using idle by (simp_all add: idle_rep_def cmds_rep_def)
  let ?s = "tab_locked self s"
  have acq: "shell_cmd_acquire self (shell_tab s) = Some (shell_tab ?s)" "s\<lparr>shell_tab := shell_tab ?s\<rparr> = ?s" "cmds (shell_tab ?s) = cmds (shell_tab s)"
    "shell_list (shell_tab ?s) = shell_list (shell_tab s)"
    using free_set_clear(1) [OF cm(2), of self] by (simp_all add: shell_cmd_acquire_def tab_locked_def set_tab_def)
  have "chain (ls (shell_tab ?s)) (shell_list (shell_tab ?s)) L"
    "\<forall>x \<in> set L. 27 \<notin> set (name (cmds (shell_tab ?s) x)) \<and> 27 \<notin> set (short_desc (cmds (shell_tab ?s) x))"
    using cm(1) ok acq printable_27 [OF valid_printable] by (auto simp: ls_rep_def cmds_ok_def)
  from help_list_ok [OF this] obtain cs where cs: "help_list (shell_list (shell_tab ?s)) ?s = Some (emit cs ?s)" "rows cs" by blast
  have "shell_cmd_release self (shell_tab (emit cs ?s)) = Some (print cs (shell_tab s))"
    using free_set_clear(2) [OF cm(2), of self] by (simp add: shell_cmd_release_def emit_def print_def tab_locked_def)
  then have "shell_cmd_help self s = Some ((emit cs ?s)\<lparr>shell_tab := print cs (shell_tab s)\<rparr>)"
    using argc acq cs(1) by (simp add: shell_cmd_help_def)
  moreover have "(emit cs ?s)\<lparr>shell_tab := print cs (shell_tab s)\<rparr> = emit cs s"
    by (simp add: emit_def tab_locked_def set_tab_def)
  ultimately show ?thesis using emit_rows [OF idle cs(2)] frame_keep [of s "emit cs s"] by auto
qed

text \<open>The part that describes one command.\<close>

lemma help_one_ok:
  assumes idle: "idle_rep s L H" and ok: "cmds_ok F (shell_tab s) L" and nm: "printable nm"
  shows "\<exists>cmd s'. shell_cmd_lookup self nm (shell_tab s) = Some (cmd, shell_tab s) \<and> idle_rep s' L H \<and> keep s s' \<and>
    s' = (if cmd = 0 then emit (text_of ''shell: help: '' @ nm @ text_of '': command not found'' @ [10]) s
      else case long_desc (cmds (shell_tab s) cmd) of
          None \<Rightarrow> emit (text_of ''usage: '' @ usage (cmds (shell_tab s) cmd) @ [10] @ short_desc (cmds (shell_tab s) cmd) @ [10]) s
        | Some d \<Rightarrow> emit ([10] @ d @ [10])
            (emit (text_of ''usage: '' @ usage (cmds (shell_tab s) cmd) @ [10] @ short_desc (cmds (shell_tab s) cmd) @ [10]) s))"
    (is "\<exists>cmd s'. _ \<and> _ \<and> _ \<and> s' = ?s cmd")
proof -
  have cm: "cmds_rep (shell_tab s) L" using idle by (simp add: idle_rep_def)
  let ?cmd = "case table_of (shell_tab s) L nm of None \<Rightarrow> 0 | Some p \<Rightarrow> p"
  have "\<exists>cs. ?s ?cmd = emit cs s \<and> rows cs"
  proof (cases "table_of (shell_tab s) L nm")
    case None
    then show ?thesis using printable_27 [OF nm]
      by (intro exI [of _ "text_of ''shell: help: '' @ nm @ text_of '': command not found'' @ [10]"]) (simp add: rows_def text_of_def)
  next
    case (Some p)
    have p: "p \<noteq> 0" "p \<in> set L"
      using table_of_nonzero [OF cm Some] table_of_Some [of "shell_tab s" L nm p] cm Some by (simp_all add: cmds_rep_def)
    let ?u = "text_of ''usage: '' @ usage (cmds (shell_tab s) p) @ [10] @ short_desc (cmds (shell_tab s) p) @ [10]"
    have u: "rows ?u" using ok p(2) by (simp add: cmds_ok_def rows_def text_of_def)
    show ?thesis
    proof (cases "long_desc (cmds (shell_tab s) p)")
      case None
      then show ?thesis using Some p(1) u by (intro exI [of _ ?u]) simp
    next
      case d: (Some d)
      then have "rows ([10] @ d @ [10])" using ok p(2) by (simp add: cmds_ok_def rows_def)
      from rows_append [OF u this] show ?thesis using Some d p(1) by (intro exI [of _ "?u @ [10] @ d @ [10]"]) (simp add: sh_emit_emit)
    qed
  qed
  then obtain cs where cs: "?s ?cmd = emit cs s" "rows cs" by blast
  have "idle_rep (?s ?cmd) L H \<and> keep s (?s ?cmd)" unfolding cs(1) using emit_rows [OF idle cs(2)] frame_keep [of s "emit cs s"] by simp
  then show ?thesis using lookup_ok [OF cm printable_ascii [OF nm], of self] by blast
qed

lemma help_ok:
  assumes idle: "idle_rep s L H" and ok: "cmds_ok F (shell_tab s) L" and args: "args_rep s ws" "ws \<noteq> []" "\<forall>w \<in> set ws. printable w"
  shows "\<exists>s'. shell_cmd_help self s = Some s' \<and> idle_rep s' L H \<and> keep s s'"
proof -
  have argc: "shell_argc s = int (length ws)" using args(1) by (simp add: args_rep_def)
  have st: "s\<lparr>shell_tab := shell_tab s\<rparr> = s" for s :: "'a shell_scheme" by simp
  have upd: "idle_rep (s\<lparr>shell_argv := a\<rparr>) L H" "cmds_ok F (shell_tab (s\<lparr>shell_argv := a\<rparr>)) L" if "length a = SHELL_MAX_ARGS" for a
    using idle ok that by (auto simp: idle_rep_def hist_rep_def shell_history_get_newest_def args_ready_def esc_rep_def)
  consider "length ws = 1" | "length ws = 2" | "length ws > 2" using args(2) by (cases ws; cases "tl ws") auto
  then show ?thesis
  proof cases
    case 1
    then show ?thesis using help_all_ok [OF idle ok] argc by simp
  next
    case 2
    then have "arg_text s (shell_argv s ! 1) = Some (ws ! 1)" "printable (ws ! 1)" using args by (auto simp: args_rep_def)
    then show ?thesis using help_one_ok [OF idle ok, of "ws ! 1" self] 2 argc
      by (auto simp: shell_cmd_help_def Let_def cong: option.case_cong)
  next
    case 3
    let ?a = "(shell_argv s)[1 := Const (text_of ''help'')]"
    have len: "length (shell_argv s) = SHELL_MAX_ARGS" using idle by (simp add: idle_rep_def args_ready_def)
    then have a: "put (shell_argv s) 1 (Const (text_of ''help'')) = Some ?a" "?a ! 1 = Const (text_of ''help'')" "length ?a = SHELL_MAX_ARGS"
      by (simp_all add: put_def SHELL_MAX_ARGS_def)
    have "printable (text_of ''help'')" by (simp add: text_of_def graphic_def)
    from help_one_ok [OF upd [OF a(3)] this, of self] show ?thesis using a 3 argc
      by (auto simp: shell_cmd_help_def Let_def arg_text_def keep_def cong: option.case_cong)
  qed
qed

interpretation default_cmds: shell_commands "shell_call hlp hst ext self" "{hlp, hst}" for hlp hst ext self
proof
  fix f :: u32 and s :: "'a shell_scheme" and L H ws
  assume f: "f \<in> {hlp, hst}" and idle: "idle_rep s L H" and ok: "cmds_ok {hlp, hst} (shell_tab s) L"
    and args: "args_rep s ws" "ws \<noteq> []" "\<forall>w \<in> set ws. printable w"
  show "\<exists>s'. shell_call hlp hst ext self f s = Some s' \<and> idle_rep s' L H \<and> keep s s'"
    using help_ok [OF idle ok args] history_ok [OF idle] f by (auto simp: shell_call_def)
qed

end
