(* ===== verification/Shell_Props.thy ===== *)
theory Shell_Props
  imports Shell_Default Sync_Boot
begin

text \<open>The properties of the shell.\<close>

section \<open>Start-up\<close>

lemma register_result_simps [simp]:
  "register_result None = None" "register_result (Some (None, s)) = Some s" "register_result (Some (Some e, s)) = None"
  by (simp_all add: register_result_def)

lemma register_cmds_all:
  "register_cmds self cs s = shell_tab.register_all self cs s"
proof (induction cs arbitrary: s)
  case (Cons c cs)
  show ?case
  proof (cases "shell_cmd_register self c s")
    case (Some r)
    obtain err s' where r: "r = (err, s')" by (cases r)
    show ?thesis using Cons.IH Some by (cases err) (simp_all add: r)
  qed simp
qed simp

definition empty_cmds :: "shell_cmds \<Rightarrow> bool" where
  "empty_cmds s \<longleftrightarrow> shell_list s = 0 \<and> shell_htable s = replicate SHELL_HTABLE_SIZE 0 \<and> owner (shell_lock s) = None"

lemma empty_rep:
  assumes "empty_cmds s" "\<not> locked (shell_lock s)"
  shows "cmds_rep s []"
proof -
  have "\<exists>xs. chain (ht s) (shell_htable s ! b) xs \<and> distinct xs \<and> set xs = {p \<in> {}. shell_bucket_get (name (cmds s p)) = b}"
    if "b < SHELL_HTABLE_SIZE" for b
    using assms(1) that by (intro exI [of _ "[]"]) (simp add: empty_cmds_def)
  then show ?thesis
    using assms by (simp add: cmds_rep_def ls_rep_def ht_rep_def empty_cmds_def mutex_free_def mutex_inv_def)
qed

lemma text_of_valid: "valid_name (text_of ''help'')" "valid_name (text_of ''history'')"
  by (simp_all add: valid_name_def text_of_def shell_cmd_check_char_def word_le_nat_alt)

lemma register_out:
  assumes "shell_cmd_register self c s = Some (None, s')"
  shows "out s' = out s"
proof -
  have add_list: "out s2 = out s1" if "shell_cmd_add_list c s1 = Some s2" for s1 s2 :: "'a shell_cmds_scheme"
    using that by (auto simp: shell_cmd_add_list_def set_ls_next_def Let_def split: if_splits bind_splits)
  have "out s2 = out s1" if "shell_cmd_add c s1 = Some (None, s2)" for s1 s2 :: "'a shell_cmds_scheme"
    using that by (auto simp: shell_cmd_add_def Let_def set_ht_next_def dest!: add_list split: if_splits bind_splits sum.splits)
  then show ?thesis
    using assms by (fastforce simp: shell_cmd_register_def shell_cmd_acquire_def shell_cmd_release_def
        split: option.splits bind_splits)
qed

lemma setup_table:
  fixes s0 :: shell_cmds
  assumes empty: "empty_cmds s0" and a: "a \<noteq> 0" "a + 28 \<noteq> 0"
    and s: "s = (shell_default_cmds a hlp hst s0)\<lparr>shell_lock := mutex_init (shell_lock s0)\<rparr>"
  shows "\<exists>s' L. register_cmds self [a, a + 28] s = Some s' \<and> cmds_rep s' L \<and>
    table_of s' L = [text_of ''help'' \<mapsto> a, text_of ''history'' \<mapsto> a + 28] \<and> cmds_ok {hlp, hst} s' L \<and> out s' = out s0"
proof -
  have ne: "a + 28 \<noteq> a" by simp
  have n: "name (cmds s a) = text_of ''help''" "name (cmds s (a + 28)) = text_of ''history''" "ht s a = 0" "ht s (a + 28) = 0"
    using ne by (simp_all add: s shell_default_cmds_def shell_cmd_init_def)
  have tne: "text_of ''help'' \<noteq> text_of ''history''" by (simp add: text_of_def)
  have rep0: "cmds_rep s []"
    using empty by (intro empty_rep) (simp_all add: s empty_cmds_def shell_default_cmds_def shell_cmd_init_def mutex_init_def)
  have "fresh_cmd s [] a" using a n by (simp add: fresh_cmd_def)
  from register_ok [OF rep0 this, of self] obtain s1 L1 where s1: "shell_cmd_register self a s = Some (None, s1)" "cmds_rep s1 L1"
    "same_names s s1" "\<forall>p. ht s1 p = ht s p" "set L1 = {a}" "table_of s1 L1 = [text_of ''help'' \<mapsto> a]"
    using text_of_valid n by (auto simp: table_of_def)
  have n1: "name (cmds s1 p) = name (cmds s p)" for p by (rule same_names_bucket [OF s1(3)])
  have "fresh_cmd s1 L1 (a + 28)" using a ne n s1(4,5) by (simp add: fresh_cmd_def)
  from register_ok [OF s1(2) this, of self] obtain s2 L2 where s2: "shell_cmd_register self (a + 28) s1 = Some (None, s2)" "cmds_rep s2 L2"
    "same_names s1 s2" "set L2 = {a + 28, a}" "table_of s2 L2 = [text_of ''help'' \<mapsto> a, text_of ''history'' \<mapsto> a + 28]"
    using text_of_valid n n1 tne s1(5,6) by auto
  have "cmds_ok {hlp, hst} s2 L2"
    using s1(3) s2(3,4) ne
    by (simp add: cmds_ok_def same_names_def s shell_default_cmds_def shell_cmd_init_def text_of_def)
  moreover have "out s2 = out s0"
    using register_out [OF s1(1)] register_out [OF s2(1)] by (simp add: s shell_default_cmds_def shell_cmd_init_def)
  ultimately show ?thesis using s1(1) s2(1,2,5) by auto
qed

text \<open>The static variables of lib/shell.c when the kernel starts, with the command table \<open>tab\<close>.\<close>

definition zero_shell :: "shell_cmds \<Rightarrow> shell" where
  "zero_shell tab = \<lparr>shell_history = replicate SHELL_HISTORY_SIZE \<lparr>line_str = replicate SHELL_LINE_MAX_SIZE 0, line_size = 0\<rparr>,
     shell_history_newest = 0, shell_history_oldest = 0, shell_history_index = 0,
     shell_tab = tab, shell_cursor = 0, shell_tmp_line = replicate SHELL_LINE_MAX_SIZE 0, shell_argc = 0,
     shell_argv = replicate SHELL_MAX_ARGS NULL, esc_str = replicate SHELL_ESC_SEQ_MAX_SIZE 0, esc_ptr = 0\<rparr>"

definition start_editor :: editor where
  "start_editor = \<lparr>entries = [], before = [], after = [], pos = 0, shown = True\<rparr>"

lemma zero_line: "line_rep \<lparr>line_str = replicate SHELL_LINE_MAX_SIZE 0, line_size = 0\<rparr> []"
  by (simp add: line_rep_def SHELL_LINE_MAX_SIZE_def numeral_eq_Suc)

lemma zero_idle:
  assumes "cmds_rep tab L" "screen (out tab) = (TGround, [], [])"
  shows "idle_rep (zero_shell tab) L []"
proof -
  have "hist_rep (zero_shell tab) [] [] 0"
    using zero_line by (auto simp: hist_rep_def zero_shell_def newest_mod SHELL_HISTORY_SIZE_def)
  then show ?thesis using assms by (auto simp: idle_rep_def args_ready_def esc_rep_def zero_shell_def)
qed

lemma start_ok:
  fixes s0 :: shell_cmds
  assumes empty: "empty_cmds s0" "out s0 = []" and a: "a \<noteq> 0" "a + 28 \<noteq> 0"
    and inp: "Inr 9 \<notin> set rs" "length rs < 2 ^ 32"
    and s: "s = (shell_default_cmds a hlp hst s0)\<lparr>shell_lock := mutex_init (shell_lock s0)\<rparr>"
  shows "\<exists>s' L p. register_cmds self [a, a + 28] s = Some s' \<and>
    table_of s' L = [text_of ''help'' \<mapsto> a, text_of ''history'' \<mapsto> a + 28] \<and>
    shell_run (shell_call hlp hst ext sh) sh rs (zero_shell s') = Some p \<and>
    shell_rep p L (fold (ed_next s' L) (map getchar rs) (Ground, start_editor)) \<and> cmds (shell_tab (snd p)) = cmds s' \<and>
    cmds_ok {hlp, hst} (shell_tab (snd p)) L \<and> unat (shell_history_newest (snd p)) \<le> length rs"
proof -
  from setup_table [OF empty(1) a s, of self] obtain s' L where s': "register_cmds self [a, a + 28] s = Some s'" "cmds_rep s' L"
    "table_of s' L = [text_of ''help'' \<mapsto> a, text_of ''history'' \<mapsto> a + 28]" "cmds_ok {hlp, hst} s' L" "out s' = out s0" by blast
  have idle: "idle_rep (zero_shell s') L []" using s'(2,5) empty(2) by (intro zero_idle) (simp_all add: screen_def)
  have z: "shell_tab (zero_shell s') = s'" "shell_history_newest (zero_shell s') = 0" by (simp_all add: zero_shell_def)
  obtain p where "shell_run (shell_call hlp hst ext sh) sh rs (zero_shell s') = Some p"
    "shell_rep p L (fold (ed_next s' L) (map getchar rs) (Ground, start_editor))" "cmds (shell_tab (snd p)) = cmds s'"
    "unat (shell_history_newest (snd p)) \<le> length rs"
    using default_cmds.run_ok [OF idle, of hlp hst rs ext sh sh] s'(4) inp z by (auto simp: start_editor_def)
  moreover from this(3) have "cmds_ok {hlp, hst} (shell_tab (snd p)) L" using s'(4) by (simp add: cmds_ok_def)
  ultimately show ?thesis using s' by blast
qed

section \<open>Properties\<close>

text \<open>
  C20: The shell does not crash and does not leave its arrays, whatever is typed: started by
  \<^verbatim>\<open>shell_setup\<close> on zeroed memory, which registers its two commands and creates its thread, it returns to
  reading the next character after any sequence of fewer than 2^32 bytes without a tabulation
  (control characters, escape sequences and failed reads included), and its state is then
  the one of an editor that has processed these characters: the line, the cursor, the history of at
  most 20 entries, and a terminal that shows the prompt and the line.\<close>
theorem shell_safe:
  fixes s0 :: shell_cmds
  assumes empty: "empty_cmds s0" "out s0 = []" and a: "a \<noteq> 0" "a + 28 \<noteq> 0"
    and k: "boot_inv dummy T k" "card T < 2 ^ 32 - 1" and t: "t \<notin> T" "t \<noteq> dummy" "t \<noteq> 0" "stack \<noteq> 0"
    and inp: "Inr 9 \<notin> set rs" "length rs < 2 ^ 32"
  shows "\<exists>s' L p. shell_setup dummy a t stack fn (shell_default_cmds a hlp hst s0, k) =
      Some (s', created t fn THREAD_MIN_PRIORITY k) \<and>
    table_of s' L = [text_of ''help'' \<mapsto> a, text_of ''history'' \<mapsto> a + 28] \<and>
    shell_run (shell_call hlp hst ext t) t rs (zero_shell s') = Some p \<and>
    shell_rep p L (fold (ed_next s' L) (map getchar rs) (Ground, start_editor))"
proof -
  have l: "shell_lock (shell_default_cmds a hlp hst s0) = shell_lock s0"
    by (simp add: shell_default_cmds_def shell_cmd_init_def)
  have c: "thread_create t stack fn THREAD_MIN_PRIORITY k = Some (None, created t fn THREAD_MIN_PRIORITY k)"
    by (rule thread_create_eq [OF k(1) t _ k(2)]) (simp add: THREAD_MIN_PRIORITY_def)
  obtain s' L p where s': "register_cmds dummy [a, a + 28]
      ((shell_default_cmds a hlp hst s0)\<lparr>shell_lock := mutex_init (shell_lock s0)\<rparr>) = Some s'"
    "table_of s' L = [text_of ''help'' \<mapsto> a, text_of ''history'' \<mapsto> a + 28]"
    "shell_run (shell_call hlp hst ext t) t rs (zero_shell s') = Some p"
    "shell_rep p L (fold (ed_next s' L) (map getchar rs) (Ground, start_editor))"
    using start_ok [OF empty a inp refl, where hlp = hlp and hst = hst and self = dummy and ext = ext and sh = t] by blast
  have "shell_setup dummy a t stack fn (shell_default_cmds a hlp hst s0, k) = Some (s', created t fn THREAD_MIN_PRIORITY k)"
    unfolding shell_setup_def prod.case Let_def l s'(1) using c by simp
  then show ?thesis using s' by blast
qed

text \<open>
  C21: Each character that the shell reads, in whatever state, does what the editor specifies, with the
  default commands: a printable character is inserted at the cursor or, if the line is full, the line is
  dropped with a message; backspace, the delete, home, end and arrow sequences edit and move;
  the tabulation key completes the first word; the end of a line calls the command and adds the line
  to the history.  The terminal shows the new line and cursor whenever it showed the old ones, and
  the only character that does not return is the tabulation described in the next property.\<close>
theorem shell_key_refines:
  fixes p :: "nat \<times> 'a shell_scheme"
  assumes "shell_rep p L q" "cmds_ok {hlp, hst} (shell_tab (snd p)) L" "\<not> hangs (shell_tab (snd p)) L c q"
    "unat (shell_history_newest (snd p)) < 2 ^ 32 - 1"
  shows "\<exists>p'. shell_run_char (shell_call hlp hst ext self) self c p = Some p' \<and>
    shell_rep p' L (ed_next (shell_tab (snd p)) L c q) \<and> cmds (shell_tab (snd p')) = cmds (shell_tab (snd p))"
  using default_cmds.char_ok [OF assms(1,2,3,4), of ext self self] by blast

text \<open>
  C22: The tabulation key returns, except in one case: when the cursor stands in the blanks before the first
  word and the rest of the line from that word on is exactly the name of a registered command, the
  subtraction of the word's offset from the cursor wraps around, the command matches, and the loop
  that erases backwards to the word never reaches it; the shell then hangs with its lock held.\<close>
theorem shell_tab_returns:
  assumes "edit_rep s e" and "cmds_rep (shell_tab s) L"
  shows "shell_process_tabulation self s = None \<longleftrightarrow>
    length (before e) < blanks e \<and> table_of (shell_tab s) L (first_word e) \<noteq> None"
proof (cases "length (before e) < blanks e")
  case True
  then show ?thesis
    using tab_front [OF assms True, of self] by (cases "table_of (shell_tab s) L (first_word e)") auto
next
  case False
  then show ?thesis using tab_ok [OF assms, of self] by auto
qed

text \<open>
  C23: \<^verbatim>\<open>shell_cmd_complete\<close> finds the commands whose names begin with the given characters: with none
  it returns ERROR\_INVAL, with one the command and the length of its whole name, and with several
  ERROR\_AGAIN, the first of them in the order of the names, and the length of the longest prefix
  that all of them have in common.\<close>
theorem shell_cmd_complete_spec:
  assumes "ls_rep s L" and "ascii str"
  shows "shell_cmd_complete str sz cmd s = Some
     (case matches s L str sz of
        [] \<Rightarrow> (Some ERROR_INVAL, sz, cmd)
      | [p] \<Rightarrow> (None, length (name (cmds s p)), p)
      | p # _ \<Rightarrow> (Some ERROR_AGAIN,
          length (Longest_common_prefix ((\<lambda>q. name (cmds s q)) ` set (matches s L str sz))), p))"
  using complete_ok [OF assms, of sz cmd] by (simp add: completion_def)

text \<open>
  C24: \<^verbatim>\<open>shell_process_args\<close> splits the line into its words: with at most 15 of them it sets the
  count, makes the pointers point to null-terminated copies of the words in order, with a null
  pointer after the last; with more it refuses the line with ERROR\_INVAL.  It never leaves its arrays.\<close>
theorem shell_process_args_words:
  assumes "line_rep (newest s) t" and "args_ready s"
  shows "\<exists>err s'. shell_process_args s = Some (err, s') \<and> args_ready s' \<and>
    (if length (words t) < SHELL_MAX_ARGS then err = None \<and> args_rep s' (words t) else err = Some ERROR_INVAL)"
proof (cases "length (words t) < SHELL_MAX_ARGS")
  case True
  then show ?thesis using process_args_ok [OF assms True] by (auto simp: args_ready_def)
next
  case False
  then show ?thesis using process_args_too_many [OF assms] by (fastforce simp: args_ready_def emit_def)
qed

text \<open>
  C25: \<^verbatim>\<open>shell_cmd_register\<close> implements insertion into a map from names to commands: a name
  outside of the allowed characters is refused with ERROR\_INVAL, a name in use with ERROR\_EXIST, and
  otherwise the command is added, in the hash table and at its place in the sorted list; the other
  commands stay.\<close>
theorem shell_cmd_register_refines:
  assumes "cmds_rep s L" and "fresh_cmd s L cmd"
  shows "\<exists>err s' L'. shell_cmd_register self cmd s = Some (err, s') \<and> cmds_rep s' L' \<and>
    (if \<not> valid_name (name (cmds s cmd)) then err = Some ERROR_INVAL \<and> table_of s' L' = table_of s L
     else if table_of s L (name (cmds s cmd)) \<noteq> None then err = Some ERROR_EXIST \<and> table_of s' L' = table_of s L
     else err = None \<and> table_of s' L' = (table_of s L)(name (cmds s cmd) \<mapsto> cmd)) \<and>
    (\<forall>nm. ascii nm \<longrightarrow> shell_cmd_lookup self nm s' = Some (case table_of s' L' nm of None \<Rightarrow> 0 | Some p \<Rightarrow> p, s'))"
proof -
  obtain err s' L' where r: "shell_cmd_register self cmd s = Some (err, s')" "cmds_rep s' L'" "same_names s s'"
    "if \<not> valid_name (name (cmds s cmd)) then err = Some ERROR_INVAL \<and> L' = L \<and> s' = s
     else if table_of s L (name (cmds s cmd)) \<noteq> None then err = Some ERROR_EXIST \<and> L' = L
     else err = None \<and> set L' = insert cmd (set L) \<and> table_of s' L' = (table_of s L)(name (cmds s cmd) \<mapsto> cmd)"
    using register_ok [OF assms, of self] by blast
  show ?thesis
    using r lookup_ok [OF r(2), of _ self] same_names_table [OF r(3), of L]
    by (intro exI [of _ err] exI [of _ s'] exI [of _ L']) (auto split: if_splits)
qed

lemma ed_push_last: "t \<noteq> [] \<Longrightarrow> ed_push t H \<noteq> [] \<and> last (ed_push t H) = t"
  by (auto simp: ed_push_def trim_history_def SHELL_HISTORY_SIZE_def)

lemma recall_editor:
  assumes "ed_line e \<noteq> []"
  shows "fold (ed_next tab L) [13, 27, 91, 65] (Ground, e) =
    (Ground, (ed_enter e)\<lparr>before := ed_line e, pos := length (entries (ed_enter e)) - 1\<rparr>)"
proof -
  have "\<not> graphic 27" "graphic 91" "(27 :: u8) \<noteq> 10" "(27 :: u8) \<noteq> 13" "sint (65 :: u8) = 65" by (simp_all add: graphic_def)
  moreover have "ed_esc [65] x = ed_up x" for x by (simp add: ed_esc_def ed_esc_seqs_def text_of_def)
  ultimately have "fold (ed_next tab L) [13, 27, 91, 65] (Ground, e) = (Ground, ed_up (ed_enter e))"
    by (simp add: ed_next_def enters_def ed_step_def ed_ground_def ed_csi_def SHELL_ESC_SEQ_MAX_SIZE_def)
  moreover have "ed_push (ed_line e) (entries e) \<noteq> []" "last (ed_push (ed_line e) (entries e)) = ed_line e"
    using ed_push_last [OF assms] by auto
  ultimately show ?thesis by (simp add: ed_up_def ed_enter_def Let_def last_conv_nth)
qed

text \<open>
  C26: The history recalls a line: when the end of a line and then the sequence of the up key
  are typed, the line that was entered is the current line again, with the cursor at its end.\<close>
theorem shell_history_recall:
  fixes p :: "nat \<times> 'a shell_scheme"
  assumes "shell_rep p L (Ground, e)" and "cmds_ok {hlp, hst} (shell_tab (snd p)) L" and "ed_line e \<noteq> []"
    and "unat (shell_history_newest (snd p)) < 2 ^ 32 - 4"
  shows "\<exists>p' e'. shell_run_chars (shell_call hlp hst ext self) self [13, 27, 91, 65] p = Some p' \<and> shell_rep p' L (Ground, e') \<and>
    before e' = ed_line e \<and> after e' = [] \<and> shown e'"
proof -
  have "\<exists>p'. shell_run_chars (shell_call hlp hst ext self) self [13, 27, 91, 65] p = Some p' \<and>
      shell_rep p' L (fold (ed_next (shell_tab (snd p)) L) [13, 27, 91, 65] (Ground, e))"
    using default_cmds.chars_ok [OF assms(1,2), of "[13, 27, 91, 65]" ext self self] assms(4) by auto
  then obtain p' where p': "shell_run_chars (shell_call hlp hst ext self) self [13, 27, 91, 65] p = Some p'"
    "shell_rep p' L (Ground, (ed_enter e)\<lparr>before := ed_line e, pos := length (entries (ed_enter e)) - 1\<rparr>)"
    unfolding recall_editor [OF assms(3)] by blast
  show ?thesis
    by (intro exI conjI, rule p'(1), rule p'(2)) (simp_all add: ed_enter_def Let_def)
qed

section \<open>Witnesses\<close>

definition ex_tab :: shell_cmds where
  "ex_tab = \<lparr>cmds = (\<lambda>_. \<lparr>ht_next = 0, ls_next = 0, name = [], cmd_fn = 0, usage = [], short_desc = [], long_desc = None\<rparr>),
     shell_htable = replicate SHELL_HTABLE_SIZE 0, shell_list = 0,
     shell_lock = \<lparr>waiters = [], owner = None, locked = False\<rparr>, out = []\<rparr>"

lemma ex_tab_empty: "empty_cmds ex_tab" "out ex_tab = []"
  by (simp_all add: empty_cmds_def ex_tab_def)

text \<open>The shell with its two commands at 4096 and 4124, whose functions are at 1 and 2.\<close>

abbreviation ex_call :: "u32 \<Rightarrow> shell \<Rightarrow> shell option" where
  "ex_call \<equiv> shell_call 1 2 (\<lambda>_ _. None) 3"

abbreviation ex_registered :: "shell_cmds option" where
  "ex_registered \<equiv> register_cmds 1 [4096, 4124]
     ((shell_default_cmds 4096 1 2 ex_tab)\<lparr>shell_lock := mutex_init (shell_lock ex_tab)\<rparr>)"

lemma ex_started:
  assumes "Inr 9 \<notin> set rs" "length rs < 2 ^ 32"
  obtains s' L p where "ex_registered = Some s'"
    "table_of s' L = [text_of ''help'' \<mapsto> 4096, text_of ''history'' \<mapsto> 4124]"
    "shell_run ex_call 3 rs (zero_shell s') = Some p" "shell_rep p L (fold (ed_next s' L) (map getchar rs) (Ground, start_editor))"
    "cmds (shell_tab (snd p)) = cmds s'" "cmds_ok {1, 2} (shell_tab (snd p)) L" "unat (shell_history_newest (snd p)) \<le> length rs"
  using start_ok [OF ex_tab_empty _ _ assms refl, where a = 4096 and hlp = 1 and hst = 2 and self = 1 and ext = "\<lambda>_ _. None" and sh = 3]
  by (auto simp del: register_cmds.simps)

lemmas ed_defs = getchar_def ed_next_def enters_def ed_step_def ed_ground_def ed_csi_def ed_insert_def ed_line_def start_editor_def
  graphic_def SHELL_ESC_SEQ_MAX_SIZE_def SHELL_LINE_MAX_SIZE_def

theorem shell_safe_witness:
  "\<exists>k s' L p. boot_inv 1 {2} k \<and> shell_setup 1 4096 3 1 [] (shell_default_cmds 4096 1 2 ex_tab, k) =
      Some (s', created 3 [] THREAD_MIN_PRIORITY k) \<and>
    shell_run ex_call 3 [Inr 104, Inl ERROR_IO, Inr 105] (zero_shell s') = Some p \<and>
    shell_rep p L (Ground, start_editor\<lparr>before := [104, 105]\<rparr>)"
proof -
  obtain k where k: "boot_inv 1 {2} k"
    using boot_inv_setup [of 2 1 1 ex_kernel] by (auto simp: ex_kernel_def)
  have "\<exists>s' L p. shell_setup 1 4096 3 1 [] (shell_default_cmds 4096 1 2 ex_tab, k) =
      Some (s', created 3 [] THREAD_MIN_PRIORITY k) \<and>
    table_of s' L = [text_of ''help'' \<mapsto> 4096, text_of ''history'' \<mapsto> 4096 + 28] \<and>
    shell_run ex_call 3 [Inr 104, Inl ERROR_IO, Inr 105] (zero_shell s') = Some p \<and>
    shell_rep p L (fold (ed_next s' L) (map getchar [Inr 104, Inl ERROR_IO, Inr 105]) (Ground, start_editor))"
    by (rule shell_safe [OF ex_tab_empty _ _ k]) simp_all
  moreover have "fold (ed_next s' L) (map getchar [Inr 104, Inl ERROR_IO, Inr 105]) (Ground, start_editor) = (Ground, start_editor\<lparr>before := [104, 105]\<rparr>)"
    for s' :: shell_cmds and L by (simp add: ed_defs SHELL_ERASE_BS_def SHELL_ERASE_DEL_def)
  ultimately show ?thesis using k by metis
qed

theorem shell_key_refines_witness:
  "\<exists>p p' L. shell_rep p L (Ground, start_editor\<lparr>before := [104]\<rparr>) \<and> shell_run_char ex_call 3 105 p = Some p' \<and>
    shell_rep p' L (Ground, start_editor\<lparr>before := [104, 105]\<rparr>)"
proof -
  obtain s' :: shell_cmds and L :: "u32 list" and p :: "nat \<times> shell" where p: "shell_rep p L (fold (ed_next s' L) (map getchar [Inr 104]) (Ground, start_editor))"
    "cmds_ok {1, 2} (shell_tab (snd p)) L" "unat (shell_history_newest (snd p)) \<le> length [Inr 104 :: error + u8]"
    by (rule ex_started [of "[Inr 104]"]) simp_all
  have n: "unat (shell_history_newest (snd p)) < 2 ^ 32 - 1" using p(3) by simp
  have e: "fold (ed_next s' L) (map getchar [Inr 104]) (Ground, start_editor) = (Ground, start_editor\<lparr>before := [104]\<rparr>)" by (simp add: ed_defs)
  have p1: "shell_rep p L (Ground, start_editor\<lparr>before := [104]\<rparr>)" using p(1) unfolding e .
  have "\<exists>p'. shell_run_char ex_call 3 105 p = Some p' \<and>
      shell_rep p' L (ed_next (shell_tab (snd p)) L 105 (Ground, start_editor\<lparr>before := [104]\<rparr>)) \<and>
      cmds (shell_tab (snd p')) = cmds (shell_tab (snd p))"
    by (rule shell_key_refines [OF p1 p(2) _ n]) (simp add: hangs_def)
  moreover have "ed_next (shell_tab (snd p)) L 105 (Ground, start_editor\<lparr>before := [104]\<rparr>) =
      (Ground, start_editor\<lparr>before := [104, 105]\<rparr>)" by (simp add: ed_defs)
  ultimately obtain p' where "shell_run_char ex_call 3 105 p = Some p'" "shell_rep p' L (Ground, start_editor\<lparr>before := [104, 105]\<rparr>)"
    by auto
  then show ?thesis using p1 by blast
qed

text \<open>A line that starts with blanks, the home key and a tabulation: the shell hangs.\<close>

lemma run_chars_append:
  "shell_run_chars call self (a @ b) p = do { p \<leftarrow> shell_run_chars call self a p; shell_run_chars call self b p }"
  by (induction a arbitrary: p) (auto split: bind_splits)

lemma run_append: "shell_run call self (a @ b) s = do { p \<leftarrow> shell_run call self a s; shell_run_chars call self (map getchar b) p }"
  by (simp add: shell_run_def run_chars_append)

theorem shell_tab_returns_witness:
  "\<exists>s'. ex_registered = Some s' \<and>
    shell_run ex_call 3 (map Inr [32, 32, 104, 101, 108, 112, 27, 91, 72] @ [Inr 9]) (zero_shell s') = None"
proof -
  let ?cs = "map Inr [32, 32, 104, 101, 108, 112, 27, 91, 72] :: (error + u8) list"
  let ?e = "start_editor\<lparr>after := [32, 32, 104, 101, 108, 112]\<rparr>"
  obtain s' L p where p: "ex_registered = Some s'"
    "table_of s' L = [text_of ''help'' \<mapsto> 4096, text_of ''history'' \<mapsto> 4124]"
    "shell_run ex_call 3 ?cs (zero_shell s') = Some p" "shell_rep p L (fold (ed_next s' L) (map getchar ?cs) (Ground, start_editor))"
    "cmds (shell_tab (snd p)) = cmds s'" by (rule ex_started [of ?cs]) (simp_all del: register_cmds.simps)
  have "ed_esc [72] e = ed_home e" for e by (simp add: ed_esc_def ed_esc_seqs_def text_of_def)
  then have "fold (ed_next s' L) (map getchar ?cs) (Ground, start_editor) = (Ground, ?e)"
    by (simp add: ed_defs ed_home_def SHELL_ERASE_BS_def SHELL_ERASE_DEL_def)
  then have r: "edit_rep (snd p) ?e" "cmds_rep (shell_tab (snd p)) L" "fst p = 0" using p(4) by (simp_all add: shell_rep_def esc_rep_def)
  have "blanks ?e = 2" "first_word ?e = text_of ''help''"
    by (simp_all add: blanks_def first_word_def ed_line_def start_editor_def SHELL_SEPARATOR_def text_of_def)
  moreover have "table_of (shell_tab (snd p)) L = table_of s' L" unfolding table_of_def p(5) ..
  ultimately have "shell_process_tabulation 3 (snd p) = None"
    using shell_tab_returns [OF r(1,2), of 3] p(2) by (simp add: start_editor_def)
  then have "shell_run_chars ex_call 3 (map getchar [Inr 9]) p = None"
    using r(3) by (cases p) (simp add: getchar_def shell_run_char_def shell_run_inner_def shell_is_ctrl_char_def shell_process_ctrl_char_def
      SHELL_ERASE_BS_def SHELL_ERASE_DEL_def)
  then have "shell_run ex_call 3 (?cs @ [Inr 9]) (zero_shell s') = None" unfolding run_append p(3) by simp
  then show ?thesis using p(1) by blast
qed

definition ex_cmd :: "string \<Rightarrow> u32 \<Rightarrow> shell_cmd" where
  "ex_cmd nm next = \<lparr>ht_next = 0, ls_next = next, name = text_of nm, cmd_fn = 1, usage = [], short_desc = [], long_desc = None\<rparr>"

text \<open>Three commands in the sorted list; two of them begin with \<^verbatim>\<open>sw_\<close>.\<close>

definition ex_list :: shell_cmds where
  "ex_list = ex_tab\<lparr>cmds := (cmds ex_tab)(16 := ex_cmd ''help'' 32, 32 := ex_cmd ''sw_read'' 48, 48 := ex_cmd ''sw_resume'' 0),
     shell_list := 16\<rparr>"

theorem shell_cmd_complete_spec_witness:
  "shell_cmd_complete (text_of ''s'') 1 0 ex_list = Some (Some ERROR_AGAIN, 5, 32)"
proof -
  have lsr: "ls_rep ex_list [16, 32, 48]"
    by (simp add: ls_rep_def ex_list_def ex_cmd_def key_def text_of_def valid_name_def shell_cmd_check_char_def word_le_nat_alt)
  have m: "matches ex_list [16, 32, 48] (text_of ''s'') 1 = [32, 48]"
    by (simp add: matches_def ex_list_def ex_cmd_def text_of_def)
  have "first_diff (text_of ''sw_read'') (text_of ''sw_resume'') 5"
    by (simp add: first_diff_def text_of_def)
  then have "length (Longest_common_prefix {text_of ''sw_read'', text_of ''sw_resume''}) = 5"
    by (rule lcp_first_last) (simp_all add: key_def text_of_def)
  moreover have "ascii (text_of ''s'')" by (simp add: text_of_def)
  ultimately show ?thesis
    using shell_cmd_complete_spec [OF lsr, of "text_of ''s''" 1 0] m by (simp add: ex_list_def ex_cmd_def)
qed

definition ex_shell :: "u8 list \<Rightarrow> shell" where
  "ex_shell t = set_newest \<lparr>line_str = t @ replicate (SHELL_LINE_MAX_SIZE - length t) 0, line_size = of_nat (length t)\<rparr> (zero_shell ex_tab)"

lemma ex_shell_line:
  assumes "0 \<notin> set t" "length t < 64"
  shows "line_rep (newest (ex_shell t)) t"
proof -
  have "newest (ex_shell t) = \<lparr>line_str = t @ replicate (SHELL_LINE_MAX_SIZE - length t) 0, line_size = of_nat (length t)\<rparr>"
    by (simp add: newest_def ex_shell_def set_newest_def zero_shell_def newest_mod SHELL_HISTORY_SIZE_def)
  moreover have "SHELL_LINE_MAX_SIZE - length t = Suc (63 - length t)" using assms(2) by (simp add: SHELL_LINE_MAX_SIZE_def)
  ultimately show ?thesis using assms by (simp add: line_rep_def SHELL_LINE_MAX_SIZE_def)
qed

theorem shell_process_args_words_witness:
  "\<exists>s'. shell_process_args (ex_shell (text_of '' sw_wait  10'')) = Some (None, s') \<and>
    args_rep s' [text_of ''sw_wait'', text_of ''10'']"
proof -
  let ?t = "text_of '' sw_wait  10''"
  have w: "words ?t = [text_of ''sw_wait'', text_of ''10'']" by (simp add: text_of_def SHELL_SEPARATOR_def)
  have "0 \<notin> set ?t" "length ?t < 64" by (simp_all add: text_of_def)
  then have "line_rep (newest (ex_shell ?t)) ?t" by (rule ex_shell_line)
  moreover have "args_ready (ex_shell ?t)" by (simp add: args_ready_def ex_shell_def set_newest_def zero_shell_def)
  ultimately show ?thesis using shell_process_args_words [of "ex_shell ?t" ?t] w by (auto simp: SHELL_MAX_ARGS_def)
qed

theorem shell_cmd_register_refines_witness:
  "\<exists>s' L'. shell_cmd_register 1 4096 (shell_default_cmds 4096 1 2 ex_tab) = Some (None, s') \<and> cmds_rep s' L' \<and>
    shell_cmd_lookup 1 (text_of ''help'') s' = Some (4096, s')"
proof -
  let ?s = "shell_default_cmds 4096 1 2 ex_tab"
  have rep: "cmds_rep ?s []"
    by (rule empty_rep) (simp_all add: empty_cmds_def ex_tab_def shell_default_cmds_def shell_cmd_init_def)
  have c: "fresh_cmd ?s [] 4096" "name (cmds ?s 4096) = text_of ''help''"
    by (simp_all add: fresh_cmd_def shell_default_cmds_def shell_cmd_init_def)
  have "ascii (text_of ''help'')" by (simp add: text_of_def)
  then show ?thesis using shell_cmd_register_refines [OF rep c(1), of 1] text_of_valid(1) unfolding c(2) by (auto simp: table_of_def)
qed

theorem shell_history_recall_witness:
  "\<exists>p p' L e'. shell_rep p L (Ground, start_editor\<lparr>before := [104]\<rparr>) \<and>
    shell_run_chars ex_call 3 [13, 27, 91, 65] p = Some p' \<and> shell_rep p' L (Ground, e') \<and> before e' = [104]"
proof -
  obtain s' :: shell_cmds and L :: "u32 list" and p :: "nat \<times> shell" where p: "shell_rep p L (fold (ed_next s' L) (map getchar [Inr 104]) (Ground, start_editor))"
    "cmds_ok {1, 2} (shell_tab (snd p)) L" "unat (shell_history_newest (snd p)) \<le> length [Inr 104 :: error + u8]"
    by (rule ex_started [of "[Inr 104]"]) simp_all
  have e: "fold (ed_next s' L) (map getchar [Inr 104]) (Ground, start_editor) = (Ground, start_editor\<lparr>before := [104]\<rparr>)" by (simp add: ed_defs)
  have p1: "shell_rep p L (Ground, start_editor\<lparr>before := [104]\<rparr>)" using p(1) unfolding e .
  have l: "ed_line (start_editor\<lparr>before := [104]\<rparr>) = [104]" by (simp add: ed_line_def start_editor_def)
  have "unat (shell_history_newest (snd p)) < 2 ^ 32 - 4" using p(3) by simp
  from shell_history_recall [OF p1 p(2) _ this, of "\<lambda>_ _. None" 3] p1 show ?thesis unfolding l by blast
qed

end
