(* ===== verification/Sw_Props.thy ===== *)
theory Sw_Props
  imports Sw Scan_Props
begin

text \<open>The property of the command \<^verbatim>\<open>sw_wait\<close> of src/sw.c, from the text of its argument to the signal.\<close>

lemma dist_of_nat: "n < 2 ^ 30 \<Longrightarrow> dist b (b + of_nat n) = int n \<and> near b (b + of_nat n)"
  using int_word_sint [of "int n", where 'a = 32] by (simp add: dist_def near_def)

lemma occurred_of_nat:
  assumes "d < 2 ^ 30" "n < 2 ^ 30"
  shows "timer_ticks_occurred (b + of_nat d) (b + of_nat n) \<longleftrightarrow> d \<le> n"
  using dist_of_nat [OF assms(1)] dist_of_nat [OF assms(2)] occurred_near [of b "b + of_nat d" "b + of_nat n"] by simp

text \<open>The ticks while a wait is on.\<close>

definition sw_ticks_run :: "nat \<Rightarrow> sw \<Rightarrow> sw" where
  "sw_ticks_run n = sw_timer_count ^^ n"

lemma sw_wait_runs:
  assumes "sw_shell_waiting s" "sw_wait_ticks s = sw_ticks s + of_nat d" "d < 2 ^ 29"
  shows "n < max 1 d \<Longrightarrow> sw_shell_waiting (sw_ticks_run n s) \<and> sw_wait_ticks (sw_ticks_run n s) = sw_wait_ticks s \<and>
    sw_ticks (sw_ticks_run n s) = sw_ticks s + of_nat n"
proof (induction n)
  case (Suc n)
  have d: "Suc n < d" using Suc.prems by simp
  have "\<not> timer_ticks_occurred (sw_ticks s + of_nat d) (sw_ticks s + of_nat (Suc n))"
    by (subst occurred_of_nat) (use assms(3) d in simp_all)
  then show ?case
    using Suc assms(2) by (simp add: sw_ticks_run_def sw_timer_count_def sw_call_out_def Let_def add.assoc add.commute [of 1])
qed (use assms in \<open>simp add: sw_ticks_run_def\<close>)

lemma sw_wait_ends:
  assumes "sw_shell_waiting s" "sw_wait_ticks s = sw_ticks s + of_nat d" "d < 2 ^ 29"
  shows "\<not> sw_shell_waiting (sw_ticks_run (max 1 d) s) \<and> last (sw_calls (sw_ticks_run (max 1 d) s)) = Signal"
proof -
  obtain n where n: "max 1 d = Suc n" by (cases "max 1 d") auto
  have r: "sw_shell_waiting (sw_ticks_run n s)" "sw_wait_ticks (sw_ticks_run n s) = sw_ticks s + of_nat d"
    "sw_ticks (sw_ticks_run n s) = sw_ticks s + of_nat n"
    using sw_wait_runs [OF assms, of n] n assms(2) by simp_all
  have le: "d \<le> Suc n" "Suc n < 2 ^ 30" using n assms(3) by (auto simp: max_def split: if_splits)
  then have "timer_ticks_occurred (sw_ticks s + of_nat d) (sw_ticks s + of_nat (Suc n))"
    by (subst occurred_of_nat) (use assms(3) in simp_all)
  then have "timer_ticks_occurred (sw_wait_ticks (sw_ticks_run n s)) (sw_ticks (sw_ticks_run n s) + 1)"
    using r by (simp add: add.assoc add.commute [of 1])
  then show ?thesis
    unfolding n using r(1) by (simp add: sw_ticks_run_def sw_timer_count_def sw_call_out_def Let_def)
qed

text \<open>
  C35: \<^verbatim>\<open>sw_wait\<close> on a decimal number of seconds: a number above 30 is refused, a stopwatch that does not run is
  reported, and otherwise the command waits, releases the stopwatch's mutex, and is signalled
  exactly when the stopwatch has counted 100 ticks for each second, and after one tick for a
  wait of 0 seconds; before that tick it keeps waiting.\<close>
theorem sw_wait_spec:
  assumes fmt: "cstr_in (\<lambda>a. \<not> in_range p 4 a) m fmt (map ch ''%lu'')"
    and str: "cstr_in (\<lambda>a. \<not> in_range p 4 a) m argv1 (sp @ ds @ rest)" "number_text 10 sp [] ds rest"
      "digits_value 10 (map (\<lambda>c. unat c - 48) ds) < 2 ^ 32"
    and free: "mutex_free (sw_mutex s)"
  defines "v \<equiv> digits_value 10 (map (\<lambda>c. unat c - 48) ds)"
  shows "if v > 30 then sw_shell_wait self m fmt p 2 argv1 s = Some (False, sw_call_out Print_invalid s)
    else if \<not> sw_timer_scheduled s then sw_shell_wait self m fmt p 2 argv1 s = Some (False, sw_call_out Print_disabled s)
    else \<exists>s'. sw_shell_wait self m fmt p 2 argv1 s = Some (True, s') \<and> sw_mutex s' = sw_mutex s \<and> sw_ticks s' = sw_ticks s \<and>
      (\<forall>n < max 1 (100 * v). sw_shell_waiting (sw_ticks_run n s')) \<and>
      \<not> sw_shell_waiting (sw_ticks_run (max 1 (100 * v)) s') \<and> last (sw_calls (sw_ticks_run (max 1 (100 * v)) s')) = Signal"
proof -
  have b: "number_base ''%lu'' = 10" by (simp add: number_base_def)
  have r: "fmt_sscanf m argv1 fmt [p] = Some (1, store_le m p 4 (of_nat v))"
    using sscanf_number [OF fmt, of argv1 sp "[]" ds rest p] str in_range_start by (simp add: number_formats_def b v_def)
  have l: "(ucast (load_le (store_le m p 4 (of_nat v)) p 4) :: u32) = of_nat v" by (simp add: load_number ucast_of_nat_u32)
  have gt: "of_nat v > SW_MAX_WAIT \<longleftrightarrow> v > 30"
    using unat_of_nat_u32 [of v] str(3) by (simp add: SW_MAX_WAIT_def word_less_nat_alt v_def)
  show ?thesis
  proof (cases "v > 30")
    case True
    then show ?thesis using r l gt by (simp add: sw_shell_wait_def)
  next
    case v: False
    show ?thesis
    proof (cases "sw_timer_scheduled s")
      case False
      have "sw_lock self s = Some (s\<lparr>sw_mutex := (sw_mutex s)\<lparr>owner := Some self, locked := True\<rparr>\<rparr>)"
        using free_set_clear(1) [OF free, of self] by (simp add: sw_lock_def)
      then have "sw_shell_wait self m fmt p 2 argv1 s = Some (False, sw_call_out Print_disabled s)"
        using free_set_clear(2) [OF free, of self] False v r l gt by (simp add: sw_shell_wait_def sw_unlock_def sw_call_out_def)
      then show ?thesis using v False by simp
    next
      case True
      let ?s = "s\<lparr>sw_shell_waiting := True, sw_wait_ticks := sw_ticks s + of_nat (100 * v)\<rparr>"
      have "sw_shell_wait self m fmt p 2 argv1 s = Some (True, ?s)"
        using free_set_clear [OF free, of self] True v r l gt
        by (simp add: sw_shell_wait_def sw_lock_def sw_unlock_def THREAD_SCHED_FREQ_def mult.commute)
      moreover have w: "sw_shell_waiting ?s" "sw_wait_ticks ?s = sw_ticks ?s + of_nat (100 * v)" "100 * v < 2 ^ 29"
        using v by simp_all
      ultimately show ?thesis
        using v True sw_wait_runs [OF w] sw_wait_ends [OF w] by auto
    qed
  qed
qed

section \<open>Witness\<close>

definition ex_sw :: sw where
  "ex_sw = \<lparr>sw_mutex = \<lparr>waiters = [], owner = None, locked = False\<rparr>, sw_ticks = 7, sw_timer_scheduled = True,
     sw_shell_waiting = False, sw_wait_ticks = 0, sw_calls = []\<rparr>"

theorem sw_wait_spec_witness:
  "\<exists>s'. sw_shell_wait 3 (ex_scan ''%lu'' ''2'') 16 256 2 64 ex_sw = Some (True, s') \<and> sw_shell_waiting (sw_ticks_run 199 s') \<and>
    \<not> sw_shell_waiting (sw_ticks_run 200 s')"
proof -
  have a: "\<not> in_range 256 4 a" if "unat a < 256" for a :: u32
    using that unat_sub_if' [of a 256] by (simp add: word_le_nat_alt in_range_def)
  note defs = ex_scan_def a number_text_def digits_value_def FMT_MAX_NUM_SIZE_def fmt_isdigit_def word_le_nat_alt
  let ?m = "ex_scan ''%lu'' ''2''"
  have f: "cstr_in (\<lambda>a. \<not> in_range 256 4 a) ?m 16 (map ch ''%lu'')" by (simp add: defs)
  have t: "cstr_in (\<lambda>a. \<not> in_range 256 4 a) ?m 64 ([] @ map ch ''2'' @ [])" "number_text 10 [] [] (map ch ''2'') []"
    "digits_value 10 (map (\<lambda>c. unat c - 48) (map ch ''2'')) < 2 ^ 32" by (simp_all add: defs)
  have v: "digits_value 10 (map (\<lambda>c. unat c - 48) (map ch ''2'')) = 2" by (simp add: defs)
  have fr: "mutex_free (sw_mutex ex_sw)" by (simp add: ex_sw_def mutex_free_def mutex_inv_def)
  have sch: "sw_timer_scheduled ex_sw" by (simp add: ex_sw_def)
  obtain s' where s': "sw_shell_wait 3 ?m 16 256 2 64 ex_sw = Some (True, s')" "\<forall>n < 200. sw_shell_waiting (sw_ticks_run n s')"
    "\<not> sw_shell_waiting (sw_ticks_run 200 s')"
    using sw_wait_spec [OF f t fr, of 3] unfolding v using sch by auto
  then have "sw_shell_waiting (sw_ticks_run 199 s')" by simp
  with s' show ?thesis by blast
qed

end
