(* ===== verification/Thread_Memory.thy ===== *)
theory Thread_Memory
  imports Thread Fmt Mem
begin

text \<open>
  The memory of threads: the allocation of the structure and the stack of a thread, the stack that
  \<^verbatim>\<open>thread_stack_forge\<close> of src/thread.c prepares, the name, and the context switch of
  src/thread\_asm.S, which reads what was prepared.  The words of the heap are the memory of theory
  Mem; the characters of names and formats are in the byte memory of theory Cstring.  Theory Thread
  has the fields of \<^verbatim>\<open>struct thread\<close> that the scheduler uses; here are those at offset 0
  (\<^verbatim>\<open>sp\<close>), 32 (\<^verbatim>\<open>name\<close>) and 48 (\<^verbatim>\<open>stack\<close>) of its 52 bytes.
\<close>

definition SIZEOF_THREAD :: u32 where "SIZEOF_THREAD = 52"
definition THREAD_NAME_OFFSET :: u32 where "THREAD_NAME_OFFSET = 32"
definition THREAD_STACK_OFFSET :: u32 where "THREAD_STACK_OFFSET = 48"
definition THREAD_NAME_MAX_SIZE :: u32 where "THREAD_NAME_MAX_SIZE = 16"
definition THREAD_STACK_MIN_SIZE :: u32 where "THREAD_STACK_MIN_SIZE = 4096"
definition CPU_EFL_ONE :: u32 where "CPU_EFL_ONE = 2"

section \<open>Names\<close>

definition thread_name :: "tid \<Rightarrow> u32" where
  "thread_name thread = thread + THREAD_NAME_OFFSET"

text \<open>\<open>format\<close> is the address of the string \<^verbatim>\<open>"%s"\<close>.\<close>

definition thread_set_name :: "u32 \<Rightarrow> u32 \<Rightarrow> tid \<Rightarrow> u32 \<Rightarrow> bytes \<Rightarrow> bytes option" where
  "thread_set_name null_str format thread name bytes =
     map_option snd (fmt_snprintf null_str bytes (thread_name thread) THREAD_NAME_MAX_SIZE format [name])"

section \<open>The forged stack\<close>

definition thread_stack_push :: "u32 \<Rightarrow> u32 \<times> u32 \<times> memory \<Rightarrow> (u32 \<times> u32 \<times> memory) option" where
  "thread_stack_push word = (\<lambda>(stack, stack_size, m). do {
     assert (4 \<le> stack_size);
     let stack = stack - 4;
     let stack_size = stack_size - 4;
     Some (stack, stack_size, m(stack := word))
   })"

text \<open>\<open>start\<close> is the address of \<^verbatim>\<open>thread_start\<close>.  The result is the stack pointer.\<close>

definition thread_stack_forge :: "u32 \<Rightarrow> u32 \<Rightarrow> u32 \<Rightarrow> u32 \<Rightarrow> u32 \<Rightarrow> memory \<Rightarrow> (u32 \<times> memory) option" where
  "thread_stack_forge start stack_addr stack_size fn arg m = do {
     s \<leftarrow> thread_stack_push arg (stack_addr + stack_size, stack_size, m);
     s \<leftarrow> thread_stack_push fn s;
     s \<leftarrow> thread_stack_push start s;
     s \<leftarrow> thread_stack_push 0 s;
     s \<leftarrow> thread_stack_push 0 s;
     s \<leftarrow> thread_stack_push 0 s;
     s \<leftarrow> thread_stack_push 0 s;
     (stack, _, m) \<leftarrow> thread_stack_push CPU_EFL_ONE s;
     Some (stack, m)
   }"

section \<open>Creation and destruction\<close>

text \<open>
  What \<^verbatim>\<open>thread_init\<close> does to the memory; \<^const>\<open>thread_init\<close> is what it does to the
  scheduler's fields.  The dummy thread has no stack.
\<close>

definition thread_init_mem ::
  "u32 \<Rightarrow> u32 \<Rightarrow> u32 \<Rightarrow> tid \<Rightarrow> u32 \<Rightarrow> u32 \<Rightarrow> u32 \<Rightarrow> u32 \<Rightarrow> u32 \<Rightarrow> memory \<times> bytes \<Rightarrow> (memory \<times> bytes) option" where
  "thread_init_mem start null_str format thread fn arg name stack stack_size = (\<lambda>(m, bytes). do {
     m \<leftarrow> (if stack \<noteq> 0 then do {
             (sp, m) \<leftarrow> thread_stack_forge start stack stack_size fn arg m;
             Some (m(thread := sp))
           } else Some m);
     bytes \<leftarrow> thread_set_name null_str format thread name bytes;
     Some (m(thread + THREAD_STACK_OFFSET := stack), bytes)
   })"

text \<open>
  \<^verbatim>\<open>thread_create\<close> up to the call of \<^verbatim>\<open>thread_init\<close>: the result is the error, or the thread and
  its stack.  \<open>self\<close> is the calling thread, which takes the allocator's mutex.
\<close>

definition thread_create_mem ::
  "layout \<Rightarrow> tid \<Rightarrow> u32 \<Rightarrow> u32 \<Rightarrow> u32 \<Rightarrow> u32 \<Rightarrow> u32 \<Rightarrow> u32 \<Rightarrow> u32 \<Rightarrow> mem_state \<times> bytes \<Rightarrow>
   ((error + tid \<times> u32) \<times> mem_state \<times> bytes) option" where
  "thread_create_mem L self start null_str format fn arg name stack_size = (\<lambda>(heap, bytes). do {
     assert (fn \<noteq> 0);
     (thread, heap) \<leftarrow> mem_alloc L self heap SIZEOF_THREAD;
     if thread = 0 then Some (Inl ERROR_NOMEM, heap, bytes)
     else do {
       (stack, heap) \<leftarrow> mem_alloc L self heap stack_size;
       if stack = 0 then do {
         heap \<leftarrow> mem_free L self heap thread;
         Some (Inl ERROR_NOMEM, heap, bytes)
       } else do {
         (m, bytes) \<leftarrow> thread_init_mem start null_str format thread fn arg name stack stack_size (words heap, bytes);
         Some (Inr (thread, stack), heap\<lparr>words := m\<rparr>, bytes)
       }
     }
   })"

text \<open>
  The whole of \<^verbatim>\<open>thread_create\<close>: with the thread and the stack allocated, \<^const>\<open>thread_create\<close>
  initialises the scheduler's fields and adds the thread to the run queue.  \<open>prog\<close> is the code of the function at
  \<open>fn\<close>.  The result is the error, \<^term>\<open>None\<close> for 0, and the new thread.
\<close>

definition thread_create_all ::
  "layout \<Rightarrow> u32 \<Rightarrow> u32 \<Rightarrow> u32 \<Rightarrow> u32 \<Rightarrow> instr list \<Rightarrow> u32 \<Rightarrow> u32 \<Rightarrow> u32 \<Rightarrow> u32 \<Rightarrow> mem_state \<times> bytes \<times> kernel \<Rightarrow>
   (error option \<times> tid \<times> mem_state \<times> bytes \<times> kernel) option" where
  "thread_create_all L start null_str format fn prog arg name stack_size prio = (\<lambda>(heap, bytes, k). do {
     (r, heap, bytes) \<leftarrow>
       thread_create_mem L (thread_self k) start null_str format fn arg name stack_size (heap, bytes);
     case r of
       Inl e \<Rightarrow> Some (Some e, 0, heap, bytes, k)
     | Inr (thread, stack) \<Rightarrow> do {
         (err, k) \<leftarrow> thread_create thread stack prog prio k;
         Some (err, thread, heap, bytes, k)
       }
   })"

text \<open>\<^verbatim>\<open>thread_create_idle\<close>: a failed allocation panics.\<close>

definition thread_create_idle_mem ::
  "layout \<Rightarrow> tid \<Rightarrow> u32 \<Rightarrow> u32 \<Rightarrow> u32 \<Rightarrow> u32 \<Rightarrow> u32 \<Rightarrow> mem_state \<times> bytes \<Rightarrow>
   ((tid \<times> u32) \<times> mem_state \<times> bytes) option" where
  "thread_create_idle_mem L self start null_str format fn name = (\<lambda>(heap, bytes). do {
     (idle, heap) \<leftarrow> mem_alloc L self heap SIZEOF_THREAD;
     assert (idle \<noteq> 0);
     (stack, heap) \<leftarrow> mem_alloc L self heap THREAD_STACK_MIN_SIZE;
     assert (stack \<noteq> 0);
     (m, bytes) \<leftarrow>
       thread_init_mem start null_str format idle fn 0 name stack THREAD_STACK_MIN_SIZE (words heap, bytes);
     Some ((idle, stack), heap\<lparr>words := m\<rparr>, bytes)
   })"

definition thread_destroy_mem :: "layout \<Rightarrow> tid \<Rightarrow> tid \<Rightarrow> mem_state \<Rightarrow> mem_state option" where
  "thread_destroy_mem L self thread heap = do {
     heap \<leftarrow> mem_free L self heap (words heap (thread + THREAD_STACK_OFFSET));
     mem_free L self heap thread
   }"

section \<open>Context switches\<close>

text \<open>The registers that belong to a thread's context.\<close>

record regs =
  r_eflags :: u32
  r_esi :: u32
  r_edi :: u32
  r_ebx :: u32
  r_ebp :: u32
  r_esp :: u32
  r_eip :: u32

definition push_word :: "u32 \<Rightarrow> u32 \<times> memory \<Rightarrow> u32 \<times> memory" where
  "push_word w = (\<lambda>(esp, m). (esp - 4, m(esp - 4 := w)))"

text \<open>\<^verbatim>\<open>popf\<close>, four times \<^verbatim>\<open>pop\<close>, and \<^verbatim>\<open>ret\<close>.\<close>

definition thread_restore_context :: "memory \<Rightarrow> u32 \<Rightarrow> regs" where
  "thread_restore_context m esp =
     \<lparr>r_eflags = m esp, r_esi = m (esp + 4), r_edi = m (esp + 8), r_ebx = m (esp + 12), r_ebp = m (esp + 16),
      r_esp = esp + 24, r_eip = m (esp + 20)\<rparr>"

definition thread_load_context :: "memory \<Rightarrow> tid \<Rightarrow> regs" where
  "thread_load_context m thread = thread_restore_context m (m thread)"

text \<open>The two arguments are on the stack of the caller, above the return address.\<close>

definition thread_switch_regs :: "memory \<Rightarrow> regs \<Rightarrow> memory \<times> regs" where
  "thread_switch_regs m r =
     (let prev = m (r_esp r + 4);
          next = m (r_esp r + 8);
          (esp, m) = push_word (r_eflags r) (push_word (r_esi r) (push_word (r_edi r)
            (push_word (r_ebx r) (push_word (r_ebp r) (r_esp r, m)))));
          m = m(prev := esp)
      in (m, thread_restore_context m (m next)))"

text \<open>
  \<^verbatim>\<open>thread_start\<close> calls \<^verbatim>\<open>thread_main\<close>, which finds its two arguments above the return address
  \<open>ret\<close>.
\<close>

definition thread_start :: "u32 \<Rightarrow> memory \<Rightarrow> regs \<Rightarrow> u32 \<times> u32" where
  "thread_start ret m r = (let (esp, m) = push_word ret (r_esp r, m) in (m (esp + 4), m (esp + 8)))"

end
