(* ===== verification/Startup.thy ===== *)
theory Startup
  imports Shell Sw Drivers Thread_Memory
begin

text \<open>
  Start-up: \<^verbatim>\<open>sw_setup\<close> of src/sw.c, with the registration of the stopwatch's commands, and \<^verbatim>\<open>main\<close>
  of src/main.c, which sets up every module in turn, prints the version and starts the scheduler.
\<close>

section \<open>The stopwatch\<close>

text \<open>
  The array of the commands, at the address \<open>b\<close> (a structure takes 28 bytes); \<open>f i\<close> is the address of
  the function of the command \<open>i\<close>.
\<close>

definition sw_shell_cmds :: "u32 \<Rightarrow> (nat \<Rightarrow> u32) \<Rightarrow> 'a shell_cmds_scheme \<Rightarrow> 'a shell_cmds_scheme" where
  "sw_shell_cmds b f s =
     shell_cmd_init (b + 112) (text_of ''sw_wait'') (f 4) (text_of ''sw_wait <seconds>'') (text_of ''wait for up to 30 seconds'') None
    (shell_cmd_init (b + 84) (text_of ''sw_read'') (f 3) (text_of ''sw_read'') (text_of ''read the stopwatch time'') None
    (shell_cmd_init (b + 56) (text_of ''sw_resume'') (f 2) (text_of ''sw_resume'') (text_of ''resume the stopwatch'') None
    (shell_cmd_init (b + 28) (text_of ''sw_stop'') (f 1) (text_of ''sw_stop'') (text_of ''stop the stopwatch'') None
    (shell_cmd_init b (text_of ''sw_start'') (f 0) (text_of ''sw_start'') (text_of ''start the stopwatch'') None s))))"

text \<open>\<open>tm\<close> and \<open>cv\<close> are the addresses of \<^verbatim>\<open>sw_timer\<close> and \<^verbatim>\<open>sw_cv\<close>, and \<open>run\<close> that of \<^verbatim>\<open>sw_timer_run\<close>.\<close>

definition sw_setup ::
  "tid \<Rightarrow> u32 \<Rightarrow> u32 \<Rightarrow> u32 \<Rightarrow> u32 \<Rightarrow> timers \<times> sw \<times> shell_cmds \<times> kernel \<Rightarrow> (timers \<times> sw \<times> shell_cmds \<times> kernel) option" where
  "sw_setup self tm cv run b = (\<lambda>(ts, s, tab, k). do {
     let s = s\<lparr>sw_mutex := mutex_init (sw_mutex s)\<rparr>;
     let k = condvar_init cv k;
     let ts = timer_init tm run 0 ts;
     let s = s\<lparr>sw_timer_scheduled := False\<rparr>;
     let s = s\<lparr>sw_shell_waiting := False\<rparr>;
     tab \<leftarrow> register_cmds self [b, b + 28, b + 56, b + 84, b + 112] tab;
     Some (ts, s, tab, k)
   })"

section \<open>The main function\<close>

text \<open>
  What the linker chooses: the addresses of the tables, buffers, structures, functions and strings.  The
  programs of the timer thread and of the shell are those of theory Sync; \<open>im_timer_fn\<close> and
  \<open>im_shell_fn\<close> are their addresses, as \<open>im_idle_fn\<close> is that of \<^verbatim>\<open>thread_idle\<close>.
\<close>

record kernel_image =
  im_gdt :: u32
  im_idt :: u32
  im_isr :: "nat \<Rightarrow> u32"
  im_default_isr :: u32
  im_i8254_irq_handler :: u32
  im_uart_buffer :: u32
  im_uart_irq_handler :: u32
  im_heap :: layout
  im_dummy :: tid
  im_dummy_name :: u32
  im_thread_start :: u32
  im_name_format :: u32
  im_idle_fn :: u32
  im_idle_name :: u32
  im_timer_fn :: u32
  im_timer_name :: u32
  im_timer_run :: "instr list"
  im_shell_fn :: u32
  im_shell_name :: u32
  im_shell_run :: "instr list"
  im_default_cmds :: u32
  im_sw_cmds :: u32
  im_sw_timer :: u32
  im_sw_cv :: u32
  im_sw_timer_run :: u32
  im_null_str :: u32
  im_printf_buffer :: u32
  im_version :: u32

record system =
  machine_of :: machine
  kernel_of :: kernel
  heap_of :: mem_state
  cmds_of :: shell_cmds
  sw_of :: sw

text \<open>The sizes of the stacks in src/timer.c and lib/shell.c.\<close>

definition TIMER_STACK_SIZE :: u32 where "TIMER_STACK_SIZE = 4096"
definition SHELL_STACK_SIZE :: u32 where "SHELL_STACK_SIZE = 4096"

text \<open>What the allocations of \<^verbatim>\<open>thread_create\<close> have returned, with null pointers after a failure.\<close>

definition thread_blocks :: "error + tid \<times> u32 \<Rightarrow> tid \<times> u32" where
  "thread_blocks r = (case r of Inl e \<Rightarrow> (0, 0) | Inr p \<Rightarrow> p)"

text \<open>
  The statements of \<^verbatim>\<open>main\<close> in their order.  What the creation of a thread does to the memory comes before the
  set-up function that creates it; the rest of these functions does not use the heap.  The format of the
  message, with \<^verbatim>\<open>VERSION\<close> from the Makefile, is at \<open>im_version\<close>.
\<close>

definition main :: "kernel_image \<Rightarrow> system \<Rightarrow> system option" where
  "main im s = do {
     let k = thread_bootstrap (im_dummy im) (kernel_of s);
     (w, bytes) \<leftarrow> thread_init_mem (im_thread_start im) (im_null_str im) (im_name_format im) (im_dummy im) 0 0
       (im_dummy_name im) 0 0 (words (heap_of s), mem (machine_of s));
     m \<leftarrow> cpu_setup (im_gdt im) (im_idt im) (im_isr im) (im_default_isr im) ((machine_of s)\<lparr>mem := bytes\<rparr>);
     m \<leftarrow> i8259_setup m;
     m \<leftarrow> i8254_setup (im_i8254_irq_handler im) m;
     m \<leftarrow> uart_setup (im_uart_buffer im) (im_uart_irq_handler im) m;
     heap \<leftarrow> mem_setup (im_heap im) ((heap_of s)\<lparr>words := w\<rparr>);
     (idle, heap, bytes) \<leftarrow> thread_create_idle_mem (im_heap im) (im_dummy im) (im_thread_start im) (im_null_str im)
       (im_name_format im) (im_idle_fn im) (im_idle_name im) (heap, mem m);
     k \<leftarrow> thread_setup (fst idle) (snd idle) k;
     (timer, heap, bytes) \<leftarrow> thread_create_mem (im_heap im) (im_dummy im) (im_thread_start im) (im_null_str im)
       (im_name_format im) (im_timer_fn im) 0 (im_timer_name im) TIMER_STACK_SIZE (heap, bytes);
     (ts, k) \<leftarrow> timer_setup (fst (thread_blocks timer)) (snd (thread_blocks timer)) (im_timer_run im) (timers_of m) k;
     (shell, heap, bytes) \<leftarrow> thread_create_mem (im_heap im) (im_dummy im) (im_thread_start im) (im_null_str im)
       (im_name_format im) (im_shell_fn im) 0 (im_shell_name im) SHELL_STACK_SIZE (heap, bytes);
     (tab, k) \<leftarrow> shell_setup (im_dummy im) (im_default_cmds im) (fst (thread_blocks shell)) (snd (thread_blocks shell))
       (im_shell_run im) (cmds_of s, k);
     (ts, sw, tab, k) \<leftarrow> sw_setup (im_dummy im) (im_sw_timer im) (im_sw_cv im) (im_sw_timer_run im) (im_sw_cmds im) (ts, sw_of s, tab, k);
     let m = m\<lparr>timers_of := ts\<rparr>;
     (_, bytes, m, k) \<leftarrow> printf (im_null_str im) (im_printf_buffer im) (im_version im) [] (bytes, m, k);
     let m = m\<lparr>mem := bytes\<rparr>;
     k \<leftarrow> thread_enable_scheduler k;
     Some \<lparr>machine_of = m, kernel_of = k, heap_of = heap, cmds_of = tab, sw_of = sw\<rparr>
   }"

end
