(* ===== verification/Thread_Memory_Props.thy ===== *)
theory Thread_Memory_Props
  imports Thread_Memory Mem_Props Scan_Props Sync_Boot
begin

text \<open>
  The memory of threads: a thread that is created starts in \<^verbatim>\<open>thread_main\<close> with its function and
  argument, a thread that is switched out continues with its registers, and the memory of a thread
  that is not created, or is destroyed, goes back to the allocator.
\<close>

section \<open>Names\<close>

lemma str_len_suffix:
  "cstr_in P m (s + of_nat k) cs \<Longrightarrow> sp_str_len m s (- 1) k = Some (k + length cs)"
proof (induction cs arbitrary: k)
  case Nil
  then show ?case by (subst sp_str_len.simps) simp
next
  case (Cons c cs)
  then have "sp_str_len m s (- 1) (Suc k) = Some (Suc k + length cs)" by (simp add: ac_simps)
  then show ?case using Cons.prems by (subst sp_str_len.simps) simp
qed

lemma cstr_in_at:
  "cstr_in P m s cs \<Longrightarrow> bytes_at m s (length cs) = cs \<and> (\<forall>i \<le> length cs. P (s + of_nat i))"
proof (induction cs arbitrary: s)
  case (Cons c cs)
  then have IH: "bytes_at m (s + 1) (length cs) = cs" "\<And>i. i \<le> length cs \<Longrightarrow> P (s + 1 + of_nat i)" by auto
  have "P (s + of_nat i)" if "i \<le> Suc (length cs)" for i
    using that Cons.prems IH(2) [of "i - 1"] by (cases i) (auto simp: ac_simps)
  then show ?case using Cons.prems IH(1) by (simp add: bytes_at_Suc)
qed (simp add: bytes_at_def)

lemma cstr_in_nonzero: "cstr_in P m s cs \<Longrightarrow> 0 \<notin> set cs"
  by (induction cs arbitrary: s) auto

lemma str_at_string:
  assumes "cstr_in (outside lo hi) m s cs" and "s \<noteq> 0"
  shows "str_at m null_str lo hi s (- 1) = Some cs"
  using cstr_in_at [OF assms(1)] str_len_suffix [of _ m s 0 cs] assms by (simp add: str_at_def list_all_iff)

lemma fmt_spec_s: "S p (- 1) = Some cs \<Longrightarrow> fmt_spec S (map ch ''%s'') [p] = Some cs"
  by (simp add: fmt_parse_defs pad_text_def word_le_nat_alt has_flag_def fmt_flag_defs)

text \<open>The first 15 characters of the name, and nothing but the field, are written.\<close>

lemma set_name_text:
  assumes fmt: "cstr_in (\<lambda>a. \<not> in_range (t + 32) 16 a) bytes format (map ch ''%s'')"
    and nm: "cstr_in (\<lambda>a. \<not> in_range (t + 32) 16 a) bytes nm cs" "nm \<noteq> 0"
    and t: "unat t + 52 < 2 ^ 32" and len: "unat t + 33 + length cs < 2 ^ 32"
  shows "\<exists>bytes'. thread_set_name null_str format t nm bytes = Some bytes' \<and>
    cstr_in (in_range (t + 32) 16) bytes' (thread_name t) (take 15 cs) \<and>
    (\<forall>a. \<not> in_range (t + 32) 16 a \<longrightarrow> bytes' a = bytes a)"
proof -
  have off: "unat (t + 32) = unat t + 32" using t unat_plus_if' [of t 32] by simp
  have out: "outside (t + 32) (buf_end (t + 32) 16) a" if "\<not> in_range (t + 32) 16 a" for a
    using that off t unat_sub_no_wrap [of "t + 32" a] buf_end_le [of 16 "t + 32"]
    by (auto simp: outside_def in_range_def word_le_nat_alt word_less_nat_alt FMT_NOLIMIT_def)
  have nz: "t + 32 \<noteq> 0" using off by auto
  have tk: "take (min (length cs) 15) cs = take 15 cs" by (simp add: min_def)
  have f: "cstr_in (outside (t + 32) (buf_end (t + 32) 16)) bytes format (map ch ''%s'')"
    by (rule cstr_in_mono [OF fmt out])
  have n: "str_at bytes null_str (t + 32) (buf_end (t + 32) 16) nm (- 1) = Some cs"
    by (rule str_at_string [OF cstr_in_mono [OF nm(1) out] nm(2)])
  obtain bytes' where b: "fmt_vsnprintf null_str bytes (t + 32) 16 format [nm] = Some (of_nat (length cs), bytes')"
    "bytes_at bytes' (t + 32) (min (length cs) 15) = take 15 cs" "bytes' (t + 32 + of_nat (min (length cs) 15)) = 0"
    "\<forall>a. \<not> in_range (t + 32) (Suc (min (length cs) 15)) a \<longrightarrow> bytes' a = bytes a"
    using vsnprintf_text [OF f fmt_spec_s [of "str_at bytes null_str (t + 32) (buf_end (t + 32) 16)", OF n]] off t len nz tk
    by (auto simp: FMT_NOLIMIT_def clip_len_def Let_def)
  have "0 \<notin> set cs" using cstr_in_nonzero [OF nm(1)] .
  then have "0 \<notin> set (take 15 cs)" by (meson in_set_takeD)
  then have "cstr_in (in_range (t + 32) 16) bytes' (t + 32) (take 15 cs)"
    using b(2,3) by (intro cstr_in_bytes) (auto simp: in_range_def unat_of_nat_u32 min.commute)
  moreover have "bytes' a = bytes a" if "\<not> in_range (t + 32) 16 a" for a
    using that b(4) by (auto simp: in_range_def)
  ultimately show ?thesis
    using b(1) by (simp add: thread_set_name_def thread_name_def THREAD_NAME_OFFSET_def THREAD_NAME_MAX_SIZE_def
        fmt_snprintf_def)
qed

section \<open>Stacks and contexts\<close>

text \<open>What eight pushes leave: the words below the end of the stack.\<close>

definition forged :: "u32 \<Rightarrow> u32 \<Rightarrow> u32 \<Rightarrow> u32 \<Rightarrow> memory \<Rightarrow> memory" where
  "forged e start fn arg m =
     m(e - 4 := arg, e - 8 := fn, e - 12 := start, e - 16 := 0, e - 20 := 0, e - 24 := 0, e - 28 := 0,
       e - 32 := CPU_EFL_ONE)"

lemma stack_push_room:
  "4 \<le> sz \<Longrightarrow> thread_stack_push w (p, sz, m) = Some (p - 4, sz - 4, m(p - 4 := w))"
  by (simp add: thread_stack_push_def Let_def)

lemma stack_forge_room:
  assumes "32 \<le> sz"
  shows "thread_stack_forge start p sz fn arg m = Some (p + sz - 32, forged (p + sz) start fn arg m)"
proof -
  have "4 \<le> sz - of_nat n" if "n \<le> 28" for n
    using assms that unat_sub_no_wrap [of "of_nat n" sz] unat_of_nat_u32 [of n] by (simp add: word_le_nat_alt)
  note le = this [of 4] this [of 8] this [of 12] this [of 16] this [of 20] this [of 24] this [of 28]
  have "4 \<le> sz" using assms by (simp add: word_le_nat_alt)
  then show ?thesis using le by (simp add: thread_stack_forge_def stack_push_room forged_def diff_diff_eq)
qed

lemma forged_other: "(\<And>n. n \<in> {1..8} \<Longrightarrow> a \<noteq> e - 4 * of_nat n) \<Longrightarrow> forged e start fn arg m a = m a"
proof -
  assume "\<And>n. n \<in> {1..8} \<Longrightarrow> a \<noteq> e - 4 * of_nat n"
  from this [of 1] this [of 2] this [of 3] this [of 4] this [of 5] this [of 6] this [of 7] this [of 8]
  show ?thesis by (simp add: forged_def)
qed

lemma forged_context:
  "thread_restore_context (forged e start fn arg m) (e - 32) =
     \<lparr>r_eflags = CPU_EFL_ONE, r_esi = 0, r_edi = 0, r_ebx = 0, r_ebp = 0, r_esp = e - 8, r_eip = start\<rparr>"
  by (simp add: thread_restore_context_def forged_def)

lemma restore_cong:
  assumes "\<And>k. k < 6 \<Longrightarrow> m' (esp + 4 * of_nat k) = m (esp + 4 * of_nat k)"
  shows "thread_restore_context m' esp = thread_restore_context m esp"
  using assms [of 0] assms [of 1] assms [of 2] assms [of 3] assms [of 4] assms [of 5]
  by (simp add: thread_restore_context_def)

text \<open>
  The words that hold the context of a thread whose stack pointer is \<open>esp\<close> at the entry of
  \<^verbatim>\<open>thread_switch_context\<close>: the return address and the five words pushed below it.
\<close>

definition context_cells :: "u32 \<Rightarrow> u32 set" where
  "context_cells esp = (\<lambda>k. esp - 4 * of_nat k) ` {0, 1, 2, 3, 4, 5}"

lemma switch_regs_eq:
  "thread_switch_regs m r =
     (let e = r_esp r; prev = m (e + 4);
          m1 = m(e - 4 := r_ebp r, e - 8 := r_ebx r, e - 12 := r_edi r, e - 16 := r_esi r, e - 20 := r_eflags r,
                 prev := e - 20)
      in (m1, thread_restore_context m1 (m1 (m (e + 8)))))"
  by (simp add: thread_switch_regs_def push_word_def Let_def diff_diff_eq)

lemma switch_regs_frame:
  "a \<notin> context_cells (r_esp r) \<Longrightarrow> a \<noteq> m (r_esp r + 4) \<Longrightarrow> fst (thread_switch_regs m r) a = m a"
  by (simp add: switch_regs_eq Let_def context_cells_def)

lemma switch_regs_loads:
  "snd (thread_switch_regs m r) =
     thread_restore_context (fst (thread_switch_regs m r)) (fst (thread_switch_regs m r) (m (r_esp r + 8)))"
  by (simp only: switch_regs_eq Let_def fst_conv snd_conv)

lemma switch_regs_saves:
  assumes "m (r_esp r + 4) \<notin> context_cells (r_esp r)"
  shows "fst (thread_switch_regs m r) (m (r_esp r + 4)) = r_esp r - 20"
    and "thread_restore_context (fst (thread_switch_regs m r)) (r_esp r - 20) =
      r\<lparr>r_esp := r_esp r + 4, r_eip := m (r_esp r)\<rparr>"
proof -
  define p e where "p = m (r_esp r + 4)" and "e = r_esp r"
  have ne: "e \<noteq> p" "e - 4 \<noteq> p" "e - 8 \<noteq> p" "e - 12 \<noteq> p" "e - 16 \<noteq> p" "e - 20 \<noteq> p"
    using assms by (auto simp: context_cells_def p_def e_def)
  show "fst (thread_switch_regs m r) (m (r_esp r + 4)) = r_esp r - 20"
    by (simp add: switch_regs_eq Let_def)
  have "thread_restore_context (m(e - 4 := r_ebp r, e - 8 := r_ebx r, e - 12 := r_edi r, e - 16 := r_esi r,
      e - 20 := r_eflags r, p := e - 20)) (e - 20) = r\<lparr>r_esp := e + 4, r_eip := m e\<rparr>"
    by (cases r) (use ne in \<open>simp add: thread_restore_context_def\<close>)
  then show "thread_restore_context (fst (thread_switch_regs m r)) (r_esp r - 20) =
      r\<lparr>r_esp := r_esp r + 4, r_eip := m (r_esp r)\<rparr>"
    by (simp only: switch_regs_eq Let_def fst_conv p_def e_def)
qed

section \<open>Allocation\<close>

text \<open>Users may write any words of the payloads.\<close>

lemma heap_inv_user_writes:
  assumes inv: "heap_inv L st bs fr" and w: "\<And>a. m a \<noteq> words st a \<Longrightarrow> user_cell bs a"
  shows "heap_inv L (st\<lparr>words := m\<rparr>) bs fr"
proof -
  have L: "layout_ok L" and t: "tiles (mem_heap L) bs (mem_heap_end L)" and ok: "tags_ok (words st) bs"
    and d: "dll (words st) (mem_free_list L) (map mem_block_payload fr)"
    and fr: "distinct fr" "set fr = set (free_addrs bs)"
    using inv by (simp_all add: heap_inv_def heap_rep_def)
  have "tags_ok m bs"
    using ok user_cell_not_tag [OF L t] w unfolding tags_ok_def by metis
  moreover have "dll m (mem_free_list L) (map mem_block_payload fr)"
  proof (rule dll_node_cells [OF d])
    fix a assume a: "a \<in> node_cells L fr"
    have "\<not> user_cell bs a" by (rule node_cell_not_user [OF L t a]) (use fr in \<open>simp add: in_free_addrs\<close>)
    then show "m a = words st a" using w by blast
  qed
  ultimately show ?thesis using inv L t fr by (simp add: heap_inv_def heap_rep_def)
qed

text \<open>A free block of at least \<open>n\<close> bytes.\<close>

definition room :: "blk list \<Rightarrow> nat \<Rightarrow> bool" where
  "room bs n \<longleftrightarrow> (\<exists>c tz. (c, tz, False) \<in> set bs \<and> n \<le> unat tz)"

text \<open>The two results of an allocation.\<close>

lemma heap_alloc_cases:
  assumes inv: "heap_inv L st bs fr" and n: "n \<noteq> 0" "unat n + 11 < 2 ^ 32"
  obtains (full) "mem_alloc L self st n = Some (0, st)"
      "\<not> room bs (unat (mem_convert_to_block_size n))"
  | (block) b sz st' bs' fr' where "mem_alloc L self st n = Some (b + 4, st')" "heap_inv L st' bs' fr'"
      "keeps (words st) (words st') bs" "live bs' = insert b (live bs)" "b \<notin> live bs"
      "(b, sz, True) \<in> set bs'" "unat n + 8 \<le> unat sz" "merge_free (mark_free b bs') = bs" "b + 4 \<noteq> 0"
      "\<And>c tz. (c, tz, True) \<in> set bs \<Longrightarrow> (c, tz, True) \<in> set bs'"
      "\<And>l. room bs (unat (mem_convert_to_block_size n) + l) \<Longrightarrow> 16 \<le> l \<Longrightarrow> room bs' l"
proof -
  let ?s = "mem_convert_to_block_size n"
  have rep: "heap_rep L (words st) bs fr" and co: "coalesced bs" using inv by (simp_all add: heap_inv_def)
  obtain r bs' fr' where sp: "alloc_spec ?s bs fr = (r, bs', fr')" by (cases "alloc_spec ?s bs fr")
  note A = heap_inv_alloc [OF inv n, unfolded sp prod.case, of self]
  show thesis
  proof (cases r)
    case None
    have "unat tz < unat ?s" if c: "(c, tz, False) \<in> set bs" for c tz
    proof -
      have t: "tiles (mem_heap L) bs (mem_heap_end L)" and c': "c \<in> set fr"
        using rep c by (auto simp: heap_rep_def in_free_addrs)
      obtain xs ys where "bs = xs @ (c, tz, False) # ys" using c by (metis split_list)
      then have "blk_size bs c = tz" using blk_size_mid t by blast
      then show ?thesis
        using sp None c' by (auto simp: alloc_spec_def find_None_iff word_le_nat_alt split: option.splits)
    qed
    then show thesis using A None full by (auto simp: room_def not_le)
  next
    case (Some b)
    with A obtain st' where st': "mem_alloc L self st n = Some (b + 4, st')" "heap_inv L st' bs' fr'"
      "keeps (words st) (words st') bs" by (auto simp: mem_block_payload_def)
    note sp' = sp [unfolded Some]
    obtain sz where sz: "(b, sz, True) \<in> set bs'" "?s \<le> sz" using live_alloc_spec(3) [OF rep sp'] by blast
    have rep': "heap_rep L (words st') bs' fr'" using st'(2) by (simp add: heap_inv_def)
    have "unat n + 8 \<le> unat sz" using convert_size_ok(3) [OF n(2)] sz(2) by (simp add: word_le_nat_alt)
    moreover have "b + 4 \<noteq> 0" using heap_rep_payload_not_null [OF rep' sz(1)] by (simp add: mem_block_payload_def)
    moreover have "(c, tz, True) \<in> set bs'" if "(c, tz, True) \<in> set bs" for c tz
      by (rule alloc_spec_mid [OF rep sp']) (use that in auto)
    moreover have "room bs' l" if r: "room bs (unat ?s + l)" "16 \<le> l" for l
    proof (rule alloc_spec_mid [OF rep sp'])
      fix xs uz ys
      assume x: "bs = xs @ (b, uz, False) # ys" "b \<notin> fst ` set (xs @ ys)"
        "bs' = xs @ (if unat uz < unat ?s + 16 then [(b, uz, True)] else [(b, ?s, True), (b + ?s, uz - ?s, False)]) @ ys"
      obtain c tz where c: "(c, tz, False) \<in> set bs" "unat ?s + l \<le> unat tz" using r(1) by (auto simp: room_def)
      have "unat (uz - ?s) = unat uz - unat ?s" if "unat ?s \<le> unat uz" using that by (rule unat_sub_no_wrap)
      then show ?thesis using c x r(2) unfolding room_def by (cases "c = b") force+
    qed
    ultimately show thesis
      using block [OF st' live_alloc_spec(1,2) [OF rep sp'] sz(1) _ free_alloc_spec [OF rep sp' co]] by blast
  qed
qed

section \<open>Initialisation\<close>

text \<open>The words of a new thread: its stack, its stack pointer and the address of its stack.\<close>

definition thread_words :: "tid \<Rightarrow> u32 \<Rightarrow> u32 \<Rightarrow> u32 \<Rightarrow> u32 \<Rightarrow> u32 \<Rightarrow> memory \<Rightarrow> memory" where
  "thread_words t stack sz start fn arg m =
     (forged (stack + sz) start fn arg m)(t := stack + sz - 32, t + 48 := stack)"

text \<open>
  \<open>new_thread\<close>: the thread is ready to be loaded.  Its context starts at \<open>start\<close> with interrupts disabled,
  and finds the function and its argument.
\<close>

definition new_thread :: "tid \<Rightarrow> u32 \<Rightarrow> u32 \<Rightarrow> u32 \<Rightarrow> u32 \<Rightarrow> u32 \<Rightarrow> memory \<Rightarrow> bool" where
  "new_thread t stack sz start fn arg m \<longleftrightarrow>
     m (t + THREAD_STACK_OFFSET) = stack \<and>
     (let r = thread_load_context m t in
      r_eip r = start \<and> r_eflags r = CPU_EFL_ONE \<and> \<not> bit (r_eflags r) 9 \<and>
      r_esp r = stack + sz - 8 \<and> (\<forall>ret. thread_start ret m r = (fn, arg)))"

lemma new_threadI:
  assumes ne: "\<And>n. n \<in> {1..8} \<Longrightarrow> t \<noteq> stack + sz - 4 * of_nat n \<and> t + 48 \<noteq> stack + sz - 4 * of_nat n"
  shows "new_thread t stack sz start fn arg (thread_words t stack sz start fn arg m)"
proof -
  let ?m = "thread_words t stack sz start fn arg m"
  have sp: "?m t = stack + sz - 32" "?m (t + 48) = stack" by (simp_all add: thread_words_def)
  have keep: "?m (stack + sz - 4 * of_nat n) = forged (stack + sz) start fn arg m (stack + sz - 4 * of_nat n)"
    if "n \<in> {1..8}" for n using ne [OF that] by (auto simp: thread_words_def)
  have "?m (stack + sz - 32 + 4 * of_nat k) = forged (stack + sz) start fn arg m (stack + sz - 32 + 4 * of_nat k)"
    if "k < 6" for k
    using keep [of "8 - k"] that by (simp add: of_nat_diff algebra_simps)
  then have c: "thread_restore_context ?m (stack + sz - 32) =
      \<lparr>r_eflags = CPU_EFL_ONE, r_esi = 0, r_edi = 0, r_ebx = 0, r_ebp = 0, r_esp = stack + sz - 8, r_eip = start\<rparr>"
    using restore_cong [of ?m "stack + sz - 32"] forged_context by simp
  have "?m (stack + sz - 8) = fn" "?m (stack + sz - 4) = arg"
    using keep [of 2] keep [of 1] by (simp_all add: forged_def)
  then have "thread_start ret ?m \<lparr>r_eflags = CPU_EFL_ONE, r_esi = 0, r_edi = 0, r_ebx = 0, r_ebp = 0,
      r_esp = stack + sz - 8, r_eip = start\<rparr> = (fn, arg)" for ret
    by (simp add: thread_start_def push_word_def)
  moreover have "\<not> bit CPU_EFL_ONE 9" by (simp add: CPU_EFL_ONE_def)
  ultimately show ?thesis
    using sp c by (simp add: new_thread_def thread_load_context_def THREAD_STACK_OFFSET_def Let_def)
qed

definition thread_cells :: "tid \<Rightarrow> u32 \<Rightarrow> u32 \<Rightarrow> u32 set" where
  "thread_cells t stack sz = {t, t + 48} \<union> (\<lambda>n. stack + sz - 4 * of_nat n) ` {1..8}"

lemma thread_words_changed:
  assumes "thread_words t stack sz start fn arg m a \<noteq> m a"
  shows "a \<in> thread_cells t stack sz"
proof (rule ccontr)
  assume n: "\<not> ?thesis"
  then have "forged (stack + sz) start fn arg m a = m a" by (intro forged_other) (auto simp: thread_cells_def)
  then show False using assms n by (simp add: thread_words_def thread_cells_def)
qed

text \<open>A thread stays ready while nobody writes these words.\<close>

lemma new_thread_cong:
  assumes n: "new_thread t stack sz start fn arg m" and c: "\<And>a. a \<in> thread_cells t stack sz \<Longrightarrow> m' a = m a"
  shows "new_thread t stack sz start fn arg m'"
proof -
  have w: "m' t = m t" "m' (t + 48) = m (t + 48)" by (simp_all add: c thread_cells_def)
  have sp: "m t = stack + sz - 32"
    using n by (simp add: new_thread_def thread_load_context_def thread_restore_context_def Let_def algebra_simps)
  have cell: "m' (stack + sz - 4 * of_nat k) = m (stack + sz - 4 * of_nat k)" if "k \<in> {1..8}" for k
    using that by (intro c) (auto simp: thread_cells_def)
  have "m' (stack + sz - 32 + 4 * of_nat k) = m (stack + sz - 32 + 4 * of_nat k)" if "k < 6" for k
    using cell [of "8 - k"] that by (simp add: of_nat_diff algebra_simps)
  then have l: "thread_load_context m' t = thread_load_context m t"
    unfolding thread_load_context_def w(1) sp by (rule restore_cong)
  have "m' (stack + sz - 8) = m (stack + sz - 8)" "m' (stack + sz - 4) = m (stack + sz - 4)"
    using cell [of 2] cell [of 1] by simp_all
  then show ?thesis
    using n unfolding new_thread_def l Let_def by (auto simp: thread_start_def push_word_def THREAD_STACK_OFFSET_def w(2))
qed

text \<open>In two blocks of the heap.\<close>

lemma thread_words_blocks:
  fixes start fn arg :: u32
  assumes inv: "heap_inv L st bs fr" and b: "(b, tz, True) \<in> set bs" "60 \<le> unat tz"
    and c: "(c, uz, True) \<in> set bs" "unat sz + 8 \<le> unat uz" and bc: "b \<noteq> c" and sz: "32 \<le> unat sz"
  defines "m \<equiv> thread_words (b + 4) (c + 4) sz start fn arg (words st)"
  shows "heap_inv L (st\<lparr>words := m\<rparr>) bs fr" and "new_thread (b + 4) (c + 4) sz start fn arg m"
    and "\<And>a. m a \<noteq> words st a \<Longrightarrow>
      unat b \<le> unat a \<and> unat a < unat b + unat tz \<or> unat c \<le> unat a \<and> unat a < unat c + unat uz"
    and "\<And>a. a \<in> thread_cells (b + 4) (c + 4) sz \<Longrightarrow> user_cell bs a"
proof -
  have L: "layout_ok L" and t: "tiles (mem_heap L) bs (mem_heap_end L)"
    using inv by (simp_all add: heap_inv_def heap_rep_def)
  have ub: "unat (b + 4) = unat b + 4" "unat (b + 4 + 48) = unat b + 52"
    using heap_blk(3) [OF L t b(1)] b(2) unat_add_no_wrap [of b 4] unat_add_no_wrap [of b 52] by (simp_all add: add.assoc)
  have "unat (c + (4 + sz)) = unat c + (4 + unat sz)"
    using heap_blk(3) [OF L t c(1)] c(2) unat_add_no_wrap [of 4 sz] unat_add_no_wrap [of c "4 + sz"] by simp
  then have uc: "unat (c + 4 + sz - 4 * of_nat n) = unat c + 4 + unat sz - 4 * n" if "n \<in> {1..8}" for n
    using that sz unat_of_nat_u32 [of "4 * n"] unat_sub_no_wrap [of "4 * of_nat n" "c + (4 + sz)"] by (simp add: add.assoc)
  have cells: "unat b + 4 \<le> unat a \<and> unat a < unat b + unat tz - 4 \<or> unat c + 4 \<le> unat a \<and> unat a < unat c + unat uz - 4"
    if "a \<in> thread_cells (b + 4) (c + 4) sz" for a
    using that ub uc b(2) c(2) sz by (auto simp: thread_cells_def)
  note changed = thread_words_changed [of "b + 4" "c + 4" sz start fn arg "words st", folded m_def]
  show "unat b \<le> unat a \<and> unat a < unat b + unat tz \<or> unat c \<le> unat a \<and> unat a < unat c + unat uz"
    if "m a \<noteq> words st a" for a using cells [OF changed [OF that]] by fastforce
  show u: "user_cell bs a" if "a \<in> thread_cells (b + 4) (c + 4) sz" for a
    using cells [OF that] b(1) c(1) unfolding user_cell_def by blast
  show "heap_inv L (st\<lparr>words := m\<rparr>) bs fr"
    by (rule heap_inv_user_writes [OF inv]) (use changed u in blast)
  have "unat b + unat tz \<le> unat c \<or> unat c + unat uz \<le> unat b"
    using tiles_pair [OF t b(1) c(1)] bc by auto
  then have "b + 4 \<noteq> c + 4 + sz - 4 * of_nat n \<and> b + 4 + 48 \<noteq> c + 4 + sz - 4 * of_nat n" if "n \<in> {1..8}" for n
    using uc [OF that] ub b(2) c(2) sz that by (auto simp: word_unat_eq_iff)
  then show "new_thread (b + 4) (c + 4) sz start fn arg m" unfolding m_def by (rule new_threadI)
qed

section \<open>Creation\<close>

lemma thread_init_mem_ok:
  assumes "stack \<noteq> 0" "32 \<le> unat sz" "thread_set_name null_str format t nm bytes = Some bytes'"
  shows "thread_init_mem start null_str format t fn arg nm stack sz (m, bytes) =
    Some (thread_words t stack sz start fn arg m, bytes')"
  using assms stack_forge_room [of sz start stack fn arg m]
  by (simp add: thread_init_mem_def thread_words_def THREAD_STACK_OFFSET_def word_le_nat_alt)

lemma outside_heap_name:
  assumes inv: "heap_inv L st bs fr" and b: "(b, tz, True) \<in> set bs" "60 \<le> unat tz"
    and a: "outside (mem_heap L) (mem_heap_end L) a"
  shows "\<not> in_range (b + 4 + 32) 16 a"
proof
  assume i: "in_range (b + 4 + 32) 16 a"
  have L: "layout_ok L" and t: "tiles (mem_heap L) bs (mem_heap_end L)"
    using inv by (simp_all add: heap_inv_def heap_rep_def)
  note B = heap_blk [OF L t b(1)]
  define d where "d = a - (b + 4 + 32)"
  have d: "unat d < 16" "a = b + (36 + d)" using i by (simp_all add: in_range_def d_def)
  have "unat a = unat b + (36 + unat d)"
    using d B(3) b(2) unat_add_no_wrap [of 36 d] unat_add_no_wrap [of b "36 + d"] by simp
  then show False using a d(1) B(5,6) b(2) by (auto simp: outside_def word_le_nat_alt word_less_nat_alt)
qed

lemma set_name_block:
  assumes inv: "heap_inv L st bs fr" and b: "(b, tz, True) \<in> set bs" "60 \<le> unat tz"
    and fmt: "cstr_in (outside (mem_heap L) (mem_heap_end L)) bytes format (map ch ''%s'')"
    and nm: "cstr_in (outside (mem_heap L) (mem_heap_end L)) bytes nm cs" "nm \<noteq> 0"
    and len: "unat (mem_heap_end L) + length cs < 2 ^ 32"
  obtains bytes' where "thread_set_name null_str format (b + 4) nm bytes = Some bytes'"
    "cstr_in (in_range (b + 4 + 32) 16) bytes' (thread_name (b + 4)) (take 15 cs)"
    "\<forall>a. \<not> in_range (b + 4 + 32) 16 a \<longrightarrow> bytes' a = bytes a"
proof -
  have L: "layout_ok L" and t: "tiles (mem_heap L) bs (mem_heap_end L)"
    using inv by (simp_all add: heap_inv_def heap_rep_def)
  note B = heap_blk [OF L t b(1)]
  have u: "unat (b + 4) = unat b + 4" using B(3) b(2) unat_add_no_wrap [of b 4] by simp
  note out = outside_heap_name [OF inv b]
  show thesis
    using set_name_text [OF cstr_in_mono [OF fmt out] cstr_in_mono [OF nm(1) out] nm(2), of null_str] B b(2) u len that
    by auto
qed

text \<open>
  The two allocations of a thread: the structure and the stack, or too little memory, with what was
  allocated given back.
\<close>

lemma thread_alloc_cases:
  assumes inv: "heap_inv L heap bs fr" and sz: "32 \<le> unat sz" "unat sz + 11 < 2 ^ 32"
  obtains (first) "mem_alloc L self heap SIZEOF_THREAD = Some (0, heap)"
      "\<not> room bs (60 + unat (mem_convert_to_block_size sz))"
  | (second) b heap1 heap2 fr2 where "mem_alloc L self heap SIZEOF_THREAD = Some (b + 4, heap1)" "b + 4 \<noteq> 0"
      "mem_alloc L self heap1 sz = Some (0, heap1)" "mem_free L self heap1 (b + 4) = Some heap2" "heap_inv L heap2 bs fr2"
      "\<not> room bs (60 + unat (mem_convert_to_block_size sz))"
  | (both) b tz c uz heap1 heap2 bs2 fr2 where
      "mem_alloc L self heap SIZEOF_THREAD = Some (b + 4, heap1)" "b + 4 \<noteq> 0"
      "mem_alloc L self heap1 sz = Some (c + 4, heap2)" "c + 4 \<noteq> 0" "heap_inv L heap2 bs2 fr2"
      "live bs2 = insert b (insert c (live bs))" "b \<notin> live bs" "c \<notin> live bs" "b \<noteq> c"
      "(b, tz, True) \<in> set bs2" "60 \<le> unat tz" "(c, uz, True) \<in> set bs2" "unat sz + 8 \<le> unat uz"
      "keeps (words heap) (words heap2) bs" "\<And>c tz. (c, tz, True) \<in> set bs \<Longrightarrow> (c, tz, True) \<in> set bs2"
      "\<And>l. room bs (60 + unat (mem_convert_to_block_size sz) + l) \<Longrightarrow> 16 \<le> l \<Longrightarrow> room bs2 l"
proof -
  have c52: "mem_convert_to_block_size SIZEOF_THREAD = 60"
    by (simp add: mem_convert_to_block_size_def P2ROUND_def SIZEOF_THREAD_def)
  have n: "SIZEOF_THREAD \<noteq> 0" "unat SIZEOF_THREAD + 11 < 2 ^ 32" "sz \<noteq> 0"
    using sz by (auto simp: SIZEOF_THREAD_def)
  show thesis
  proof (cases rule: heap_alloc_cases [OF inv n(1,2), of self, case_names full block])
    case full
    then have "\<not> room bs (60 + unat (mem_convert_to_block_size sz))" using c52 unfolding room_def by fastforce
    then show thesis using first full(1) by blast
  next
    case (block b tz heap1 bs1 fr1)
    note one = block
    show thesis
    proof (cases rule: heap_alloc_cases [OF one(2) n(3) sz(2), of self, case_names full block])
      case full
      obtain heap2 where f: "mem_free L self heap1 (b + 4) = Some heap2"
        "case free_spec b bs1 fr1 of (bs', fr') \<Rightarrow> heap_inv L heap2 bs' fr' \<and> keeps (words heap1) (words heap2) bs'"
        using heap_inv_free [OF one(2,6), of self] unfolding mem_block_payload_def SIZEOF_BTAG_def by blast
      obtain fr2 where "heap_inv L heap2 bs fr2"
        using f(2) one(8) by (auto simp: free_spec_def Let_def)
      moreover have "\<not> room bs (60 + unat (mem_convert_to_block_size sz))"
        using one(11) full(2) c52 convert_size_ok(2) [OF sz(2)] by auto
      ultimately show thesis using second one(1,9) full(1) f(1) by blast
    next
      case (block c uz heap2 bs2 fr2)
      have "keeps (words heap1) (words heap2) bs"
        using block(3) one(10) unfolding keeps_def user_cell_def by blast
      then have "keeps (words heap) (words heap2) bs" using one(3) keeps_trans by blast
      moreover have "live bs2 = insert b (insert c (live bs))" "c \<notin> live bs" "b \<noteq> c"
        using block(4,5) one(4) by auto
      moreover have "60 \<le> unat tz" using one(7) by (simp add: SIZEOF_THREAD_def)
      moreover have "room bs2 l" if "room bs (60 + unat (mem_convert_to_block_size sz) + l)" "16 \<le> l" for l
        using one(11) [of "unat (mem_convert_to_block_size sz) + l"] block(11) that c52 by (simp add: add.assoc)
      ultimately show thesis
        using both [OF one(1,9) block(1,9,2) _ one(5) _ _ block(10) [OF one(6)] _ block(6,7)] one(10) block(10) by blast
    qed
  qed
qed

lemma live_unat:
  assumes t: "tiles a bs e" and "(c, tz, True) \<in> set bs" "(b, uz, True) \<in> set bs" "b \<noteq> c"
    and "unat c \<le> unat x" "unat x < unat c + unat tz"
  shows "\<not> (unat b \<le> unat x \<and> unat x < unat b + unat uz)"
  using tiles_pair [OF t assms(2,3)] assms(4-6) by auto



text \<open>The memory part of \<^verbatim>\<open>thread_create\<close>, for any state of the heap.\<close>

lemma create_mem_cases:
  assumes inv: "heap_inv L heap bs fr" and fn: "fn \<noteq> 0" and sz: "32 \<le> unat sz" "unat sz + 11 < 2 ^ 32"
    and fmt: "cstr_in (outside (mem_heap L) (mem_heap_end L)) bytes format (map ch ''%s'')"
    and nm: "cstr_in (outside (mem_heap L) (mem_heap_end L)) bytes nm cs" "nm \<noteq> 0"
    and len: "unat (mem_heap_end L) + length cs < 2 ^ 32"
  obtains (nomem) heap' fr' where
      "thread_create_mem L self start null_str format fn arg nm sz (heap, bytes) = Some (Inl ERROR_NOMEM, heap', bytes)"
      "heap_inv L heap' bs fr'"
      "\<not> room bs (60 + unat (mem_convert_to_block_size sz))"
  | (thread) b c heap' bytes' bs' fr' where
      "thread_create_mem L self start null_str format fn arg nm sz (heap, bytes) =
         Some (Inr (b + 4, c + 4), heap', bytes')"
      "heap_inv L heap' bs' fr'" "live bs' = insert b (insert c (live bs))" "b \<notin> live bs" "c \<notin> live bs" "b \<noteq> c"
      "b + 4 \<noteq> 0" "c + 4 \<noteq> 0" "keeps (words heap) (words heap') bs" "new_thread (b + 4) (c + 4) sz start fn arg (words heap')"
      "cstr_in (in_range (thread_name (b + 4)) 16) bytes' (thread_name (b + 4)) (take 15 cs)"
      "\<forall>a. \<not> in_range (thread_name (b + 4)) 16 a \<longrightarrow> bytes' a = bytes a"
      "\<And>a. user_cell bs a \<Longrightarrow> user_cell bs' a" "\<And>a. a \<in> thread_cells (b + 4) (c + 4) sz \<Longrightarrow> user_cell bs' a"
      "\<And>l. room bs (60 + unat (mem_convert_to_block_size sz) + l) \<Longrightarrow> 16 \<le> l \<Longrightarrow> room bs' l"
      "\<And>a. outside (mem_heap L) (mem_heap_end L) a \<Longrightarrow> bytes' a = bytes a"
proof (cases rule: thread_alloc_cases [OF inv sz, of self, case_names first second both])
  case first
  then show thesis using inv fn by (intro nomem) (auto simp: thread_create_mem_def)
next
  case (second b heap1 heap2 fr2)
  then show thesis using fn by (intro nomem) (auto simp: thread_create_mem_def)
next
  case (both b tz c uz heap1 heap2 bs2 fr2)
  let ?m = "thread_words (b + 4) (c + 4) sz start fn arg (words heap2)"
  obtain bytes' where n: "thread_set_name null_str format (b + 4) nm bytes = Some bytes'"
    "cstr_in (in_range (b + 4 + 32) 16) bytes' (thread_name (b + 4)) (take 15 cs)"
    "\<forall>a. \<not> in_range (b + 4 + 32) 16 a \<longrightarrow> bytes' a = bytes a"
    by (rule set_name_block [OF both(5,10,11) fmt nm len])
  note W = thread_words_blocks(1-3) [OF both(5,10,11,12,13,9) sz(1), of start fn arg]
  note cells = thread_words_blocks(4) [OF both(5,10,11,12,13,9) sz(1)]
  have r: "thread_create_mem L self start null_str format fn arg nm sz (heap, bytes) =
      Some (Inr (b + 4, c + 4), heap2\<lparr>words := ?m\<rparr>, bytes')"
    using both(1-4) fn thread_init_mem_ok [OF both(4) sz(1) n(1), of start fn arg "words heap2"]
    by (simp add: thread_create_mem_def)
  have t: "tiles (mem_heap L) bs2 (mem_heap_end L)" using both(5) by (simp add: heap_inv_def heap_rep_def)
  have "?m a = words heap2 a" if u: "user_cell bs a" for a
  proof (rule ccontr)
    assume a: "?m a \<noteq> words heap2 a"
    obtain d vz where d: "(d, vz, True) \<in> set bs" "unat d \<le> unat a" "unat a < unat d + unat vz"
      using u by (auto simp: user_cell_def)
    then have "b \<noteq> d" "c \<noteq> d" using both(7,8) by (auto simp: live_def)
    then show False
      using W(3) [OF a] live_unat [OF t both(15) [OF d(1)] both(10) _ d(2,3)]
        live_unat [OF t both(15) [OF d(1)] both(12) _ d(2,3)] by blast
  qed
  then have k: "keeps (words heap) (words (heap2\<lparr>words := ?m\<rparr>)) bs" using both(14) by (simp add: keeps_def)
  have u: "user_cell bs2 a" if "user_cell bs a" for a using that both(15) unfolding user_cell_def by blast
  have out: "bytes' a = bytes a" if "outside (mem_heap L) (mem_heap_end L) a" for a
    using n(3) outside_heap_name [OF both(5,10,11) that] by blast
  show thesis
    by (rule thread [OF r W(1) both(6-9) both(2,4) k _ _ _ u cells both(16) out])
      (use W(2) n(2,3) in \<open>simp_all add: thread_name_def THREAD_NAME_OFFSET_def\<close>)
qed

text \<open>The idle thread is created as any other, but a failure panics.\<close>

lemma create_idle_mem_eq:
  "thread_create_mem L self start null_str format fn 0 nm THREAD_STACK_MIN_SIZE (heap, bytes) = Some (Inr p, heap', bytes') \<Longrightarrow>
   thread_create_idle_mem L self start null_str format fn nm (heap, bytes) = Some (p, heap', bytes')"
  by (auto simp: thread_create_mem_def thread_create_idle_mem_def bind_eq_Some_conv split: if_splits)

text \<open>
  \<open>heap_threads\<close>: the blocks in use are the structures and the stacks of the threads \<open>ps\<close>, each given by
  the addresses of its two blocks, the size of its stack and its function, and each is ready.
\<close>

definition heap_threads :: "layout \<Rightarrow> u32 \<Rightarrow> (u32 \<times> u32 \<times> u32 \<times> u32) list \<Rightarrow> blk list \<Rightarrow> mem_state \<Rightarrow> bool" where
  "heap_threads L start ps bs heap \<longleftrightarrow>
     (\<exists>fr. heap_inv L heap bs fr) \<and> live bs = fst ` set ps \<union> (fst \<circ> snd) ` set ps \<and>
     distinct (map fst ps @ map (fst \<circ> snd) ps) \<and>
     (\<forall>(b, c, sz, fn) \<in> set ps. b + 4 \<noteq> 0 \<and> c + 4 \<noteq> 0 \<and> new_thread (b + 4) (c + 4) sz start fn 0 (words heap) \<and>
        (\<forall>a \<in> thread_cells (b + 4) (c + 4) sz. user_cell bs a))"

lemma heap_threads_add:
  assumes th: "heap_threads L start ps bs heap" and fn: "fn \<noteq> 0" and sz: "32 \<le> unat sz" "unat sz + 11 < 2 ^ 32"
    and fmt: "cstr_in (outside (mem_heap L) (mem_heap_end L)) bytes format (map ch ''%s'')"
    and nm: "cstr_in (outside (mem_heap L) (mem_heap_end L)) bytes nm cs" "nm \<noteq> 0"
    and len: "unat (mem_heap_end L) + length cs < 2 ^ 32"
    and room: "room bs (60 + unat (mem_convert_to_block_size sz) + l)" "16 \<le> l"
  obtains b c heap' bytes' bs' where
    "thread_create_mem L self start null_str format fn 0 nm sz (heap, bytes) = Some (Inr (b + 4, c + 4), heap', bytes')"
    "heap_threads L start ((b, c, sz, fn) # ps) bs' heap'" "room bs' l"
    "\<And>a. outside (mem_heap L) (mem_heap_end L) a \<Longrightarrow> bytes' a = bytes a"
proof -
  obtain fr where inv: "heap_inv L heap bs fr" using th by (auto simp: heap_threads_def)
  show thesis
  proof (cases rule: create_mem_cases [OF inv fn sz fmt nm len, of self start null_str 0, case_names nomem thread])
    case (nomem heap' fr')
    then show thesis using room(1) unfolding room_def by (meson add_leD1)
  next
    case (thread b c heap' bytes' bs' fr')
    have old: "new_thread (b' + 4) (c' + 4) z start f 0 (words heap') \<and> (\<forall>a \<in> thread_cells (b' + 4) (c' + 4) z. user_cell bs' a)"
      if "(b', c', z, f) \<in> set ps" for b' c' z f
      using th that thread(9,13) new_thread_cong [of "b' + 4" "c' + 4" z start f 0 "words heap" "words heap'"]
      by (fastforce simp: heap_threads_def keeps_def)
    have "heap_threads L start ((b, c, sz, fn) # ps) bs' heap'"
      unfolding heap_threads_def
    proof (intro conjI)
      show "\<exists>fr. heap_inv L heap' bs' fr" using thread(2) by blast
      show "live bs' = fst ` set ((b, c, sz, fn) # ps) \<union> (fst \<circ> snd) ` set ((b, c, sz, fn) # ps)"
        using th thread(3) by (auto simp: heap_threads_def)
      show "distinct (map fst ((b, c, sz, fn) # ps) @ map (fst \<circ> snd) ((b, c, sz, fn) # ps))"
        using th thread(4-6) by (auto simp: heap_threads_def)
      show "\<forall>(b, c, sz, fn) \<in> set ((b, c, sz, fn) # ps). b + 4 \<noteq> 0 \<and> c + 4 \<noteq> 0 \<and>
          new_thread (b + 4) (c + 4) sz start fn 0 (words heap') \<and>
          (\<forall>a \<in> thread_cells (b + 4) (c + 4) sz. user_cell bs' a)"
        using th thread(7,8,10,14) old by (fastforce simp: heap_threads_def)
    qed
    then show thesis using that thread(1) thread(15) [OF room] thread(16) by blast
  qed
qed


section \<open>Properties\<close>


text \<open>
  C14: a thread that is switched out continues behind its call of \<^verbatim>\<open>thread_switch_context\<close> with its
  registers, when another thread switches back to it: provided that in between nobody has written its
  saved context, and that the other thread's own context is elsewhere.  Only the context of the
  thread that leaves is written by a switch.\<close>
theorem thread_switch_resumes:
  assumes prev: "prev = m (r_esp r + 4)" "prev \<notin> context_cells (r_esp r)"
    and kept: "\<forall>a \<in> insert prev (context_cells (r_esp r)). m2 a = fst (thread_switch_regs m r) a"
    and ret: "m2 (r_esp r2 + 8) = prev"
    and apart: "insert (m2 (r_esp r2 + 4)) (context_cells (r_esp r2)) \<inter> insert prev (context_cells (r_esp r)) = {}"
  shows "snd (thread_switch_regs m2 r2) = r\<lparr>r_esp := r_esp r + 4, r_eip := m (r_esp r)\<rparr> \<and>
    (\<forall>a. a \<notin> insert prev (context_cells (r_esp r)) \<longrightarrow> fst (thread_switch_regs m r) a = m a)"
proof -
  let ?m1 = "fst (thread_switch_regs m r)" and ?m3 = "fst (thread_switch_regs m2 r2)"
  have m3: "?m3 a = ?m1 a" if "a \<in> insert prev (context_cells (r_esp r))" for a
  proof -
    have "a \<notin> insert (m2 (r_esp r2 + 4)) (context_cells (r_esp r2))" using apart that by (meson disjoint_iff)
    then have "?m3 a = m2 a" by (intro switch_regs_frame) simp_all
    also have "\<dots> = ?m1 a" using kept that by (rule bspec)
    finally show ?thesis .
  qed
  have "snd (thread_switch_regs m2 r2) = thread_restore_context ?m3 (?m3 prev)"
    by (simp only: switch_regs_loads ret)
  also have "?m3 prev = r_esp r - 20" using m3 switch_regs_saves(1) [of m r] prev by simp
  also have "thread_restore_context ?m3 (r_esp r - 20) = thread_restore_context ?m1 (r_esp r - 20)"
  proof (rule restore_cong)
    fix k :: nat assume "k < 6"
    then have "k \<in> {0, 1, 2, 3, 4, 5}" by auto
    then have "r_esp r - 20 + 4 * of_nat k \<in> context_cells (r_esp r)"
      unfolding context_cells_def by (intro image_eqI [of _ _ "5 - k"]) auto
    then show "?m3 (r_esp r - 20 + 4 * of_nat k) = ?m1 (r_esp r - 20 + 4 * of_nat k)" by (intro m3) simp
  qed
  finally show ?thesis
    using switch_regs_saves(2) [of m r] prev switch_regs_frame [of _ r m] by simp
qed

section \<open>Witnesses\<close>

definition ex_words :: memory where
  "ex_words = (\<lambda>_. 0)(1000 := 77, 1004 := 100, 1008 := 200, 2004 := 200, 2008 := 100)"

definition ex_regs :: regs where
  "ex_regs = \<lparr>r_eflags = 2, r_esi = 11, r_edi = 12, r_ebx = 13, r_ebp = 14, r_esp = 1000, r_eip = 0\<rparr>"

theorem thread_switch_resumes_witness:
  "snd (thread_switch_regs (fst (thread_switch_regs ex_words ex_regs)) (ex_regs\<lparr>r_esp := 2000\<rparr>)) =
     ex_regs\<lparr>r_esp := 1004, r_eip := 77\<rparr>"
proof -
  have "fst (thread_switch_regs ex_words ex_regs) 2004 = 200" "fst (thread_switch_regs ex_words ex_regs) 2008 = 100"
    by (simp_all add: switch_regs_eq Let_def ex_words_def ex_regs_def)
  then show ?thesis
    using thread_switch_resumes [of 100 ex_words ex_regs "fst (thread_switch_regs ex_words ex_regs)"
        "ex_regs\<lparr>r_esp := 2000\<rparr>"]
    by (simp add: context_cells_def) (simp add: ex_words_def ex_regs_def)
qed


end
