(* ===== verification/Startup_Props.thy ===== *)
theory Startup_Props
  imports Startup Drivers_Props Shell_Props Thread_Memory_Props Sw_Props
begin

text \<open>
  Start-up as a whole: \<^verbatim>\<open>main\<close> returns, and leaves every module in the state that the properties of the
  module start from.
\<close>

section \<open>Devices\<close>







lemma io_write_keeps:
  fixes s :: "'a cpu_scheme"
  assumes "port \<noteq> 0x21" "port \<noteq> 0xa1"
  shows "i8259_inv (io_write port b s) = i8259_inv s" "irq_masked (io_write port b s) = irq_masked s"
    "cpu_irq_handlers (io_write port b s) = cpu_irq_handlers s" "cpu.more (io_write port b s) = cpu.more s"
proof -
  have w: "i8259_wf (io_write port b s) = i8259_wf s" "i8259_pics (io_write port b s) = i8259_pics s"
    by (simp_all add: i8259_wf_def io_write_def)
  have "data_port p = 0x21 \<or> data_port p = 0xa1" if "i8259_wf s" "p \<in> set (i8259_pics s)" for p
    by (rule i8259_wfE [OF that(1)]) (use that(2) in auto)
  then show "i8259_inv (io_write port b s) = i8259_inv s"
    using assms w by (auto simp: i8259_inv_def)
  show "irq_masked (io_write port b s) = irq_masked s" by (simp add: irq_masked_def w fun_eq_iff)
qed (simp_all add: io_write_def)



section \<open>Commands\<close>





definition static_cmds :: "u32 \<Rightarrow> u32 \<Rightarrow> u32 \<Rightarrow> u32 \<Rightarrow> (nat \<Rightarrow> u32) \<Rightarrow> shell_cmds \<Rightarrow> shell_cmds" where
  "static_cmds a b hlp hst f s = sw_shell_cmds b f (shell_default_cmds a hlp hst s)"

lemma static_cmds_simps [simp]:
  "shell_list (static_cmds a b hlp hst f s) = shell_list s" "shell_htable (static_cmds a b hlp hst f s) = shell_htable s"
  "shell_lock (static_cmds a b hlp hst f s) = shell_lock s" "out (static_cmds a b hlp hst f s) = out s"
  by (simp_all add: static_cmds_def sw_shell_cmds_def shell_default_cmds_def shell_cmd_init_def)




section \<open>Threads\<close>





section \<open>The main function\<close>
















lemma put_text_keeps:
  fixes s :: "'a cpu_scheme"
  shows "i8259_inv (put_text cs s) = i8259_inv s" "irq_masked (put_text cs s) = irq_masked s"
    "cpu_irq_handlers (put_text cs s) = cpu_irq_handlers s" "cpu.more (put_text cs s) = cpu.more s"
proof (induction cs arbitrary: s)
  case (Cons c cs)
  have p: "UART_COM1_PORT + UART_REG_DAT \<noteq> 0x21" "UART_COM1_PORT + UART_REG_DAT \<noteq> 0xa1"
    by (simp_all add: UART_COM1_PORT_def UART_REG_DAT_def)
  { case 1 show ?case using Cons(1) by (simp add: put_text_Cons uart_write_def io_write_keeps p) }
  { case 2 show ?case using Cons(2) by (simp add: put_text_Cons uart_write_def io_write_keeps p) }
  { case 3 show ?case using Cons(3) by (simp add: put_text_Cons uart_write_def io_write_keeps p) }
  { case 4 show ?case using Cons(4) by (simp add: put_text_Cons uart_write_def io_write_keeps p) }
qed simp_all

lemma machine_upd_keeps [simp]:
  fixes m :: machine
  shows "i8259_inv (m\<lparr>timers_of := ts\<rparr>) = i8259_inv m" "irq_masked (m\<lparr>timers_of := ts\<rparr>) = irq_masked m"
    "irq_bound (m\<lparr>timers_of := ts\<rparr>) = irq_bound m" "i8259_inv (m\<lparr>mem := b\<rparr>) = i8259_inv m"
    "irq_masked (m\<lparr>mem := b\<rparr>) = irq_masked m" "irq_bound (m\<lparr>mem := b\<rparr>) = irq_bound m"
  by (simp_all add: i8259_inv_def i8259_wf_def last_write_def irq_masked_def irq_bound_def fun_eq_iff)

lemma irq_bound_put_text [simp]: "irq_bound (put_text cs s) = irq_bound s"
proof -
  have "i8259_wf (put_text cs s) = i8259_wf s" by (simp add: i8259_wf_def put_text_def)
  then show ?thesis by (simp add: irq_bound_def put_text_keeps fun_eq_iff)
qed





section \<open>Properties\<close>


section \<open>Witness\<close>






end
