(* ===== verification/Spec2Isabelle.thy ===== *)
theory Spec2Isabelle
  imports Mem_Props Cbuf_Props Sync_Props Scan_Props Timer_Props Drivers_Props Shell_Props Sw_Props Startup_Props
begin

text \<open>
  A verification development for X1, a small preemptive kernel for the i386.

  \<^bold>\<open>The program.\<close>  \<^verbatim>\<open>main\<close> (src/main.c) sets up the processor's tables (src/cpu.c), the
  interrupt controllers (src/i8259.c), the interval timer (src/i8254.c), the serial line
  (src/uart.c), the allocator (src/mem.c), the thread module (src/thread.c, src/thread\_asm.S), the software timers
  (src/timer.c), the shell (lib/shell.c) and the stopwatch (src/sw.c), prints its version
  (src/printf.c, lib/fmt.c) and starts the scheduler.  Then everything happens in three threads and
  two interrupts.  The timer interrupt advances the tick counter, wakes the timer thread up when
  the oldest timer is due and asks the current thread to yield.  The interrupt of the serial line
  appends a byte to a circular buffer (lib/cbuf.c) and wakes the shell up.  The shell reads
  these bytes, edits a line and runs the command it names; the stopwatch's commands use the
  timers, a mutex (src/mutex.c) and a condition variable (src/condvar.c).  Lists (lib/list.h), macros (lib/macros.h),
  hash functions (lib/hash.h) and strings (src/string.c) serve all of them.

  \<^bold>\<open>Conventions.\<close>  Machine integers and pointers are words of the target's width (ILP32), and wrap
  around.  A failed assertion, a call of \<^verbatim>\<open>panic\<close>, an access outside of an array and a loop that
  does not end have the result \<^term>\<open>None\<close>: a loop is a \<^verbatim>\<open>fun\<close> where it ends for a reason that is in
  its arguments, and otherwise a partial function of the option monad, so that no fuel is needed and a
  theorem whose conclusion is a \<^term>\<open>Some\<close> shows that the code returns.  Error codes are the datatype \<open>error\<close>.  The state
  of a module is a record that the operations take and return.  Memory is explicit where the code
  shares or aliases it: words for lists, the heap and stacks, bytes for strings and buffers.  What
  the linker, the assembly code and the devices contribute (addresses, the bytes read from ports)
  are parameters.

  \<^bold>\<open>Theories, and what they model.\<close>
  \<^item> Prelude, Macros: types, assertions, rounding, lib/macros.h.
  \<^item> Linked: lib/list.h over memory.  \<open>dll m h ns\<close> relates a list in memory to the sequence of its
    nodes; the locale \<open>node_queue\<close> is what the clients rely on, interpreted on the operations
    (\<open>lq\<close>).  The other theories use sequences for lists.
  \<^item> Mem, Mem\_Correct, Mem\_Alloc, Mem\_Props: src/mem.c.  The heap refines a sequence of blocks:
    allocation is first fit with splitting, liberation merges neighbours; every reachable state
    is safe, a double liberation panics, and requests near the top of the address space overflow.
  \<^item> Cstring, Hash: src/string.c and lib/hash.h.
  \<^item> Cbuf, Cbuf\_Props: lib/cbuf.c as a queue of bytes (locale \<open>byte_queue\<close>, interpretation
    \<open>ringq\<close>), across the wrap-around of its indexes.
  \<^item> Mutex, Thread, Thread\_Correct: the mutex object; the run queue, scheduling, preemption,
    sleeping, creation and termination of src/thread.c.  The rest of a function behind a context
    switch is an instruction on the stack \<open>code\<close> of its thread.
  \<^item> Sync, Sync\_Correct, Sync\_Step, Sync\_Boot, Sync\_Props: src/mutex.c, src/condvar.c and the step relation
    \<open>kstep\<close> of the kernel, with interrupts between any two instructions (locale
    \<open>irq_handler\<close>, interpretation \<open>tick_irq\<close>).  The invariant \<open>kinv\<close> types the code of every thread with
    its preemption level, interrupt flag and held mutexes.  It gives: no panic, mutual exclusion, priority
    scheduling, and the effects of locking, unlocking and signalling.
  \<^item> Thread\_Memory, Thread\_Memory\_Props: the memory side of threads: allocation of structures and
    stacks, names, the forged stack, and the context switch of src/thread\_asm.S that uses it.
  \<^item> Fmt, Fmt\_Spec, Fmt\_Correct, Fmt\_Refine, Fmt\_Props: the sprintf half of lib/fmt.c computes the text that
    \<open>fmt_spec\<close> gives for a format, cut to the buffer.
  \<^item> Scan, Scan\_Correct, Scan\_Number, Scan\_Props: the sscanf half: it returns and writes only its
    destinations; numbers are read with their values, and back from what sprintf printed.
  \<^item> Timer, Timer\_Correct, Timer\_Props: src/timer.c.  The order of the deadlines is kept across
    the wrap-around of time; the locale \<open>timer_functions\<close> is the contract of the timers'
    functions, interpreted on the stopwatch (\<open>sw_fn\<close>), which schedules itself.
  \<^item> Sw, Sw\_Props: src/sw.c, from the text of a command's argument to the signal.
  \<^item> I8259, Console, Cpu, Drivers, Drivers\_Props: src/i8259.c, src/io.h, src/printf.c, src/cpu.c,
    src/i8254.c and src/uart.c.  Devices are the sequence of the port writes.  Both interrupts are
    followed from the controller to the thread module.
  \<^item> Shell\_Cmd, Shell\_Cmd\_Correct, Shell\_Complete: the commands of lib/shell.c as a map from names (locale
    \<open>command_table\<close>, interpretation \<open>shell_tab\<close>), and completion.
  \<^item> Shell\_Line, Shell\_Line\_Correct, Shell, Shell\_Edit, Shell\_Edit\_Correct, Shell\_Args, Shell\_Tab, Shell\_Run,
    Shell\_Line\_Run, Shell\_Default, Shell\_Props: lines, history, the line editor, the arguments, the tabulation key and the
    loop of the shell.  \<open>editor\<close> is the specification of the editor, with a model of the
    terminal; the locale \<open>shell_commands\<close> is the contract of the commands, interpreted on the two
    commands of the shell (\<open>default_cmds\<close>).
  \<^item> Startup, Startup\_Props: \<^verbatim>\<open>sw_setup\<close> and \<^verbatim>\<open>main\<close>, over the states of all modules: the kernel starts, and
    what each of the theories above assumes of its state then holds.

  \<^bold>\<open>Abstractions.\<close>  Calls of \<^verbatim>\<open>mutex_lock\<close> and \<^verbatim>\<open>mutex_unlock\<close> in the allocator, the timers, the shell and the
  stopwatch are represented by the change of owner they make; theory Sync has their blocking and
  waking.  The stopwatch records its calls of \<^verbatim>\<open>printf\<close> and \<^verbatim>\<open>condvar_signal\<close>.  The programs of threads are
  sequences of calls of kernel functions (\<open>program_ok\<close> is what is assumed of them); for the
  timer thread and the shell, whose loops are modelled in theories Timer and Shell, they are
  parameters.  In the shell a string is the list of its characters.

  \<^bold>\<open>Not modelled.\<close>  The multiboot header and the assembly code before \<^verbatim>\<open>main\<close> (src/boot.c,
  src/boot\_asm.S), the interrupt service routines and port instructions (src/cpu\_asm.S,
  src/io\_asm.S), the text that \<^verbatim>\<open>panic\<close> prints, the linker script and the headers that only declare:
  they contain no decisions.
\<close>

end
